(* ===== verification/Prelude.thy ===== *)
theory Prelude
  imports Main "HOL-Library.Word"
begin

text \<open>
  Shared vocabulary of the development: the machine types of the Go sources, the errors
  of every package as one datatype, results that can also be a run-time panic, Go's slice
  expressions, \<open>copy\<close> and the big-endian codec of \<open>encoding/binary\<close>, Go channels, and the
  generic lemmas on them that the component theories use.
\<close>

unbundle bit_operations_syntax

named_theorems layout_simps \<open>rewriting byte buffers that are written region by region\<close>
named_theorems chan_simps \<open>unfolding of the channel operations\<close>

section \<open>Machine types, errors and results\<close>

type_synonym u8 = "8 word"
type_synonym u16 = "16 word"
type_synonym u32 = "32 word"
type_synonym u64 = "64 word"
type_synonym bytes = "u8 list"

text \<open>
  The error values of \<open>errs/errs.go\<close>, \<open>errs.go\<close>, \<open>connector/errs.go\<close>,
  \<open>transport/errs.go\<close>, \<open>options/options.go\<close> and \<open>address/address.go\<close>, the two
  errors of package \<open>io\<close> the code tests for, and any other error of a library call.
\<close>

datatype err =
    ErrClosed | ErrTimeout | ErrBadOperateState | ErrBadAddr | ErrAddrInUse
  | ErrOperationNotSupported | ErrBadTransport | ErrBadMsg | ErrBadProtocol | ErrContentTooLong
  | ErrMsgDropped | ErrBrokenPath | ErrInvalidSendType
  | ErrStopped
  | ErrConnRefused | ErrNotListening
  | ErrInvalidOptionValue | ErrUnsupportedOption | ErrOptionNotFound
  | ErrBadConnectType | ErrConnectTypeMissing
  | EOF | ErrUnexpectedEOF
  | OtherErr nat

text \<open>A Go call returns a value, returns an error, or panics.\<close>

datatype 'a outcome = Ok 'a | Error err | Panic

section \<open>Slices and copy\<close>

definition go_slice :: "nat \<Rightarrow> nat \<Rightarrow> 'a list \<Rightarrow> 'a list" where
  "go_slice i j xs = take (j - i) (drop i xs)"

text \<open>\<open>overwrite i src dst\<close> is \<open>dst\<close> after \<open>copy(dst[i:], src)\<close>: the copy stops at the shorter one.\<close>

definition overwrite :: "nat \<Rightarrow> 'a list \<Rightarrow> 'a list \<Rightarrow> 'a list" where
  "overwrite i src dst =
     take i dst @ take (length dst - i) src @ drop (i + min (length src) (length dst - i)) dst"

section \<open>Big-endian words\<close>

definition be32 :: "u32 \<Rightarrow> bytes" where
  "be32 v = [ucast (drop_bit 24 v), ucast (drop_bit 16 v), ucast (drop_bit 8 v), ucast v]"

fun un_be32 :: "bytes \<Rightarrow> u32 option" where
  "un_be32 (a # b # c # d # _) =
     Some (push_bit 24 (ucast a) OR push_bit 16 (ucast b) OR push_bit 8 (ucast c) OR ucast d)"
| "un_be32 _ = None"

section \<open>Go channels\<close>

text \<open>
  A channel of \<open>make(chan T, cap)\<close> as its capacity and the queued values, oldest first.
  None of the channels that carry messages is ever closed by the sources; the
  \<open>closedq\<close> channels carry nothing and are only closed, so each is a boolean.
\<close>

record 'a chan =
  chan_cap :: nat
  chan_buf :: "'a list"

definition make_chan :: "nat \<Rightarrow> 'a chan" where
  "make_chan n = \<lparr>chan_cap = n, chan_buf = []\<rparr>"

definition can_send :: "'a chan \<Rightarrow> bool" where
  "can_send c \<longleftrightarrow> length (chan_buf c) < chan_cap c"

definition can_recv :: "'a chan \<Rightarrow> bool" where
  "can_recv c \<longleftrightarrow> chan_buf c \<noteq> []"

definition chan_send :: "'a \<Rightarrow> 'a chan \<Rightarrow> 'a chan" where
  "chan_send x c = c\<lparr>chan_buf := chan_buf c @ [x]\<rparr>"

fun chan_recv :: "'a chan \<Rightarrow> ('a \<times> 'a chan) option" where
  "chan_recv c = (case chan_buf c of [] \<Rightarrow> None | x # xs \<Rightarrow> Some (x, c\<lparr>chan_buf := xs\<rparr>))"

definition chan_ok :: "'a chan \<Rightarrow> bool" where
  "chan_ok c \<longleftrightarrow> length (chan_buf c) \<le> chan_cap c"

lemmas chan_defs [chan_simps] = make_chan_def can_send_def can_recv_def chan_send_def chan_ok_def

section \<open>Lemmas on slices and buffers\<close>

lemma length_go_slice [simp]: "j \<le> length xs \<Longrightarrow> length (go_slice i j xs) = j - i"
  by (simp add: go_slice_def)

lemma length_overwrite [simp]: "i \<le> length dst \<Longrightarrow> length (overwrite i src dst) = length dst"
  by (simp add: overwrite_def)

lemma overwrite_append [layout_simps]:
  "length src \<le> length b \<Longrightarrow> i = length a \<Longrightarrow>
     overwrite i src (a @ b) = a @ src @ drop (length src) b"
  by (simp add: overwrite_def)

lemma overwrite_fit:
  "i + length src \<le> length dst \<Longrightarrow>
     overwrite i src dst = take i dst @ src @ drop (i + length src) dst"
  by (simp add: overwrite_def)

lemma overwrite_mid: "length p = i \<Longrightarrow> length q = length x \<Longrightarrow> overwrite i x (p @ q @ r) = p @ x @ r"
  by (simp add: overwrite_def)

lemma overwrite_Nil [simp]: "overwrite i [] d = d"
  by (simp add: overwrite_def)

lemma if_pos_add [simp]: "(if 0 < n then k + n else k) = k + (n :: nat)"
  by simp

lemma go_slice_append [layout_simps]:
  "i = length a \<Longrightarrow> j = length a + length b \<Longrightarrow> go_slice i j (a @ b @ c) = b"
  by (simp add: go_slice_def)

lemma go_slice_append_end [layout_simps]:
  "i = length a \<Longrightarrow> j = length a + length b \<Longrightarrow> go_slice i j (a @ b) = b"
  by (simp add: go_slice_def)

lemma take_overwrite [simp]: "n \<le> i \<Longrightarrow> i \<le> length dst \<Longrightarrow> take n (overwrite i src dst) = take n dst"
  by (simp add: overwrite_def)

lemma four_regions: "d = take a d @ take b (drop a d) @ take c (drop (a + b) d) @ drop (a + b + c) d"
proof -
  have "drop (a + b) d = take c (drop (a + b) d) @ drop (a + b + c) d"
    using append_take_drop_id [of c "drop (a + b) d"] by (simp add: ac_simps)
  moreover have "drop a d = take b (drop a d) @ drop (a + b) d"
    using append_take_drop_id [of b "drop a d"] by (simp add: ac_simps)
  moreover have "d = take a d @ drop a d" by simp
  ultimately show ?thesis by metis
qed

lemma split_regions:
  assumes "length d = a + b + c + e"
  obtains p q r s where "d = p @ q @ r @ s" "length p = a" "length q = b" "length r = c" "length s = e"
  using four_regions [of d a b c] assms by (intro that) auto

lemma ball_remove_at:
  "\<forall>x \<in> set xs. P x \<Longrightarrow> \<forall>x \<in> set (take k xs @ drop l xs). P x"
  by (metis Un_iff in_set_dropD in_set_takeD set_append)

lemma sum_list_update:
  assumes "i < length xs"
  shows "sum_list (map f (xs[i := y])) + f (xs ! i) = sum_list (map f xs) + (f y :: 'b :: comm_monoid_add)"
  using assms
proof (induction xs arbitrary: i)
  case (Cons x xs)
  then show ?case by (cases i) (auto simp: ac_simps)
qed simp

lemma length_filter_update:
  assumes "k < length xs"
  shows "length (filter P (xs[k := y])) + (if P (xs ! k) then 1 else 0) = length (filter P xs) + (if P y then 1 else 0)"
  using assms
proof (induction xs arbitrary: k)
  case (Cons x xs)
  then show ?case by (cases k) auto
qed simp

lemma length_filter_remove:
  assumes "t < length xs"
  shows "length (filter P (take t xs @ drop (Suc t) xs)) + (if P (xs ! t) then 1 else 0) = length (filter P xs)"
proof -
  have "xs = take t xs @ xs ! t # drop (Suc t) xs" using assms by (rule id_take_nth_drop)
  then have "length (filter P xs) = length (filter P (take t xs @ xs ! t # drop (Suc t) xs))" by simp
  then show ?thesis by simp
qed

section \<open>Lemmas on big-endian words\<close>

lemma bit_u8_bound [simp]: "8 \<le> n \<Longrightarrow> \<not> bit (x :: u8) n"
  using bit_imp_le_length [of x n] by auto

lemma length_be32 [simp]: "length (be32 v) = 4"
  by (simp add: be32_def)

lemma un_be32_be32 [simp]: "un_be32 (be32 v @ r) = Some v"
proof -
  have "(push_bit 24 (ucast (ucast (drop_bit 24 v) :: u8)) :: u32) OR push_bit 16 (ucast (ucast (drop_bit 16 v) :: u8))
     OR push_bit 8 (ucast (ucast (drop_bit 8 v) :: u8)) OR ucast (ucast v :: u8) = v"
  proof (rule bit_word_eqI)
    fix n :: nat
    assume "n < LENGTH(32)"
    then consider "n < 8" | "8 \<le> n" "n < 16" | "16 \<le> n" "n < 24" | "24 \<le> n" "n < 32"
      by fastforce
    then show "bit ((push_bit 24 (ucast (ucast (drop_bit 24 v) :: u8)) :: u32) OR push_bit 16 (ucast (ucast (drop_bit 16 v) :: u8))
       OR push_bit 8 (ucast (ucast (drop_bit 8 v) :: u8)) OR ucast (ucast v :: u8)) n \<longleftrightarrow> bit v n"
      by cases (auto simp: bit_simps)
  qed
  then show ?thesis by (simp add: be32_def)
qed

lemma un_be32_be32_only [simp]: "un_be32 (be32 v) = Some v"
  using un_be32_be32 [of v "[]"] by simp

lemma un_be32_None_iff: "un_be32 b = None \<longleftrightarrow> length b < 4"
  by (cases b rule: un_be32.cases) auto

lemma be32_un_be32:
  assumes "un_be32 b = Some v"
  shows "be32 v = take 4 b"
proof -
  from assms obtain x y z w r where b: "b = x # y # z # w # r"
    by (cases b rule: un_be32.cases) auto
  have "ucast (drop_bit 24 v) = x \<and> ucast (drop_bit 16 v) = y \<and> ucast (drop_bit 8 v) = z \<and> ucast v = w"
    using assms unfolding b
    by (intro conjI; intro bit_word_eqI) (auto simp: bit_simps)
  then show ?thesis by (simp add: be32_def b)
qed

section \<open>The channel interface\<close>

text \<open>
  What the clients of a channel rely on: a receive returns the oldest value not yet
  received, a send appends, and a send that was allowed keeps the channel within its
  capacity.
\<close>

locale fifo =
  fixes snd_op :: "'a \<Rightarrow> 'q \<Rightarrow> 'q"
    and rcv_op :: "'q \<Rightarrow> ('a \<times> 'q) option"
    and contents :: "'q \<Rightarrow> 'a list"
  assumes contents_snd: "contents (snd_op x q) = contents q @ [x]"
    and rcv_None: "rcv_op q = None \<longleftrightarrow> contents q = []"
    and rcv_Some: "rcv_op q = Some (x, q') \<Longrightarrow> contents q = x # contents q'"
begin

fun snd_all :: "'a list \<Rightarrow> 'q \<Rightarrow> 'q" where
  "snd_all [] q = q"
| "snd_all (x # xs) q = snd_all xs (snd_op x q)"

fun drain :: "nat \<Rightarrow> 'q \<Rightarrow> 'a list \<times> 'q" where
  "drain 0 q = ([], q)"
| "drain (Suc n) q =
     (case rcv_op q of None \<Rightarrow> ([], q) | Some (x, q') \<Rightarrow> (let (xs, q'') = drain n q' in (x # xs, q'')))"

lemma contents_snd_all: "contents (snd_all xs q) = contents q @ xs"
  by (induction xs arbitrary: q) (auto simp: contents_snd)

lemma drain_contents: "drain n q = (xs, q') \<Longrightarrow> xs = take n (contents q) \<and> contents q' = drop n (contents q)"
proof (induction n arbitrary: q xs q')
  case 0
  then show ?case by simp
next
  case (Suc n)
  show ?case
  proof (cases "rcv_op q")
    case None
    with Suc.prems show ?thesis by (auto simp: rcv_None)
  next
    case (Some xq)
    obtain x q1 where xq: "xq = (x, q1)" by (cases xq)
    obtain ys q2 where d: "drain n q1 = (ys, q2)" by (cases "drain n q1")
    from Some xq have "contents q = x # contents q1" by (simp add: rcv_Some)
    with Suc.IH [OF d] Suc.prems Some xq d show ?thesis by simp
  qed
qed

text \<open>Everything sent before the drain comes out, in the order it was sent.\<close>

lemma fifo_order:
  "contents q = [] \<Longrightarrow> length xs \<le> n \<Longrightarrow> fst (drain n (snd_all xs q)) = xs"
  using drain_contents [of n "snd_all xs q"] by (cases "drain n (snd_all xs q)") (simp add: contents_snd_all)

end

interpretation ch: fifo chan_send chan_recv chan_buf
  by unfold_locales (auto simp: chan_send_def split: list.splits)

end
