(* ===== verification/Ids.thy ===== *)
theory Ids
  imports Prelude
begin

text \<open>
  The recyclable identifier generator of \<open>utils/id.go\<close>, which numbers the pipes of the
  whole process. Its search loop has no bound in the source, so it is a partial function;
  the theory shows exactly when it returns and that what it returns is a free, non-zero
  31-bit identifier.
\<close>

section \<open>The generator\<close>

record id_gen =
  ids :: "u32 set"
  next_id :: u32

definition NewRecyclableIDGenerator :: id_gen where
  "NewRecyclableIDGenerator = \<lparr>ids = {}, next_id = 0\<rparr>"

partial_function (option) NextID :: "id_gen \<Rightarrow> (u32 \<times> id_gen) option" where
  "NextID g =
     (let i = next_id g AND 0x7fffffff;
          g1 = g\<lparr>next_id := next_id g + 1\<rparr>
      in if i = 0 then NextID g1
         else if i \<notin> ids g1 then Some (i, g1\<lparr>ids := insert i (ids g1)\<rparr>)
         else NextID g1)"

definition Recycle :: "u32 \<Rightarrow> id_gen \<Rightarrow> id_gen" where
  "Recycle i g = g\<lparr>ids := ids g - {i}\<rparr>"

text \<open>The identifiers the loop can produce, and those of them that are not taken.\<close>

definition valid_id :: "u32 \<Rightarrow> bool" where
  "valid_id i \<longleftrightarrow> 0 < i \<and> i < 0x80000000"

definition has_free_id :: "id_gen \<Rightarrow> bool" where
  "has_free_id g \<longleftrightarrow> (\<exists>i. valid_id i \<and> i \<notin> ids g)"

definition id_inv :: "id_gen \<Rightarrow> bool" where
  "id_inv g \<longleftrightarrow> (\<forall>i \<in> ids g. valid_id i)"

section \<open>When the search returns\<close>

text \<open>How many increments the candidate is away from the identifier \<open>f\<close>.\<close>

definition id_dist :: "u32 \<Rightarrow> id_gen \<Rightarrow> nat" where
  "id_dist f g = (let n = unat (next_id g) mod 2 ^ 31 in if n \<le> unat f then unat f - n else unat f + 2 ^ 31 - n)"

lemma unat_masked_id: "unat (x AND 0x7fffffff :: u32) = unat x mod 2 ^ 31"
proof -
  have "(0x7fffffff :: u32) = mask 31" by (simp add: mask_eq_exp_minus_1)
  moreover have "unat (take_bit 31 x) = take_bit 31 (unat x)" by (rule unsigned_take_bit_eq)
  ultimately show ?thesis by (simp only: take_bit_eq_mask [symmetric]) (simp add: take_bit_eq_mod)
qed

lemma masked_id_valid:
  assumes "x AND 0x7fffffff \<noteq> (0 :: u32)"
  shows "valid_id (x AND 0x7fffffff)"
proof -
  have "unat (x AND 0x7fffffff) < 2 ^ 31" unfolding unat_masked_id by simp
  then have "x AND 0x7fffffff < 0x80000000" by (simp add: word_less_nat_alt)
  with assms show ?thesis unfolding valid_id_def by (simp only: word_gt_0 not_False_eq_True conj_absorb) simp
qed

lemma valid_id_unat: "valid_id f \<Longrightarrow> 0 < unat f \<and> unat f < 2 ^ 31"
  by (simp add: valid_id_def word_less_nat_alt)

lemma id_dist_zero:
  assumes "valid_id f" "id_dist f g = 0"
  shows "next_id g AND 0x7fffffff = f"
proof (rule word_unat_eq_iff [THEN iffD2])
  have "unat (next_id g) mod 2 ^ 31 < 2 ^ 31" by simp
  with assms(2) show "unat (next_id g AND 0x7fffffff) = unat f"
    unfolding unat_masked_id id_dist_def Let_def by (auto split: if_splits)
qed

lemma id_dist_step:
  assumes "valid_id f" "id_dist f g = Suc n"
  shows "id_dist f (g\<lparr>next_id := next_id g + 1\<rparr>) = n"
proof -
  define m where "m = unat (next_id g) mod 2 ^ 31"
  have "unat (next_id g + 1) mod 2 ^ 31 = (unat (next_id g) + 1) mod 2 ^ 31"
    by (simp add: unat_word_ariths mod_mod_cancel)
  also have "\<dots> = (if Suc m = 2 ^ 31 then 0 else Suc m)"
    by (simp add: m_def mod_Suc)
  finally have step: "unat (next_id g + 1) mod 2 ^ 31 = (if Suc m = 2 ^ 31 then 0 else Suc m)" .
  have "m < 2 ^ 31" by (simp add: m_def)
  with valid_id_unat [OF assms(1)] assms(2) step show ?thesis
    unfolding id_dist_def Let_def m_def [symmetric] by (auto split: if_splits)
qed

lemma NextID_returns_at:
  assumes "valid_id f" "f \<notin> ids g"
  shows "\<exists>r. NextID g = Some r"
  using assms(2)
proof (induction "id_dist f g" arbitrary: g)
  case 0
  then have "next_id g AND 0x7fffffff = f" using assms(1) by (simp add: id_dist_zero)
  with 0 valid_id_unat [OF assms(1)] show ?case by (subst NextID.simps) (auto simp: Let_def)
next
  case (Suc n)
  let ?g = "g\<lparr>next_id := next_id g + 1\<rparr>"
  have "n = id_dist f ?g" using Suc.hyps(2) [symmetric] assms(1) by (simp add: id_dist_step)
  moreover have "f \<notin> ids ?g" using Suc.prems by simp
  ultimately have "\<exists>r. NextID ?g = Some r" by (rule Suc.hyps(1))
  then show ?case by (subst NextID.simps) (simp add: Let_def)
qed

lemma NextID_result:
  assumes "NextID g = Some (i, g')"
  shows "valid_id i \<and> i \<notin> ids g \<and> ids g' = insert i (ids g)"
proof -
  have "case (i, g') of (i, g') \<Rightarrow> valid_id i \<and> i \<notin> ids g \<and> ids g' = insert i (ids g)"
  proof (rule NextID.raw_induct [where P = "\<lambda>g (i, g'). valid_id i \<and> i \<notin> ids g \<and> ids g' = insert i (ids g)",
        OF _ assms])
    fix f g and r :: "u32 \<times> id_gen"
    assume IH: "\<And>g r. f g = Some r \<Longrightarrow> case r of (i, g') \<Rightarrow> valid_id i \<and> i \<notin> ids g \<and> ids g' = insert i (ids g)"
      and eq: "(let i = next_id g AND 0x7fffffff; g1 = g\<lparr>next_id := next_id g + 1\<rparr>
          in if i = 0 then f g1
             else if i \<notin> ids g1 then Some (i, g1\<lparr>ids := insert i (ids g1)\<rparr>) else f g1) = Some r"
    show "case r of (i, g') \<Rightarrow> valid_id i \<and> i \<notin> ids g \<and> ids g' = insert i (ids g)"
    proof (cases "next_id g AND 0x7fffffff = 0 \<or> next_id g AND 0x7fffffff \<in> ids g")
      case True
      with eq have "f (g\<lparr>next_id := next_id g + 1\<rparr>) = Some r" by (simp add: Let_def split: if_splits)
      from IH [OF this] show ?thesis by simp
    next
      case False
      with eq show ?thesis by (clarsimp simp: Let_def masked_id_valid)
    qed
  qed
  then show ?thesis by simp
qed

lemma NextID_inv: "id_inv g \<Longrightarrow> NextID g = Some (i, g') \<Longrightarrow> id_inv g'"
  using NextID_result [of g i g'] by (auto simp: id_inv_def)

lemma Recycle_inv: "id_inv g \<Longrightarrow> id_inv (Recycle i g)"
  by (simp add: id_inv_def Recycle_def)

section \<open>The interface of an identifier source\<close>

locale id_source =
  fixes take_id :: "'g \<Rightarrow> ('i \<times> 'g) option"
    and give_back :: "'i \<Rightarrow> 'g \<Rightarrow> 'g"
    and taken :: "'g \<Rightarrow> 'i set"
  assumes take_fresh: "take_id g = Some (i, g') \<Longrightarrow> i \<notin> taken g"
    and taken_take: "take_id g = Some (i, g') \<Longrightarrow> taken g' = insert i (taken g)"
    and taken_give_back: "taken (give_back i g) = taken g - {i}"
begin

text \<open>A client takes (\<open>None\<close>) and gives back (\<open>Some i\<close>) identifiers, holding a list of them.\<close>

fun run_ids :: "'i option list \<Rightarrow> 'i list \<times> 'g \<Rightarrow> ('i list \<times> 'g) option" where
  "run_ids [] (held, g) = Some (held, g)"
| "run_ids (None # ops) (held, g) =
     (case take_id g of None \<Rightarrow> None | Some (i, g') \<Rightarrow> run_ids ops (i # held, g'))"
| "run_ids (Some i # ops) (held, g) =
     run_ids ops (if i \<in> set held then (remove1 i held, give_back i g) else (held, g))"

lemma run_ids_distinct:
  "run_ids ops (held, g) = Some (held', g') \<Longrightarrow> distinct held \<Longrightarrow> set held \<subseteq> taken g \<Longrightarrow>
     distinct held' \<and> set held' \<subseteq> taken g'"
proof (induction ops "(held, g)" arbitrary: held g rule: run_ids.induct)
  case (2 ops held g)
  then obtain i g1 where i: "take_id g = Some (i, g1)" and r: "run_ids ops (i # held, g1) = Some (held', g')"
    by (auto split: option.splits)
  from "2.prems" take_fresh [OF i] have "distinct (i # held)" "set (i # held) \<subseteq> taken g1"
    by (auto simp: taken_take [OF i])
  with "2.hyps" [OF i refl r] show ?case by simp
next
  case (3 i ops held g)
  then show ?case by (auto simp: taken_give_back split: if_splits)
qed auto

end

interpretation ids: id_source NextID Recycle ids
  by unfold_locales (auto dest: NextID_result simp: Recycle_def)

section \<open>Properties\<close>

text \<open>
  C33: the loop of \<open>NextID\<close> returns exactly when some identifier between 1 and \<open>2^31 - 1\<close>
  is free; with all of them taken it spins forever.
\<close>

theorem NextID_returns_iff: "(\<exists>r. NextID g = Some r) \<longleftrightarrow> has_free_id g"
proof
  assume "\<exists>r. NextID g = Some r"
  then obtain i g' where "NextID g = Some (i, g')" by auto
  then show "has_free_id g" by (auto simp: has_free_id_def dest: NextID_result)
next
  assume "has_free_id g"
  then show "\<exists>r. NextID g = Some r" by (simp only: has_free_id_def) (blast intro: NextID_returns_at)
qed

text \<open>
  C32: whatever sequence of \<open>NextID\<close> and \<open>Recycle\<close> calls a process makes, starting from the
  new generator and recycling only identifiers it holds, the identifiers it holds are
  pairwise different.
\<close>

theorem held_ids_distinct:
  assumes "ids.run_ids ops ([], NewRecyclableIDGenerator) = Some (held, g)"
  shows "distinct held \<and> set held \<subseteq> ids g"
  using ids.run_ids_distinct [OF assms] by simp

theorem held_ids_distinct_witness:
  "\<exists>g. ids.run_ids [None, None, Some 1, None] ([], NewRecyclableIDGenerator) = Some ([3, 2], g)
     \<and> distinct [3, 2 :: u32] \<and> {3, 2} \<subseteq> ids g"
proof -
  have "\<exists>g. ids.run_ids [None, None, Some 1, None] ([], NewRecyclableIDGenerator) = Some ([3, 2], g)"
    by (simp add: NewRecyclableIDGenerator_def NextID.simps Recycle_def Let_def)
  then obtain g where g: "ids.run_ids [None, None, Some 1, None] ([], NewRecyclableIDGenerator) = Some ([3, 2], g)"
    by blast
  from held_ids_distinct [OF g] g show ?thesis by auto
qed

end
