(* ===== verification/Bytespool.thy ===== *)
theory Bytespool
  imports Prelude
begin

text \<open>
  The size-classed buffer pool of \<open>bytespool/bytespool.go\<close>. A slice is its backing array
  (an identity and the bytes up to the capacity) and a length. What \<open>sync.Pool.Get\<close>
  returns is not determined by the program: the argument \<open>pick\<close> chooses an entry of the
  pool, and any other choice makes \<open>New\<close> run, so that every statement holds for every
  behaviour of \<open>sync.Pool\<close>.
\<close>

section \<open>State\<close>

record bslice =
  arr :: nat
  backing :: bytes
  slen :: nat

abbreviation cap :: "bslice \<Rightarrow> nat" where
  "cap s \<equiv> length (backing s)"

definition sdata :: "bslice \<Rightarrow> bytes" where
  "sdata s = take (slen s) (backing s)"

record poolInfo =
  sz :: nat
  pool :: "bslice list"

record bytespool =
  pools :: "poolInfo list"
  next_arr :: nat

definition newPoolInfo :: "nat \<Rightarrow> poolInfo" where
  "newPoolInfo n = \<lparr>sz = n, pool = []\<rparr>"

definition base_sizes :: "nat list" where
  "base_sizes = [4, 8, 16, 32, 64, 128, 256, 512, 1024, 2 * 1024, 4 * 1024, 8 * 1024, 16 * 1024]"

definition init_sizes :: "nat list" where
  "init_sizes = map (\<lambda>i. i * 8 * 1024) [2..<65]"

definition init_pools :: bytespool where
  "init_pools = \<lparr>pools = map newPoolInfo (base_sizes @ init_sizes), next_arr = 0\<rparr>"

section \<open>Operations\<close>

definition make_slice :: "nat \<Rightarrow> nat \<Rightarrow> nat \<Rightarrow> bslice" where
  "make_slice a len c = \<lparr>arr = a, backing = replicate c 0, slen = len\<rparr>"

text \<open>\<open>sync.Pool.Get\<close> on one pool: the slice, the pool without it, the next array identity.\<close>

definition pool_Get :: "nat option \<Rightarrow> nat \<Rightarrow> poolInfo \<Rightarrow> bslice \<times> poolInfo \<times> nat" where
  "pool_Get pick a pi =
     (case pick of
        Some k \<Rightarrow>
          if k < length (pool pi)
          then (pool pi ! k, pi\<lparr>pool := take k (pool pi) @ drop (Suc k) (pool pi)\<rparr>, a)
          else (make_slice a 0 (sz pi), pi, Suc a)
      | None \<Rightarrow> (make_slice a 0 (sz pi), pi, Suc a))"

text \<open>
  The loop of \<open>Alloc\<close> over the pools: \<open>None\<close> when no size class fits. The reslicing to
  the requested size panics when it exceeds the capacity of what the pool returned.
\<close>

fun alloc_loop :: "nat \<Rightarrow> nat option \<Rightarrow> nat \<Rightarrow> poolInfo list \<Rightarrow> (bslice outcome \<times> poolInfo list \<times> nat) option" where
  "alloc_loop n pick a [] = None"
| "alloc_loop n pick a (pi # pis) =
     (if n \<le> sz pi then
        (let (s, pi', a') = pool_Get pick a pi
         in Some (if n \<le> cap s then Ok (s\<lparr>slen := n\<rparr>) else Panic, pi' # pis, a'))
      else map_option (\<lambda>(r, pis', a'). (r, pi # pis', a')) (alloc_loop n pick a pis))"

definition Alloc :: "nat \<Rightarrow> nat option \<Rightarrow> bytespool \<Rightarrow> bslice option outcome \<times> bytespool" where
  "Alloc n pick bp =
     (if n \<le> 0 then (Ok None, bp)
      else case alloc_loop n pick (next_arr bp) (pools bp) of
             Some (r, pis, a) \<Rightarrow>
               (case r of Ok s \<Rightarrow> Ok (Some s) | Error e \<Rightarrow> Error e | Panic \<Rightarrow> Panic,
                bp\<lparr>pools := pis, next_arr := a\<rparr>)
           | None \<Rightarrow> (Ok (Some (make_slice (next_arr bp) n n)), bp\<lparr>next_arr := Suc (next_arr bp)\<rparr>))"

definition Free :: "bslice option \<Rightarrow> bytespool \<Rightarrow> bytespool" where
  "Free p bp =
     (case p of
        None \<Rightarrow> bp
      | Some s \<Rightarrow>
          if cap s \<le> 0 then bp
          else bp\<lparr>pools := map (\<lambda>pi. if cap s = sz pi then pi\<lparr>pool := s # pool pi\<rparr> else pi) (pools bp)\<rparr>)"

section \<open>The invariant\<close>

text \<open>
  A pool is visible to \<open>Alloc\<close> when every earlier size class is smaller. The second 16 KB
  class that \<open>init\<close> appends is not visible: \<open>Free\<close> fills it and \<open>Alloc\<close> never reads it.
\<close>

definition visible :: "poolInfo list \<Rightarrow> nat \<Rightarrow> bool" where
  "visible pis i \<longleftrightarrow> i < length pis \<and> (\<forall>j < i. sz (pis ! j) < sz (pis ! i))"

definition pool_ok :: "nat set \<Rightarrow> nat \<Rightarrow> poolInfo \<Rightarrow> bool" where
  "pool_ok live a pi \<longleftrightarrow>
     distinct (map arr (pool pi)) \<and>
     (\<forall>s \<in> set (pool pi). cap s = sz pi \<and> arr s < a \<and> arr s \<notin> live)"

text \<open>
  \<open>live\<close> is the set of the arrays handed out and not yet freed: pooled arrays of visible
  classes have the capacity of their class, are known, not live, and pairwise different.
\<close>

definition bp_inv :: "nat set \<Rightarrow> bytespool \<Rightarrow> bool" where
  "bp_inv live bp \<longleftrightarrow>
     (\<forall>i. visible (pools bp) i \<longrightarrow> pool_ok live (next_arr bp) (pools bp ! i)) \<and>
     (\<forall>i j. visible (pools bp) i \<longrightarrow> visible (pools bp) j \<longrightarrow> i \<noteq> j \<longrightarrow>
        arr ` set (pool (pools bp ! i)) \<inter> arr ` set (pool (pools bp ! j)) = {}) \<and>
     (\<forall>x \<in> live. x < next_arr bp)"

section \<open>Lemmas on one pool and on the loop\<close>

lemma length_sdata [simp]: "slen s \<le> cap s \<Longrightarrow> length (sdata s) = slen s"
  by (simp add: sdata_def)

lemma make_slice_simps [simp]:
  "arr (make_slice a n c) = a" "cap (make_slice a n c) = c" "slen (make_slice a n c) = n"
  by (simp_all add: make_slice_def)

lemma pool_Get_cases:
  assumes "pool_Get pick a pi = (s, pi', a')"
  obtains (pooled) k where "k < length (pool pi)" "s = pool pi ! k" "a' = a"
      "pi' = pi\<lparr>pool := take k (pool pi) @ drop (Suc k) (pool pi)\<rparr>"
    | (made) "s = make_slice a 0 (sz pi)" "pi' = pi" "a' = Suc a"
proof (cases pick)
  case None
  with assms show thesis by (intro made) (auto simp: pool_Get_def)
next
  case (Some k)
  show thesis
  proof (cases "k < length (pool pi)")
    case True
    with assms Some show thesis by (intro pooled [of k]) (simp_all add: pool_Get_def)
  next
    case False
    with assms Some show thesis by (intro made) (auto simp: pool_Get_def)
  qed
qed

lemma drop_take_mset:
  "k < length xs \<Longrightarrow> distinct (map f xs) \<Longrightarrow>
     distinct (map f (take k xs @ drop (Suc k) xs)) \<and>
     f (xs ! k) \<notin> f ` set (take k xs @ drop (Suc k) xs)"
proof -
  assume k: "k < length xs" and d: "distinct (map f xs)"
  from k have "xs = take k xs @ xs ! k # drop (Suc k) xs" by (rule id_take_nth_drop)
  with d have "distinct (map f (take k xs @ xs ! k # drop (Suc k) xs))" by simp
  then show ?thesis by auto
qed

lemma pool_Get_ok:
  assumes ok: "pool_ok live a pi" and live: "\<forall>x \<in> live. x < a"
    and get: "pool_Get pick a pi = (s, pi', a')"
  shows "cap s = sz pi" "arr s \<notin> live" "arr s < a'" "a \<le> a'" "sz pi' = sz pi"
    and "set (pool pi') \<subseteq> set (pool pi)" "arr s \<in> arr ` set (pool pi) \<or> a \<le> arr s"
    and "pool_ok (insert (arr s) live) a' pi'"
proof -
  have "cap s = sz pi \<and> arr s \<notin> live \<and> arr s < a' \<and> a \<le> a' \<and> sz pi' = sz pi \<and>
      set (pool pi') \<subseteq> set (pool pi) \<and> (arr s \<in> arr ` set (pool pi) \<or> a \<le> arr s) \<and>
      pool_ok (insert (arr s) live) a' pi'"
    using get
  proof (cases rule: pool_Get_cases)
    case (pooled k)
    have mem: "s \<in> set (pool pi)" using pooled(1,2) by simp
    have sub: "set (pool pi') \<subseteq> set (pool pi)"
      using pooled(4) by (auto dest: in_set_takeD in_set_dropD)
    have dist: "distinct (map arr (pool pi'))" "arr s \<notin> arr ` set (pool pi')"
      using ok pooled drop_take_mset [of k "pool pi" arr] by (simp_all add: pool_ok_def)
    have ne: "\<forall>t \<in> set (pool pi'). arr t \<noteq> arr s" using dist(2) by (metis imageI)
    have sz: "sz pi' = sz pi" using pooled(4) by simp
    have all: "\<forall>t \<in> set (pool pi). cap t = sz pi \<and> arr t < a \<and> arr t \<notin> live"
      using ok by (simp add: pool_ok_def)
    have "pool_ok (insert (arr s) live) a' pi'"
      unfolding pool_ok_def sz pooled(3) using dist(1) ne all sub by auto
    with all mem sub sz pooled(3) show ?thesis by simp
  next
    case made
    with ok live show ?thesis by (fastforce simp: pool_ok_def)
  qed
  then show "cap s = sz pi" "arr s \<notin> live" "arr s < a'" "a \<le> a'" "sz pi' = sz pi"
    "set (pool pi') \<subseteq> set (pool pi)" "arr s \<in> arr ` set (pool pi) \<or> a \<le> arr s"
    "pool_ok (insert (arr s) live) a' pi'" by simp_all
qed

lemma pool_ok_grow: "pool_ok live a pi \<Longrightarrow> a \<le> a' \<Longrightarrow> x \<notin> arr ` set (pool pi) \<Longrightarrow> pool_ok (insert x live) a' pi"
  by (fastforce simp: pool_ok_def)

lemma alloc_loop_None: "alloc_loop n pick a pis = None \<longleftrightarrow> (\<forall>pi \<in> set pis. sz pi < n)"
  by (induction pis) (auto simp: Let_def split: prod.splits)

lemma alloc_loop_Some:
  "alloc_loop n pick a pis = Some (r, pis', a') \<Longrightarrow>
     \<exists>i s pi'. i < length pis \<and> n \<le> sz (pis ! i) \<and> (\<forall>j < i. sz (pis ! j) < n) \<and>
       pool_Get pick a (pis ! i) = (s, pi', a') \<and> pis' = pis[i := pi'] \<and>
       r = (if n \<le> cap s then Ok (s\<lparr>slen := n\<rparr>) else Panic)"
proof (induction pis arbitrary: pis')
  case Nil
  then show ?case by simp
next
  case (Cons pi pis)
  show ?case
  proof (cases "n \<le> sz pi")
    case True
    with Cons.prems show ?thesis
      by (intro exI [of _ 0]) (auto simp: Let_def split: prod.splits)
  next
    case False
    with Cons.prems obtain qis where q: "alloc_loop n pick a pis = Some (r, qis, a')" "pis' = pi # qis"
      by auto
    from Cons.IH [OF q(1)] obtain i s pi' where
      "i < length pis \<and> n \<le> sz (pis ! i) \<and> (\<forall>j < i. sz (pis ! j) < n) \<and>
       pool_Get pick a (pis ! i) = (s, pi', a') \<and> qis = pis[i := pi'] \<and>
       r = (if n \<le> cap s then Ok (s\<lparr>slen := n\<rparr>) else Panic)" by blast
    with False q(2) show ?thesis
      by (intro exI [of _ "Suc i"]) (auto simp: less_Suc_eq_0_disj)
  qed
qed

lemma visible_update: "sz pi' = sz (pis ! i) \<Longrightarrow> visible (pis[i := pi']) j \<longleftrightarrow> visible pis j"
proof -
  assume "sz pi' = sz (pis ! i)"
  then have "k < length pis \<Longrightarrow> sz (pis[i := pi'] ! k) = sz (pis ! k)" for k
    by (cases "k = i") auto
  then show ?thesis by (auto simp: visible_def)
qed

section \<open>Alloc and Free keep the invariant\<close>

lemma bp_inv_init: "bp_inv {} init_pools"
proof -
  have "i < length (pools init_pools) \<Longrightarrow> pool (pools init_pools ! i) = []" for i
    by (simp add: init_pools_def newPoolInfo_def del: map_append)
  then show ?thesis by (simp add: bp_inv_def pool_ok_def visible_def)
qed

lemma bp_inv_get:
  assumes inv: "bp_inv live bp" and vis: "visible (pools bp) i" and i: "i < length (pools bp)"
    and get: "pool_Get pick (next_arr bp) (pools bp ! i) = (s, pi', a')"
  shows "bp_inv (insert (arr s) live) (bp\<lparr>pools := (pools bp)[i := pi'], next_arr := a'\<rparr>)"
proof -
  let ?bp = "bp\<lparr>pools := (pools bp)[i := pi'], next_arr := a'\<rparr>"
  have ok: "pool_ok live (next_arr bp) (pools bp ! i)" and lt: "\<forall>x \<in> live. x < next_arr bp"
    using inv vis by (auto simp: bp_inv_def)
  note g = pool_Get_ok [OF ok lt get]
  have vis_eq: "visible (pools ?bp) j = visible (pools bp) j" for j using g(5) by (simp add: visible_update)
  have "pool_ok (insert (arr s) live) (next_arr ?bp) (pools ?bp ! j)" if j: "visible (pools bp) j" for j
  proof (cases "j = i")
    case False
    have p: "pool_ok live (next_arr bp) (pools bp ! j)" using inv j by (simp add: bp_inv_def)
    have "arr s \<notin> arr ` set (pool (pools bp ! j))"
      using g(7)
    proof
      assume "arr s \<in> arr ` set (pool (pools bp ! i))"
      then show ?thesis using inv vis j False unfolding bp_inv_def by blast
    qed (use p in \<open>auto simp: pool_ok_def\<close>)
    with p show ?thesis using g(4) False by (simp add: pool_ok_grow)
  qed (use g(8) i in simp)
  moreover have "arr ` set (pool (pools ?bp ! j)) \<inter> arr ` set (pool (pools ?bp ! k)) = {}"
    if "visible (pools bp) j" "visible (pools bp) k" "j \<noteq> k" for j k
  proof -
    have "arr ` set (pool (pools bp ! j)) \<inter> arr ` set (pool (pools bp ! k)) = {}" using inv that by (simp add: bp_inv_def)
    moreover have "set (pool ((pools bp)[i := pi'] ! m)) \<subseteq> set (pool (pools bp ! m))" for m
      using g(6) i by (cases "m = i") auto
    ultimately show ?thesis by fastforce
  qed
  moreover have "\<forall>x \<in> insert (arr s) live. x < next_arr ?bp" using g(3,4) lt by auto
  ultimately show ?thesis unfolding bp_inv_def vis_eq by blast
qed

lemma Alloc_ok:
  assumes inv: "bp_inv live bp" and n: "0 < n"
  obtains s bp' where "Alloc n pick bp = (Ok (Some s), bp')" "slen s = n" "n \<le> cap s"
    "arr s \<notin> live" "bp_inv (insert (arr s) live) bp'"
proof (cases "alloc_loop n pick (next_arr bp) (pools bp)")
  case None
  let ?s = "make_slice (next_arr bp) n n" and ?bp = "bp\<lparr>next_arr := Suc (next_arr bp)\<rparr>"
  have "Alloc n pick bp = (Ok (Some ?s), ?bp)" using None n by (simp add: Alloc_def)
  moreover have "next_arr bp \<notin> live" using inv by (auto simp: bp_inv_def)
  moreover have "bp_inv (insert (arr ?s) live) ?bp"
    using inv unfolding bp_inv_def
    by (auto intro: less_SucI intro!: pool_ok_grow) (auto simp: pool_ok_def)
  ultimately show thesis by (intro that) auto
next
  case (Some x)
  obtain r pis' a' where x: "x = (r, pis', a')" by (cases x)
  obtain i s pi' where
    i: "i < length (pools bp)" "n \<le> sz (pools bp ! i)" "\<forall>j < i. sz (pools bp ! j) < n"
    and get: "pool_Get pick (next_arr bp) (pools bp ! i) = (s, pi', a')"
    and pis': "pis' = (pools bp)[i := pi']"
    and r: "r = (if n \<le> cap s then Ok (s\<lparr>slen := n\<rparr>) else Panic)"
    using alloc_loop_Some [of n pick "next_arr bp" "pools bp" r pis' a'] Some x by blast
  have vis: "visible (pools bp) i" using i by (fastforce simp: visible_def)
  with inv have ok: "pool_ok live (next_arr bp) (pools bp ! i)" and lt: "\<forall>x \<in> live. x < next_arr bp"
    by (auto simp: bp_inv_def)
  note g = pool_Get_ok [OF ok lt get] and k = bp_inv_get [OF inv vis i(1) get]
  have "Alloc n pick bp = (Ok (Some (s\<lparr>slen := n\<rparr>)), bp\<lparr>pools := pis', next_arr := a'\<rparr>)"
    using Some x n r g(1) i(2) by (simp add: Alloc_def)
  then show thesis using g i(2) k by (intro that [of "s\<lparr>slen := n\<rparr>"]) (auto simp: pis')
qed

definition put_back :: "bslice \<Rightarrow> poolInfo \<Rightarrow> poolInfo" where
  "put_back s pi = (if cap s = sz pi then pi\<lparr>pool := s # pool pi\<rparr> else pi)"

lemma sz_put_back [simp]: "sz (put_back s pi) = sz pi"
  by (simp add: put_back_def)

lemma Free_Some: "0 < cap s \<Longrightarrow> Free (Some s) bp = bp\<lparr>pools := map (put_back s) (pools bp)\<rparr>"
  by (simp add: Free_def put_back_def)

lemma visible_sz_inj:
  "visible pis i \<Longrightarrow> visible pis j \<Longrightarrow> sz (pis ! i) = sz (pis ! j) \<Longrightarrow> i = j"
  unfolding visible_def by (metis less_irrefl nat_neq_iff)

lemma visible_put_back [simp]: "visible (map (put_back s) pis) i \<longleftrightarrow> visible pis i"
  by (auto simp: visible_def)

lemma pool_ok_put_back:
  assumes "pool_ok live a pi" "arr s \<in> live" "arr s < a"
  shows "pool_ok (live - {arr s}) a (put_back s pi)"
  using assms by (auto simp: pool_ok_def put_back_def)

lemma Free_ok:
  assumes inv: "bp_inv live bp" and s: "arr s \<in> live"
  shows "bp_inv (live - {arr s}) (Free (Some s) bp)"
proof (cases "0 < cap s")
  case False
  then have "Free (Some s) bp = bp" by (simp add: Free_def)
  with inv show ?thesis by (auto simp: bp_inv_def pool_ok_def)
next
  case True
  have lt: "arr s < next_arr bp" using inv s by (simp add: bp_inv_def)
  have vl: "visible (pools bp) i \<Longrightarrow> i < length (pools bp)" for i by (simp add: visible_def)
  have "arr ` set (pool (put_back s (pools bp ! i))) \<inter> arr ` set (pool (put_back s (pools bp ! j))) = {}"
    if v: "visible (pools bp) i" "visible (pools bp) j" and ne: "i \<noteq> j" for i j
  proof -
    have "\<not> (cap s = sz (pools bp ! i) \<and> cap s = sz (pools bp ! j))"
      using visible_sz_inj [OF v] ne by auto
    moreover have "arr s \<notin> arr ` set (pool (pools bp ! k))" if "visible (pools bp) k" for k
      using inv s that by (auto simp: bp_inv_def pool_ok_def)
    moreover have "arr ` set (pool (pools bp ! i)) \<inter> arr ` set (pool (pools bp ! j)) = {}"
      using inv v ne by (simp add: bp_inv_def)
    ultimately show ?thesis using v by (auto simp: put_back_def)
  qed
  then show ?thesis
    using inv s lt vl unfolding Free_Some [OF True] bp_inv_def
    by (simp add: pool_ok_put_back)
qed

section \<open>The interface of a buffer pool\<close>

text \<open>
  What the users of the pool rely on: an allocation of \<open>n > 0\<close> bytes succeeds with a
  buffer of length \<open>n\<close> whose array nobody else holds, and both operations keep the
  invariant when only held buffers are given back.
\<close>

locale buffer_pool =
  fixes alloc :: "nat \<Rightarrow> 'c \<Rightarrow> 'p \<Rightarrow> 'b option outcome \<times> 'p"
    and free :: "'b option \<Rightarrow> 'p \<Rightarrow> 'p"
    and ident :: "'b \<Rightarrow> 'i"
    and len :: "'b \<Rightarrow> nat"
    and pinv :: "'i set \<Rightarrow> 'p \<Rightarrow> bool"
  assumes alloc_spec: "pinv live p \<Longrightarrow> 0 < n \<Longrightarrow>
      \<exists>b p'. alloc n c p = (Ok (Some b), p') \<and> len b = n \<and> ident b \<notin> live \<and> pinv (insert (ident b) live) p'"
    and free_spec: "pinv live p \<Longrightarrow> ident b \<in> live \<Longrightarrow> pinv (live - {ident b}) (free (Some b) p)"
begin

text \<open>A client that allocates (\<open>Inl\<close>) and frees the \<open>k\<close>-th buffer it holds (\<open>Inr k\<close>).\<close>

fun run_pool :: "((nat \<times> 'c) + nat) list \<Rightarrow> 'b list \<times> 'p \<Rightarrow> 'b list \<times> 'p" where
  "run_pool [] st = st"
| "run_pool (Inl (n, c) # ops) (held, p) =
     (case alloc n c p of (Ok (Some b), p') \<Rightarrow> run_pool ops (b # held, p') | (_, p') \<Rightarrow> run_pool ops (held, p'))"
| "run_pool (Inr k # ops) (held, p) =
     (if k < length held then run_pool ops (take k held @ drop (Suc k) held, free (Some (held ! k)) p)
      else run_pool ops (held, p))"

definition sizes_positive :: "((nat \<times> 'c) + nat) list \<Rightarrow> bool" where
  "sizes_positive ops \<longleftrightarrow> (\<forall>n c. Inl (n, c) \<in> set ops \<longrightarrow> 0 < n)"

lemma run_pool_inv:
  "sizes_positive ops \<Longrightarrow> distinct (map ident held) \<Longrightarrow> pinv (ident ` set held) p \<Longrightarrow>
     run_pool ops (held, p) = (held', p') \<Longrightarrow> distinct (map ident held') \<and> pinv (ident ` set held') p'"
proof (induction ops "(held, p)" arbitrary: held p rule: run_pool.induct)
  case 1
  then show ?case by simp
next
  case (2 n c ops held p)
  from "2.prems"(1) have n: "0 < n" and ops: "sizes_positive ops" by (auto simp: sizes_positive_def)
  from alloc_spec [OF "2.prems"(3) n, of c] obtain b q where
    b: "alloc n c p = (Ok (Some b), q)" "ident b \<notin> ident ` set held" "pinv (insert (ident b) (ident ` set held)) q"
    by blast
  from "2.prems"(4) b(1) have r: "run_pool ops (b # held, q) = (held', p')" by simp
  show ?case
    by (rule "2.hyps"(2)) (use ops "2.prems"(2) b r in auto)
next
  case (3 k ops held p)
  from "3.prems"(1) have ops: "sizes_positive ops" by (auto simp: sizes_positive_def)
  show ?case
  proof (cases "k < length held")
    case True
    let ?held = "take k held @ drop (Suc k) held"
    note d = drop_take_mset [OF True "3.prems"(2)]
    have "set held = insert (held ! k) (set ?held)"
      using id_take_nth_drop [OF True] by (metis Un_insert_right list.simps(15) set_append)
    then have "ident ` set ?held = ident ` set held - {ident (held ! k)}" using d by auto
    then have "pinv (ident ` set ?held) (free (Some (held ! k)) p)"
      using free_spec [OF "3.prems"(3), of "held ! k"] True by simp
    with "3.hyps"(1) [OF True ops] d True "3.prems"(4) show ?thesis by simp
  next
    case False
    with "3.hyps"(2) [OF False ops] "3.prems" show ?thesis by simp
  qed
qed

end

interpretation bp: buffer_pool Alloc Free arr slen bp_inv
proof
  show "\<exists>b p'. Alloc n c p = (Ok (Some b), p') \<and> slen b = n \<and> arr b \<notin> live \<and> bp_inv (insert (arr b) live) p'"
    if "bp_inv live p" "0 < n" for live p n c
    using Alloc_ok [OF that, of c] by metis
qed (rule Free_ok)

section \<open>Properties\<close>

text \<open>
  \<open>Alloc\<close> of a positive size never panics and returns a slice of exactly that length
  whose array is not held by anybody, whatever entry \<open>sync.Pool\<close> hands out.
\<close>

theorem Alloc_fresh_sized:
  assumes "bp_inv live bp" and "0 < n"
  shows "\<exists>s bp'. Alloc n pick bp = (Ok (Some s), bp') \<and> length (sdata s) = n \<and> arr s \<notin> live \<and>
    bp_inv (insert (arr s) live) bp'"
proof -
  obtain s bp' where "Alloc n pick bp = (Ok (Some s), bp')" "slen s = n" "n \<le> cap s"
    "arr s \<notin> live" "bp_inv (insert (arr s) live) bp'"
    using Alloc_ok [OF assms] by metis
  then show ?thesis by auto
qed

theorem Alloc_fresh_sized_witness:
  "bp_inv {} init_pools \<and> (0 :: nat) < 100 \<and>
   (\<exists>s bp'. Alloc 100 None init_pools = (Ok (Some s), bp') \<and> length (sdata s) = 100 \<and> arr s \<notin> {} \<and>
     bp_inv (insert (arr s) {}) bp')"
  using bp_inv_init Alloc_fresh_sized [OF bp_inv_init, of 100 None] by simp

text \<open>
  C31: in any run of \<open>Alloc\<close> and \<open>Free\<close> calls from the initial pools that frees only buffers
  still held, no two buffers held at the same time share their backing array.
\<close>

theorem held_buffers_disjoint:
  assumes "bp.sizes_positive ops" and "bp.run_pool ops ([], init_pools) = (held, bp')"
  shows "distinct (map arr held) \<and> bp_inv (arr ` set held) bp'"
  using bp.run_pool_inv [OF assms(1) _ _ assms(2)] bp_inv_init by simp

theorem held_buffers_disjoint_witness:
  "bp.sizes_positive [Inl (5, None), Inr 0, Inl (7, Some 0), Inl (7, Some 0)] \<and>
   (\<exists>held bp'. bp.run_pool [Inl (5, None), Inr 0, Inl (7, Some 0), Inl (7, Some 0)] ([], init_pools) = (held, bp') \<and>
     distinct (map arr held) \<and> bp_inv (arr ` set held) bp')"
proof -
  let ?ops = "[Inl (5, None), Inr 0, Inl (7, Some 0), Inl (7, Some 0)]"
  have p: "bp.sizes_positive ?ops" by (auto simp: bp.sizes_positive_def)
  obtain held bp' where r: "bp.run_pool ?ops ([], init_pools) = (held, bp')" by fastforce
  from held_buffers_disjoint [OF p r] p r show ?thesis by blast
qed

end
