(* ===== verification/Messages.thy ===== *)
theory Messages
  imports Bytespool
begin

text \<open>
  Messages, their wire format and their memory (\<open>message/message.go\<close>): the meta data and
  its 8-byte encoding, pipe-id paths, the constructors that build a message to send or
  rebuild one from bytes, from a stream or from the message of an in-process peer, and the
  operations that encode, duplicate and release it. A message owns one buffer of the
  bytes pool; source, destination and content are regions of that buffer.
\<close>

section \<open>Meta data and flags\<close>

record Meta =
  Flags :: u8
  TTL :: u8
  Hops :: u8
  Distance :: u8
  Length :: u32

definition DefaultMsgTTL :: u8 where
  "DefaultMsgTTL = 16"

definition MetaSize :: nat where
  "MetaSize = 8"

definition emptyMeta :: Meta where
  "emptyMeta = \<lparr>Flags = 0, TTL = DefaultMsgTTL, Hops = 0, Distance = 0, Length = 0\<rparr>"

definition zeroMeta :: Meta where
  "zeroMeta = \<lparr>Flags = 0, TTL = 0, Hops = 0, Distance = 0, Length = 0\<rparr>"

definition sendTypeMask :: u8 where
  "sendTypeMask = 0x03"

definition flagsMask :: u8 where
  "flagsMask = 0xff XOR sendTypeMask"

definition SendTypeToOne :: u8 where
  "SendTypeToOne = 0"

definition SendTypeToAll :: u8 where
  "SendTypeToAll = 1"

definition SendTypeToDest :: u8 where
  "SendTypeToDest = 2"

definition MsgFlagInternal :: u8 where
  "MsgFlagInternal = 4"

definition MsgFlagNoSource :: u8 where
  "MsgFlagNoSource = 8"

definition MsgFlagRaw :: u8 where
  "MsgFlagRaw = 16"

definition MsgFlagControl :: u8 where
  "MsgFlagControl = 32"

definition SendType :: "Meta \<Rightarrow> u8" where
  "SendType m = Flags m AND sendTypeMask"

definition HasFlags :: "Meta \<Rightarrow> u8 \<Rightarrow> bool" where
  "HasFlags m flags \<longleftrightarrow> Flags m AND flags = flags"

definition HasAnyFlags :: "Meta \<Rightarrow> bool" where
  "HasAnyFlags m \<longleftrightarrow> Flags m AND flagsMask \<noteq> 0"

definition ClearFlags :: "Meta \<Rightarrow> u8 \<Rightarrow> u8" where
  "ClearFlags m flags = Flags m AND (flags XOR 0xff)"

definition encodeTo :: "Meta \<Rightarrow> bytes \<Rightarrow> bytes" where
  "encodeTo m b = overwrite 0 ([Flags m, TTL m, Hops m, Distance m] @ be32 (Length m)) b"

text \<open>The decoder indexes the first eight bytes: \<open>None\<close> is the index panic on a shorter slice.\<close>

fun decodeMetaFrom :: "bytes \<Rightarrow> Meta option" where
  "decodeMetaFrom (f # t # h # d # r) =
     map_option (\<lambda>l. \<lparr>Flags = f, TTL = t, Hops = h, Distance = d, Length = l\<rparr>) (un_be32 r)"
| "decodeMetaFrom _ = None"

section \<open>Paths\<close>

type_synonym MsgPath = bytes

definition path_Length :: "MsgPath \<Rightarrow> u8" where
  "path_Length path = of_nat (length path div 4)"

definition CurID :: "MsgPath \<Rightarrow> u32 outcome" where
  "CurID path = (case un_be32 (take 4 path) of Some i \<Rightarrow> Ok i | None \<Rightarrow> Panic)"

definition NextPathID :: "MsgPath \<Rightarrow> (u32 \<times> MsgPath) outcome" where
  "NextPathID path = (case un_be32 (take 4 path) of Some i \<Rightarrow> Ok (i, drop 4 path) | None \<Rightarrow> Panic)"

section \<open>Messages and the memory they live in\<close>

text \<open>
  A region of the buffer is a pair of offsets, as in \<open>msg.buf[from:to:to]\<close>; \<open>None\<close> is nil.
\<close>

record message =
  buf :: "bslice option"
  meta :: Meta
  source_r :: "(nat \<times> nat) option"
  dest_r :: "(nat \<times> nat) option"
  content_r :: "(nat \<times> nat) option"

definition buf_bytes :: "message \<Rightarrow> bytes" where
  "buf_bytes m = (case buf m of None \<Rightarrow> [] | Some s \<Rightarrow> sdata s)"

definition region :: "(nat \<times> nat) option \<Rightarrow> message \<Rightarrow> bytes" where
  "region r m = (case r of None \<Rightarrow> [] | Some (i, j) \<Rightarrow> go_slice i j (buf_bytes m))"

definition Source :: "message \<Rightarrow> bytes" where
  "Source m = region (source_r m) m"

definition Destination :: "message \<Rightarrow> bytes" where
  "Destination m = region (dest_r m) m"

definition Content :: "message \<Rightarrow> bytes" where
  "Content m = region (content_r m) m"

text \<open>The two pools: byte buffers and message structs. \<open>New\<close> of \<open>msgPool\<close> makes a zero message.\<close>

record mem =
  bpool :: bytespool
  msgPool :: "message list"

record picks =
  pick_bytes :: "nat option"
  pick_msg :: "nat option"

abbreviation fresh_picks :: picks where
  "fresh_picks \<equiv> \<lparr>pick_bytes = None, pick_msg = None\<rparr>"

definition newMessage :: message where
  "newMessage = \<lparr>buf = None, meta = zeroMeta, source_r = None, dest_r = None, content_r = None\<rparr>"

definition msgPool_Get :: "picks \<Rightarrow> mem \<Rightarrow> message \<times> mem" where
  "msgPool_Get pk h =
     (case pick_msg pk of
        Some k \<Rightarrow>
          if k < length (msgPool h)
          then (msgPool h ! k, h\<lparr>msgPool := take k (msgPool h) @ drop (Suc k) (msgPool h)\<rparr>)
          else (newMessage, h)
      | None \<Rightarrow> (newMessage, h))"

definition mem_Alloc :: "nat \<Rightarrow> picks \<Rightarrow> mem \<Rightarrow> bslice option outcome \<times> mem" where
  "mem_Alloc n pk h = (let (r, bp) = Alloc n (pick_bytes pk) (bpool h) in (r, h\<lparr>bpool := bp\<rparr>))"

definition msg_Free :: "message \<Rightarrow> mem \<Rightarrow> mem" where
  "msg_Free m h =
     (let m' = m\<lparr>buf := None, meta := emptyMeta, source_r := None, dest_r := None, content_r := None\<rparr>
      in h\<lparr>msgPool := m' # msgPool h\<rparr>)"

definition FreeAll :: "message \<Rightarrow> mem \<Rightarrow> mem" where
  "FreeAll m h = msg_Free m (h\<lparr>bpool := Free (buf m) (bpool h)\<rparr>)"

datatype FreeLevel = LevelFreeAll | LevelFreeMsg | LevelFreeNone

fun FreeByLevel :: "message \<Rightarrow> FreeLevel \<Rightarrow> mem \<Rightarrow> mem" where
  "FreeByLevel m LevelFreeAll h = FreeAll m h"
| "FreeByLevel m LevelFreeMsg h = msg_Free m h"
| "FreeByLevel m LevelFreeNone h = h"

text \<open>Writing the buffer: the slice header stays, the bytes below its length change.\<close>

definition set_bytes :: "bytes \<Rightarrow> bslice \<Rightarrow> bslice" where
  "set_bytes d s = s\<lparr>backing := d @ drop (length d) (backing s)\<rparr>"

section \<open>Creating a message to send\<close>

definition send_meta :: "u8 \<Rightarrow> u8 \<Rightarrow> u8 \<Rightarrow> MsgPath \<Rightarrow> MsgPath \<Rightarrow> bytes \<Rightarrow> Meta" where
  "send_meta flags sendType ttl src dest content =
     \<lparr>Flags = flags OR sendType, TTL = (if ttl = 0 then DefaultMsgTTL else ttl),
      Hops = path_Length src, Distance = path_Length dest, Length = of_nat (length content)\<rparr>"

definition NewSendMessage ::
    "picks \<Rightarrow> u8 \<Rightarrow> u8 \<Rightarrow> u8 \<Rightarrow> MsgPath \<Rightarrow> MsgPath \<Rightarrow> bytes \<Rightarrow> mem \<Rightarrow> message outcome \<times> mem" where
  "NewSendMessage pk flags sendType ttl src dest content h =
     (let (m0, h1) = msgPool_Get pk h;
          m1 = m0\<lparr>meta := send_meta flags sendType ttl src dest content\<rparr>;
          sourceSize = length src; destSize = length dest; len = length content;
          (r, h2) = mem_Alloc (MetaSize + sourceSize + destSize + len) pk h1
      in case r of
           Ok (Some s) \<Rightarrow>
             (let d0 = sdata s;
                  to0 = MetaSize;
                  to1 = (if sourceSize > 0 then to0 + sourceSize else to0);
                  d1 = (if sourceSize > 0 then overwrite to0 src d0 else d0);
                  to2 = (if destSize > 0 then to1 + destSize else to1);
                  d2 = (if destSize > 0 then overwrite to1 dest d1 else d1);
                  to3 = to2 + len;
                  d3 = overwrite to2 content d2
              in (Ok (m1\<lparr>buf := Some (set_bytes d3 s),
                         source_r := (if sourceSize > 0 then Some (to0, to1) else source_r m1),
                         dest_r := (if destSize > 0 then Some (to1, to2) else dest_r m1),
                         content_r := Some (to2, to3)\<rparr>), h2))
         | Ok None \<Rightarrow> (Panic, h2)
         | Error e \<Rightarrow> (Error e, h2)
         | Panic \<Rightarrow> (Panic, h2))"

definition NewRawRecvMessage :: "picks \<Rightarrow> u32 \<Rightarrow> bytes option \<Rightarrow> mem \<Rightarrow> message outcome \<times> mem" where
  "NewRawRecvMessage pk pid content h =
     (let (m0, h1) = msgPool_Get pk h;
          c = (case content of None \<Rightarrow> [] | Some c \<Rightarrow> c);
          mt = \<lparr>Flags = MsgFlagRaw OR SendTypeToOne, TTL = 0, Hops = 0, Distance = 0,
                Length = of_nat (length c)\<rparr>;
          sourceSize = 4; len = unat (Length mt);
          (r, h2) = mem_Alloc (MetaSize + sourceSize + len) pk h1
      in case r of
           Ok (Some s) \<Rightarrow>
             (let to1 = MetaSize + sourceSize;
                  d1 = overwrite MetaSize (be32 pid) (sdata s);
                  mt' = mt\<lparr>TTL := TTL mt - 1, Hops := Hops mt + 1\<rparr>;
                  m1 = m0\<lparr>meta := mt', source_r := Some (MetaSize, to1)\<rparr>
              in case content of
                   Some c \<Rightarrow>
                     (Ok (m1\<lparr>buf := Some (set_bytes (overwrite to1 (take len c) d1) s),
                             content_r := Some (to1, to1 + len)\<rparr>), h2)
                 | None \<Rightarrow> (Ok (m1\<lparr>buf := Some (set_bytes d1 s)\<rparr>), h2))
         | Ok None \<Rightarrow> (Panic, h2)
         | Error e \<Rightarrow> (Error e, h2)
         | Panic \<Rightarrow> (Panic, h2))"

section \<open>Rebuilding a received message\<close>

definition recv_sourceSize :: "Meta \<Rightarrow> nat" where
  "recv_sourceSize mt = 4 * unat (Hops mt + 1)"

definition recv_destSize :: "Meta \<Rightarrow> nat" where
  "recv_destSize mt =
     (if SendType mt = SendTypeToDest then 4 * unat (Distance mt - 1) else 4 * unat (Distance mt))"

definition recv_meta :: "Meta \<Rightarrow> Meta" where
  "recv_meta mt =
     mt\<lparr>TTL := TTL mt - 1, Hops := Hops mt + 1,
        Distance := (if SendType mt = SendTypeToDest then Distance mt - 1 else Distance mt)\<rparr>"

definition too_long :: "u32 \<Rightarrow> Meta \<Rightarrow> bool" where
  "too_long maxLength mt \<longleftrightarrow> maxLength \<noteq> 0 \<and> maxLength < Length mt"

text \<open>
  The regions of a rebuilt message. Nil destinations stay as the pooled struct had them.
\<close>

definition recv_regions :: "Meta \<Rightarrow> bslice \<Rightarrow> message \<Rightarrow> message" where
  "recv_regions mt s m0 =
     (let to1 = MetaSize + recv_sourceSize mt;
          to2 = (if recv_destSize mt > 0 then to1 + recv_destSize mt else to1);
          to3 = to2 + unat (Length mt)
      in m0\<lparr>buf := Some s, meta := recv_meta mt, source_r := Some (MetaSize, to1),
            dest_r := (if recv_destSize mt > 0 then Some (to1, to2) else dest_r m0),
            content_r := Some (to2, to3)\<rparr>)"

definition NewMessageFromBytes :: "picks \<Rightarrow> u32 \<Rightarrow> bytes \<Rightarrow> u32 \<Rightarrow> mem \<Rightarrow> message outcome \<times> mem" where
  "NewMessageFromBytes pk pid b maxLength h =
     (let (m0, h1) = msgPool_Get pk h
      in if length b < MetaSize then (Error ErrBadMsg, msg_Free m0 h1)
         else case decodeMetaFrom b of
           None \<Rightarrow> (Panic, h1)
         | Some mt \<Rightarrow>
             (let b0 = drop MetaSize b
              in if too_long maxLength mt then (Error ErrContentTooLong, msg_Free m0 h1)
                 else if length b0 \<noteq> 4 * unat (Hops mt + Distance mt) + unat (Length mt)
                 then (Error ErrBadMsg, msg_Free m0 h1)
                 else
                   (let sourceSize = recv_sourceSize mt; destSize = recv_destSize mt; len = unat (Length mt);
                        (r, h2) = mem_Alloc (MetaSize + sourceSize + destSize + len) pk h1
                    in case r of
                         Ok (Some s) \<Rightarrow>
                           if sourceSize < 4 \<or> length b0 < sourceSize - 4 then (Panic, h2)
                           else
                             (let d1 = overwrite (MetaSize + 4) (take (sourceSize - 4) b0) (sdata s);
                                  b1 = drop (sourceSize - 4) b0;
                                  d2 = overwrite MetaSize (be32 pid) d1
                              in if SendType mt = SendTypeToDest \<and> length b1 < 4 then (Panic, h2)
                                 else
                                   (let b2 = (if SendType mt = SendTypeToDest then drop 4 b1 else b1);
                                        to1 = MetaSize + sourceSize
                                    in if destSize > 0 \<and> length b2 < destSize then (Panic, h2)
                                       else
                                         (let d3 = (if destSize > 0 then overwrite to1 (take destSize b2) d2 else d2);
                                              b3 = (if destSize > 0 then drop destSize b2 else b2);
                                              to2 = (if destSize > 0 then to1 + destSize else to1);
                                              d4 = overwrite to2 (take len b3) d3
                                          in (Ok (recv_regions mt (set_bytes d4 s) m0), h2))))
                       | Ok None \<Rightarrow> (Panic, h2)
                       | Error e \<Rightarrow> (Error e, h2)
                       | Panic \<Rightarrow> (Panic, h2))))"

text \<open>
  The stream a message is read from: the bytes that will arrive, the error that ends them
  and whether the reader was closed. \<open>ReadFull\<close> is \<open>io.ReadFull\<close>: it consumes \<open>n\<close> bytes,
  or everything there is and fails, turning an end of stream in the middle into
  \<open>ErrUnexpectedEOF\<close>. \<open>Discard\<close> is \<open>io.CopyN(ioutil.Discard, r, n)\<close>.
\<close>

record reader =
  rd_bytes :: bytes
  rd_end :: err
  rd_closed :: bool

definition ReadFull :: "nat \<Rightarrow> reader \<Rightarrow> bytes outcome \<times> reader" where
  "ReadFull n r =
     (if n \<le> length (rd_bytes r) then (Ok (take n (rd_bytes r)), r\<lparr>rd_bytes := drop n (rd_bytes r)\<rparr>)
      else (Error (if rd_end r = EOF \<and> rd_bytes r \<noteq> [] then ErrUnexpectedEOF else rd_end r),
            r\<lparr>rd_bytes := []\<rparr>))"

definition Discard :: "nat \<Rightarrow> reader \<Rightarrow> unit outcome \<times> reader" where
  "Discard n r =
     (if n \<le> length (rd_bytes r) then (Ok (), r\<lparr>rd_bytes := drop n (rd_bytes r)\<rparr>)
      else (Error (rd_end r), r\<lparr>rd_bytes := []\<rparr>))"

definition rd_Close :: "reader \<Rightarrow> reader" where
  "rd_Close r = r\<lparr>rd_closed := True\<rparr>"

text \<open>
  An \<open>io.ReadCloser\<close> as the code uses one: through \<open>io.ReadFull\<close>, \<open>io.CopyN\<close> to
  \<open>ioutil.Discard\<close> and \<open>Close\<close>. \<open>None\<close> is a read that waits for more bytes; the stream above never waits.
\<close>

record 'r ReadCloser =
  io_ReadFull :: "nat \<Rightarrow> 'r \<Rightarrow> (bytes outcome \<times> 'r) option"
  io_Discard :: "nat \<Rightarrow> 'r \<Rightarrow> (unit outcome \<times> 'r) option"
  io_Close :: "'r \<Rightarrow> 'r"

definition stream_rc :: "reader ReadCloser" where
  "stream_rc = \<lparr>io_ReadFull = (\<lambda>n r. Some (ReadFull n r)), io_Discard = (\<lambda>n r. Some (Discard n r)), io_Close = rd_Close\<rparr>"

lemma stream_rc_simps [simp]:
  "io_ReadFull stream_rc n r = Some (ReadFull n r)" "io_Discard stream_rc n r = Some (Discard n r)"
  "io_Close stream_rc = rd_Close"
  by (simp_all add: stream_rc_def)

text \<open>
  \<open>read_source\<close>, \<open>skip_hop\<close>, \<open>read_dest\<close> and \<open>read_content\<close> are the last parts of the function, each
  going on with the next one; \<open>read_fail\<close> is \<open>msg.FreeAll(); return\<close>.
\<close>

definition read_fail :: "message \<Rightarrow> bslice \<Rightarrow> mem \<Rightarrow> err \<Rightarrow> 'r \<Rightarrow> message outcome \<times> 'r \<times> mem" where
  "read_fail m0 s h e rd = (Error e, rd, FreeAll (m0\<lparr>buf := Some s\<rparr>) h)"

definition read_content ::
    "'r ReadCloser \<Rightarrow> message \<Rightarrow> Meta \<Rightarrow> bslice \<Rightarrow> mem \<Rightarrow> nat \<Rightarrow> bytes \<Rightarrow> 'r \<Rightarrow> (message outcome \<times> 'r \<times> mem) option" where
  "read_content rc m0 mt s h to d rd =
     (case io_ReadFull rc (unat (Length mt)) rd of
        None \<Rightarrow> None
      | Some (Ok c, rd') \<Rightarrow> Some (Ok (recv_regions mt (set_bytes (overwrite to c d) s) m0), rd', h)
      | Some (Error e, rd') \<Rightarrow> Some (read_fail m0 s h e rd')
      | Some (Panic, rd') \<Rightarrow> Some (Panic, rd', h))"

definition read_dest ::
    "'r ReadCloser \<Rightarrow> message \<Rightarrow> Meta \<Rightarrow> bslice \<Rightarrow> mem \<Rightarrow> nat \<Rightarrow> bytes \<Rightarrow> 'r \<Rightarrow> (message outcome \<times> 'r \<times> mem) option" where
  "read_dest rc m0 mt s h to d rd =
     (if recv_destSize mt > 0
      then (case io_ReadFull rc (recv_destSize mt) rd of
              None \<Rightarrow> None
            | Some (Ok dst, rd') \<Rightarrow> read_content rc m0 mt s h (to + recv_destSize mt) (overwrite to dst d) rd'
            | Some (Error e, rd') \<Rightarrow> Some (read_fail m0 s h e rd')
            | Some (Panic, rd') \<Rightarrow> Some (Panic, rd', h))
      else read_content rc m0 mt s h to d rd)"

definition skip_hop ::
    "'r ReadCloser \<Rightarrow> message \<Rightarrow> Meta \<Rightarrow> bslice \<Rightarrow> mem \<Rightarrow> nat \<Rightarrow> bytes \<Rightarrow> 'r \<Rightarrow> (message outcome \<times> 'r \<times> mem) option" where
  "skip_hop rc m0 mt s h to d rd =
     (if SendType mt = SendTypeToDest
      then (case io_Discard rc 4 rd of
              None \<Rightarrow> None
            | Some (Ok _, rd') \<Rightarrow> read_dest rc m0 mt s h to d rd'
            | Some (Error e, rd') \<Rightarrow> Some (read_fail m0 s h e rd')
            | Some (Panic, rd') \<Rightarrow> Some (Panic, rd', h))
      else read_dest rc m0 mt s h to d rd)"

definition read_source ::
    "'r ReadCloser \<Rightarrow> u32 \<Rightarrow> message \<Rightarrow> Meta \<Rightarrow> bslice \<Rightarrow> mem \<Rightarrow> 'r \<Rightarrow> (message outcome \<times> 'r \<times> mem) option" where
  "read_source rc pid m0 mt s h rd =
     (if recv_sourceSize mt < 4 then Some (Panic, rd, h)
      else case io_ReadFull rc (recv_sourceSize mt - 4) rd of
             None \<Rightarrow> None
           | Some (Ok src, rd1) \<Rightarrow>
               skip_hop rc m0 mt s h (MetaSize + recv_sourceSize mt)
                 (overwrite MetaSize (be32 pid) (overwrite (MetaSize + 4) src (sdata s))) rd1
           | Some (Error e, rd1) \<Rightarrow> Some (read_fail m0 s h e rd1)
           | Some (Panic, rd1) \<Rightarrow> Some (Panic, rd1, h))"

definition NewMessageFromReader ::
    "'r ReadCloser \<Rightarrow> picks \<Rightarrow> u32 \<Rightarrow> 'r \<Rightarrow> u32 \<Rightarrow> mem \<Rightarrow> (message outcome \<times> 'r \<times> mem) option" where
  "NewMessageFromReader rc pk pid rd maxLength h =
     (let (m0, h1) = msgPool_Get pk h
      in case io_ReadFull rc MetaSize rd of
           None \<Rightarrow> None
         | Some (Ok metaBuf, rd1) \<Rightarrow>
             (case decodeMetaFrom metaBuf of
                None \<Rightarrow> Some (Panic, rd1, h1)
              | Some mt \<Rightarrow>
                  if too_long maxLength mt then Some (Error ErrContentTooLong, io_Close rc rd1, msg_Free m0 h1)
                  else
                    (case mem_Alloc (MetaSize + recv_sourceSize mt + recv_destSize mt + unat (Length mt)) pk h1 of
                       (Ok (Some s), h2) \<Rightarrow> read_source rc pid m0 mt s h2 rd1
                     | (Ok None, h2) \<Rightarrow> Some (Panic, rd1, h2)
                     | (Error e, h2) \<Rightarrow> Some (Error e, rd1, h2)
                     | (Panic, h2) \<Rightarrow> Some (Panic, rd1, h2)))
         | Some (Error e, rd1) \<Rightarrow> Some (Error e, rd1, msg_Free m0 h1)
         | Some (Panic, rd1) \<Rightarrow> Some (Panic, rd1, h1))"

lemmas FromReader_defs = NewMessageFromReader_def read_source_def skip_hop_def read_dest_def read_content_def read_fail_def

text \<open>
  From the message of an in-process peer. The destination is moved within the new
  buffer, \<open>copy(msg.Destination, msg.Destination[4:])\<close>, as the source has it: nothing of
  the old message's destination is read.
\<close>

definition NewMessageFromMsg :: "picks \<Rightarrow> u32 \<Rightarrow> message \<Rightarrow> u32 \<Rightarrow> mem \<Rightarrow> message outcome \<times> mem" where
  "NewMessageFromMsg pk pid srcMsg maxLength h =
     (let (m0, h1) = msgPool_Get pk h; mt = meta srcMsg
      in if too_long maxLength mt then (Error ErrContentTooLong, msg_Free m0 h1)
         else
           (let sourceSize = recv_sourceSize mt; destSize = recv_destSize mt; len = unat (Length mt);
                (r, h2) = mem_Alloc (MetaSize + sourceSize + destSize + len) pk h1
            in case r of
                 Ok (Some s) \<Rightarrow>
                   if sourceSize < 4 then (Panic, h2)
                   else
                     (let d1 = overwrite (MetaSize + 4) (take (sourceSize - 4) (Source srcMsg)) (sdata s);
                          d2 = overwrite MetaSize (be32 pid) d1;
                          to1 = MetaSize + sourceSize;
                          to2 = (if destSize > 0 then to1 + destSize else to1);
                          dst = go_slice to1 to2 d2;
                          d3 = (if destSize > 0 then overwrite to1 (drop 4 dst) d2 else d2);
                          d4 = overwrite to2 (take len (Content srcMsg)) d3
                      in (Ok (recv_regions mt (set_bytes d4 s) m0), h2))
               | Ok None \<Rightarrow> (Panic, h2)
               | Error e \<Rightarrow> (Error e, h2)
               | Panic \<Rightarrow> (Panic, h2)))"

text \<open>What \<open>RecvMsg\<close> of a pipe makes of the result of a constructor: a message or an error.\<close>

fun msg_result :: "message outcome \<Rightarrow> (message option \<times> err option) outcome" where
  "msg_result (Ok m) = Ok (Some m, None)"
| "msg_result (Error e) = Ok (None, Some e)"
| "msg_result Panic = Panic"

section \<open>Encoding, duplicating\<close>

definition Encode :: "message \<Rightarrow> (bytes \<times> message) outcome" where
  "Encode m =
     (case buf m of
        None \<Rightarrow> Panic
      | Some s \<Rightarrow>
          if slen s < MetaSize then Panic
          else (let d = encodeTo (meta m) (sdata s) in Ok (d, m\<lparr>buf := Some (set_bytes d s)\<rparr>)))"

definition Dup :: "picks \<Rightarrow> message \<Rightarrow> mem \<Rightarrow> message outcome \<times> mem" where
  "Dup pk m h =
     (let (m0, h1) = msgPool_Get pk h;
          (r, h2) = mem_Alloc (length (buf_bytes m)) pk h1;
          to1 = MetaSize + 4 * unat (Hops (meta m));
          to2 = to1 + 4 * unat (Distance (meta m));
          to3 = to2 + unat (Length (meta m))
      in case r of
           Ok (Some s) \<Rightarrow>
             if cap s < to3 then (Panic, h2)
             else (Ok (m0\<lparr>meta := meta m, buf := Some (set_bytes (overwrite 0 (buf_bytes m) (sdata s)) s),
                          source_r := Some (MetaSize, to1), dest_r := Some (to1, to2),
                          content_r := Some (to2, to3)\<rparr>), h2)
         | Ok None \<Rightarrow> (Panic, h2)
         | Error e \<Rightarrow> (Error e, h2)
         | Panic \<Rightarrow> (Panic, h2))"

definition PipeID :: "message \<Rightarrow> u32 outcome" where
  "PipeID m = CurID (Source m)"

section \<open>Invariants\<close>

definition clean_msg :: "message \<Rightarrow> bool" where
  "clean_msg m \<longleftrightarrow> buf m = None \<and> source_r m = None \<and> dest_r m = None \<and> content_r m = None"

definition mem_inv :: "nat set \<Rightarrow> mem \<Rightarrow> bool" where
  "mem_inv live h \<longleftrightarrow> bp_inv live (bpool h) \<and> (\<forall>m \<in> set (msgPool h). clean_msg m)"

definition init_mem :: mem where
  "init_mem = \<lparr>bpool = init_pools, msgPool = []\<rparr>"

definition region_is :: "(nat \<times> nat) option \<Rightarrow> nat \<Rightarrow> nat \<Rightarrow> bool" where
  "region_is r i n \<longleftrightarrow> r = Some (i, i + n) \<or> r = None \<and> n = 0"

text \<open>The buffer is exactly meta data, source, destination and content, one after the other.\<close>

definition wf_msg :: "message \<Rightarrow> bool" where
  "wf_msg m \<longleftrightarrow>
     (let h = 4 * unat (Hops (meta m)); d = 4 * unat (Distance (meta m)); n = unat (Length (meta m))
      in (case buf m of None \<Rightarrow> False | Some s \<Rightarrow> slen s \<le> cap s \<and> slen s = MetaSize + h + d + n) \<and>
         region_is (source_r m) MetaSize h \<and> region_is (dest_r m) (MetaSize + h) d \<and>
         region_is (content_r m) (MetaSize + h + d) n)"

definition msg_arr :: "message \<Rightarrow> nat option" where
  "msg_arr m = map_option arr (buf m)"

definition path_ok :: "MsgPath \<Rightarrow> bool" where
  "path_ok p \<longleftrightarrow> length p mod 4 = 0 \<and> length p div 4 < 256"

text \<open>What a receiver makes of a message: one more hop in front of the source, one hop off the destination.\<close>

definition recv_destination :: "Meta \<Rightarrow> bytes \<Rightarrow> bytes" where
  "recv_destination mt dst = (if SendType mt = SendTypeToDest then drop 4 dst else dst)"

text \<open>
  The messages the decoder can take apart: the incremented hop count and the sum of both
  path lengths fit in a byte, and a message to a destination still has a hop to go.
\<close>

definition receivable :: "Meta \<Rightarrow> bool" where
  "receivable mt \<longleftrightarrow>
     unat (Hops mt) < 255 \<and> unat (Hops mt) + unat (Distance mt) < 256 \<and>
     (SendType mt = SendTypeToDest \<longrightarrow> 0 < unat (Distance mt))"

lemmas send_type_defs = sendTypeMask_def SendTypeToOne_def SendTypeToAll_def SendTypeToDest_def SendType_def
lemmas msg_flag_defs = MsgFlagInternal_def MsgFlagNoSource_def MsgFlagRaw_def MsgFlagControl_def flagsMask_def

section \<open>Lemmas on meta data and flags\<close>

lemma length_encodeTo [simp]: "length (encodeTo m b) = length b"
  by (simp add: encodeTo_def)

lemma encodeTo_append:
  "MetaSize \<le> length b \<Longrightarrow>
     encodeTo m b = [Flags m, TTL m, Hops m, Distance m] @ be32 (Length m) @ drop MetaSize b"
  by (simp add: encodeTo_def overwrite_def MetaSize_def)

lemma decode_encode: "MetaSize \<le> length b \<Longrightarrow> decodeMetaFrom (encodeTo m b) = Some m"
  by (simp add: encodeTo_append)

lemma decodeMetaFrom_None_iff: "decodeMetaFrom b = None \<longleftrightarrow> length b < MetaSize"
  by (cases b rule: decodeMetaFrom.cases) (auto simp: un_be32_None_iff MetaSize_def)

lemma decodeMetaFrom_append: "decodeMetaFrom b = Some mt \<Longrightarrow> decodeMetaFrom (b @ c) = Some mt"
proof (cases b rule: decodeMetaFrom.cases)
  case (1 f t h d r)
  assume a: "decodeMetaFrom b = Some mt"
  then obtain l where l: "un_be32 r = Some l" using 1 by auto
  then have "un_be32 (r @ c) = Some l" by (cases r rule: un_be32.cases) auto
  with a l 1 show ?thesis by simp
qed auto

lemma encode_decode: "decodeMetaFrom b = Some mt \<Longrightarrow> encodeTo mt b = b"
proof (cases b rule: decodeMetaFrom.cases)
  case (1 f t h d r)
  assume "decodeMetaFrom b = Some mt"
  then obtain l where l: "un_be32 r = Some l" and mt: "mt = \<lparr>Flags = f, TTL = t, Hops = h, Distance = d, Length = l\<rparr>"
    using 1 by auto
  from l have "4 \<le> length r" using un_be32_None_iff [of r] by fastforce
  with 1 mt be32_un_be32 [OF l] show ?thesis
    by (simp add: encodeTo_append MetaSize_def)
qed auto

section \<open>Lemmas on regions\<close>

lemma sdata_set_bytes [simp]: "length d = slen s \<Longrightarrow> sdata (set_bytes d s) = d"
  by (simp add: set_bytes_def sdata_def)

lemma set_bytes_simps [simp]:
  "arr (set_bytes d s) = arr s" "slen (set_bytes d s) = slen s"
  "length d \<le> cap s \<Longrightarrow> cap (set_bytes d s) = cap s"
  by (simp_all add: set_bytes_def)

lemma region_is_region: "region_is r i n \<Longrightarrow> region r m = go_slice i (i + n) (buf_bytes m)"
  by (auto simp: region_is_def region_def go_slice_def)

lemma wf_msg_buf:
  assumes "wf_msg m"
  obtains s where "buf m = Some s" "slen s \<le> cap s"
    "slen s = MetaSize + 4 * unat (Hops (meta m)) + 4 * unat (Distance (meta m)) + unat (Length (meta m))"
    "buf_bytes m = sdata s" "length (buf_bytes m) = slen s"
  using assms by (auto simp: wf_msg_def Let_def buf_bytes_def split: option.splits)

text \<open>The layout of a well-formed message, and the lengths of its parts.\<close>

lemma wf_msg_layout:
  assumes "wf_msg m"
  shows "buf_bytes m = take MetaSize (buf_bytes m) @ Source m @ Destination m @ Content m"
    and "length (Source m) = 4 * unat (Hops (meta m))"
    and "length (Destination m) = 4 * unat (Distance (meta m))"
    and "length (Content m) = unat (Length (meta m))"
    and "MetaSize \<le> length (buf_bytes m)"
proof -
  let ?h = "4 * unat (Hops (meta m))" and ?d = "4 * unat (Distance (meta m))" and ?n = "unat (Length (meta m))"
  obtain s where s: "length (buf_bytes m) = MetaSize + ?h + ?d + ?n"
    using wf_msg_buf [OF assms] by metis
  have r: "region_is (source_r m) MetaSize ?h" "region_is (dest_r m) (MetaSize + ?h) ?d"
    "region_is (content_r m) (MetaSize + ?h + ?d) ?n" using assms by (simp_all add: wf_msg_def Let_def)
  have S: "Source m = take ?h (drop MetaSize (buf_bytes m))"
    and D: "Destination m = take ?d (drop (MetaSize + ?h) (buf_bytes m))"
    and C: "Content m = drop (MetaSize + ?h + ?d) (buf_bytes m)"
    using s by (simp_all add: Source_def Destination_def Content_def region_is_region [OF r(1)]
        region_is_region [OF r(2)] region_is_region [OF r(3)] go_slice_def)
  show "length (Source m) = ?h" "length (Destination m) = ?d" "length (Content m) = ?n"
    "MetaSize \<le> length (buf_bytes m)" using s by (simp_all add: S D C)
  show "buf_bytes m = take MetaSize (buf_bytes m) @ Source m @ Destination m @ Content m"
    unfolding S D C by (rule four_regions)
qed

text \<open>A message whose buffer was written as the four parts has them as its regions.\<close>

lemma built_msg:
  assumes b: "buf m = Some (set_bytes (p @ S @ D @ C) s)"
    and len: "slen s = length (p @ S @ D @ C)" "slen s \<le> cap s" "length p = MetaSize"
    and r: "region_is (source_r m) MetaSize (length S)" "region_is (dest_r m) (MetaSize + length S) (length D)"
      "region_is (content_r m) (MetaSize + length S + length D) (length C)"
    and mt: "length S = 4 * unat (Hops (meta m))" "length D = 4 * unat (Distance (meta m))"
      "length C = unat (Length (meta m))"
  shows "wf_msg m \<and> Source m = S \<and> Destination m = D \<and> Content m = C \<and> msg_arr m = Some (arr s)"
proof -
  have bb: "buf_bytes m = p @ S @ D @ C" using b len by (simp add: buf_bytes_def)
  have "wf_msg m" using b len r mt by (simp add: wf_msg_def Let_def)
  moreover have "Source m = S \<and> Destination m = D \<and> Content m = C"
    using len(3) by (simp add: Source_def Destination_def Content_def region_is_region [OF r(1)]
        region_is_region [OF r(2)] region_is_region [OF r(3)] bb go_slice_def)
  ultimately show ?thesis using b by (simp add: msg_arr_def)
qed

section \<open>Lemmas on the pools\<close>

lemma mem_inv_init: "mem_inv {} init_mem"
  by (simp add: mem_inv_def init_mem_def bp_inv_init)

lemma clean_newMessage [simp]: "clean_msg newMessage"
  by (simp add: clean_msg_def newMessage_def)

lemma msgPool_Get_ok:
  assumes "mem_inv live h" "msgPool_Get pk h = (m0, h1)"
  shows "clean_msg m0" "mem_inv live h1"
proof -
  have "clean_msg m0 \<and> mem_inv live h1"
    using assms ball_remove_at [of "msgPool h" clean_msg]
    by (auto simp del: set_append simp: msgPool_Get_def mem_inv_def split: option.splits if_splits)
  then show "clean_msg m0" "mem_inv live h1" by simp_all
qed

lemma msg_Free_inv: "mem_inv live h \<Longrightarrow> mem_inv live (msg_Free m h)"
  by (simp add: mem_inv_def msg_Free_def clean_msg_def)

lemma FreeAll_inv:
  "mem_inv live h \<Longrightarrow> buf m = Some s \<Longrightarrow> arr s \<in> live \<Longrightarrow> mem_inv (live - {arr s}) (FreeAll m h)"
  unfolding FreeAll_def by (rule msg_Free_inv) (simp add: mem_inv_def Free_ok)

lemma mem_Alloc_ok:
  assumes "mem_inv live h" "0 < n"
  obtains s h' where "mem_Alloc n pk h = (Ok (Some s), h')" "slen s = n" "n \<le> cap s" "arr s \<notin> live"
    "mem_inv (insert (arr s) live) h'"
proof -
  from assms(1) have "bp_inv live (bpool h)" by (simp add: mem_inv_def)
  then obtain s bp' where "Alloc n (pick_bytes pk) (bpool h) = (Ok (Some s), bp')" "slen s = n" "n \<le> cap s"
    "arr s \<notin> live" "bp_inv (insert (arr s) live) bp'"
    using Alloc_ok [OF _ assms(2)] by metis
  with assms(1) show thesis by (intro that [of s "h\<lparr>bpool := bp'\<rparr>"]) (auto simp: mem_Alloc_def mem_inv_def)
qed

text \<open>Both allocations of a constructor at once.\<close>

lemma new_msg_ok:
  assumes "mem_inv live h" "0 < n"
  obtains m0 h1 s h2 where "msgPool_Get pk h = (m0, h1)" "mem_Alloc n pk h1 = (Ok (Some s), h2)"
    "clean_msg m0" "slen s = n" "n \<le> cap s" "length (sdata s) = n" "arr s \<notin> live" "mem_inv (insert (arr s) live) h2"
proof -
  obtain m0 h1 where g: "msgPool_Get pk h = (m0, h1)" by (cases "msgPool_Get pk h")
  note m0 = msgPool_Get_ok [OF assms(1) g]
  obtain s h2 where "mem_Alloc n pk h1 = (Ok (Some s), h2)" "slen s = n" "n \<le> cap s" "arr s \<notin> live"
    "mem_inv (insert (arr s) live) h2" using mem_Alloc_ok [OF m0(2) assms(2)] by metis
  with g m0 show thesis by (intro that) auto
qed

end
