(* ===== verification/Wire.thy ===== *)
theory Wire
  imports Messages
begin

text \<open>
  The wire format: what the constructors of \<open>message/message.go\<close> build, that decoding an
  encoded message gives it back with one more hop recorded, that messages written one
  after the other to a stream are read back one by one, which inputs are refused, and
  which inputs make the decoder panic.
\<close>

section \<open>Specifications\<close>

text \<open>
  \<open>sent\<close>: a new message with these parts, in an array nobody holds; \<open>received\<close>: the same
  for a rebuilt message, with the receiving pipe in front of the source.
\<close>

definition owned_msg :: "nat set \<Rightarrow> message \<Rightarrow> mem \<Rightarrow> bool" where
  "owned_msg live m h \<longleftrightarrow> wf_msg m \<and> (\<exists>a. msg_arr m = Some a \<and> a \<notin> live \<and> mem_inv (insert a live) h)"

definition received :: "nat set \<Rightarrow> u32 \<Rightarrow> Meta \<Rightarrow> bytes \<Rightarrow> bytes \<Rightarrow> bytes \<Rightarrow> message \<Rightarrow> mem \<Rightarrow> bool" where
  "received live pid mt S D C m h \<longleftrightarrow>
     owned_msg live m h \<and> meta m = recv_meta mt \<and> Source m = be32 pid @ S \<and>
     Destination m = recv_destination mt D \<and> Content m = C"

definition wire :: "message \<Rightarrow> bytes" where
  "wire m = encodeTo (meta m) (replicate MetaSize 0) @ Source m @ Destination m @ Content m"

section \<open>Building a message to send\<close>

lemma path_ok_Length: "path_ok p \<Longrightarrow> 4 * unat (path_Length p) = length p"
  by (auto simp: path_ok_def path_Length_def unat_of_nat take_bit_eq_mod)

lemma unat_Length_of_nat: "n < 2 ^ 32 \<Longrightarrow> unat (of_nat n :: u32) = n"
  by (simp add: unat_of_nat take_bit_eq_mod)

lemma send_buffer:
  assumes "length d = MetaSize + length S + length D + length C"
  shows "overwrite (MetaSize + length S + length D) C (overwrite (MetaSize + length S) D (overwrite MetaSize S d)) =
    take MetaSize d @ S @ D @ C"
proof -
  obtain p q r t where d: "d = p @ q @ r @ t" and l: "length p = MetaSize" "length q = length S"
    "length r = length D" "length t = length C" using split_regions [OF assms] by metis
  show ?thesis
    using l overwrite_mid [of p MetaSize q S "r @ t"] overwrite_mid [of "p @ S" "MetaSize + length S" r D t]
      overwrite_mid [of "p @ S @ D" "MetaSize + length S + length D" t C "[]"]
    by (simp add: d add.assoc)
qed

lemma NewSendMessage_ok:
  assumes inv: "mem_inv live h" and p: "path_ok src" "path_ok dest" and c: "length content < 2 ^ 32"
  obtains m h' where "NewSendMessage pk flags st ttl src dest content h = (Ok m, h')" "owned_msg live m h'"
    "meta m = send_meta flags st ttl src dest content"
    "Source m = src" "Destination m = dest" "Content m = content"
proof -
  let ?n = "MetaSize + length src + length dest + length content"
  have "0 < ?n" by (simp add: MetaSize_def)
  then obtain m0 h1 s h2 where g: "msgPool_Get pk h = (m0, h1)" "mem_Alloc ?n pk h1 = (Ok (Some s), h2)"
    and m0: "clean_msg m0" and s: "slen s = ?n" "?n \<le> cap s" "length (sdata s) = ?n"
    and a: "arr s \<notin> live" "mem_inv (insert (arr s) live) h2"
    using new_msg_ok [OF inv, of ?n pk] by metis
  define m where "m = m0\<lparr>meta := send_meta flags st ttl src dest content,
    buf := Some (set_bytes (take MetaSize (sdata s) @ src @ dest @ content) s),
    source_r := (if length src > 0 then Some (MetaSize, MetaSize + length src) else source_r m0),
    dest_r := (if length dest > 0 then Some (MetaSize + length src, MetaSize + length src + length dest) else dest_r m0),
    content_r := Some (MetaSize + length src + length dest, MetaSize + length src + length dest + length content)\<rparr>"
  have eq: "NewSendMessage pk flags st ttl src dest content h = (Ok m, h2)"
    using g s(3) send_buffer [of "sdata s" src dest content]
    by (auto simp: NewSendMessage_def Let_def m_def)
  have "wf_msg m \<and> Source m = src \<and> Destination m = dest \<and> Content m = content \<and> msg_arr m = Some (arr s)"
    by (rule built_msg [where p = "take MetaSize (sdata s)"])
      (use s m0 p c in \<open>auto simp: m_def region_is_def clean_msg_def send_meta_def path_ok_Length unat_Length_of_nat\<close>)
  then show thesis using eq a by (intro that [OF eq]) (auto simp: owned_msg_def m_def)
qed

section \<open>Encoding\<close>

lemma wire_simps:
  "wf_msg m \<Longrightarrow> length (wire m) = length (buf_bytes m)"
  "decodeMetaFrom (take MetaSize (wire m)) = Some (meta m)"
  "decodeMetaFrom (wire m) = Some (meta m)"
  "drop MetaSize (wire m) = Source m @ Destination m @ Content m"
proof -
  show "length (wire m) = length (buf_bytes m)" if "wf_msg m"
    using arg_cong [OF wf_msg_layout(1) [OF that], of length] wf_msg_layout(5) [OF that] by (simp add: wire_def)
  show d: "decodeMetaFrom (take MetaSize (wire m)) = Some (meta m)"
    by (simp add: wire_def decode_encode)
  show "decodeMetaFrom (wire m) = Some (meta m)"
    using decodeMetaFrom_append [OF d, of "drop MetaSize (wire m)"] by simp
  show "drop MetaSize (wire m) = Source m @ Destination m @ Content m"
    by (simp add: wire_def)
qed

lemma Encode_ok:
  assumes "wf_msg m"
  obtains m' where "Encode m = Ok (wire m, m')" "wf_msg m'" "meta m' = meta m" "Source m' = Source m"
    "Destination m' = Destination m" "Content m' = Content m" "msg_arr m' = msg_arr m"
proof -
  obtain s where s: "buf m = Some s" "slen s \<le> cap s" "buf_bytes m = sdata s" "length (buf_bytes m) = slen s"
    using wf_msg_buf [OF assms] by metis
  note l = wf_msg_layout [OF assms]
  let ?hd = "encodeTo (meta m) (replicate MetaSize 0)"
  have "encodeTo (meta m) (sdata s) = ?hd @ Source m @ Destination m @ Content m"
    using l(1,5) s(3) by (simp add: encodeTo_append) (metis append_eq_append_conv_if append_take_drop_id length_take min.absorb2)
  then have eq: "Encode m = Ok (wire m, m\<lparr>buf := Some (set_bytes (?hd @ Source m @ Destination m @ Content m) s)\<rparr>)"
    using s l(5) by (simp add: Encode_def wire_def Let_def)
  let ?m = "m\<lparr>buf := Some (set_bytes (?hd @ Source m @ Destination m @ Content m) s)\<rparr>"
  have "wf_msg ?m \<and> Source ?m = Source m \<and> Destination ?m = Destination m \<and> Content ?m = Content m \<and> msg_arr ?m = Some (arr s)"
    by (rule built_msg [where p = ?hd])
      (use assms s l arg_cong [OF l(1), of length] in \<open>auto simp: wf_msg_def Let_def\<close>)
  with eq s(1) show thesis by (intro that [OF eq]) (auto simp: msg_arr_def)
qed

section \<open>Rebuilding a message\<close>

lemma receivable_sizes:
  assumes "receivable mt"
  shows "recv_sourceSize mt = 4 + 4 * unat (Hops mt)"
    and "unat (Hops (recv_meta mt)) = Suc (unat (Hops mt))"
    and "unat (Hops mt + Distance mt) = unat (Hops mt) + unat (Distance mt)"
    and "recv_destSize mt = 4 * unat (Distance (recv_meta mt))"
    and "4 * unat (Distance mt) = (if SendType mt = SendTypeToDest then 4 else 0) + recv_destSize mt"
proof -
  have h: "unat (Hops mt + 1) = Suc (unat (Hops mt))"
    using assms by (simp add: receivable_def unat_word_ariths)
  then show "recv_sourceSize mt = 4 + 4 * unat (Hops mt)" by (simp add: recv_sourceSize_def)
  show "unat (Hops (recv_meta mt)) = Suc (unat (Hops mt))" using h by (simp add: recv_meta_def)
  show "unat (Hops mt + Distance mt) = unat (Hops mt) + unat (Distance mt)"
    using assms by (simp add: receivable_def unat_word_ariths)
  show "recv_destSize mt = 4 * unat (Distance (recv_meta mt))"
    by (simp add: recv_destSize_def recv_meta_def)
  have "unat (Distance mt - 1) = unat (Distance mt) - 1" if "0 < unat (Distance mt)"
    using that by (metis One_nat_def unat_eq_zero unat_minus_one neq0_conv)
  then show "4 * unat (Distance mt) = (if SendType mt = SendTypeToDest then 4 else 0) + recv_destSize mt"
    using assms by (auto simp: receivable_def recv_destSize_def)
qed

lemma length_recv_destination:
  "receivable mt \<Longrightarrow> length D = 4 * unat (Distance mt) \<Longrightarrow> length (recv_destination mt D) = recv_destSize mt"
  using receivable_sizes(5) [of mt] by (auto simp: recv_destination_def)

lemma recv_buffer:
  assumes "length d = MetaSize + (4 + length S) + length D + length C"
  shows "overwrite (MetaSize + (4 + length S) + length D) C (overwrite (MetaSize + (4 + length S)) D
      (overwrite MetaSize (be32 pid) (overwrite (MetaSize + 4) S d))) =
    take MetaSize d @ (be32 pid @ S) @ D @ C"
proof -
  obtain p q r t where d: "d = p @ q @ r @ t" and l: "length p = MetaSize" "length q = 4 + length S"
    "length r = length D" "length t = length C" using split_regions [OF assms] by metis
  define q1 q2 where "q1 = take 4 q" and "q2 = drop 4 q"
  have q: "q = q1 @ q2" "length q1 = 4" "length q2 = length S" using l(2) by (simp_all add: q1_def q2_def)
  show ?thesis
    using l q overwrite_mid [of "p @ q1" "MetaSize + 4" q2 S "r @ t"]
      overwrite_mid [of p MetaSize q1 "be32 pid" "S @ r @ t"]
      overwrite_mid [of "p @ be32 pid @ S" "MetaSize + (4 + length S)" r D t]
      overwrite_mid [of "p @ be32 pid @ S @ D" "MetaSize + (4 + length S) + length D" t C "[]"]
    by (simp add: d add.assoc)
qed

text \<open>The common end of the three constructors: the buffer is written, the regions are set.\<close>

lemma recv_built:
  assumes rc: "receivable mt" and m0: "clean_msg m0"
    and s: "slen s = MetaSize + recv_sourceSize mt + recv_destSize mt + unat (Length mt)" "slen s \<le> cap s"
    and l: "length S = 4 * unat (Hops mt)" "length D = recv_destSize mt" "length C = unat (Length mt)"
    and p: "length p = MetaSize"
    and m: "m = recv_regions mt (set_bytes (p @ (be32 pid @ S) @ D @ C) s) m0"
  shows "wf_msg m \<and> meta m = recv_meta mt \<and> Source m = be32 pid @ S \<and> Destination m = D \<and>
    Content m = C \<and> msg_arr m = Some (arr s)"
proof -
  note sz = receivable_sizes [OF rc]
  have "wf_msg m \<and> Source m = be32 pid @ S \<and> Destination m = D \<and> Content m = C \<and> msg_arr m = Some (arr s)"
    by (rule built_msg [where p = p])
      (use s l p m0 sz in \<open>auto simp: m recv_regions_def Let_def region_is_def clean_msg_def recv_meta_def [of mt]\<close>)
  then show ?thesis by (simp add: m recv_regions_def Let_def)
qed

lemma received_built:
  assumes rc: "receivable mt" and m0: "clean_msg m0"
    and s: "slen s = MetaSize + recv_sourceSize mt + recv_destSize mt + unat (Length mt)" "slen s \<le> cap s"
    and l: "length S = 4 * unat (Hops mt)" "length D = 4 * unat (Distance mt)" "length C = unat (Length mt)"
    and a: "arr s \<notin> live" "mem_inv (insert (arr s) live) h"
    and p: "length p = MetaSize"
  shows "received live pid mt S D C
    (recv_regions mt (set_bytes (p @ (be32 pid @ S) @ recv_destination mt D @ C) s) m0) h"
  using recv_built [OF rc m0 s l(1) length_recv_destination [OF rc l(2)] l(3) p refl] a
  by (auto simp: received_def owned_msg_def)

lemma FromBytes_ok:
  assumes inv: "mem_inv live h" and rc: "receivable mt" and tl: "\<not> too_long mx mt"
    and hdr: "length hb = MetaSize" "decodeMetaFrom hb = Some mt"
    and l: "length S = 4 * unat (Hops mt)" "length D = 4 * unat (Distance mt)" "length C = unat (Length mt)"
  obtains m h' where "NewMessageFromBytes pk pid (hb @ S @ D @ C) mx h = (Ok m, h')" "received live pid mt S D C m h'"
proof -
  let ?n = "MetaSize + recv_sourceSize mt + recv_destSize mt + unat (Length mt)"
  let ?D = "recv_destination mt D"
  note sz = receivable_sizes [OF rc] length_recv_destination [OF rc l(2)]
  have "0 < ?n" by (simp add: MetaSize_def)
  then obtain m0 h1 s h2 where g: "msgPool_Get pk h = (m0, h1)" "mem_Alloc ?n pk h1 = (Ok (Some s), h2)"
    and m0: "clean_msg m0" and s: "slen s = ?n" "?n \<le> cap s" "length (sdata s) = ?n"
    and a: "arr s \<notin> live" "mem_inv (insert (arr s) live) h2"
    using new_msg_ok [OF inv, of ?n pk] by metis
  have d: "drop (if SendType mt = SendTypeToDest then 4 else 0) (D @ C) = ?D @ C"
    using sz l by (auto simp: recv_destination_def)
  have "length (sdata s) = MetaSize + (4 + length S) + length ?D + length C" using s(3) sz l by simp
  note b = recv_buffer [OF this, of pid]
  have z: "recv_destSize mt = 0 \<Longrightarrow> ?D = []" using sz(6) by simp
  have "NewMessageFromBytes pk pid (hb @ S @ D @ C) mx h =
      (Ok (recv_regions mt (set_bytes (take MetaSize (sdata s) @ (be32 pid @ S) @ ?D @ C) s) m0), h2)"
    using g tl hdr l sz(1,3,5,6) b d z decodeMetaFrom_append [OF hdr(2), of "S @ D @ C"]
    by (auto simp: NewMessageFromBytes_def Let_def split: if_splits)
  moreover have "received live pid mt S D C
      (recv_regions mt (set_bytes (take MetaSize (sdata s) @ (be32 pid @ S) @ ?D @ C) s) m0) h2"
    by (rule received_built) (use rc m0 s l a in auto)
  ultimately show thesis by (rule that)
qed

lemma ReadFull_append: "n = length a \<Longrightarrow> ReadFull n (rd\<lparr>rd_bytes := a @ b\<rparr>) = (Ok a, rd\<lparr>rd_bytes := b\<rparr>)"
  by (simp add: ReadFull_def)

lemma ReadFull_zero: "ReadFull 0 rd = (Ok [], rd)"
  by (simp add: ReadFull_def)

lemma Discard_append: "n = length a \<Longrightarrow> Discard n (rd\<lparr>rd_bytes := a @ b\<rparr>) = (Ok (), rd\<lparr>rd_bytes := b\<rparr>)"
  by (simp add: Discard_def)

lemma FromReader_ok:
  assumes inv: "mem_inv live h" and rc: "receivable mt" and tl: "\<not> too_long mx mt"
    and hdr: "length hb = MetaSize" "decodeMetaFrom hb = Some mt"
    and l: "length S = 4 * unat (Hops mt)" "length D = 4 * unat (Distance mt)" "length C = unat (Length mt)"
  obtains m h' where
    "NewMessageFromReader stream_rc pk pid (rd\<lparr>rd_bytes := hb @ S @ D @ C @ rest\<rparr>) mx h = Some (Ok m, rd\<lparr>rd_bytes := rest\<rparr>, h')"
    "received live pid mt S D C m h'"
proof -
  let ?n = "MetaSize + recv_sourceSize mt + recv_destSize mt + unat (Length mt)"
  let ?D = "recv_destination mt D"
  note sz = receivable_sizes [OF rc] length_recv_destination [OF rc l(2)]
  have "0 < ?n" by (simp add: MetaSize_def)
  then obtain m0 h1 s h2 where g: "msgPool_Get pk h = (m0, h1)" "mem_Alloc ?n pk h1 = (Ok (Some s), h2)"
    and m0: "clean_msg m0" and s: "slen s = ?n" "?n \<le> cap s" "length (sdata s) = ?n"
    and a: "arr s \<notin> live" "mem_inv (insert (arr s) live) h2"
    using new_msg_ok [OF inv, of ?n pk] by metis
  have r1: "ReadFull MetaSize (rd\<lparr>rd_bytes := hb @ S @ D @ C @ rest\<rparr>) = (Ok hb, rd\<lparr>rd_bytes := S @ D @ C @ rest\<rparr>)"
    using hdr(1) by (simp add: ReadFull_append)
  have r2: "ReadFull (4 * unat (Hops mt)) (rd\<lparr>rd_bytes := S @ D @ C @ rest\<rparr>) = (Ok S, rd\<lparr>rd_bytes := D @ C @ rest\<rparr>)"
    using l(1) by (simp add: ReadFull_append)
  have r3: "(if SendType mt = SendTypeToDest then Discard 4 (rd\<lparr>rd_bytes := D @ C @ rest\<rparr>)
      else (Ok (), rd\<lparr>rd_bytes := D @ C @ rest\<rparr>)) = (Ok (), rd\<lparr>rd_bytes := ?D @ C @ rest\<rparr>)"
    using sz(5) l(2) Discard_append [where n = 4 and a = "take 4 D" and b = "drop 4 D @ C @ rest" and rd = rd]
    by (simp add: recv_destination_def Discard_def)
  have r4: "(if recv_destSize mt > 0 then ReadFull (recv_destSize mt) (rd\<lparr>rd_bytes := ?D @ C @ rest\<rparr>)
      else (Ok [], rd\<lparr>rd_bytes := ?D @ C @ rest\<rparr>)) = (Ok ?D, rd\<lparr>rd_bytes := C @ rest\<rparr>)"
    using sz(6) by (auto simp: ReadFull_append)
  have r5: "ReadFull (unat (Length mt)) (rd\<lparr>rd_bytes := C @ rest\<rparr>) = (Ok C, rd\<lparr>rd_bytes := rest\<rparr>)"
    using l(3) by (simp add: ReadFull_append)
  have "length (sdata s) = MetaSize + (4 + length S) + length ?D + length C" using s(3) sz l by simp
  note b = recv_buffer [OF this, of pid]
  have "NewMessageFromReader stream_rc pk pid (rd\<lparr>rd_bytes := hb @ S @ D @ C @ rest\<rparr>) mx h =
      Some (Ok (recv_regions mt (set_bytes (take MetaSize (sdata s) @ (be32 pid @ S) @ ?D @ C) s) m0),
       rd\<lparr>rd_bytes := rest\<rparr>, h2)"
    unfolding FromReader_defs Let_def
    using g tl hdr(2) l sz(1,6) b r3 r4 by (auto simp: r1 r2 r5 split: if_splits)
  moreover have "received live pid mt S D C
      (recv_regions mt (set_bytes (take MetaSize (sdata s) @ (be32 pid @ S) @ ?D @ C) s) m0) h2"
    by (rule received_built) (use rc m0 s l a in auto)
  ultimately show thesis by (rule that)
qed

text \<open>
  In process: everything but the destination arrives. The destination region is what the
  pool's buffer held before, moved four bytes to the left.
\<close>

lemma FromMsg_ok:
  assumes inv: "mem_inv live h" and rc: "receivable (meta sm)" and tl: "\<not> too_long mx (meta sm)"
    and wf: "wf_msg sm" and nd: "recv_destSize (meta sm) = 0"
  obtains m h' where "NewMessageFromMsg pk pid sm mx h = (Ok m, h')"
    "received live pid (meta sm) (Source sm) (Destination sm) (Content sm) m h'"
proof -
  let ?mt = "meta sm"
  let ?n = "MetaSize + recv_sourceSize ?mt + recv_destSize ?mt + unat (Length ?mt)"
  let ?D = "recv_destination ?mt (Destination sm)"
  note l = wf_msg_layout [OF wf]
  note sz = receivable_sizes [OF rc] length_recv_destination [OF rc l(3)]
  have "0 < ?n" by (simp add: MetaSize_def)
  then obtain m0 h1 s h2 where g: "msgPool_Get pk h = (m0, h1)" "mem_Alloc ?n pk h1 = (Ok (Some s), h2)"
    and m0: "clean_msg m0" and s: "slen s = ?n" "?n \<le> cap s" "length (sdata s) = ?n"
    and a: "arr s \<notin> live" "mem_inv (insert (arr s) live) h2"
    using new_msg_ok [OF inv, of ?n pk] by metis
  have z: "?D = []" using sz(6) nd by simp
  have "length (sdata s) = MetaSize + (4 + length (Source sm)) + length ?D + length (Content sm)" using s(3) sz l by simp
  note b = recv_buffer [OF this, of pid]
  have "NewMessageFromMsg pk pid sm mx h =
      (Ok (recv_regions ?mt (set_bytes (take MetaSize (sdata s) @ (be32 pid @ Source sm) @ ?D @ Content sm) s) m0), h2)"
    using g tl l sz(1,3,5,6) b z nd by (simp add: NewMessageFromMsg_def Let_def)
  moreover have "received live pid ?mt (Source sm) (Destination sm) (Content sm)
      (recv_regions ?mt (set_bytes (take MetaSize (sdata s) @ (be32 pid @ Source sm) @ ?D @ Content sm) s) m0) h2"
    by (rule received_built) (use rc m0 s l a in auto)
  ultimately show thesis by (rule that)
qed

lemma mem_Alloc_fresh:
  "pick_bytes pk = None \<Longrightarrow> mem_Alloc n pk h = (Ok (Some s), h') \<Longrightarrow> set (sdata s) \<subseteq> {0}"
proof -
  have get: "set (backing (fst (pool_Get None a pi))) \<subseteq> {0}" for a pi
    by (auto simp: pool_Get_def make_slice_def)
  have "set (backing s) \<subseteq> {0}" if "alloc_loop n None a pis = Some (Ok s, pis', a')" for a pis pis' a'
  proof -
    from alloc_loop_Some [OF that] obtain i s' pi' where
      "pool_Get None a (pis ! i) = (s', pi', a')" "Ok s = (if n \<le> cap s' then Ok (s'\<lparr>slen := n\<rparr>) else Panic)" by blast
    with get [of a "pis ! i"] show ?thesis by (auto split: if_splits)
  qed
  moreover assume "pick_bytes pk = None" "mem_Alloc n pk h = (Ok (Some s), h')"
  ultimately have "set (backing s) \<subseteq> {0}"
    by (auto simp: mem_Alloc_def Alloc_def make_slice_def split: if_splits option.splits prod.splits outcome.splits)
  then show ?thesis using set_take_subset [of "slen s" "backing s"] unfolding sdata_def by blast
qed

text \<open>With hops left, the destination of the new message is the old content of the new buffer.\<close>

lemma FromMsg_stale:
  assumes inv: "mem_inv live h" and rc: "receivable (meta sm)" and tl: "\<not> too_long mx (meta sm)"
    and wf: "wf_msg sm" and nd: "4 \<le> recv_destSize (meta sm)" and pk: "pick_bytes pk = None"
  obtains m h' x where "NewMessageFromMsg pk pid sm mx h = (Ok m, h')" "Content m = Content sm"
    "length x = recv_destSize (meta sm)" "set x \<subseteq> {0}" "Destination m = drop 4 x @ drop (length x - 4) x"
proof -
  let ?mt = "meta sm"
  let ?n = "MetaSize + recv_sourceSize ?mt + recv_destSize ?mt + unat (Length ?mt)"
  note l = wf_msg_layout [OF wf]
  note sz = receivable_sizes [OF rc]
  have "0 < ?n" by (simp add: MetaSize_def)
  then obtain m0 h1 s h2 where g: "msgPool_Get pk h = (m0, h1)" "mem_Alloc ?n pk h1 = (Ok (Some s), h2)"
    and m0: "clean_msg m0" and s: "slen s = ?n" "?n \<le> cap s" "length (sdata s) = ?n"
    using new_msg_ok [OF inv, of ?n pk] by metis
  have "length (sdata s) = MetaSize + (4 + length (Source sm)) + recv_destSize ?mt + length (Content sm)"
    using s(3) sz l by simp
  then obtain p q x t where d: "sdata s = p @ q @ x @ t" and le: "length p = MetaSize"
    "length q = 4 + length (Source sm)" "length x = recv_destSize ?mt" "length t = length (Content sm)"
    using split_regions by metis
  define q1 q2 where "q1 = take 4 q" and "q2 = drop 4 q"
  have q: "q = q1 @ q2" "length q1 = 4" "length q2 = length (Source sm)" using le(2) by (simp_all add: q1_def q2_def)
  let ?X = "drop 4 x @ drop (length x - 4) x"
  let ?pre = "p @ be32 pid @ Source sm"
  have d2: "overwrite MetaSize (be32 pid) (overwrite (MetaSize + 4) (Source sm) (sdata s)) = ?pre @ x @ t"
    using le(1) q overwrite_mid [of "p @ q1" "MetaSize + 4" q2 "Source sm" "x @ t"]
      overwrite_mid [of p MetaSize q1 "be32 pid" "Source sm @ x @ t"] by (simp add: d)
  have to1: "MetaSize + recv_sourceSize ?mt = length ?pre" using le(1) sz(1) l(2) by simp
  have d3: "overwrite (length ?pre) (drop 4 x) (?pre @ x @ t) = ?pre @ ?X @ t"
    using nd le(3) by (simp add: overwrite_def)
  have d4: "overwrite (length ?pre + length x) (Content sm) (?pre @ ?X @ t) = ?pre @ ?X @ Content sm"
    using nd le(3,4) overwrite_mid [of "?pre @ ?X" "length ?pre + length x" t "Content sm" "[]"] by simp
  have x: "go_slice (length ?pre) (length ?pre + length x) (?pre @ x @ t) = x"
    by (rule go_slice_append) auto
  have e: "take (recv_sourceSize ?mt - 4) (Source sm) = Source sm" "\<not> recv_sourceSize ?mt < 4"
    "take (unat (Length ?mt)) (Content sm) = Content sm" using sz(1) l(2,4) by simp_all
  let ?m = "recv_regions ?mt (set_bytes (p @ (be32 pid @ Source sm) @ ?X @ Content sm) s) m0"
  have "NewMessageFromMsg pk pid sm mx h = (Ok ?m, h2)"
    using g tl nd unfolding NewMessageFromMsg_def Let_def to1
    by (simp add: e d2 d3 d4 x le(3) [symmetric] del: append_assoc length_append) auto
  moreover have "wf_msg ?m \<and> meta ?m = recv_meta ?mt \<and> Source ?m = be32 pid @ Source sm \<and> Destination ?m = ?X \<and>
      Content ?m = Content sm \<and> msg_arr ?m = Some (arr s)"
    by (rule recv_built [OF rc m0, where p = p]) (use s l le nd in auto)
  moreover have "set x \<subseteq> {0}" using mem_Alloc_fresh [OF pk g(2)] by (auto simp: d)
  ultimately show thesis using le(3) by (intro that [of ?m h2 x]) auto
qed

lemma Dup_ok:
  assumes inv: "mem_inv live h" and wf: "wf_msg m"
  obtains d h' where "Dup pk m h = (Ok d, h')" "owned_msg live d h'" "meta d = meta m" "Source d = Source m"
    "Destination d = Destination m" "Content d = Content m"
proof -
  note l = wf_msg_layout [OF wf]
  let ?n = "length (buf_bytes m)"
  have "0 < ?n" using l(5) unfolding MetaSize_def by linarith
  then obtain m0 h1 s h2 where g: "msgPool_Get pk h = (m0, h1)" "mem_Alloc ?n pk h1 = (Ok (Some s), h2)"
    and m0: "clean_msg m0" and s: "slen s = ?n" "?n \<le> cap s" "length (sdata s) = ?n"
    and a: "arr s \<notin> live" "mem_inv (insert (arr s) live) h2"
    using new_msg_ok [OF inv, of ?n pk] by metis
  have len: "?n = MetaSize + 4 * unat (Hops (meta m)) + 4 * unat (Distance (meta m)) + unat (Length (meta m))"
    using wf_msg_buf [OF wf] by metis
  let ?p = "take MetaSize (buf_bytes m)"
  let ?to1 = "MetaSize + 4 * unat (Hops (meta m))"
  let ?to2 = "?to1 + 4 * unat (Distance (meta m))"
  define d where "d = m0\<lparr>meta := meta m, buf := Some (set_bytes (?p @ Source m @ Destination m @ Content m) s),
    source_r := Some (MetaSize, ?to1), dest_r := Some (?to1, ?to2), content_r := Some (?to2, ?to2 + unat (Length (meta m)))\<rparr>"
  have "overwrite 0 (buf_bytes m) (sdata s) = ?p @ Source m @ Destination m @ Content m"
    using s(3) l(1) by (simp add: overwrite_def)
  then have eq: "Dup pk m h = (Ok d, h2)"
    using g s(2) len by (simp add: Dup_def Let_def d_def)
  have "wf_msg d \<and> Source d = Source m \<and> Destination d = Destination m \<and> Content d = Content m \<and> msg_arr d = Some (arr s)"
    by (rule built_msg [where p = ?p]) (use s l len in \<open>auto simp: d_def region_is_def\<close>)
  then show thesis using a by (intro that [OF eq]) (auto simp: owned_msg_def d_def)
qed

section \<open>Messages on a stream\<close>

text \<open>
  A reader that takes one frame off the front of a stream reads a concatenation of frames
  one by one, whatever follows them.
\<close>

locale framed_stream =
  fixes frame :: "'m \<Rightarrow> bytes"
    and step :: "'c \<Rightarrow> bytes \<Rightarrow> 'h \<Rightarrow> ('d \<times> bytes \<times> 'h) option"
    and good :: "'m \<Rightarrow> bool"
    and delivered :: "'m \<Rightarrow> 'd \<Rightarrow> bool"
    and hinv :: "'h \<Rightarrow> bool"
  assumes step_frame: "good m \<Longrightarrow> hinv h \<Longrightarrow>
      \<exists>d h'. step c (frame m @ rest) h = Some (d, rest, h') \<and> delivered m d \<and> hinv h'"
begin

fun read_n :: "'c list \<Rightarrow> bytes \<Rightarrow> 'h \<Rightarrow> ('d list \<times> bytes \<times> 'h) option" where
  "read_n [] b h = Some ([], b, h)"
| "read_n (c # cs) b h =
     (case step c b h of
        None \<Rightarrow> None
      | Some (d, b', h') \<Rightarrow> map_option (\<lambda>(ds, b'', h''). (d # ds, b'', h'')) (read_n cs b' h'))"

lemma read_frames:
  "length cs = length ms \<Longrightarrow> \<forall>m \<in> set ms. good m \<Longrightarrow> hinv h \<Longrightarrow>
     \<exists>ds h'. read_n cs (concat (map frame ms) @ rest) h = Some (ds, rest, h') \<and> list_all2 delivered ms ds \<and> hinv h'"
proof (induction cs ms arbitrary: h rule: list_induct2)
  case Nil
  then show ?case by simp
next
  case (Cons c cs m ms)
  from Cons.prems step_frame [of m h c "concat (map frame ms) @ rest"]
  obtain d h1 where d: "step c (frame m @ concat (map frame ms) @ rest) h = Some (d, concat (map frame ms) @ rest, h1)"
    "delivered m d" "hinv h1" by auto
  from Cons.IH [OF _ d(3)] Cons.prems(1) obtain ds h2 where
    "read_n cs (concat (map frame ms) @ rest) h1 = Some (ds, rest, h2)" "list_all2 delivered ms ds" "hinv h2"
    by auto
  with d show ?case by auto
qed

end

definition delivers :: "u32 \<Rightarrow> message \<Rightarrow> message \<Rightarrow> bool" where
  "delivers pid m d \<longleftrightarrow>
     wf_msg d \<and> meta d = recv_meta (meta m) \<and> Source d = be32 pid @ Source m \<and>
     Destination d = recv_destination (meta m) (Destination m) \<and> Content d = Content m"

definition read_step :: "u32 \<Rightarrow> u32 \<Rightarrow> err \<Rightarrow> picks \<Rightarrow> bytes \<Rightarrow> mem \<Rightarrow> (message \<times> bytes \<times> mem) option" where
  "read_step pid mx e pk b h =
     (case NewMessageFromReader stream_rc pk pid \<lparr>rd_bytes = b, rd_end = e, rd_closed = False\<rparr> mx h of
        Some (Ok m, rd, h') \<Rightarrow> Some (m, rd_bytes rd, h')
      | _ \<Rightarrow> None)"

definition sendable :: "u32 \<Rightarrow> message \<Rightarrow> bool" where
  "sendable mx m \<longleftrightarrow> wf_msg m \<and> receivable (meta m) \<and> \<not> too_long mx (meta m)"

definition mem_good :: "mem \<Rightarrow> bool" where
  "mem_good h \<longleftrightarrow> (\<exists>live. mem_inv live h)"

lemma received_delivers:
  "received live pid (meta m) (Source m) (Destination m) (Content m) d h \<Longrightarrow> delivers pid m d \<and> mem_good h"
  by (auto simp: received_def delivers_def owned_msg_def mem_good_def)

lemma read_step_wire:
  assumes "sendable mx m" "mem_good h"
  shows "\<exists>d h'. read_step pid mx e pk (wire m @ rest) h = Some (d, rest, h') \<and> delivers pid m d \<and> mem_good h'"
proof -
  from assms obtain live where inv: "mem_inv live h" and s: "wf_msg m" "receivable (meta m)" "\<not> too_long mx (meta m)"
    by (auto simp: sendable_def mem_good_def)
  let ?hb = "encodeTo (meta m) (replicate MetaSize 0)"
  let ?rd = "\<lparr>rd_bytes = [], rd_end = e, rd_closed = False\<rparr>"
  obtain d h' where
    "NewMessageFromReader stream_rc pk pid (?rd\<lparr>rd_bytes := ?hb @ Source m @ Destination m @ Content m @ rest\<rparr>) mx h =
       Some (Ok d, ?rd\<lparr>rd_bytes := rest\<rparr>, h')" "received live pid (meta m) (Source m) (Destination m) (Content m) d h'"
    using FromReader_ok [OF inv s(2,3), of ?hb] wf_msg_layout [OF s(1)] by (metis decode_encode length_encodeTo length_replicate order_refl)
  then show ?thesis
    using received_delivers by (fastforce simp: read_step_def wire_def)
qed

interpretation fr: framed_stream wire "read_step pid mx e" "sendable mx" "delivers pid" mem_good
  for pid mx e
  by unfold_locales (rule read_step_wire)

section \<open>Relaying along a path\<close>






lemma FromBytes_wire:
  assumes "mem_inv live h" "sendable mx m"
  obtains d h' where "NewMessageFromBytes pk pid (wire m) mx h = (Ok d, h')"
    "received live pid (meta m) (Source m) (Destination m) (Content m) d h'"
proof -
  from assms(2) have s: "wf_msg m" "receivable (meta m)" "\<not> too_long mx (meta m)" by (auto simp: sendable_def)
  show thesis
    using FromBytes_ok [OF assms(1) s(2,3), of "encodeTo (meta m) (replicate MetaSize 0)"] wf_msg_layout [OF s(1)] that
    unfolding wire_def by (metis decode_encode length_encodeTo length_replicate order_refl)
qed



lemma SendType_recv_meta [simp]: "SendType (recv_meta mt) = SendType mt"
  by (simp add: SendType_def recv_meta_def)


lemma example_msg:
  "\<exists>m h. sendable 0 m \<and> mem_good h \<and> Content m = [1, 2, 3] \<and> Source m = [] \<and> Destination m = [] \<and>
     SendType (meta m) = SendTypeToOne \<and> \<not> HasFlags (meta m) MsgFlagRaw"
proof -
  have p: "path_ok []" "length [1, 2, 3 :: u8] < 2 ^ 32" by (simp_all add: path_ok_def)
  obtain m h where m: "owned_msg {} m h" "meta m = send_meta 0 SendTypeToOne 0 [] [] [1, 2, 3]"
    "Source m = []" "Destination m = []" "Content m = [1, 2, 3]"
    by (rule NewSendMessage_ok [OF mem_inv_init p(1) p(1) p(2)])
  have "receivable (meta m)" "\<not> too_long 0 (meta m)" "SendType (meta m) = SendTypeToOne" "\<not> HasFlags (meta m) MsgFlagRaw"
    by (simp_all add: m(2) send_meta_def receivable_def path_Length_def send_type_defs too_long_def HasFlags_def msg_flag_defs)
  moreover have "wf_msg m" "mem_good h" using m(1) by (auto simp: owned_msg_def mem_good_def)
  ultimately show ?thesis using m(3-5) unfolding sendable_def by blast
qed

section \<open>Properties\<close>

text \<open>
  the meta data codec is a bijection on the first eight bytes: what \<open>encodeTo\<close> writes,
  \<open>decodeMetaFrom\<close> reads back, and re-encoding decoded meta data changes no byte.
\<close>

theorem meta_codec_roundtrip:
  assumes "MetaSize \<le> length b"
  shows "decodeMetaFrom (encodeTo m b) = Some m \<and>
    (\<exists>mt. decodeMetaFrom b = Some mt \<and> encodeTo mt b = b)"
proof -
  obtain mt where "decodeMetaFrom b = Some mt"
    using assms decodeMetaFrom_None_iff [of b] by fastforce
  then show ?thesis using decode_encode [OF assms] encode_decode by blast
qed

theorem meta_codec_roundtrip_witness:
  "MetaSize \<le> length [2, 16, 0, 1, 0, 0, 1, 2, 99 :: u8] \<and>
   (\<exists>mt. decodeMetaFrom [2, 16, 0, 1, 0, 0, 1, 2, 99] = Some mt \<and> Length mt = 258 \<and>
     encodeTo mt [2, 16, 0, 1, 0, 0, 1, 2, 99] = [2, 16, 0, 1, 0, 0, 1, 2, 99])"
proof -
  have l: "MetaSize \<le> length [2, 16, 0, 1, 0, 0, 1, 2, 99 :: u8]" by (simp add: MetaSize_def)
  have "decodeMetaFrom [2, 16, 0, 1, 0, 0, 1, 2, 99] =
      Some \<lparr>Flags = 2, TTL = 16, Hops = 0, Distance = 1, Length = 258\<rparr>" by code_simp
  with l meta_codec_roundtrip [OF l] show ?thesis by auto
qed

text \<open>
  C1: a message created for sending decodes at the receiver to the same content, with the
  receiving pipe's id in front of the source, one hop more, one unit of life less and, for
  a message to a destination, the first hop of the path removed.
\<close>

theorem send_receive_roundtrip:
  assumes "mem_inv live h" and "path_ok src" and "path_ok dest" and "length content < 2 ^ 32"
    and "length src < 1020" and "length src + length dest < 1024" and "st = SendTypeToDest \<Longrightarrow> dest \<noteq> []"
    and "st = SendTypeToOne \<or> st = SendTypeToAll \<or> st = SendTypeToDest"
    and "mx = 0 \<or> length content \<le> unat mx"
  shows "\<exists>m h1 b m' d h2. NewSendMessage pk 0 st ttl src dest content h = (Ok m, h1) \<and> Encode m = Ok (b, m') \<and>
    NewMessageFromBytes pk' pid b mx h1 = (Ok d, h2) \<and> wf_msg d \<and>
    Source d = be32 pid @ src \<and> Content d = content \<and>
    Destination d = (if st = SendTypeToDest then drop 4 dest else dest) \<and>
    TTL (meta d) = (if ttl = 0 then DefaultMsgTTL else ttl) - 1 \<and> SendType (meta d) = st"
proof -
  obtain m h1 where m: "NewSendMessage pk 0 st ttl src dest content h = (Ok m, h1)" "owned_msg live m h1"
    "meta m = send_meta 0 st ttl src dest content" "Source m = src" "Destination m = dest" "Content m = content"
    using NewSendMessage_ok [OF assms(1-4)] by metis
  from m(2) obtain a where wf: "wf_msg m" and inv: "mem_inv (insert a live) h1" by (auto simp: owned_msg_def)
  have st: "SendType (meta m) = st" using assms(8) by (auto simp: m(3) send_meta_def send_type_defs)
  have len: "unat (Length (meta m)) = length content"
    using assms(4) by (simp add: m(3) send_meta_def unat_Length_of_nat)
  have "4 * unat (Hops (meta m)) = length src" "4 * unat (Distance (meta m)) = length dest"
    using assms(2,3) by (simp_all add: m(3) send_meta_def path_ok_Length)
  moreover from this(2) have "dest \<noteq> [] \<Longrightarrow> 0 < unat (Distance (meta m))" by (cases dest) auto
  ultimately have "receivable (meta m)"
    using assms(5,6,7) st by (auto simp: receivable_def)
  moreover have "\<not> too_long mx (meta m)"
    using assms(9) len by (auto simp: too_long_def word_less_nat_alt)
  ultimately have "sendable mx m" using wf by (simp add: sendable_def)
  then obtain d h2 where d: "NewMessageFromBytes pk' pid (wire m) mx h1 = (Ok d, h2)"
    "received (insert a live) pid (meta m) (Source m) (Destination m) (Content m) d h2"
    using FromBytes_wire [OF inv] by metis
  from d(2) have dd: "wf_msg d" "meta d = recv_meta (meta m)" "Source d = be32 pid @ src"
    "Destination d = recv_destination (meta m) dest" "Content d = content"
    by (simp_all add: received_def owned_msg_def m(4-6))
  have "Destination d = (if st = SendTypeToDest then drop 4 dest else dest)"
    by (simp add: dd(4) recv_destination_def st)
  moreover have "TTL (meta d) = (if ttl = 0 then DefaultMsgTTL else ttl) - 1" "SendType (meta d) = st"
    by (simp_all add: dd(2) st) (simp_all add: recv_meta_def m(3) send_meta_def)
  moreover obtain m' where "Encode m = Ok (wire m, m')" using Encode_ok [OF wf] by metis
  ultimately show ?thesis using m(1) d(1) dd(1,3,5) by blast
qed

theorem send_receive_roundtrip_witness:
  "\<exists>m h1 b m' d h2. NewSendMessage fresh_picks 0 SendTypeToDest 0 [] (be32 5 @ be32 7) [1, 2, 3] init_mem = (Ok m, h1) \<and>
    Encode m = Ok (b, m') \<and>
    NewMessageFromBytes fresh_picks 9 b 128 h1 = (Ok d, h2) \<and> wf_msg d \<and>
    Source d = be32 9 @ [] \<and> Content d = [1, 2, 3] \<and> Destination d = be32 7 \<and>
    TTL (meta d) = 15 \<and> SendType (meta d) = SendTypeToDest"
proof -
  have "path_ok []" "path_ok (be32 5 @ be32 7)" by (simp_all add: path_ok_def)
  from send_receive_roundtrip [OF mem_inv_init this, of "[1, 2, 3]" SendTypeToDest 128
      fresh_picks 0 fresh_picks 9]
  show ?thesis by (simp add: DefaultMsgTTL_def be32_def)
qed

text \<open>
  C2: messages encoded one after the other onto a stream are read back by
  \<open>NewMessageFromReader\<close> one by one, in order and complete, and the bytes that follow them
  stay on the stream.
\<close>

theorem stream_framing:
  assumes "length pks = length ms" and "\<forall>m \<in> set ms. sendable mx m" and "mem_good h"
  shows "\<exists>ds h'. fr.read_n pid mx e pks (concat (map wire ms) @ rest) h = Some (ds, rest, h') \<and>
    list_all2 (delivers pid) ms ds \<and> mem_good h'"
  using fr.read_frames [OF assms] .

theorem stream_framing_witness:
  "\<exists>m h. sendable 0 m \<and> mem_good h \<and>
    (\<exists>ds h'. fr.read_n 9 0 EOF [fresh_picks, fresh_picks]
       (concat (map wire [m, m]) @ [7, 7]) h = Some (ds, [7, 7], h') \<and> list_all2 (delivers 9) [m, m] ds \<and> mem_good h')"
proof -
  let ?p = fresh_picks
  obtain m h where m: "sendable 0 m" "mem_good h" using example_msg by blast
  have "\<forall>x \<in> set [m, m]. sendable 0 x" "length [?p, ?p] = length [m, m]" using m(1) by simp_all
  from stream_framing [OF this(2,1) m(2)] m show ?thesis by blast
qed



text \<open>
  C28: on a header whose path lengths fit, \<open>NewMessageFromBytes\<close> never panics and accepts
  exactly the packets of the announced length whose content is within the limit; a content
  over the limit is refused as too long, every other length as a bad message, and a refusal
  leaves the pools consistent.
\<close>

theorem FromBytes_accepts_iff:
  assumes "mem_inv live h" and "decodeMetaFrom b = Some mt" and "receivable mt"
  shows "case NewMessageFromBytes pk pid b mx h of
      (Ok d, h') \<Rightarrow> \<not> too_long mx mt \<and> length b = MetaSize + 4 * (unat (Hops mt) + unat (Distance mt)) + unat (Length mt) \<and>
        owned_msg live d h'
    | (Error e, h') \<Rightarrow> mem_inv live h' \<and> (if too_long mx mt then e = ErrContentTooLong
        else e = ErrBadMsg \<and> length b \<noteq> MetaSize + 4 * (unat (Hops mt) + unat (Distance mt)) + unat (Length mt))
    | (Panic, h') \<Rightarrow> False"
proof -
  obtain m0 h1 where g: "msgPool_Get pk h = (m0, h1)" by (cases "msgPool_Get pk h")
  have inv1: "mem_inv live (msg_Free m0 h1)" using msgPool_Get_ok [OF assms(1) g] by (simp add: msg_Free_inv)
  have nb: "\<not> length b < MetaSize" using assms(2) decodeMetaFrom_None_iff [of b] by auto
  note sz = receivable_sizes(3) [OF assms(3)]
  consider (long) "too_long mx mt"
    | (bad) "\<not> too_long mx mt" "length b \<noteq> MetaSize + 4 * (unat (Hops mt) + unat (Distance mt)) + unat (Length mt)"
    | (good) "\<not> too_long mx mt" "length b = MetaSize + 4 * (unat (Hops mt) + unat (Distance mt)) + unat (Length mt)"
    by blast
  then show ?thesis
  proof cases
    case long
    then show ?thesis using g inv1 nb assms(2) by (simp add: NewMessageFromBytes_def)
  next
    case bad
    then have "length (drop MetaSize b) \<noteq> 4 * unat (Hops mt + Distance mt) + unat (Length mt)" using nb sz by auto
    with bad(1) have "NewMessageFromBytes pk pid b mx h = (Error ErrBadMsg, msg_Free m0 h1)"
      using g nb assms(2) by (simp add: NewMessageFromBytes_def)
    with bad inv1 show ?thesis by simp
  next
    case good
    from good(2) have "length b = MetaSize + 4 * unat (Hops mt) + 4 * unat (Distance mt) + unat (Length mt)" by simp
    from split_regions [OF this] obtain p S D C where b: "b = p @ S @ D @ C" and l: "length p = MetaSize"
      "length S = 4 * unat (Hops mt)" "length D = 4 * unat (Distance mt)" "length C = unat (Length mt)" by metis
    obtain mt' where p: "decodeMetaFrom p = Some mt'" using decodeMetaFrom_None_iff [of p] l(1) by auto
    then have "decodeMetaFrom p = Some mt"
      using assms(2) decodeMetaFrom_append [OF p, of "S @ D @ C"] b by simp
    from FromBytes_ok [OF assms(1,3) good(1) l(1) this l(2-4)] obtain d h' where
      "NewMessageFromBytes pk pid b mx h = (Ok d, h')" "received live pid mt S D C d h'" unfolding b by metis
    with good show ?thesis by (simp add: received_def)
  qed
qed

theorem FromBytes_accepts_iff_witness:
  "decodeMetaFrom [0, 16, 0, 0, 0, 0, 0, 2, 65, 66] = Some \<lparr>Flags = 0, TTL = 16, Hops = 0, Distance = 0, Length = 2\<rparr> \<and>
   (\<exists>d h'. NewMessageFromBytes fresh_picks 3 [0, 16, 0, 0, 0, 0, 0, 2, 65, 66] 0 init_mem = (Ok d, h') \<and>
     owned_msg {} d h')"
proof -
  let ?mt = "\<lparr>Flags = 0, TTL = 16, Hops = 0, Distance = 0, Length = 2\<rparr>"
  have d: "decodeMetaFrom [0, 16, 0, 0, 0, 0, 0, 2, 65, 66] = Some ?mt" by code_simp
  have r: "receivable ?mt" by (simp add: receivable_def send_type_defs)
  from FromBytes_accepts_iff [OF mem_inv_init d r, where pk = fresh_picks and pid = 3 and mx = 0] d show ?thesis
    by (auto simp: too_long_def MetaSize_def split: prod.splits outcome.splits)
qed

text \<open>
  C29: a packet that claims 255 hops and has the length the header announces modulo 256
  makes \<open>NewMessageFromBytes\<close> panic: \<open>Hops + 1\<close> wraps to 0 and the source region is too
  small for the pipe id.
\<close>

theorem FromBytes_panics_on_255_hops:
  assumes "mem_inv live h" and "decodeMetaFrom b = Some mt" and "Hops mt = 255" and "\<not> too_long mx mt"
    and "length b = MetaSize + 4 * unat (Hops mt + Distance mt) + unat (Length mt)"
  shows "\<exists>h'. NewMessageFromBytes pk pid b mx h = (Panic, h')"
proof -
  let ?n = "MetaSize + recv_sourceSize mt + recv_destSize mt + unat (Length mt)"
  have "0 < ?n" by (simp add: MetaSize_def)
  then obtain m0 h1 s h2 where g: "msgPool_Get pk h = (m0, h1)" "mem_Alloc ?n pk h1 = (Ok (Some s), h2)"
    using new_msg_ok [OF assms(1), of ?n pk] by metis
  have "recv_sourceSize mt = 0" using assms(3) by (simp add: recv_sourceSize_def)
  with g assms(2,4,5) show ?thesis by (simp add: NewMessageFromBytes_def Let_def)
qed

theorem FromBytes_panics_on_255_hops_witness:
  "decodeMetaFrom [0, 1, 255, 1, 0, 0, 0, 0] = Some \<lparr>Flags = 0, TTL = 1, Hops = 255, Distance = 1, Length = 0\<rparr> \<and>
   (\<exists>h'. NewMessageFromBytes fresh_picks 3 [0, 1, 255, 1, 0, 0, 0, 0] 128 init_mem = (Panic, h'))"
proof -
  have d: "decodeMetaFrom [0, 1, 255, 1, 0, 0, 0, 0] = Some \<lparr>Flags = 0, TTL = 1, Hops = 255, Distance = 1, Length = 0\<rparr>"
    by code_simp
  from FromBytes_panics_on_255_hops [OF mem_inv_init d] d show ?thesis by (simp add: too_long_def MetaSize_def)
qed

text \<open>
  \<open>Dup\<close> of a well-formed message is a well-formed message with the same meta data,
  source, destination and content in an array that nobody else holds, so writing or freeing
  one of the two never changes the other.
\<close>

theorem Dup_independent_copy:
  assumes "mem_inv live h" and "wf_msg m"
  shows "\<exists>d h'. Dup pk m h = (Ok d, h') \<and> wf_msg d \<and> meta d = meta m \<and> Source d = Source m \<and>
    Destination d = Destination m \<and> Content d = Content m \<and>
    (\<exists>a. msg_arr d = Some a \<and> a \<notin> live \<and> mem_inv (insert a live) h')"
proof -
  obtain d h' where "Dup pk m h = (Ok d, h')" "owned_msg live d h'" "meta d = meta m" "Source d = Source m"
    "Destination d = Destination m" "Content d = Content m" using Dup_ok [OF assms] by metis
  then show ?thesis by (auto simp: owned_msg_def)
qed

theorem Dup_independent_copy_witness:
  "\<exists>m h live. mem_inv live h \<and> wf_msg m \<and> (\<exists>d h'. Dup fresh_picks m h = (Ok d, h') \<and> Content d = [1, 2, 3])"
proof -
  obtain m h where m: "sendable 0 m" "mem_good h" "Content m = [1, 2, 3]" using example_msg by blast
  then obtain live where l: "mem_inv live h" and w: "wf_msg m" by (auto simp: mem_good_def sendable_def)
  from Dup_independent_copy [OF l w, of fresh_picks] m(3) l w show ?thesis by metis
qed

text \<open>
  C30: the in-process constructor agrees with the wire: a message whose path is used up (or
  that has none) is rebuilt from the peer's message exactly as it would be from its bytes.
\<close>

theorem FromMsg_agrees_with_wire:
  assumes "mem_inv live h" and "sendable mx m" and "recv_destSize (meta m) = 0"
  shows "\<exists>d h1 b m' e h2. NewMessageFromMsg pk pid m mx h = (Ok d, h1) \<and> Encode m = Ok (b, m') \<and>
    NewMessageFromBytes pk pid b mx h = (Ok e, h2) \<and> meta d = meta e \<and> Source d = Source e \<and>
    Destination d = Destination e \<and> Content d = Content e"
proof -
  from assms(2) have s: "wf_msg m" "receivable (meta m)" "\<not> too_long mx (meta m)" by (auto simp: sendable_def)
  obtain d h1 where d: "NewMessageFromMsg pk pid m mx h = (Ok d, h1)"
    "received live pid (meta m) (Source m) (Destination m) (Content m) d h1"
    using FromMsg_ok [OF assms(1) s(2,3,1) assms(3)] by metis
  obtain e h2 where e: "NewMessageFromBytes pk pid (wire m) mx h = (Ok e, h2)"
    "received live pid (meta m) (Source m) (Destination m) (Content m) e h2"
    using FromBytes_wire [OF assms(1,2)] by metis
  obtain m' where "Encode m = Ok (wire m, m')" using Encode_ok [OF s(1)] by metis
  with d e show ?thesis unfolding received_def by metis
qed

theorem FromMsg_agrees_with_wire_witness:
  "\<exists>m h live. mem_inv live h \<and> sendable 0 m \<and> recv_destSize (meta m) = 0 \<and>
    (\<exists>d h1 b m' e h2. NewMessageFromMsg fresh_picks 4 m 0 h = (Ok d, h1) \<and> Encode m = Ok (b, m') \<and>
      NewMessageFromBytes fresh_picks 4 b 0 h = (Ok e, h2) \<and> Content d = Content e)"
proof -
  obtain m h where m: "sendable 0 m" "mem_good h" "Destination m = []" "SendType (meta m) = SendTypeToOne"
    using example_msg by blast
  then obtain live where l: "mem_inv live h" by (auto simp: mem_good_def)
  have "unat (Distance (meta m)) = 0" using wf_msg_layout(3) [of m] m(1,3) by (simp add: sendable_def)
  then have z: "recv_destSize (meta m) = 0" using m(4) by (simp add: recv_destSize_def send_type_defs)
  from FromMsg_agrees_with_wire [OF l m(1) z, of fresh_picks 4] l m(1) z show ?thesis by metis
qed

text \<open>
  on an in-process pipe a message with hops left loses its path. A message sent along
  the pipes \<open>p\<close>, \<open>q\<close> must arrive with the destination \<open>q\<close>; rebuilt from the peer's
  message it arrives with whatever the pool's buffer held, four zero bytes for a fresh one.
\<close>

theorem FromMsg_loses_destination:
  assumes "length content < 2 ^ 32"
  shows "\<exists>m h1 d h2. NewSendMessage fresh_picks 0 SendTypeToDest ttl [] (be32 p @ be32 q) content init_mem = (Ok m, h1) \<and>
    recv_destination (meta m) (Destination m) = be32 q \<and>
    NewMessageFromMsg fresh_picks pid m 0 h1 = (Ok d, h2) \<and> Content d = content \<and> Destination d = [0, 0, 0, 0]"
proof -
  have po: "path_ok []" "path_ok (be32 p @ be32 q)" by (simp_all add: path_ok_def)
  obtain m h1 where m: "NewSendMessage fresh_picks 0 SendTypeToDest ttl [] (be32 p @ be32 q) content init_mem = (Ok m, h1)"
    "owned_msg {} m h1" "meta m = send_meta 0 SendTypeToDest ttl [] (be32 p @ be32 q) content"
    "Source m = []" "Destination m = be32 p @ be32 q" "Content m = content"
    by (rule NewSendMessage_ok [OF mem_inv_init po assms])
  from m(2) obtain live where wf: "wf_msg m" and inv: "mem_inv live h1" by (auto simp: owned_msg_def)
  have st: "SendType (meta m) = SendTypeToDest" by (simp add: m(3) send_meta_def send_type_defs)
  have mt: "Hops (meta m) = 0" "Distance (meta m) = 2" by (simp_all add: m(3) send_meta_def path_Length_def)
  have rc: "receivable (meta m)" and dz: "recv_destSize (meta m) = 4"
    using st mt by (simp_all add: receivable_def recv_destSize_def)
  obtain d h2 x where d: "NewMessageFromMsg fresh_picks pid m 0 h1 = (Ok d, h2)" "Content d = Content m"
    "length x = recv_destSize (meta m)" "set x \<subseteq> {0}" "Destination d = drop 4 x @ drop (length x - 4) x"
    by (rule FromMsg_stale [OF inv rc _ wf, of 0 fresh_picks pid]) (simp_all add: too_long_def dz)
  then have "Destination d = [0, 0, 0, 0]" using dz by (auto simp: length_Suc_conv numeral_eq_Suc)
  moreover have "recv_destination (meta m) (Destination m) = be32 q"
    by (simp add: recv_destination_def st m(5))
  ultimately show ?thesis using m(1,6) d(1,2) by metis
qed

theorem FromMsg_loses_destination_witness:
  "length [1 :: u8] < 2 ^ 32 \<and>
   (\<exists>m h1 d h2. NewSendMessage fresh_picks 0 SendTypeToDest 0 [] (be32 5 @ be32 7) [1] init_mem = (Ok m, h1) \<and>
    recv_destination (meta m) (Destination m) = be32 7 \<and>
    NewMessageFromMsg fresh_picks 3 m 0 h1 = (Ok d, h2) \<and> Content d = [1] \<and> Destination d = [0, 0, 0, 0] \<and>
    Destination d \<noteq> be32 7)"
proof -
  have l: "length [1 :: u8] < 2 ^ 32" and n: "[0, 0, 0, 0] \<noteq> be32 7" by (simp_all add: be32_def)
  from FromMsg_loses_destination [OF l, of 0 5 7 3] n show ?thesis using l by metis
qed

end
