(* ===== verification/Option_Values.thy ===== *)
theory Option_Values
  imports Prelude
begin

text \<open>
  The typed options of \<open>options/options.go\<close>: the Go values an option can hold, the option
  kinds with their \<open>Validate\<close>, \<open>Parse\<close> and \<open>Value\<close> methods, and the parts of
  \<open>strconv\<close> and \<open>strings\<close> they call. \<open>time.ParseDuration\<close> is an argument. Go's \<open>int\<close> has
  64 bits; \<open>strings.ToLower\<close> is modelled on ASCII.
\<close>

section \<open>Values and options\<close>

datatype optval =
    VBool bool | VString string | VDuration u64 | VInt u64 | VInt64 u64
  | VUint8 u8 | VUint16 u16 | VUint32 u32 | VUint64 u64 | VInt32 u32
  | VOther nat

datatype optkind = KAny | KBool | KString | KTimeDuration | KInt | KUint8 | KUint16 | KUint32 | KInt32

text \<open>An option is a pointer: \<open>oid\<close> is its identity.\<close>

record opt =
  oid :: nat
  okind :: optkind
  defaultValue :: optval

definition NewAnyOption :: "nat \<Rightarrow> optval \<Rightarrow> opt" where
  "NewAnyOption i v = \<lparr>oid = i, okind = KAny, defaultValue = v\<rparr>"

definition NewBoolOption :: "nat \<Rightarrow> bool \<Rightarrow> opt" where
  "NewBoolOption i v = \<lparr>oid = i, okind = KBool, defaultValue = VBool v\<rparr>"

definition NewStringOption :: "nat \<Rightarrow> string \<Rightarrow> opt" where
  "NewStringOption i v = \<lparr>oid = i, okind = KString, defaultValue = VString v\<rparr>"

definition NewTimeDurationOption :: "nat \<Rightarrow> u64 \<Rightarrow> opt" where
  "NewTimeDurationOption i v = \<lparr>oid = i, okind = KTimeDuration, defaultValue = VDuration v\<rparr>"

definition NewIntOption :: "nat \<Rightarrow> u64 \<Rightarrow> opt" where
  "NewIntOption i v = \<lparr>oid = i, okind = KInt, defaultValue = VInt v\<rparr>"

definition NewUint8Option :: "nat \<Rightarrow> u8 \<Rightarrow> opt" where
  "NewUint8Option i v = \<lparr>oid = i, okind = KUint8, defaultValue = VUint8 v\<rparr>"

definition NewUint16Option :: "nat \<Rightarrow> u16 \<Rightarrow> opt" where
  "NewUint16Option i v = \<lparr>oid = i, okind = KUint16, defaultValue = VUint16 v\<rparr>"

definition NewUint32Option :: "nat \<Rightarrow> u32 \<Rightarrow> opt" where
  "NewUint32Option i v = \<lparr>oid = i, okind = KUint32, defaultValue = VUint32 v\<rparr>"

definition NewInt32Option :: "nat \<Rightarrow> u32 \<Rightarrow> opt" where
  "NewInt32Option i v = \<lparr>oid = i, okind = KInt32, defaultValue = VInt32 v\<rparr>"

section \<open>Validate\<close>

fun anyOption_Validate :: "optval \<Rightarrow> optval outcome" where
  "anyOption_Validate v = Ok v"

fun boolOption_Validate :: "optval \<Rightarrow> optval outcome" where
  "boolOption_Validate (VBool b) = Ok (VBool b)"
| "boolOption_Validate _ = Error ErrInvalidOptionValue"

fun stringOption_Validate :: "optval \<Rightarrow> optval outcome" where
  "stringOption_Validate (VString s) = Ok (VString s)"
| "stringOption_Validate _ = Error ErrInvalidOptionValue"

fun timeDurationOption_Validate :: "optval \<Rightarrow> optval outcome" where
  "timeDurationOption_Validate (VDuration d) = Ok (VDuration d)"
| "timeDurationOption_Validate _ = Error ErrInvalidOptionValue"

fun intOption_Validate :: "optval \<Rightarrow> optval outcome" where
  "intOption_Validate (VInt x) = Ok (VInt x)"
| "intOption_Validate (VInt64 x) = Ok (VInt x)"
| "intOption_Validate _ = Error ErrInvalidOptionValue"

fun uint8Option_Validate :: "optval \<Rightarrow> optval outcome" where
  "uint8Option_Validate (VUint8 x) = Ok (VUint8 x)"
| "uint8Option_Validate (VInt x) =
     (if 0 \<le> sint x \<and> sint x \<le> 255 then Ok (VUint8 (ucast x)) else Error ErrInvalidOptionValue)"
| "uint8Option_Validate (VUint64 x) =
     (if x \<le> 255 then Ok (VUint8 (ucast x)) else Error ErrInvalidOptionValue)"
| "uint8Option_Validate _ = Error ErrInvalidOptionValue"

fun uint16Option_Validate :: "optval \<Rightarrow> optval outcome" where
  "uint16Option_Validate (VUint16 x) = Ok (VUint16 x)"
| "uint16Option_Validate (VInt x) =
     (if 0 \<le> sint x \<and> sint x \<le> 65535 then Ok (VUint16 (ucast x)) else Error ErrInvalidOptionValue)"
| "uint16Option_Validate (VUint64 x) =
     (if x \<le> 65535 then Ok (VUint16 (ucast x)) else Error ErrInvalidOptionValue)"
| "uint16Option_Validate _ = Error ErrInvalidOptionValue"

text \<open>The bound of the last case is \<open>math.MaxUint64\<close>, as in the source.\<close>

fun uint32Option_Validate :: "optval \<Rightarrow> optval outcome" where
  "uint32Option_Validate (VUint32 x) = Ok (VUint32 x)"
| "uint32Option_Validate (VInt x) =
     (if 0 \<le> sint x \<and> sint x \<le> 4294967295 then Ok (VUint32 (ucast x)) else Error ErrInvalidOptionValue)"
| "uint32Option_Validate (VUint64 x) =
     (if x \<le> 18446744073709551615 then Ok (VUint32 (ucast x)) else Error ErrInvalidOptionValue)"
| "uint32Option_Validate _ = Error ErrInvalidOptionValue"

fun int32Option_Validate :: "optval \<Rightarrow> optval outcome" where
  "int32Option_Validate (VInt32 x) = Ok (VInt32 x)"
| "int32Option_Validate (VInt x) =
     (if - 2147483648 \<le> sint x \<and> sint x \<le> 2147483647 then Ok (VInt32 (ucast x)) else Error ErrInvalidOptionValue)"
| "int32Option_Validate (VInt64 x) =
     (if - 2147483648 \<le> sint x \<and> sint x \<le> 2147483647 then Ok (VInt32 (ucast x)) else Error ErrInvalidOptionValue)"
| "int32Option_Validate _ = Error ErrInvalidOptionValue"

fun kind_Validate :: "optkind \<Rightarrow> optval \<Rightarrow> optval outcome" where
  "kind_Validate KAny = anyOption_Validate"
| "kind_Validate KBool = boolOption_Validate"
| "kind_Validate KString = stringOption_Validate"
| "kind_Validate KTimeDuration = timeDurationOption_Validate"
| "kind_Validate KInt = intOption_Validate"
| "kind_Validate KUint8 = uint8Option_Validate"
| "kind_Validate KUint16 = uint16Option_Validate"
| "kind_Validate KUint32 = uint32Option_Validate"
| "kind_Validate KInt32 = int32Option_Validate"

definition Validate :: "opt \<Rightarrow> optval \<Rightarrow> optval outcome" where
  "Validate o1 = kind_Validate (okind o1)"

section \<open>Strings and numbers\<close>

definition to_lower_char :: "char \<Rightarrow> char" where
  "to_lower_char c =
     (let n = of_char c :: nat in if 65 \<le> n \<and> n \<le> 90 then char_of (n + 32) else c)"

definition ToLower :: "string \<Rightarrow> string" where
  "ToLower s = map to_lower_char s"

definition digit_val :: "char \<Rightarrow> nat option" where
  "digit_val c = (let n = of_char c :: nat in if 48 \<le> n \<and> n \<le> 57 then Some (n - 48) else None)"

fun digits_val :: "nat \<Rightarrow> string \<Rightarrow> nat option" where
  "digits_val acc [] = Some acc"
| "digits_val acc (c # cs) =
     (case digit_val c of None \<Rightarrow> None | Some d \<Rightarrow> digits_val (10 * acc + d) cs)"

text \<open>\<open>strconv.ParseUint(s, 10, bits)\<close> and \<open>strconv.ParseInt(s, 10, bits)\<close>; \<open>None\<close> is an error.\<close>

definition ParseUint :: "string \<Rightarrow> nat \<Rightarrow> nat option" where
  "ParseUint s bits =
     (if s = [] then None
      else case digits_val 0 s of None \<Rightarrow> None | Some n \<Rightarrow> if n < 2 ^ bits then Some n else None)"

definition ParseInt :: "string \<Rightarrow> nat \<Rightarrow> int option" where
  "ParseInt s bits =
     (case s of
        [] \<Rightarrow> None
      | c # cs \<Rightarrow>
          (let neg = (c = CHR ''-''); t = (if c = CHR ''+'' \<or> c = CHR ''-'' then cs else s)
           in if t = [] then None
              else case digits_val 0 t of
                     None \<Rightarrow> None
                   | Some n \<Rightarrow>
                       if \<not> neg \<and> 2 ^ (bits - 1) \<le> n then None
                       else if neg \<and> 2 ^ (bits - 1) < n then None
                       else Some (if neg then - int n else int n)))"

section \<open>Parse\<close>

definition boolOption_Parse :: "string \<Rightarrow> optval outcome" where
  "boolOption_Parse s =
     (let t = ToLower s
      in if t = '''' \<or> t = ''true'' \<or> t = ''t'' \<or> t = ''1'' then Ok (VBool True)
         else if t = ''false'' \<or> t = ''f'' \<or> t = ''0'' then Ok (VBool False)
         else Error ErrInvalidOptionValue)"

definition timeDurationOption_Parse :: "(string \<Rightarrow> u64 option) \<Rightarrow> string \<Rightarrow> optval outcome" where
  "timeDurationOption_Parse parseDuration s =
     (case parseDuration s of Some d \<Rightarrow> Ok (VDuration d) | None \<Rightarrow> Error ErrInvalidOptionValue)"

definition intOption_Parse :: "string \<Rightarrow> optval outcome" where
  "intOption_Parse s =
     (case ParseInt s 64 of Some i \<Rightarrow> Ok (VInt64 (of_int i)) | None \<Rightarrow> Error ErrInvalidOptionValue)"

definition uint8Option_Parse :: "string \<Rightarrow> optval outcome" where
  "uint8Option_Parse s =
     (case ParseUint s 8 of Some n \<Rightarrow> Ok (VUint64 (of_nat n)) | None \<Rightarrow> Error ErrInvalidOptionValue)"

definition uint16Option_Parse :: "string \<Rightarrow> optval outcome" where
  "uint16Option_Parse s =
     (case ParseUint s 16 of Some n \<Rightarrow> Ok (VUint64 (of_nat n)) | None \<Rightarrow> Error ErrInvalidOptionValue)"

definition uint32Option_Parse :: "string \<Rightarrow> optval outcome" where
  "uint32Option_Parse s =
     (case ParseUint s 32 of Some n \<Rightarrow> Ok (VUint64 (of_nat n)) | None \<Rightarrow> Error ErrInvalidOptionValue)"

definition int32Option_Parse :: "string \<Rightarrow> optval outcome" where
  "int32Option_Parse s =
     (case ParseInt s 32 of Some i \<Rightarrow> Ok (VInt64 (of_int i)) | None \<Rightarrow> Error ErrInvalidOptionValue)"

fun kind_Parse :: "(string \<Rightarrow> u64 option) \<Rightarrow> optkind \<Rightarrow> string \<Rightarrow> optval outcome" where
  "kind_Parse pd KAny s = Ok (VString s)"
| "kind_Parse pd KBool s = boolOption_Parse s"
| "kind_Parse pd KString s = Ok (VString s)"
| "kind_Parse pd KTimeDuration s = timeDurationOption_Parse pd s"
| "kind_Parse pd KInt s = intOption_Parse s"
| "kind_Parse pd KUint8 s = uint8Option_Parse s"
| "kind_Parse pd KUint16 s = uint16Option_Parse s"
| "kind_Parse pd KUint32 s = uint32Option_Parse s"
| "kind_Parse pd KInt32 s = int32Option_Parse s"

definition Parse :: "(string \<Rightarrow> u64 option) \<Rightarrow> opt \<Rightarrow> string \<Rightarrow> optval outcome" where
  "Parse pd o1 = kind_Parse pd (okind o1)"

section \<open>The type of a value\<close>

text \<open>The type assertion of the \<open>Value\<close> methods: anything else panics.\<close>

fun has_kind :: "optkind \<Rightarrow> optval \<Rightarrow> bool" where
  "has_kind KAny _ = True"
| "has_kind KBool (VBool _) = True"
| "has_kind KString (VString _) = True"
| "has_kind KTimeDuration (VDuration _) = True"
| "has_kind KInt (VInt _) = True"
| "has_kind KUint8 (VUint8 _) = True"
| "has_kind KUint16 (VUint16 _) = True"
| "has_kind KUint32 (VUint32 _) = True"
| "has_kind KInt32 (VInt32 _) = True"
| "has_kind _ _ = False"

definition Value :: "opt \<Rightarrow> optval \<Rightarrow> optval outcome" where
  "Value o1 v = (if has_kind (okind o1) v then Ok v else Panic)"

text \<open>The number a value of an integer type stands for.\<close>

fun num_of :: "optval \<Rightarrow> int option" where
  "num_of (VInt x) = Some (sint x)"
| "num_of (VInt64 x) = Some (sint x)"
| "num_of (VInt32 x) = Some (sint x)"
| "num_of (VUint8 x) = Some (uint x)"
| "num_of (VUint16 x) = Some (uint x)"
| "num_of (VUint32 x) = Some (uint x)"
| "num_of (VUint64 x) = Some (uint x)"
| "num_of _ = None"

section \<open>Validation\<close>

lemma Validate_has_kind: "Validate o1 v = Ok w \<Longrightarrow> has_kind (okind o1) w"
  by (cases "okind o1"; cases v) (auto simp: Validate_def split: if_splits)

lemma Validate_typed: "has_kind (okind o1) v \<Longrightarrow> Validate o1 v = Ok v"
  by (cases "okind o1"; cases v) (auto simp: Validate_def)

lemma Validate_not_Panic: "Validate o1 v \<noteq> Panic"
  by (cases "okind o1"; cases v) (auto simp: Validate_def)

lemma uint_ucast_sint:
  "0 \<le> sint (x :: u64) \<Longrightarrow> sint x < 2 ^ LENGTH('b) \<Longrightarrow> LENGTH('b::len) \<le> 64 \<Longrightarrow> uint (ucast x :: 'b word) = sint x"
  by (simp add: unsigned_ucast_eq uint_sint [of x] take_bit_int_eq_self min_def)

lemma uint_ucast_uint:
  "uint (x :: u64) < 2 ^ LENGTH('b) \<Longrightarrow> uint (ucast x :: 'b::len word) = uint x"
  by (simp add: unsigned_ucast_eq take_bit_int_eq_self)

lemma sint_ucast_sint:
  assumes "- 2147483648 \<le> sint (x :: u64)" "sint x \<le> 2147483647"
  shows "sint (ucast x :: u32) = sint x"
proof -
  have "sint (ucast x :: u32) = signed_take_bit 31 (uint (ucast x :: u32))"
    by (simp add: sint_uint)
  also have "uint (ucast x :: u32) = take_bit 32 (sint x)"
    by (simp add: unsigned_ucast_eq uint_sint [of x])
  also have "signed_take_bit 31 (take_bit 32 (sint x)) = signed_take_bit 31 (sint x)"
    by (simp add: signed_take_bit_take_bit)
  also have "\<dots> = sint x" using assms by (simp add: signed_take_bit_int_eq_self)
  finally show ?thesis .
qed

text \<open>The one conversion that may change a number: an \<open>uint64\<close> given to an \<open>uint32\<close> option.\<close>

definition truncating :: "opt \<Rightarrow> optval \<Rightarrow> bool" where
  "truncating o1 v \<longleftrightarrow> okind o1 = KUint32 \<and> (case v of VUint64 x \<Rightarrow> 2 ^ 32 \<le> uint x | _ \<Rightarrow> False)"

lemma Validate_num:
  "Validate o1 v = Ok w \<Longrightarrow> num_of v = Some n \<Longrightarrow> \<not> truncating o1 v \<Longrightarrow> num_of w = Some n"
  by (cases "okind o1"; cases v)
     (auto simp: Validate_def truncating_def uint_ucast_sint uint_ucast_uint sint_ucast_sint word_le_def split: if_splits)

section \<open>Parsing\<close>

lemma ParseUint_bound: "ParseUint s b = Some n \<Longrightarrow> n < 2 ^ b"
  by (auto simp: ParseUint_def split: if_splits option.splits)

lemma ParseInt_bound:
  assumes "ParseInt s b = Some i"
  shows "- (2 ^ (b - 1)) \<le> i \<and> i < 2 ^ (b - 1)"
proof -
  have lift: "m < 2 ^ (b - 1) \<Longrightarrow> int m < 2 ^ (b - 1)" "m \<le> 2 ^ (b - 1) \<Longrightarrow> int m \<le> 2 ^ (b - 1)" for m
    by (metis of_nat_less_iff of_nat_numeral of_nat_power, metis of_nat_le_iff of_nat_numeral of_nat_power)
  have pos: "(0 :: int) < 2 ^ (b - 1)" by simp
  obtain c cs where s: "s = c # cs" using assms by (cases s) (auto simp: ParseInt_def)
  define t where "t = (if c = CHR ''+'' \<or> c = CHR ''-'' then cs else s)"
  obtain n where n: "digits_val 0 t = Some n"
    using assms by (auto simp: ParseInt_def s t_def [unfolded s] Let_def split: if_splits option.splits)
  have "if c = CHR ''-'' then n \<le> 2 ^ (b - 1) \<and> i = - int n else n < 2 ^ (b - 1) \<and> i = int n"
    using assms n unfolding ParseInt_def s t_def [unfolded s] list.case Let_def
    by (simp split: if_split_asm)
  moreover have "- int n < 2 ^ (b - 1)" "- (2 ^ (b - 1)) \<le> int n"
    using pos of_nat_0_le_iff [where 'a = int, of n] by linarith+
  ultimately show ?thesis using lift [of n] by (auto split: if_splits)
qed

lemma uint_of_nat64: "n < 2 ^ k \<Longrightarrow> k \<le> 32 \<Longrightarrow> uint (of_nat n :: u64) = int n \<and> uint (of_nat n :: u64) < 2 ^ k"
proof -
  assume n: "n < 2 ^ k" and k: "k \<le> 32"
  have "(2 :: nat) ^ k \<le> 2 ^ 32" using k by (intro power_increasing) auto
  with n have "n < 2 ^ 64" by simp
  then have "uint (of_nat n :: u64) = int n" by (simp add: uint_nat unat_of_nat take_bit_eq_mod)
  moreover have "int n < 2 ^ k" using n by (metis of_nat_less_iff of_nat_numeral of_nat_power)
  ultimately show ?thesis by simp
qed

lemma sint_of_int64: "- (2 ^ 63) \<le> i \<Longrightarrow> i < 2 ^ 63 \<Longrightarrow> sint (of_int i :: u64) = i"
  using sint_sbintrunc' [where 'a = 64, of i] by (simp add: signed_take_bit_int_eq_self)

text \<open>
  A parsed value passes validation and keeps its number: the type \<open>Parse\<close> returns
  (\<open>int64\<close>, \<open>uint64\<close>) is one \<open>Validate\<close> converts.
\<close>

lemma Parse_uint_Validate:
  assumes "ParseUint s (LENGTH('b)) = Some n" "LENGTH('b::len) \<le> 32"
  shows "uint (ucast (of_nat n :: u64) :: 'b word) = int n" "uint (of_nat n :: u64) = int n"
    and "uint (of_nat n :: u64) < 2 ^ LENGTH('b)"
proof -
  note b = uint_of_nat64 [OF ParseUint_bound [OF assms(1)] assms(2)]
  show "uint (of_nat n :: u64) = int n" "uint (of_nat n :: u64) < 2 ^ LENGTH('b)" using b by blast+
  show "uint (ucast (of_nat n :: u64) :: 'b word) = int n" using uint_ucast_uint [of "of_nat n"] b by metis
qed

lemma Parse_Validate_kind:
  assumes "kind_Parse pd k s = Ok v"
  shows "\<exists>w. kind_Validate k v = Ok w \<and> has_kind k w \<and> num_of w = num_of v"
proof (cases k)
  case KInt
  then obtain i where "v = VInt64 (of_int i)" using assms by (auto simp: intOption_Parse_def split: option.splits)
  then show ?thesis using KInt by simp
next
  case KUint8
  then obtain n where n: "ParseUint s 8 = Some n" "v = VUint64 (of_nat n)"
    using assms by (auto simp: uint8Option_Parse_def split: option.splits)
  from Parse_uint_Validate [where 'b = 8, of s n] n(1) show ?thesis using KUint8 n(2) by (simp add: word_le_def)
next
  case KUint16
  then obtain n where n: "ParseUint s 16 = Some n" "v = VUint64 (of_nat n)"
    using assms by (auto simp: uint16Option_Parse_def split: option.splits)
  from Parse_uint_Validate [where 'b = 16, of s n] n(1) show ?thesis using KUint16 n(2) by (simp add: word_le_def)
next
  case KUint32
  then obtain n where n: "ParseUint s 32 = Some n" "v = VUint64 (of_nat n)"
    using assms by (auto simp: uint32Option_Parse_def split: option.splits)
  from Parse_uint_Validate [where 'b = 32, of s n] n(1) show ?thesis using KUint32 n(2) by (simp add: word_le_def)
next
  case KInt32
  then obtain i where i: "ParseInt s 32 = Some i" "v = VInt64 (of_int i)"
    using assms by (auto simp: int32Option_Parse_def split: option.splits)
  have b: "- 2147483648 \<le> i" "i \<le> 2147483647" using ParseInt_bound [OF i(1)] by simp_all
  then have "sint (of_int i :: u64) = i" by (intro sint_of_int64) simp_all
  then show ?thesis using KInt32 i(2) b by (simp add: sint_ucast_sint)
qed (use assms in \<open>auto simp: boolOption_Parse_def timeDurationOption_Parse_def Let_def split: if_splits option.splits\<close>)

section \<open>Properties\<close>

text \<open>
  \<open>Validate\<close> never panics; what it accepts is a value of the option's own type, so the
  type assertion of \<open>Value\<close> succeeds on it; validating again changes nothing; and a number
  keeps its value in every conversion but the one from \<open>uint64\<close> to \<open>uint32\<close>.
\<close>

theorem Validate_sound:
  assumes "Validate o1 v = Ok w"
  shows "Value o1 w = Ok w \<and> Validate o1 w = Ok w \<and> (truncating o1 v \<or> num_of v = None \<or> num_of w = num_of v)"
  using Validate_has_kind [OF assms] Validate_typed [of o1 w] Validate_num [OF assms]
  by (cases "num_of v") (auto simp: Value_def)

theorem Validate_sound_witness:
  "Validate (NewUint8Option 0 16) (VInt 200) = Ok (VUint8 200) \<and>
   Value (NewUint8Option 0 16) (VUint8 200) = Ok (VUint8 200) \<and> num_of (VUint8 200) = num_of (VInt 200)"
proof -
  have v: "Validate (NewUint8Option 0 16) (VInt 200) = Ok (VUint8 200)"
    by (simp add: Validate_def NewUint8Option_def)
  from Validate_sound [OF v] v show ?thesis by (simp add: truncating_def NewUint8Option_def)
qed

text \<open>
  whatever \<open>Parse\<close> of an option returns passes the option's own \<open>Validate\<close>, as a value of
  the option's type that stands for the same number.
\<close>

theorem Parse_then_Validate:
  assumes "Parse pd o1 s = Ok v"
  shows "\<exists>w. Validate o1 v = Ok w \<and> Value o1 w = Ok w \<and> num_of w = num_of v"
  using Parse_Validate_kind [of pd "okind o1" s v] assms by (auto simp: Parse_def Validate_def Value_def)

theorem Parse_then_Validate_witness:
  "Parse (\<lambda>_. None) (NewUint16Option 0 64) ''300'' = Ok (VUint64 300) \<and>
   (\<exists>w. Validate (NewUint16Option 0 64) (VUint64 300) = Ok w \<and> num_of w = Some 300)"
proof -
  have p: "Parse (\<lambda>_. None) (NewUint16Option 0 64) ''300'' = Ok (VUint64 300)"
    by (simp add: Parse_def NewUint16Option_def uint16Option_Parse_def ParseUint_def digit_val_def)
  from Parse_then_Validate [OF p] p show ?thesis by auto
qed

text \<open>
  an \<open>uint32\<close> option accepts every \<open>uint64\<close> and stores it modulo \<open>2^32\<close>; the bound check
  compares with the largest \<open>uint64\<close>. A receive limit of \<open>2^32\<close> bytes becomes 0, no limit.
\<close>

theorem uint32_Validate_truncates:
  "kind_Validate KUint32 (VUint64 x) = Ok (VUint32 (ucast x)) \<and>
   kind_Validate KUint32 (VUint64 (2 ^ 32)) = Ok (VUint32 0)"
proof -
  have "uint x < 2 ^ 64" using uint_lt2p [of x] by simp
  then have "x \<le> 18446744073709551615" by (simp add: word_le_def)
  then show ?thesis by simp
qed

end
