(* ===== verification/Option_Registry.thy ===== *)
theory Option_Registry
  imports Option_Values "HOL-Library.Sublist"
begin

text \<open>
  The global registry of \<open>options/options.go\<close>: options are stored under their lower-case
  dotted names in nested maps, guarded by a lock. The lock is part of the state, because
  the error paths of \<open>ParseOption\<close> leave it held: an operation that would wait for the
  lock forever has the result \<open>None\<close>.
\<close>

section \<open>State\<close>

datatype regnode = ROpt opt | RMap "string \<Rightarrow> regnode option"

record registry =
  registeredOptions :: "string \<Rightarrow> regnode option"
  optionFullNames :: "opt \<Rightarrow> string option"
  lock_held :: bool

definition initial_registry :: registry where
  "initial_registry = \<lparr>registeredOptions = Map.empty, optionFullNames = Map.empty, lock_held = False\<rparr>"

section \<open>Dotted names\<close>

text \<open>\<open>strings.Split(s, ".")\<close> and \<open>strings.Join(a, ".")\<close>.\<close>

fun split_dot :: "string \<Rightarrow> string list" where
  "split_dot [] = [[]]"
| "split_dot (c # cs) =
     (if c = CHR ''.'' then [] # split_dot cs
      else case split_dot cs of [] \<Rightarrow> [[c]] | w # ws \<Rightarrow> (c # w) # ws)"

fun join_dot :: "string list \<Rightarrow> string" where
  "join_dot [] = []"
| "join_dot [w] = w"
| "join_dot (w # v # ws) = w @ CHR ''.'' # join_dot (v # ws)"

section \<open>Operations\<close>

text \<open>
  The walk of \<open>RegisterOption\<close> over the domains, making the missing maps. A name that is
  taken by an option where a map is needed fails the type assertion, a panic.
\<close>

fun reg_insert :: "opt \<Rightarrow> string \<Rightarrow> string list \<Rightarrow> (string \<Rightarrow> regnode option) \<Rightarrow> (string \<Rightarrow> regnode option) outcome" where
  "reg_insert o1 name [] cur = Ok (cur(ToLower name \<mapsto> ROpt o1))"
| "reg_insert o1 name (d # ds) cur =
     (case cur (ToLower d) of
        Some (ROpt _) \<Rightarrow> Panic
      | nd \<Rightarrow>
          (case reg_insert o1 name ds (case nd of Some (RMap m) \<Rightarrow> m | _ \<Rightarrow> Map.empty) of
             Ok m' \<Rightarrow> Ok (cur(ToLower d \<mapsto> RMap m'))
           | Error e \<Rightarrow> Error e
           | Panic \<Rightarrow> Panic))"

definition RegisterOption :: "opt \<Rightarrow> string \<Rightarrow> string list \<Rightarrow> registry \<Rightarrow> (unit outcome \<times> registry) option" where
  "RegisterOption o1 name domains r =
     (if lock_held r then None
      else case reg_insert o1 name domains (registeredOptions r) of
             Ok m \<Rightarrow> Some (Ok (), r\<lparr>registeredOptions := m,
                             optionFullNames := (optionFullNames r)(o1 \<mapsto> join_dot (domains @ [name]))\<rparr>)
           | Error e \<Rightarrow> Some (Error e, r\<lparr>lock_held := True\<rparr>)
           | Panic \<Rightarrow> Some (Panic, r\<lparr>lock_held := True\<rparr>))"

text \<open>A struct whose fields are options or further structs, as \<open>reflect\<close> presents it.\<close>

datatype soptions = SOpt opt | SStruct "(string \<times> soptions) list"

fun RegisterStructuredOptions :: "soptions \<Rightarrow> string list \<Rightarrow> registry \<Rightarrow> (unit outcome \<times> registry) option"
  and register_fields :: "(string \<times> soptions) list \<Rightarrow> string list \<Rightarrow> registry \<Rightarrow> (unit outcome \<times> registry) option"
where
  "RegisterStructuredOptions (SStruct fs) domains r = register_fields fs domains r"
| "RegisterStructuredOptions (SOpt o1) domains r = Some (Panic, r)"
| "register_fields [] domains r = Some (Ok (), r)"
| "register_fields ((name, SOpt o1) # fs) domains r =
     (case RegisterOption o1 name domains r of
        Some (Ok _, r') \<Rightarrow> register_fields fs domains r'
      | res \<Rightarrow> res)"
| "register_fields ((name, SStruct gs) # fs) domains r =
     (case register_fields gs (domains @ [name]) r of
        Some (Ok _, r') \<Rightarrow> register_fields fs domains r'
      | res \<Rightarrow> res)"

fun descend :: "string list \<Rightarrow> (string \<Rightarrow> regnode option) \<Rightarrow> (string \<Rightarrow> regnode option) option" where
  "descend [] cur = Some cur"
| "descend (d # ds) cur =
     (case cur (ToLower d) of
        None \<Rightarrow> None
      | Some (ROpt _) \<Rightarrow> None
      | Some (RMap m) \<Rightarrow> descend ds m)"

text \<open>Every error return of \<open>ParseOption\<close> leaves the function with the lock held.\<close>

definition ParseOption :: "string \<Rightarrow> registry \<Rightarrow> (opt outcome \<times> registry) option" where
  "ParseOption s r =
     (let parts = split_dot s; name = ToLower (last parts); domains = butlast parts
      in if lock_held r then None
         else case descend domains (registeredOptions r) of
                None \<Rightarrow> Some (Error ErrOptionNotFound, r\<lparr>lock_held := True\<rparr>)
              | Some cur \<Rightarrow>
                  (case cur name of
                     Some (ROpt o1) \<Rightarrow> Some (Ok o1, r)
                   | _ \<Rightarrow> Some (Error ErrOptionNotFound, r\<lparr>lock_held := True\<rparr>)))"

section \<open>The options of the program\<close>

text \<open>\<open>Options\<close> of the socket, of the connector and of the inproc channel transport; durations in ns.\<close>

definition Opt_NoRecv :: opt where "Opt_NoRecv = NewBoolOption 1 False"
definition Opt_RecvQueueSize :: opt where "Opt_RecvQueueSize = NewUint16Option 2 64"
definition Opt_NoSend :: opt where "Opt_NoSend = NewBoolOption 3 False"
definition Opt_SendQueueSize :: opt where "Opt_SendQueueSize = NewUint16Option 4 64"
definition Opt_SendTTL :: opt where "Opt_SendTTL = NewUint8Option 5 16"
definition Opt_SendBestEffort :: opt where "Opt_SendBestEffort = NewBoolOption 6 False"
definition Opt_SendStopTimeout :: opt where "Opt_SendStopTimeout = NewTimeDurationOption 7 5000000000"

definition socketOptions :: soptions where
  "socketOptions = SStruct
     [(''NoRecv'', SOpt Opt_NoRecv), (''RecvQueueSize'', SOpt Opt_RecvQueueSize), (''NoSend'', SOpt Opt_NoSend),
      (''SendQueueSize'', SOpt Opt_SendQueueSize), (''SendTTL'', SOpt Opt_SendTTL),
      (''SendBestEffort'', SOpt Opt_SendBestEffort), (''SendStopTimeout'', SOpt Opt_SendStopTimeout)]"

definition Opt_PipeLimit :: opt where "Opt_PipeLimit = NewIntOption 8 (- 1)"
definition Opt_Reconnect :: opt where "Opt_Reconnect = NewBoolOption 9 True"
definition Opt_MinReconnectTime :: opt where "Opt_MinReconnectTime = NewTimeDurationOption 10 100000000"
definition Opt_MaxReconnectTime :: opt where "Opt_MaxReconnectTime = NewTimeDurationOption 11 8000000000"
definition Opt_DialAsync :: opt where "Opt_DialAsync = NewBoolOption 12 False"
definition Opt_ReadBuffer :: opt where "Opt_ReadBuffer = NewIntOption 13 0"
definition Opt_Raw :: opt where "Opt_Raw = NewBoolOption 14 False"
definition Opt_RawRecvBufSize :: opt where "Opt_RawRecvBufSize = NewIntOption 15 4096"
definition Opt_CloseOnEOF :: opt where "Opt_CloseOnEOF = NewBoolOption 16 True"
definition Opt_MaxRecvContentLength :: opt where "Opt_MaxRecvContentLength = NewUint32Option 17 131072"

definition dialerOptions :: soptions where
  "dialerOptions = SStruct
     [(''Reconnect'', SOpt Opt_Reconnect), (''MinReconnectTime'', SOpt Opt_MinReconnectTime),
      (''MaxReconnectTime'', SOpt Opt_MaxReconnectTime), (''DialAsync'', SOpt Opt_DialAsync)]"

definition pipeOptions :: soptions where
  "pipeOptions = SStruct
     [(''ReadBuffer'', SOpt Opt_ReadBuffer), (''Raw'', SOpt Opt_Raw), (''RawRecvBufSize'', SOpt Opt_RawRecvBufSize),
      (''CloseOnEOF'', SOpt Opt_CloseOnEOF), (''MaxRecvContentLength'', SOpt Opt_MaxRecvContentLength)]"

definition connectorOptions :: soptions where
  "connectorOptions = SStruct
     [(''PipeLimit'', SOpt Opt_PipeLimit), (''Dialer'', dialerOptions), (''Pipe'', pipeOptions)]"

definition Opt_BufferSize :: opt where "Opt_BufferSize = NewIntOption 18 16"

definition channelOptions :: soptions where
  "channelOptions = SStruct [(''BufferSize'', SOpt Opt_BufferSize)]"

lemmas program_options_defs = Opt_NoRecv_def Opt_RecvQueueSize_def Opt_NoSend_def Opt_SendQueueSize_def
  Opt_SendTTL_def Opt_SendBestEffort_def Opt_SendStopTimeout_def Opt_PipeLimit_def Opt_Reconnect_def
  Opt_MinReconnectTime_def Opt_MaxReconnectTime_def Opt_DialAsync_def Opt_ReadBuffer_def Opt_Raw_def
  Opt_RawRecvBufSize_def Opt_CloseOnEOF_def Opt_MaxRecvContentLength_def Opt_BufferSize_def
lemmas option_constructors = NewAnyOption_def NewBoolOption_def NewStringOption_def NewTimeDurationOption_def
  NewIntOption_def NewUint8Option_def NewUint16Option_def NewUint32Option_def NewInt32Option_def

section \<open>Names\<close>

definition plain :: "string \<Rightarrow> bool" where
  "plain w \<longleftrightarrow> CHR ''.'' \<notin> set w"

lemma split_dot_nonempty [simp]: "split_dot s \<noteq> []"
  by (induction s) (auto split: list.splits)

lemma split_dot_plain: "plain w \<Longrightarrow> split_dot w = [w]"
  by (induction w) (auto simp: plain_def)

lemma split_dot_append: "plain w \<Longrightarrow> split_dot (w @ CHR ''.'' # s) = w # split_dot s"
  by (induction w) (auto simp: plain_def)

lemma split_join: "ws \<noteq> [] \<Longrightarrow> \<forall>w \<in> set ws. plain w \<Longrightarrow> split_dot (join_dot ws) = ws"
  by (induction ws rule: join_dot.induct) (auto simp: split_dot_plain split_dot_append)

lemma to_lower_dot [simp]: "to_lower_char c = CHR ''.'' \<longleftrightarrow> c = CHR ''.''"
proof -
  have "of_char (CHR ''.'') = (46 :: nat)" by simp
  then have "to_lower_char c = CHR ''.'' \<longleftrightarrow> (of_char (to_lower_char c) :: nat) = 46"
    by (metis char_of_char)
  also have "\<dots> \<longleftrightarrow> (of_char c :: nat) = 46"
    by (auto simp: to_lower_char_def Let_def of_char_of)
  also have "\<dots> \<longleftrightarrow> c = CHR ''.''" by (metis char_of_char \<open>of_char (CHR ''.'') = (46 :: nat)\<close>)
  finally show ?thesis .
qed

lemma split_ToLower: "split_dot (ToLower s) = map ToLower (split_dot s)"
  by (induction s) (auto simp: ToLower_def split: list.splits)

section \<open>Lookup by path\<close>

fun reg_lookup :: "string list \<Rightarrow> (string \<Rightarrow> regnode option) \<Rightarrow> opt option" where
  "reg_lookup [] m = None"
| "reg_lookup [n] m = (case m n of Some (ROpt o1) \<Rightarrow> Some o1 | _ \<Rightarrow> None)"
| "reg_lookup (d # n # ns) m = (case m d of Some (RMap m') \<Rightarrow> reg_lookup (n # ns) m' | _ \<Rightarrow> None)"

lemma reg_lookup_Cons:
  "reg_lookup (d # ns) m =
     (if ns = [] then (case m d of Some (ROpt o1) \<Rightarrow> Some o1 | _ \<Rightarrow> None)
      else (case m d of Some (RMap m') \<Rightarrow> reg_lookup ns m' | _ \<Rightarrow> None))"
  by (cases ns) auto

lemma reg_lookup_empty [simp]: "reg_lookup p Map.empty = None"
  by (cases p) (simp_all add: reg_lookup_Cons)

definition names_path :: "string \<Rightarrow> string list" where
  "names_path s = map ToLower (split_dot s)"

lemma descend_lookup:
  "(case descend ds m of Some cur \<Rightarrow> (case cur (ToLower n) of Some (ROpt o1) \<Rightarrow> Some o1 | _ \<Rightarrow> None) | None \<Rightarrow> None) =
     reg_lookup (map ToLower (ds @ [n])) m"
  by (induction ds m rule: descend.induct) (auto simp: reg_lookup_Cons split: option.splits regnode.splits)

lemma ParseOption_lookup:
  "\<not> lock_held r \<Longrightarrow> ParseOption s r =
     (case reg_lookup (names_path s) (registeredOptions r) of
        Some o1 \<Rightarrow> Some (Ok o1, r)
      | None \<Rightarrow> Some (Error ErrOptionNotFound, r\<lparr>lock_held := True\<rparr>))"
proof -
  have "names_path s = map ToLower (butlast (split_dot s) @ [last (split_dot s)])"
    by (simp add: names_path_def)
  then have "reg_lookup (names_path s) (registeredOptions r) =
      (case descend (butlast (split_dot s)) (registeredOptions r) of
         Some cur \<Rightarrow> (case cur (ToLower (last (split_dot s))) of Some (ROpt o1) \<Rightarrow> Some o1 | _ \<Rightarrow> None) | None \<Rightarrow> None)"
    using descend_lookup [where ds = "butlast (split_dot s)" and m = "registeredOptions r" and n = "last (split_dot s)"] by simp
  then show "\<not> lock_held r \<Longrightarrow> ?thesis"
    by (simp add: ParseOption_def Let_def split: option.split regnode.split)
qed

text \<open>
  What an insertion does to every path: the path itself finds the new option, longer paths
  through it are cut off, all others are as before.
\<close>

lemma reg_lookup_insert:
  "reg_insert o1 name ds m = Ok m' \<Longrightarrow>
     reg_lookup q m' = (if q = map ToLower (ds @ [name]) then Some o1
                        else if strict_prefix (map ToLower (ds @ [name])) q then None else reg_lookup q m)"
proof (induction ds arbitrary: m m' q)
  case Nil
  then show ?case by (cases q) (auto simp: reg_lookup_Cons strict_prefix_def)
next
  case (Cons d ds)
  let ?sub = "case m (ToLower d) of Some (RMap m1) \<Rightarrow> m1 | _ \<Rightarrow> Map.empty"
  from Cons.prems obtain m2 where m2: "reg_insert o1 name ds ?sub = Ok m2" "m' = m(ToLower d \<mapsto> RMap m2)"
      and nopt: "\<nexists>ob. m (ToLower d) = Some (ROpt ob)"
    by (auto split: option.splits regnode.splits outcome.splits)
  show ?case
  proof (cases q)
    case (Cons x xs)
    have "reg_lookup xs ?sub = (if xs = [] then None else case m (ToLower d) of Some (RMap m1) \<Rightarrow> reg_lookup xs m1 | _ \<Rightarrow> None)"
      by (auto split: option.splits regnode.splits)
    with Cons.IH [OF m2(1), of xs] m2(2) nopt show ?thesis
      by (auto simp: \<open>q = x # xs\<close> reg_lookup_Cons split: option.splits regnode.splits)
  qed simp
qed

text \<open>An insertion fails only where an option stands in the way.\<close>

lemma reg_insert_Ok_iff:
  "(\<exists>m'. reg_insert o1 name ds m = Ok m') \<longleftrightarrow>
     (\<forall>k. 0 < k \<and> k \<le> length ds \<longrightarrow> reg_lookup (map ToLower (take k ds)) m = None)"
proof (induction ds arbitrary: m)
  case (Cons d ds)
  let ?sub = "case m (ToLower d) of Some (RMap m1) \<Rightarrow> m1 | _ \<Rightarrow> Map.empty"
  have all: "(\<forall>k. 0 < k \<and> k \<le> length (d # ds) \<longrightarrow> P k) \<longleftrightarrow> P 1 \<and> (\<forall>k. 0 < k \<and> k \<le> length ds \<longrightarrow> P (Suc k))" for P
  proof safe
    fix k assume "P 1" "\<forall>k. 0 < k \<and> k \<le> length ds \<longrightarrow> P (Suc k)" "0 < k" "k \<le> length (d # ds)"
    then show "P k" by (cases k; cases "k - 1") auto
  qed auto
  have sub: "reg_lookup (map ToLower (take (Suc k) (d # ds))) m = reg_lookup (map ToLower (take k ds)) ?sub"
    if "0 < k" "k \<le> length ds" for k
    using that by (auto simp: reg_lookup_Cons split: option.splits regnode.splits)
  show ?case
  proof (cases "\<exists>ob. m (ToLower d) = Some (ROpt ob)")
    case True
    then show ?thesis unfolding all by (auto simp: reg_lookup_Cons)
  next
    case False
    then have "(\<exists>m'. reg_insert o1 name (d # ds) m = Ok m') \<longleftrightarrow> (\<exists>m'. reg_insert o1 name ds ?sub = Ok m')"
      by (auto split: option.splits regnode.splits outcome.splits)
    moreover have "reg_lookup (map ToLower (take 1 (d # ds))) m = None"
      using False by (auto simp: reg_lookup_Cons split: option.splits regnode.splits)
    ultimately show ?thesis unfolding all using Cons.IH [of ?sub] sub by auto
  qed
qed simp

section \<open>Structured options\<close>

text \<open>The options of a struct with their names and domains, in the order they are registered.\<close>

fun leaves :: "(string \<times> soptions) list \<Rightarrow> string list \<Rightarrow> (opt \<times> string \<times> string list) list" where
  "leaves [] ds = []"
| "leaves ((n, SOpt o1) # fs) ds = (o1, n, ds) # leaves fs ds"
| "leaves ((n, SStruct gs) # fs) ds = leaves gs (ds @ [n]) @ leaves fs ds"

fun register_all :: "(opt \<times> string \<times> string list) list \<Rightarrow> registry \<Rightarrow> (unit outcome \<times> registry) option" where
  "register_all [] r = Some (Ok (), r)"
| "register_all ((o1, n, ds) # ls) r =
     (case RegisterOption o1 n ds r of Some (Ok _, r') \<Rightarrow> register_all ls r' | res \<Rightarrow> res)"

definition leaf_path :: "opt \<times> string \<times> string list \<Rightarrow> string list" where
  "leaf_path l = map ToLower (snd (snd l) @ [fst (snd l)])"

fun wf_fields :: "(string \<times> soptions) list \<Rightarrow> bool" where
  "wf_fields [] \<longleftrightarrow> True"
| "wf_fields ((n, SOpt o1) # fs) \<longleftrightarrow> plain n \<and> ToLower n \<notin> ToLower ` fst ` set fs \<and> wf_fields fs"
| "wf_fields ((n, SStruct gs) # fs) \<longleftrightarrow> plain n \<and> ToLower n \<notin> ToLower ` fst ` set fs \<and> wf_fields gs \<and> wf_fields fs"

lemma register_all_append:
  "register_all (xs @ ys) r =
     (case register_all xs r of Some (Ok _, r') \<Rightarrow> register_all ys r' | res \<Rightarrow> res)"
  by (induction xs r rule: register_all.induct) (auto split: option.splits outcome.splits prod.splits)

lemma register_fields_leaves: "register_fields fs ds r = register_all (leaves fs ds) r"
  by (induction fs ds arbitrary: r rule: leaves.induct)
    (auto simp: register_all_append split: option.splits outcome.splits prod.splits)

text \<open>The first name of a leaf below its domains is the name of one of the fields.\<close>

lemma leaf_head:
  "l \<in> set (leaves fs ds) \<Longrightarrow> \<exists>n \<in> fst ` set fs. prefix (map ToLower (ds @ [n])) (leaf_path l)"
proof (induction fs ds rule: leaves.induct)
  case (3 n gs fs ds)
  from "3.prems" consider "l \<in> set (leaves gs (ds @ [n]))" | "l \<in> set (leaves fs ds)" by auto
  then show ?case
  proof cases
    case 1
    with "3.IH"(1) obtain k where "prefix (map ToLower ((ds @ [n]) @ [k])) (leaf_path l)" by blast
    moreover have "prefix (map ToLower (ds @ [n])) (map ToLower ((ds @ [n]) @ [k]))" by simp
    ultimately show ?thesis by (metis fst_conv image_insert insertI1 list.simps(15) prefix_order.order_trans)
  next
    case 2
    with "3.IH"(2) show ?thesis by auto
  qed
qed (auto simp: leaf_path_def)

lemma parallel_heads:
  assumes "prefix (p @ [x]) q" "prefix (p @ [y]) q'" "x \<noteq> y"
  shows "q \<parallel> q'"
proof -
  obtain a b where "q = p @ x # a" "q' = p @ y # b" using assms(1,2) by (auto simp: prefix_def)
  with assms(3) show ?thesis by (auto intro!: parallelI)
qed

lemma leaves_parallel_fields:
  assumes "l \<in> set (leaves fs ds)" "prefix (map ToLower (ds @ [n])) q" "ToLower n \<notin> ToLower ` fst ` set fs"
  shows "q \<parallel> leaf_path l"
proof -
  from leaf_head [OF assms(1)] obtain k where "k \<in> fst ` set fs" "prefix (map ToLower (ds @ [k])) (leaf_path l)" by blast
  with assms(2,3) show ?thesis by (intro parallel_heads [of "map ToLower ds" "ToLower n" _ "ToLower k"]) auto
qed

fun pairwise_parallel :: "string list list \<Rightarrow> bool" where
  "pairwise_parallel [] \<longleftrightarrow> True"
| "pairwise_parallel (p # ps) \<longleftrightarrow> (\<forall>q \<in> set ps. p \<parallel> q) \<and> pairwise_parallel ps"

lemma pairwise_parallel_append:
  "pairwise_parallel (ps @ qs) \<longleftrightarrow> pairwise_parallel ps \<and> pairwise_parallel qs \<and> (\<forall>p \<in> set ps. \<forall>q \<in> set qs. p \<parallel> q)"
  by (induction ps) auto

lemma wf_leaves_parallel: "wf_fields fs \<Longrightarrow> pairwise_parallel (map leaf_path (leaves fs ds))"
proof (induction fs ds rule: leaves.induct)
  case (2 n o1 fs ds)
  have "prefix (map ToLower (ds @ [n])) (leaf_path (o1, n, ds))" by (simp add: leaf_path_def)
  with 2 leaves_parallel_fields [of _ fs ds n] show ?case by auto
next
  case (3 n gs fs ds)
  have "leaf_path l \<parallel> leaf_path k" if "l \<in> set (leaves gs (ds @ [n]))" "k \<in> set (leaves fs ds)" for l k
  proof -
    from leaf_head [OF that(1)] have "prefix (map ToLower (ds @ [n])) (leaf_path l)"
      by (metis append_prefixD map_append)
    then show ?thesis using leaves_parallel_fields [OF that(2)] "3.prems" by simp
  qed
  with 3 show ?case by (auto simp: pairwise_parallel_append)
qed simp

section \<open>Registration as a whole\<close>

lemma RegisterOption_cases:
  assumes "\<not> lock_held r" "\<And>p. strict_prefix p (leaf_path (o1, n, ds)) \<Longrightarrow> reg_lookup p (registeredOptions r) = None"
  obtains r' where "RegisterOption o1 n ds r = Some (Ok (), r')" "\<not> lock_held r'"
    "\<And>q. reg_lookup q (registeredOptions r') =
        (if q = leaf_path (o1, n, ds) then Some o1
         else if strict_prefix (leaf_path (o1, n, ds)) q then None else reg_lookup q (registeredOptions r))"
    "optionFullNames r' = (optionFullNames r)(o1 \<mapsto> join_dot (ds @ [n]))"
proof -
  have "reg_lookup (map ToLower (take k ds)) (registeredOptions r) = None" if "k \<le> length ds" for k
  proof (rule assms(2))
    have "leaf_path (o1, n, ds) = map ToLower (take k ds) @ map ToLower (drop k ds @ [n])"
      by (metis append.assoc append_take_drop_id fst_conv leaf_path_def map_append snd_conv)
    then show "strict_prefix (map ToLower (take k ds)) (leaf_path (o1, n, ds))" by (auto simp: strict_prefix_def)
  qed
  then obtain m where m: "reg_insert o1 n ds (registeredOptions r) = Ok m"
    using reg_insert_Ok_iff [of o1 n ds "registeredOptions r"] by auto
  show thesis
  proof (rule that)
    show "RegisterOption o1 n ds r = Some (Ok (), r\<lparr>registeredOptions := m,
        optionFullNames := (optionFullNames r)(o1 \<mapsto> join_dot (ds @ [n]))\<rparr>)"
      using m assms(1) by (simp add: RegisterOption_def)
    show "reg_lookup q (registeredOptions (r\<lparr>registeredOptions := m,
        optionFullNames := (optionFullNames r)(o1 \<mapsto> join_dot (ds @ [n]))\<rparr>)) =
        (if q = leaf_path (o1, n, ds) then Some o1
         else if strict_prefix (leaf_path (o1, n, ds)) q then None else reg_lookup q (registeredOptions r))" for q
      using reg_lookup_insert [OF m, of q] by (simp add: leaf_path_def)
  qed (use assms(1) in simp_all)
qed

definition clear_for :: "(opt \<times> string \<times> string list) list \<Rightarrow> registry \<Rightarrow> bool" where
  "clear_for ls r \<longleftrightarrow> (\<forall>l \<in> set ls. \<forall>p. strict_prefix p (leaf_path l) \<longrightarrow> reg_lookup p (registeredOptions r) = None)"

lemma register_all_ok:
  "\<not> lock_held r \<Longrightarrow> pairwise_parallel (map leaf_path ls) \<Longrightarrow> clear_for ls r \<Longrightarrow>
     \<exists>r'. register_all ls r = Some (Ok (), r') \<and> \<not> lock_held r' \<and>
       (\<forall>l \<in> set ls. reg_lookup (leaf_path l) (registeredOptions r') = Some (fst l)) \<and>
       (\<forall>q. (\<forall>l \<in> set ls. leaf_path l \<parallel> q) \<longrightarrow> reg_lookup q (registeredOptions r') = reg_lookup q (registeredOptions r))"
proof (induction ls arbitrary: r)
  case (Cons l ls)
  obtain o1 n ds where l: "l = (o1, n, ds)" by (cases l)
  obtain r1 where r1: "RegisterOption o1 n ds r = Some (Ok (), r1)" "\<not> lock_held r1"
    and look: "\<And>q. reg_lookup q (registeredOptions r1) =
        (if q = leaf_path l then Some o1
         else if strict_prefix (leaf_path l) q then None else reg_lookup q (registeredOptions r))"
    by (rule RegisterOption_cases [of r o1 n ds]) (use Cons.prems in \<open>auto simp: clear_for_def l\<close>)
  have par: "leaf_path l \<parallel> leaf_path k" if "k \<in> set ls" for k using Cons.prems(2) that by simp
  have "clear_for ls r1"
    unfolding clear_for_def look using Cons.prems(3) par
    by (auto simp: clear_for_def parallel_def strict_prefix_def)
  then obtain r' where r': "register_all ls r1 = Some (Ok (), r')" "\<not> lock_held r'"
      "\<forall>k \<in> set ls. reg_lookup (leaf_path k) (registeredOptions r') = Some (fst k)"
      "\<And>q. \<forall>k \<in> set ls. leaf_path k \<parallel> q \<Longrightarrow> reg_lookup q (registeredOptions r') = reg_lookup q (registeredOptions r1)"
    using Cons.IH [OF r1(2)] Cons.prems(2) by auto
  have "reg_lookup (leaf_path l) (registeredOptions r') = Some o1"
    using r'(4) [of "leaf_path l"] par look by (auto simp: parallel_commute)
  moreover have "reg_lookup q (registeredOptions r') = reg_lookup q (registeredOptions r)"
    if "\<forall>k \<in> set (l # ls). leaf_path k \<parallel> q" for q
    using r'(4) [of q] that look [of q] by (auto simp: parallel_def strict_prefix_def)
  ultimately show ?case using r' r1 by (auto simp: l)
qed simp

lemma names_path_eq:
  "ToLower s = ToLower (join_dot ws) \<Longrightarrow> ws \<noteq> [] \<Longrightarrow> \<forall>w \<in> set ws. plain w \<Longrightarrow> names_path s = map ToLower ws"
  unfolding names_path_def by (metis split_ToLower split_join)

lemma RegisterOption_Ok:
  assumes "RegisterOption o1 name domains r = Some (Ok (), r')"
  obtains m where "\<not> lock_held r" "reg_insert o1 name domains (registeredOptions r) = Ok m"
    "r' = r\<lparr>registeredOptions := m, optionFullNames := (optionFullNames r)(o1 \<mapsto> join_dot (domains @ [name]))\<rparr>"
  using assms by (auto simp: RegisterOption_def split: if_splits outcome.splits)

lemma RegisterOption_parse:
  assumes "RegisterOption o1 name domains r = Some (Ok (), r')" "names_path s = map ToLower (domains @ [name])"
  shows "ParseOption s r' = Some (Ok o1, r')"
  using RegisterOption_Ok [OF assms(1)]
proof cases
  case (1 m)
  with ParseOption_lookup [of r' s] reg_lookup_insert [OF 1(2), of "names_path s"] assms(2) show ?thesis by simp
qed

lemma names_path_SendTTL: "names_path ''Socket.SendTTL'' = map ToLower ([''Socket''] @ [''SendTTL''])"
  by code_simp

section \<open>Properties\<close>

text \<open>
  an option that \<open>RegisterOption\<close> has stored is found by \<open>ParseOption\<close> under its dotted
  name, whatever the case of the letters, and its full name is the dotted name; every path that does
  not go through it finds what it found before.
\<close>

theorem register_then_parse:
  assumes "RegisterOption o1 name domains r = Some (Ok (), r')"
    and "\<forall>w \<in> set (domains @ [name]). plain w" and "ToLower s = ToLower (join_dot (domains @ [name]))"
  shows "ParseOption s r' = Some (Ok o1, r') \<and> optionFullNames r' o1 = Some (join_dot (domains @ [name])) \<and>
    (\<forall>q. \<not> prefix (names_path s) q \<longrightarrow> reg_lookup q (registeredOptions r') = reg_lookup q (registeredOptions r))"
  using RegisterOption_Ok [OF assms(1)]
proof cases
  case (1 m)
  have p: "names_path s = map ToLower (domains @ [name])" using names_path_eq [OF assms(3) _ assms(2)] by simp
  with RegisterOption_parse [OF assms(1) p] reg_lookup_insert [OF 1(2)] 1(3) show ?thesis
    by (auto simp: strict_prefix_def)
qed

theorem register_then_parse_witness:
  "\<exists>r'. RegisterOption Opt_NoSend ''NoSend'' [''Socket''] initial_registry = Some (Ok (), r') \<and>
     ParseOption ''socket.NOSEND'' r' = Some (Ok Opt_NoSend, r')"
proof -
  have "\<exists>r'. RegisterOption Opt_NoSend ''NoSend'' [''Socket''] initial_registry = Some (Ok (), r')"
    by (simp add: RegisterOption_def initial_registry_def)
  then obtain r' where r: "RegisterOption Opt_NoSend ''NoSend'' [''Socket''] initial_registry = Some (Ok (), r')" ..
  have "\<forall>w \<in> set ([''Socket''] @ [''NoSend'']). plain w" by (simp add: plain_def)
  moreover have "ToLower ''socket.NOSEND'' = ToLower (join_dot ([''Socket''] @ [''NoSend'']))"
    by code_simp
  ultimately show ?thesis using r register_then_parse [OF r] by blast
qed

text \<open>
  registering a struct of options whose field names differ at every level (apart from the case
  of letters) succeeds on a registry with nothing in the way, leaves the lock free, and afterwards
  every option of the struct is parsed from its dotted name.
\<close>

theorem structured_options_parse:
  assumes "\<not> lock_held r" and "wf_fields fs" and "clear_for (leaves fs domains) r"
  shows "\<exists>r'. RegisterStructuredOptions (SStruct fs) domains r = Some (Ok (), r') \<and> \<not> lock_held r' \<and>
    (\<forall>(o1, n, ds) \<in> set (leaves fs domains). \<forall>s. names_path s = map ToLower (ds @ [n]) \<longrightarrow> ParseOption s r' = Some (Ok o1, r'))"
proof -
  obtain r' where "register_all (leaves fs domains) r = Some (Ok (), r')" "\<not> lock_held r'"
      "\<forall>l \<in> set (leaves fs domains). reg_lookup (leaf_path l) (registeredOptions r') = Some (fst l)"
    using register_all_ok [OF assms(1) wf_leaves_parallel [OF assms(2)] assms(3)] by blast
  then show ?thesis by (auto simp: register_fields_leaves ParseOption_lookup leaf_path_def)
qed

lemma clear_for_initial: "clear_for ls initial_registry"
  by (simp add: clear_for_def initial_registry_def)

theorem structured_options_parse_witness:
  "\<exists>r'. RegisterStructuredOptions connectorOptions [''Connector''] initial_registry = Some (Ok (), r') \<and>
     ParseOption ''connector.pipe.raw'' r' = Some (Ok Opt_Raw, r')"
proof -
  let ?fs = "[(''PipeLimit'', SOpt Opt_PipeLimit), (''Dialer'', dialerOptions), (''Pipe'', pipeOptions)]"
  have wf: "wf_fields ?fs"
    by (simp add: dialerOptions_def pipeOptions_def plain_def ToLower_def to_lower_char_def)
  have nl: "\<not> lock_held initial_registry" by (simp add: initial_registry_def)
  have mem: "(Opt_Raw, ''Raw'', [''Connector'', ''Pipe'']) \<in> set (leaves ?fs [''Connector''])"
    by (simp add: dialerOptions_def pipeOptions_def)
  have path: "names_path ''connector.pipe.raw'' = map ToLower ([''Connector'', ''Pipe''] @ [''Raw''])"
    by code_simp
  from structured_options_parse [OF nl wf clear_for_initial, of "[''Connector'']"] obtain r'
    where r': "RegisterStructuredOptions (SStruct ?fs) [''Connector''] initial_registry = Some (Ok (), r')"
      and "\<forall>(o1, n, ds) \<in> set (leaves ?fs [''Connector'']). \<forall>s. names_path s = map ToLower (ds @ [n]) \<longrightarrow> ParseOption s r' = Some (Ok o1, r')"
    by blast
  with mem path have "ParseOption ''connector.pipe.raw'' r' = Some (Ok Opt_Raw, r')" by blast
  with r' show ?thesis by (auto simp: connectorOptions_def)
qed

text \<open>
  a failed \<open>ParseOption\<close> returns without releasing the registry's lock: every later
  \<open>ParseOption\<close> and \<open>RegisterOption\<close> waits for it forever.
\<close>

theorem failed_ParseOption_blocks:
  assumes "ParseOption s r = Some (Error e, r')"
  shows "ParseOption s2 r' = None \<and> RegisterOption o2 name domains r' = None"
  using assms by (auto simp: ParseOption_def RegisterOption_def Let_def split: if_splits option.splits regnode.splits)

theorem failed_ParseOption_blocks_witness:
  "\<exists>r'. ParseOption ''nosuch'' initial_registry = Some (Error ErrOptionNotFound, r') \<and> ParseOption ''nosuch'' r' = None"
proof -
  have "\<exists>r'. ParseOption ''nosuch'' initial_registry = Some (Error ErrOptionNotFound, r')"
    by (simp add: ParseOption_def initial_registry_def)
  with failed_ParseOption_blocks show ?thesis by blast
qed

end
