(* ===== verification/Option_Sets.thy ===== *)
theory Option_Sets
  imports Option_Values
begin

text \<open>
  The option sets of \<open>options/options.go\<close>. Option sets refer to each other (a dialer's set
  has the connector's as a sub set, a set may pass what it does not accept downstream) and
  are shared, so they are objects in a heap, a list indexed by address. Change hooks are
  named by numbers; what they do to the state \<open>'s\<close> around the options is an argument. The
  lookups follow references, so they have fuel; \<open>heap_ok\<close> makes the address enough of it.
\<close>

section \<open>Objects\<close>

record options =
  opts :: "opt \<Rightarrow> optval option"
  accepts :: "opt set option"
  subOptions :: "nat list"
  downstream :: "nat option"
  optionChangeHooks :: "nat list"

type_synonym oheap = "options list"
type_synonym OptionValues = "(opt \<times> optval) list"
type_synonym 's hook_env = "nat \<Rightarrow> opt \<Rightarrow> optval option \<Rightarrow> optval \<Rightarrow> oheap \<Rightarrow> 's \<Rightarrow> unit outcome \<times> 's"

definition acceptOption :: "options \<Rightarrow> opt \<Rightarrow> bool" where
  "acceptOption ob o1 \<longleftrightarrow> (case accepts ob of None \<Rightarrow> True | Some A \<Rightarrow> o1 \<in> A)"

definition AddOptionChangeHook :: "nat \<Rightarrow> nat \<Rightarrow> oheap \<Rightarrow> oheap" where
  "AddOptionChangeHook a hook H =
     (if a < length H then H[a := (H ! a)\<lparr>optionChangeHooks := optionChangeHooks (H ! a) @ [hook]\<rparr>] else H)"

section \<open>Lookup\<close>

fun first_found :: "(nat \<Rightarrow> optval option option) \<Rightarrow> nat list \<Rightarrow> optval option option" where
  "first_found f [] = Some None"
| "first_found f (s # ss) =
     (case f s of None \<Rightarrow> None | Some (Some v) \<Rightarrow> Some (Some v) | Some None \<Rightarrow> first_found f ss)"

text \<open>The outer \<open>None\<close> is a lookup that ran out of fuel or followed a dangling reference.\<close>

fun GetOption :: "nat \<Rightarrow> oheap \<Rightarrow> nat \<Rightarrow> opt \<Rightarrow> optval option option" where
  "GetOption 0 H a o1 = None"
| "GetOption (Suc n) H a o1 =
     (if a < length H then
        (if acceptOption (H ! a) o1 then
           (case opts (H ! a) o1 of
              Some v \<Rightarrow> Some (Some v)
            | None \<Rightarrow> first_found (\<lambda>s. GetOption n H s o1) (subOptions (H ! a)))
         else case downstream (H ! a) of Some d \<Rightarrow> GetOption n H d o1 | None \<Rightarrow> Some None)
      else None)"

definition GetOptionDefault :: "nat \<Rightarrow> oheap \<Rightarrow> nat \<Rightarrow> opt \<Rightarrow> optval option" where
  "GetOptionDefault n H a o1 =
     map_option (\<lambda>r. case r of Some v \<Rightarrow> v | None \<Rightarrow> defaultValue o1) (GetOption n H a o1)"

fun valueFrom :: "nat \<Rightarrow> oheap \<Rightarrow> opt \<Rightarrow> nat list \<Rightarrow> optval option" where
  "valueFrom n H o1 [] = Some (defaultValue o1)"
| "valueFrom n H o1 (a # as) =
     (case GetOption n H a o1 of
        None \<Rightarrow> None
      | Some (Some v) \<Rightarrow> Some v
      | Some None \<Rightarrow> valueFrom n H o1 as)"

section \<open>Update\<close>

fun run_hooks :: "'s hook_env \<Rightarrow> nat list \<Rightarrow> opt \<Rightarrow> optval option \<Rightarrow> optval \<Rightarrow> oheap \<Rightarrow> 's \<Rightarrow> unit outcome \<times> 's" where
  "run_hooks env [] o1 old v H st = (Ok (), st)"
| "run_hooks env (k # ks) o1 old v H st =
     (case env k o1 old v H st of
        (Ok _, st') \<Rightarrow> run_hooks env ks o1 old v H st'
      | (Error e, st') \<Rightarrow> (Error e, st')
      | (Panic, st') \<Rightarrow> (Panic, st'))"

definition doSetOption :: "'s hook_env \<Rightarrow> nat \<Rightarrow> opt \<Rightarrow> optval \<Rightarrow> oheap \<Rightarrow> 's \<Rightarrow> unit outcome \<times> oheap \<times> 's" where
  "doSetOption env a o1 v H st =
     (let ob = H ! a; old = opts ob o1;
          H' = H[a := ob\<lparr>opts := (opts ob)(o1 \<mapsto> v)\<rparr>];
          (r, st') = run_hooks env (optionChangeHooks ob) o1 old v H' st
      in (r, H', st'))"

fun SetOption :: "'s hook_env \<Rightarrow> nat \<Rightarrow> oheap \<Rightarrow> nat \<Rightarrow> opt \<Rightarrow> optval \<Rightarrow> 's \<Rightarrow> (unit outcome \<times> oheap \<times> 's) option" where
  "SetOption env 0 H a o1 v st = None"
| "SetOption env (Suc n) H a o1 v st =
     (if a < length H then
        (case Validate o1 v of
           Ok w \<Rightarrow>
             (if \<not> acceptOption (H ! a) o1 then
                (case downstream (H ! a) of
                   None \<Rightarrow> Some (Error ErrUnsupportedOption, H, st)
                 | Some d \<Rightarrow> SetOption env n H d o1 w st)
              else Some (doSetOption env a o1 w H st))
         | Error e \<Rightarrow> Some (Error e, H, st)
         | Panic \<Rightarrow> Some (Panic, H, st))
      else None)"

fun SetOptionIfNotExists ::
    "'s hook_env \<Rightarrow> nat \<Rightarrow> oheap \<Rightarrow> nat \<Rightarrow> opt \<Rightarrow> optval \<Rightarrow> 's \<Rightarrow> (unit outcome \<times> oheap \<times> 's) option" where
  "SetOptionIfNotExists env 0 H a o1 v st = None"
| "SetOptionIfNotExists env (Suc n) H a o1 v st =
     (if a < length H then
        (case Validate o1 v of
           Ok w \<Rightarrow>
             (if \<not> acceptOption (H ! a) o1 then
                (case downstream (H ! a) of
                   None \<Rightarrow> Some (Error ErrUnsupportedOption, H, st)
                 | Some d \<Rightarrow> SetOptionIfNotExists env n H d o1 w st)
              else if opts (H ! a) o1 = None then Some (doSetOption env a o1 w H st)
              else Some (Ok (), H, st))
         | Error e \<Rightarrow> Some (Error e, H, st)
         | Panic \<Rightarrow> Some (Panic, H, st))
      else None)"

section \<open>Creation\<close>

definition empty_options :: options where
  "empty_options = \<lparr>opts = Map.empty, accepts = None, subOptions = [], downstream = None, optionChangeHooks = []\<rparr>"

text \<open>
  The loop over the given values, whose errors the constructors ignore. A new set has no
  hooks yet, so setting its values runs none. Go iterates the map in any order; the list is
  the order it takes.
\<close>

fun set_values :: "OptionValues \<Rightarrow> options \<Rightarrow> options" where
  "set_values [] ob = ob"
| "set_values ((o1, v) # ovs) ob =
     set_values ovs (case Validate o1 v of Ok w \<Rightarrow> ob\<lparr>opts := (opts ob)(o1 \<mapsto> w)\<rparr> | _ \<Rightarrow> ob)"

definition NewOptionsWithValues :: "OptionValues \<Rightarrow> oheap \<Rightarrow> nat \<times> oheap" where
  "NewOptionsWithValues ovs H = (length H, H @ [set_values ovs empty_options])"

definition NewOptions :: "oheap \<Rightarrow> nat \<times> oheap" where
  "NewOptions H = NewOptionsWithValues [] H"

definition NewOptionsWithDownStreamsAndAccepts :: "nat option \<Rightarrow> opt list \<Rightarrow> oheap \<Rightarrow> nat \<times> oheap" where
  "NewOptionsWithDownStreamsAndAccepts ds acc H =
     (length H, H @ [empty_options\<lparr>downstream := ds, accepts := Some (set acc)\<rparr>])"

definition NewOptionsWithAccepts :: "opt list \<Rightarrow> oheap \<Rightarrow> nat \<times> oheap" where
  "NewOptionsWithAccepts acc H = NewOptionsWithDownStreamsAndAccepts None acc H"

definition NewOptionsWithValuesAndSubs :: "OptionValues \<Rightarrow> nat list \<Rightarrow> oheap \<Rightarrow> nat \<times> oheap" where
  "NewOptionsWithValuesAndSubs ovs subs H =
     (length H, H @ [set_values ovs (empty_options\<lparr>subOptions := subs\<rparr>)])"

section \<open>Invariants\<close>

text \<open>References point to older objects; stored values have the type of their option.\<close>

definition refs_ok :: "nat \<Rightarrow> options \<Rightarrow> bool" where
  "refs_ok a ob \<longleftrightarrow> (\<forall>s \<in> set (subOptions ob). s < a) \<and> (case downstream ob of None \<Rightarrow> True | Some d \<Rightarrow> d < a)"

definition typed :: "options \<Rightarrow> bool" where
  "typed ob \<longleftrightarrow> (\<forall>o1 v. opts ob o1 = Some v \<longrightarrow> has_kind (okind o1) v)"

definition heap_ok :: "oheap \<Rightarrow> bool" where
  "heap_ok H \<longleftrightarrow> (\<forall>a < length H. refs_ok a (H ! a) \<and> typed (H ! a))"

section \<open>Lookup returns, and returns typed values\<close>

lemma first_found_total: "(\<And>s. s \<in> set ss \<Longrightarrow> f s \<noteq> None) \<Longrightarrow> first_found f ss \<noteq> None"
  by (induction ss) (auto split: option.splits)

lemma first_found_Some: "first_found f ss = Some (Some v) \<Longrightarrow> \<exists>s \<in> set ss. f s = Some (Some v)"
  by (induction ss) (auto split: option.splits)

lemma first_found_cong: "(\<And>s. s \<in> set ss \<Longrightarrow> f s = g s) \<Longrightarrow> first_found f ss = first_found g ss"
  by (induction ss) (auto split: option.splits)

lemma heap_okD:
  assumes "heap_ok H" "a < length H"
  shows "s \<in> set (subOptions (H ! a)) \<Longrightarrow> s < a" "downstream (H ! a) = Some d \<Longrightarrow> d < a" "typed (H ! a)"
  using assms by (auto simp: heap_ok_def refs_ok_def)

lemma GetOption_returns:
  "heap_ok H \<Longrightarrow> a < length H \<Longrightarrow> a < n \<Longrightarrow> GetOption n H a o1 \<noteq> None"
proof (induction n arbitrary: a)
  case 0
  then show ?case by simp
next
  case (Suc n)
  note d = heap_okD [OF Suc.prems(1,2)]
  have sub: "GetOption n H s o1 \<noteq> None" if "s < a" for s
    using that Suc.IH [OF Suc.prems(1), of s] Suc.prems(2,3) by linarith
  show ?case
  proof (cases "acceptOption (H ! a) o1")
    case True
    have "first_found (\<lambda>s. GetOption n H s o1) (subOptions (H ! a)) \<noteq> None"
      using sub d(1) by (intro first_found_total) auto
    with True Suc.prems(2) show ?thesis by (auto split: option.splits)
  next
    case False
    with sub d(2) Suc.prems(2) show ?thesis by (auto split: option.splits)
  qed
qed

text \<open>More fuel than the address gives the same answer.\<close>

lemma GetOption_fuel:
  "heap_ok H \<Longrightarrow> a < length H \<Longrightarrow> a < n \<Longrightarrow> a < m \<Longrightarrow> GetOption n H a o1 = GetOption m H a o1"
proof (induction n arbitrary: a m)
  case 0
  then show ?case by simp
next
  case (Suc n)
  then obtain k where m: "m = Suc k" by (cases m) auto
  note d = heap_okD [OF Suc.prems(1,2)]
  have sub: "GetOption n H s o1 = GetOption k H s o1" if "s < a" for s
    using that Suc.IH [OF Suc.prems(1), of s k] Suc.prems(2,3,4) m by linarith
  have "first_found (\<lambda>s. GetOption n H s o1) (subOptions (H ! a)) = first_found (\<lambda>s. GetOption k H s o1) (subOptions (H ! a))"
    using sub d(1) by (intro first_found_cong) auto
  with sub d(2) m show ?case by (auto split: option.splits)
qed

lemma GetOption_typed:
  "heap_ok H \<Longrightarrow> GetOption n H a o1 = Some (Some v) \<Longrightarrow> has_kind (okind o1) v"
proof (induction n arbitrary: a)
  case 0
  then show ?case by simp
next
  case (Suc n)
  from Suc.prems(2) have a: "a < length H" by (auto split: if_splits)
  have t: "opts (H ! a) o1 = Some v \<Longrightarrow> has_kind (okind o1) v"
    using heap_okD(3) [OF Suc.prems(1) a] by (simp add: typed_def)
  show ?case
    using Suc.prems a t Suc.IH
    by (auto split: if_splits option.splits dest!: first_found_Some)
qed

section \<open>Updates\<close>

definition put :: "nat \<Rightarrow> opt \<Rightarrow> optval \<Rightarrow> oheap \<Rightarrow> oheap" where
  "put a o1 w H = H[a := (H ! a)\<lparr>opts := (opts (H ! a))(o1 \<mapsto> w)\<rparr>]"

lemma doSetOption_heap: "doSetOption env a o1 w H st = (r, H', st') \<Longrightarrow> H' = put a o1 w H"
  by (auto simp: doSetOption_def Let_def put_def split: prod.splits)

lemma nth_put:
  "b < length H \<Longrightarrow> put a o1 w H ! b = (if b = a then (H ! b)\<lparr>opts := (opts (H ! b))(o1 \<mapsto> w)\<rparr> else H ! b)"
  by (cases "b = a") (simp_all add: put_def)

lemma length_put [simp]: "length (put a o1 w H) = length H"
  by (simp add: put_def)

lemma put_simps [simp]:
  "b < length H \<Longrightarrow> subOptions (put a o1 w H ! b) = subOptions (H ! b)"
  "b < length H \<Longrightarrow> downstream (put a o1 w H ! b) = downstream (H ! b)"
  "b < length H \<Longrightarrow> accepts (put a o1 w H ! b) = accepts (H ! b)"
  "b < length H \<Longrightarrow> acceptOption (put a o1 w H ! b) o2 = acceptOption (H ! b) o2"
  "b < length H \<Longrightarrow> optionChangeHooks (put a o1 w H ! b) = optionChangeHooks (H ! b)"
  by (simp_all add: nth_put acceptOption_def)

lemma opts_put: "b < length H \<Longrightarrow> opts (put a o1 w H ! b) = (if b = a then (opts (H ! b))(o1 \<mapsto> w) else opts (H ! b))"
  by (simp add: nth_put)

lemma heap_ok_put: "heap_ok H \<Longrightarrow> has_kind (okind o1) w \<Longrightarrow> heap_ok (put a o1 w H)"
  by (auto simp: heap_ok_def refs_ok_def typed_def opts_put)

lemma GetOption_put_other: "o2 \<noteq> o1 \<Longrightarrow> GetOption n (put a o1 w H) b o2 = GetOption n H b o2"
proof (induction n arbitrary: b)
  case 0
  then show ?case by simp
next
  case (Suc n)
  then show ?case
    by (auto simp: opts_put intro!: first_found_cong split: option.splits)
qed

text \<open>The object an operation on \<open>a\<close> ends at: the first on the downstream chain that accepts.\<close>

fun target :: "nat \<Rightarrow> oheap \<Rightarrow> nat \<Rightarrow> opt \<Rightarrow> nat option" where
  "target 0 H a o1 = None"
| "target (Suc n) H a o1 =
     (if a < length H then
        (if acceptOption (H ! a) o1 then Some a
         else case downstream (H ! a) of Some d \<Rightarrow> target n H d o1 | None \<Rightarrow> None)
      else None)"

lemma SetOption_Ok:
  "SetOption env n H a o1 v st = Some (Ok (), H', st') \<Longrightarrow>
     \<exists>b w. target n H a o1 = Some b \<and> Validate o1 v = Ok w \<and> H' = put b o1 w H"
proof (induction n arbitrary: a v)
  case 0
  then show ?case by simp
next
  case (Suc n)
  then obtain w where a: "a < length H" and w: "Validate o1 v = Ok w"
    by (auto split: if_splits outcome.splits)
  show ?case
  proof (cases "acceptOption (H ! a) o1")
    case True
    with Suc.prems a w show ?thesis by (auto dest: doSetOption_heap)
  next
    case False
    with Suc.prems a w obtain d where d: "downstream (H ! a) = Some d" "SetOption env n H d o1 w st = Some (Ok (), H', st')"
      by (auto split: option.splits)
    from Suc.IH [OF d(2)] obtain b u where "target n H d o1 = Some b" "Validate o1 w = Ok u" "H' = put b o1 u H" by blast
    moreover have "Validate o1 w = Ok w" using Validate_typed Validate_has_kind [OF w] by blast
    ultimately show ?thesis using False a w d(1) by auto
  qed
qed

lemma GetOption_target:
  "target n H a o1 = Some b \<Longrightarrow> GetOption n (put b o1 w H) a o1 = Some (Some w)"
proof (induction n arbitrary: a)
  case 0
  then show ?case by simp
next
  case (Suc n)
  then show ?case by (auto simp: opts_put split: if_splits option.splits)
qed

text \<open>What every hook keeps, setting an option keeps.\<close>

lemma run_hooks_keep:
  assumes "\<And>k o1 old v H s. P s (snd (env k o1 old v H s))" "\<And>s. P s s" "\<And>s t u. P s t \<Longrightarrow> P t u \<Longrightarrow> P s u"
  shows "run_hooks env ks o1 old v H s = (r, s') \<Longrightarrow> P s s'"
proof (induction ks arbitrary: s)
  case Nil
  then show ?case using assms(2) by simp
next
  case (Cons k ks)
  obtain r1 s1 where h: "env k o1 old v H s = (r1, s1)" by (cases "env k o1 old v H s")
  then have "P s s1" using assms(1) [of s k o1 old v H] by simp
  with Cons h show ?case using assms(3) by (auto split: outcome.splits)
qed

lemma SetOption_keeps:
  assumes "\<And>k o1 old v H s. P s (snd (env k o1 old v H s))" "\<And>s. P s s" "\<And>s t u. P s t \<Longrightarrow> P t u \<Longrightarrow> P s u"
  shows "SetOption env n H a o1 v s = Some (r, H', s') \<Longrightarrow> P s s'"
proof (induction n arbitrary: a v)
  case (Suc n)
  have d: "doSetOption env b o1 w H s = (r, H', s') \<Longrightarrow> P s s'" for b w
    using run_hooks_keep [where P = P, OF assms] by (auto simp: doSetOption_def Let_def split: prod.splits)
  show ?case using Suc d assms(2) by (auto split: if_splits outcome.splits option.splits)
qed simp

lemma SetOption_returns:
  "heap_ok H \<Longrightarrow> a < length H \<Longrightarrow> a < n \<Longrightarrow> SetOption env n H a o1 v st \<noteq> None"
proof (induction n arbitrary: a v)
  case 0
  then show ?case by simp
next
  case (Suc n)
  have "SetOption env n H d o1 w st \<noteq> None" if "downstream (H ! a) = Some d" for d w
    using heap_okD(2) [OF Suc.prems(1,2) that] Suc.IH [OF Suc.prems(1), of d w] Suc.prems(2,3) by linarith
  then show ?case using Suc.prems
    by (cases "Validate o1 v"; cases "downstream (H ! a)"; cases "acceptOption (H ! a) o1") simp_all
qed

text \<open>The values given to a constructor are set as \<open>SetOption\<close> on the new object sets them.\<close>

lemma set_values_SetOption:
  assumes "accepts ob = None" "optionChangeHooks ob = []"
  shows "\<exists>r. SetOption env (Suc n) (H @ [ob]) (length H) o1 v st = Some (r, H @ [set_values [(o1, v)] ob], st)"
  using assms by (cases "Validate o1 v") (simp_all add: acceptOption_def doSetOption_def)

lemma typed_set_values: "typed ob \<Longrightarrow> typed (set_values ovs ob)"
proof (induction ovs ob rule: set_values.induct)
  case (2 o1 v ovs ob)
  have "typed (case Validate o1 v of Ok w \<Rightarrow> ob\<lparr>opts := (opts ob)(o1 \<mapsto> w)\<rparr> | _ \<Rightarrow> ob)"
    using "2.prems" Validate_has_kind [of o1 v] by (cases "Validate o1 v") (auto simp: typed_def)
  with "2.IH" show ?case by simp
qed simp

lemma set_values_simps [simp]:
  "subOptions (set_values ovs ob) = subOptions ob" "downstream (set_values ovs ob) = downstream ob"
  "accepts (set_values ovs ob) = accepts ob" "optionChangeHooks (set_values ovs ob) = optionChangeHooks ob"
  by (induction ovs ob rule: set_values.induct) (auto split: outcome.splits)

lemma typed_empty: "typed empty_options" "typed (empty_options\<lparr>subOptions := ss\<rparr>)"
  "typed (empty_options\<lparr>downstream := d, accepts := A\<rparr>)"
  by (simp_all add: typed_def empty_options_def)

lemma heap_ok_snoc: "heap_ok H \<Longrightarrow> refs_ok (length H) ob \<Longrightarrow> typed ob \<Longrightarrow> heap_ok (H @ [ob])"
  by (auto simp: heap_ok_def nth_append less_Suc_eq)

lemma opts_set_values_subs: "opts (set_values ovs (ob\<lparr>subOptions := ss\<rparr>)) = opts (set_values ovs ob)"
proof (induction ovs ob arbitrary: ss rule: set_values.induct)
  case (2 o1 v ovs ob)
  show ?case
  proof (cases "Validate o1 v")
    case (Ok w)
    have "(ob\<lparr>subOptions := ss\<rparr>)\<lparr>opts := (opts (ob\<lparr>subOptions := ss\<rparr>))(o1 \<mapsto> w)\<rparr> =
        (ob\<lparr>opts := (opts ob)(o1 \<mapsto> w)\<rparr>)\<lparr>subOptions := ss\<rparr>" by simp
    with "2.IH" [of ss] Ok show ?thesis by (simp only: set_values.simps outcome.case)
  qed (use "2.IH" [of ss] in simp_all)
qed simp

text \<open>Objects allocated later do not change what older ones answer.\<close>

lemma GetOption_snoc:
  assumes "heap_ok H" "b < length H"
  shows "GetOption n (H @ [ob]) b o1 = GetOption n H b o1"
  using assms(2)
proof (induction n arbitrary: b)
  case (Suc n)
  have "first_found (\<lambda>s. GetOption n (H @ [ob]) s o1) (subOptions (H ! b)) = first_found (\<lambda>s. GetOption n H s o1) (subOptions (H ! b))"
    using heap_okD(1) [OF assms(1) Suc.prems] Suc by (intro first_found_cong) (meson less_trans)
  moreover have "GetOption n (H @ [ob]) d o1 = GetOption n H d o1" if "downstream (H ! b) = Some d" for d
    using heap_okD(2) [OF assms(1) Suc.prems that] Suc by (meson less_trans)
  ultimately show ?case using Suc.prems by (simp add: nth_append split: option.split)
qed simp

section \<open>The interface of an option store\<close>

locale option_store =
  fixes setv :: "'o \<Rightarrow> 'v \<Rightarrow> 'h \<Rightarrow> 'h option"
    and getv :: "'h \<Rightarrow> 'o \<Rightarrow> 'v option"
    and norm :: "'o \<Rightarrow> 'v \<Rightarrow> 'v option"
    and sinv :: "'h \<Rightarrow> bool"
  assumes set_get: "sinv h \<Longrightarrow> setv x v h = Some h' \<Longrightarrow> norm x v \<noteq> None \<and> getv h' x = norm x v"
    and set_other: "sinv h \<Longrightarrow> setv x v h = Some h' \<Longrightarrow> y \<noteq> x \<Longrightarrow> getv h' y = getv h y"
    and set_inv: "sinv h \<Longrightarrow> setv x v h = Some h' \<Longrightarrow> sinv h'"
begin

fun set_all :: "('o \<times> 'v) list \<Rightarrow> 'h \<Rightarrow> 'h option" where
  "set_all [] h = Some h"
| "set_all ((x, v) # xvs) h = (case setv x v h of None \<Rightarrow> None | Some h' \<Rightarrow> set_all xvs h')"

lemma last_write_wins:
  "sinv h \<Longrightarrow> set_all xvs h = Some h' \<Longrightarrow>
     getv h' y = (case map_of (rev xvs) y of Some v \<Rightarrow> norm y v | None \<Rightarrow> getv h y) \<and> sinv h'"
proof (induction xvs arbitrary: h)
  case Nil
  then show ?case by simp
next
  case (Cons xv xvs)
  obtain x v where xv: "xv = (x, v)" by (cases xv)
  from Cons.prems(2) xv obtain h1 where h1: "setv x v h = Some h1" "set_all xvs h1 = Some h'"
    by (auto split: option.splits)
  have g: "getv h1 y = (if y = x then norm x v else getv h y)"
    using set_get [OF Cons.prems(1) h1(1)] set_other [OF Cons.prems(1) h1(1)] by simp
  from Cons.IH [OF set_inv [OF Cons.prems(1) h1(1)] h1(2)] g show ?case
    by (auto simp: xv map_add_def split: option.splits)
qed

end

text \<open>One option set of a heap, seen through \<open>SetOption\<close> and \<open>GetOption\<close>.\<close>

definition set_at :: "'s hook_env \<Rightarrow> nat \<Rightarrow> opt \<Rightarrow> optval \<Rightarrow> oheap \<times> 's \<Rightarrow> (oheap \<times> 's) option" where
  "set_at env a o1 v h =
     (case SetOption env (Suc a) (fst h) a o1 v (snd h) of Some (Ok _, H', st') \<Rightarrow> Some (H', st') | _ \<Rightarrow> None)"

definition get_at :: "nat \<Rightarrow> oheap \<times> 's \<Rightarrow> opt \<Rightarrow> optval option" where
  "get_at a h o1 = (case GetOption (Suc a) (fst h) a o1 of Some r \<Rightarrow> r | None \<Rightarrow> None)"

definition validated :: "opt \<Rightarrow> optval \<Rightarrow> optval option" where
  "validated o1 v = (case Validate o1 v of Ok w \<Rightarrow> Some w | _ \<Rightarrow> None)"

lemma set_at_Some:
  assumes "set_at env a o1 v h = Some h'"
  obtains b w where "target (Suc a) (fst h) a o1 = Some b" "Validate o1 v = Ok w" "fst h' = put b o1 w (fst h)"
proof -
  obtain H' st' where "SetOption env (Suc a) (fst h) a o1 v (snd h) = Some (Ok (), H', st')" "h' = (H', st')"
    using assms unfolding set_at_def by (auto split: option.splits outcome.splits)
  with SetOption_Ok [of env "Suc a" "fst h" a o1 v "snd h" H' st'] show thesis by (auto intro: that)
qed

interpretation os: option_store "set_at env a" "get_at a" validated "\<lambda>h. heap_ok (fst h) \<and> a < length (fst h)"
  for env a
proof
  fix h h' x v y
  assume inv: "heap_ok (fst h) \<and> a < length (fst h)" and s: "set_at env a x v h = Some h'"
  obtain b w where b: "target (Suc a) (fst h) a x = Some b" "Validate x v = Ok w" "fst h' = put b x w (fst h)"
    by (rule set_at_Some [OF s])
  show "validated x v \<noteq> None \<and> get_at a h' x = validated x v"
    using GetOption_target [OF b(1), of w] b(2,3) by (simp add: get_at_def validated_def del: GetOption.simps)
  show "get_at a h' y = get_at a h y" if "y \<noteq> x"
    using that by (simp add: get_at_def b(3) GetOption_put_other del: GetOption.simps)
  show "heap_ok (fst h') \<and> a < length (fst h')"
    using inv b(2,3) by (simp add: heap_ok_put Validate_has_kind)
qed

section \<open>Properties\<close>

text \<open>
  C36: on an option set whose references are well founded, the last successful \<open>SetOption\<close> of
  an option wins: after any sequence of successful calls, with whatever change hooks,
  \<open>GetOption\<close> of each option returns the validated value of the last call for it, and of
  the others what it returned before.
\<close>

theorem last_SetOption_wins:
  assumes "heap_ok H" and "a < length H" and "os.set_all env a ovs (H, st) = Some (H', st')"
  shows "get_at a (H', st') o1 =
      (case map_of (rev ovs) o1 of Some v \<Rightarrow> validated o1 v | None \<Rightarrow> get_at a (H, st) o1) \<and> heap_ok H'"
  using os.last_write_wins [of "(H, st)" a env ovs "(H', st')" o1] assms by simp

theorem last_SetOption_wins_witness:
  "heap_ok [empty_options] \<and> (0 :: nat) < length [empty_options] \<and>
   (\<exists>H' st'. os.set_all (\<lambda>_ _ _ _ _ st. (Ok (), st)) 0 [(NewBoolOption 1 False, VBool True), (NewUint8Option 2 16, VInt 3), (NewUint8Option 2 16, VInt 7)]
       ([empty_options], ()) = Some (H', st') \<and>
     get_at 0 (H', st') (NewUint8Option 2 16) = Some (VUint8 7) \<and> heap_ok H')"
proof -
  let ?o1 = "NewBoolOption 1 False" and ?o2 = "NewUint8Option 2 16"
  let ?env = "\<lambda>_ _ _ _ _ st. (Ok (), st)"
  let ?ovs = "[(?o1, VBool True), (?o2, VInt 3), (?o2, VInt 7)]"
  have h: "heap_ok [empty_options]" by (simp add: heap_ok_def refs_ok_def typed_def empty_options_def)
  have ex: "\<exists>H' st'. os.set_all ?env 0 ?ovs ([empty_options], ()) = Some (H', st')"
    by (simp add: set_at_def empty_options_def acceptOption_def doSetOption_def Validate_def NewBoolOption_def NewUint8Option_def)
  then obtain H' st' where s: "os.set_all ?env 0 ?ovs ([empty_options], ()) = Some (H', st')" by blast
  have v: "validated ?o2 (VInt 7) = Some (VUint8 7)" by (simp add: validated_def Validate_def NewUint8Option_def)
  have "get_at 0 (H', st') ?o2 = validated ?o2 (VInt 7) \<and> heap_ok H'"
    using last_SetOption_wins [OF h _ s, of ?o2] by (simp add: NewBoolOption_def NewUint8Option_def)
  with h s v show ?thesis by auto
qed

text \<open>
  reading an option never fails: on a well-founded heap \<open>GetOptionDefault\<close> returns, and
  when the option's default has the option's type the result passes the type assertion
  of the option, so the \<open>.(T)\<close> in the callers never panics.
\<close>

theorem GetOptionDefault_typed:
  assumes "heap_ok H" and "a < length H" and "a < n" and "has_kind (okind o1) (defaultValue o1)"
  shows "\<exists>v. GetOptionDefault n H a o1 = Some v \<and> Value o1 v = Ok v"
proof -
  obtain r where r: "GetOption n H a o1 = Some r" using GetOption_returns [OF assms(1-3)] by auto
  show ?thesis
  proof (cases r)
    case None
    with r assms(4) show ?thesis by (simp add: GetOptionDefault_def Value_def)
  next
    case (Some v)
    with r GetOption_typed [OF assms(1), of n a o1 v] show ?thesis by (simp add: GetOptionDefault_def Value_def)
  qed
qed

theorem GetOptionDefault_typed_witness:
  "heap_ok [empty_options] \<and> (\<exists>v. GetOptionDefault 1 [empty_options] 0 (NewUint16Option 3 64) = Some v \<and>
     Value (NewUint16Option 3 64) v = Ok v)"
proof -
  have h: "heap_ok [empty_options]" by (simp add: heap_ok_def refs_ok_def typed_def empty_options_def)
  from h GetOptionDefault_typed [OF h, of 0 1 "NewUint16Option 3 64"] show ?thesis
    by (simp add: NewUint16Option_def)
qed

text \<open>
  a set created with values over a sub set (as a dialer's or listener's options over the
  connector's) answers with its own valid values first and with the sub set's otherwise.
\<close>

theorem sub_options_fall_back:
  assumes "heap_ok H" and "c < length H" and "NewOptionsWithValuesAndSubs ovs [c] H = (a, H')"
  shows "heap_ok H' \<and> a < length H' \<and> get_at a (H', ()) o1 =
    (case opts (set_values ovs empty_options) o1 of Some v \<Rightarrow> Some v | None \<Rightarrow> get_at c (H, ()) o1)"
proof -
  let ?ob = "set_values ovs (empty_options\<lparr>subOptions := [c]\<rparr>)"
  have a: "a = length H" and H': "H' = H @ [?ob]" using assms(3) by (simp_all add: NewOptionsWithValuesAndSubs_def)
  have ok: "heap_ok H'"
    unfolding H' by (rule heap_ok_snoc [OF assms(1) _ typed_set_values [OF typed_empty(2)]])
      (use assms(2) in \<open>simp add: refs_ok_def empty_options_def\<close>)
  have acc: "acceptOption ?ob o1" by (simp add: acceptOption_def empty_options_def)
  have "GetOption (length H) H c o1 = GetOption (Suc c) H c o1"
    using assms(1,2) by (intro GetOption_fuel) auto
  then have sub: "GetOption (length H) (H @ [?ob]) c o1 = GetOption (Suc c) H c o1"
    using GetOption_snoc [OF assms(1,2)] by simp
  obtain r where r: "GetOption (Suc c) H c o1 = Some r" using GetOption_returns [OF assms(1,2), of "Suc c"] by auto
  have "get_at a (H', ()) o1 = (case opts (set_values ovs empty_options) o1 of Some v \<Rightarrow> Some v | None \<Rightarrow> get_at c (H, ()) o1)"
    using acc sub r by (simp add: get_at_def a H' opts_set_values_subs split: option.split)
  then show ?thesis using ok by (simp add: a H')
qed

theorem sub_options_fall_back_witness:
  "heap_ok [empty_options] \<and> NewOptionsWithValuesAndSubs [(NewBoolOption 1 False, VBool True)] [0] [empty_options] =
     (1, [empty_options, set_values [(NewBoolOption 1 False, VBool True)] (empty_options\<lparr>subOptions := [0]\<rparr>)]) \<and>
   get_at 1 ([empty_options, set_values [(NewBoolOption 1 False, VBool True)] (empty_options\<lparr>subOptions := [0]\<rparr>)], ())
     (NewBoolOption 1 False) = Some (VBool True)"
proof -
  let ?o = "NewBoolOption 1 False"
  have h: "heap_ok [empty_options]" by (simp add: heap_ok_def refs_ok_def typed_def empty_options_def)
  have n: "NewOptionsWithValuesAndSubs [(?o, VBool True)] [0] [empty_options] =
     (1, [empty_options, set_values [(?o, VBool True)] (empty_options\<lparr>subOptions := [0]\<rparr>)])"
    by (simp add: NewOptionsWithValuesAndSubs_def)
  have "opts (set_values [(?o, VBool True)] empty_options) ?o = Some (VBool True)"
    by (simp add: Validate_def NewBoolOption_def)
  with h n sub_options_fall_back [OF h _ n, of ?o] show ?thesis by (simp del: set_values.simps)
qed

text \<open>
  \<open>SetOptionIfNotExists\<close> never changes an option that has a value, and otherwise does
  exactly what \<open>SetOption\<close> does.
\<close>

theorem SetOptionIfNotExists_spec:
  assumes "target n H a o1 = Some b" and "\<And>e. Validate o1 v \<noteq> Error e"
  shows "SetOptionIfNotExists env n H a o1 v st =
    (if opts (H ! b) o1 = None then SetOption env n H a o1 v st else Some (Ok (), H, st))"
  using assms
proof (induction n arbitrary: a v)
  case (Suc n)
  then have a: "a < length H" by (auto split: if_splits)
  obtain w where w: "Validate o1 v = Ok w" using Suc.prems(2) Validate_not_Panic by (cases "Validate o1 v") auto
  show ?case
  proof (cases "acceptOption (H ! a) o1")
    case True
    with Suc.prems(1) a w show ?thesis by auto
  next
    case False
    with Suc.prems(1) a obtain d where d: "downstream (H ! a) = Some d" "target n H d o1 = Some b"
      by (auto split: option.splits)
    have "Validate o1 w = Ok w" using Validate_typed Validate_has_kind [OF w] by blast
    with Suc.IH [OF d(2), of w] False a w d(1) show ?thesis by simp
  qed
qed simp

theorem SetOptionIfNotExists_spec_witness:
  "target 1 [empty_options] 0 (NewBoolOption 1 False) = Some 0 \<and>
   SetOptionIfNotExists (\<lambda>_ _ _ _ _ st. (Ok (), st)) 1 [empty_options] 0 (NewBoolOption 1 False) (VBool True) () =
   SetOption (\<lambda>_ _ _ _ _ st. (Ok (), st)) 1 [empty_options] 0 (NewBoolOption 1 False) (VBool True) ()"
proof -
  have t: "target 1 [empty_options] 0 (NewBoolOption 1 False) = Some 0"
    by (simp add: acceptOption_def empty_options_def)
  have v: "Validate (NewBoolOption 1 False) (VBool True) \<noteq> Error e" for e
    by (simp add: Validate_def NewBoolOption_def)
  have n: "opts ([empty_options] ! 0) (NewBoolOption 1 False) = None" by (simp add: empty_options_def)
  from t n SetOptionIfNotExists_spec [OF t v] show ?thesis by (simp only: simp_thms if_True)
qed

end
