(* ===== verification/Addresses.thy ===== *)
theory Addresses
  imports Option_Registry Option_Sets "HOL-Library.AList"
begin

text \<open>
  \<open>address/address.go\<close>: the addresses that carry a connect type and option values. The
  result of \<open>url.Parse\<close> is an argument; the keys of a query come in the order in which the
  map is iterated. The dialling and listening side is an argument too (the interface
  \<open>DialListener\<close>), with its state \<open>'s\<close>.
\<close>

section \<open>Data\<close>

record url =
  url_Scheme :: string
  url_Host :: string
  url_Path :: string
  url_Fragment :: string
  url_Query :: "(string \<times> string list) list"

datatype connType = ConnNone | ConnDial | ConnListen

record multiSocketAddress =
  sa_raw :: string
  sa_connType :: connType
  sa_addr :: string
  sa_ovs :: OptionValues

record 's DialListener =
  DialOptions :: "string \<Rightarrow> OptionValues \<Rightarrow> 's \<Rightarrow> err option \<times> 's"
  ListenOptions :: "string \<Rightarrow> OptionValues \<Rightarrow> 's \<Rightarrow> err option \<times> 's"

section \<open>Parsing\<close>

definition query_Get :: "string list \<Rightarrow> string" where
  "query_Get vs = (case vs of [] \<Rightarrow> '''' | v # _ \<Rightarrow> v)"

text \<open>The loop over the query; \<open>None\<close> is a call that never returns (the registry is locked).\<close>

fun parse_query :: "(string \<Rightarrow> u64 option) \<Rightarrow> (string \<times> string list) list \<Rightarrow> OptionValues \<Rightarrow> registry \<Rightarrow> (OptionValues outcome \<times> registry) option" where
  "parse_query pd [] ovs r = Some (Ok ovs, r)"
| "parse_query pd ((k, vs) # q) ovs r =
     (case ParseOption k r of
        None \<Rightarrow> None
      | Some (Ok o1, r') \<Rightarrow>
          (case Parse pd o1 (query_Get vs) of
             Ok v \<Rightarrow> parse_query pd q (AList.update o1 v ovs) r'
           | Error e \<Rightarrow> Some (Error e, r')
           | Panic \<Rightarrow> Some (Panic, r'))
      | Some (Error e, r') \<Rightarrow> Some (Error e, r')
      | Some (Panic, r') \<Rightarrow> Some (Panic, r'))"

fun fragment_connType :: "string \<Rightarrow> connType option" where
  "fragment_connType f =
     (if f = ''dial'' then Some ConnDial else if f = ''listen'' then Some ConnListen
      else if f = '''' then Some ConnNone else None)"

definition ParseMultiSocketAddress ::
    "(string \<Rightarrow> url outcome) \<Rightarrow> (string \<Rightarrow> u64 option) \<Rightarrow> string \<Rightarrow> registry \<Rightarrow> (multiSocketAddress outcome \<times> registry) option" where
  "ParseMultiSocketAddress url_Parse pd s r =
     (case url_Parse s of
        Error e \<Rightarrow> Some (Error e, r)
      | Panic \<Rightarrow> Some (Panic, r)
      | Ok u \<Rightarrow>
          (case fragment_connType (url_Fragment u) of
             None \<Rightarrow> Some (Error ErrBadConnectType, r)
           | Some ct \<Rightarrow>
               (case parse_query pd (url_Query u) [] r of
                  None \<Rightarrow> None
                | Some (Ok ovs, r') \<Rightarrow>
                    Some (Ok \<lparr>sa_raw = s, sa_connType = ct,
                              sa_addr = url_Scheme u @ ''://'' @ url_Host u @ url_Path u, sa_ovs = ovs\<rparr>, r')
                | Some (Error e, r') \<Rightarrow> Some (Error e, r')
                | Some (Panic, r') \<Rightarrow> Some (Panic, r'))))"

section \<open>Connecting\<close>

fun update_all :: "OptionValues \<Rightarrow> OptionValues \<Rightarrow> OptionValues" where
  "update_all [] xovs = xovs"
| "update_all ((o1, v) # ovs) xovs = update_all ovs (AList.update o1 v xovs)"

fun merge_ovs :: "OptionValues \<Rightarrow> OptionValues list \<Rightarrow> OptionValues" where
  "merge_ovs xovs [] = xovs"
| "merge_ovs xovs (ovs # ovses) = merge_ovs (update_all ovs xovs) ovses"

definition sa_Dial :: "multiSocketAddress \<Rightarrow> 's DialListener \<Rightarrow> OptionValues list \<Rightarrow> 's \<Rightarrow> err option \<times> 's" where
  "sa_Dial sa ctr ovses st = DialOptions ctr (sa_addr sa) (merge_ovs [] (sa_ovs sa # ovses)) st"

definition sa_Listen :: "multiSocketAddress \<Rightarrow> 's DialListener \<Rightarrow> OptionValues list \<Rightarrow> 's \<Rightarrow> err option \<times> 's" where
  "sa_Listen sa ctr ovses st = ListenOptions ctr (sa_addr sa) (merge_ovs [] (sa_ovs sa # ovses)) st"

definition sa_Connect :: "multiSocketAddress \<Rightarrow> 's DialListener \<Rightarrow> OptionValues list \<Rightarrow> 's \<Rightarrow> err option \<times> 's" where
  "sa_Connect sa ctr ovses st =
     (case sa_connType sa of
        ConnDial \<Rightarrow> sa_Dial sa ctr ovses st
      | ConnListen \<Rightarrow> sa_Listen sa ctr ovses st
      | ConnNone \<Rightarrow> (Some ErrConnectTypeMissing, st))"

text \<open>The three package functions parse first and return the error of the parser.\<close>

definition with_address ::
    "(multiSocketAddress \<Rightarrow> 's \<Rightarrow> err option \<times> 's) \<Rightarrow> (multiSocketAddress outcome \<times> registry) option \<Rightarrow> 's \<Rightarrow> (unit outcome \<times> registry \<times> 's) option" where
  "with_address act p st =
     (case p of
        None \<Rightarrow> None
      | Some (Ok sa, r) \<Rightarrow> (case act sa st of (None, st') \<Rightarrow> Some (Ok (), r, st') | (Some e, st') \<Rightarrow> Some (Error e, r, st'))
      | Some (Error e, r) \<Rightarrow> Some (Error e, r, st)
      | Some (Panic, r) \<Rightarrow> Some (Panic, r, st))"

definition address_Connect where
  "address_Connect url_Parse pd ctr s ovses r st =
     with_address (\<lambda>sa. sa_Connect sa ctr ovses) (ParseMultiSocketAddress url_Parse pd s r) st"

definition address_Dial where
  "address_Dial url_Parse pd ctr s ovses r st =
     with_address (\<lambda>sa. sa_Dial sa ctr ovses) (ParseMultiSocketAddress url_Parse pd s r) st"

definition address_Listen where
  "address_Listen url_Parse pd ctr s ovses r st =
     with_address (\<lambda>sa. sa_Listen sa ctr ovses) (ParseMultiSocketAddress url_Parse pd s r) st"

section \<open>Lemmas\<close>









lemma parse_query_locked: "q \<noteq> [] \<Longrightarrow> lock_held r \<Longrightarrow> parse_query pd q ovs r = None"
  by (cases q) (auto simp: ParseOption_def Let_def)



section \<open>Properties\<close>



text \<open>
  one address with an unknown option in its query makes every later address with a query
  hang: the parser returns the error with the registry's lock held.
\<close>

theorem unknown_option_blocks_later_addresses:
  assumes "\<not> lock_held r" and "url_Parse s = Ok u" and "fragment_connType (url_Fragment u) \<noteq> None"
    and "url_Query u = (k, vs) # q" and "reg_lookup (names_path k) (registeredOptions r) = None"
    and "url_Parse s2 = Ok u2" and "fragment_connType (url_Fragment u2) \<noteq> None" and "url_Query u2 \<noteq> []"
  shows "\<exists>r'. ParseMultiSocketAddress url_Parse pd s r = Some (Error ErrOptionNotFound, r') \<and>
    ParseMultiSocketAddress url_Parse pd s2 r' = None"
proof -
  have "parse_query pd (url_Query u) [] r = Some (Error ErrOptionNotFound, r\<lparr>lock_held := True\<rparr>)"
    using ParseOption_lookup [OF assms(1), of k] assms(4,5) by simp
  moreover have "parse_query pd (url_Query u2) [] (r\<lparr>lock_held := True\<rparr>) = None"
    using parse_query_locked [OF assms(8)] by simp
  ultimately show ?thesis
    using assms(2,3,6,7) by (auto simp: ParseMultiSocketAddress_def simp del: fragment_connType.simps)
qed

theorem unknown_option_blocks_later_addresses_witness:
  "\<exists>r'. ParseMultiSocketAddress (\<lambda>_. Ok \<lparr>url_Scheme = ''tcp'', url_Host = ''h:1'', url_Path = '''', url_Fragment = ''dial'',
       url_Query = [(''nosuch'', [''3''])]\<rparr>) (\<lambda>_. None) ''tcp://h:1?nosuch=3#dial'' initial_registry = Some (Error ErrOptionNotFound, r') \<and>
     ParseMultiSocketAddress (\<lambda>_. Ok \<lparr>url_Scheme = ''tcp'', url_Host = ''h:1'', url_Path = '''', url_Fragment = ''dial'',
       url_Query = [(''nosuch'', [''3''])]\<rparr>) (\<lambda>_. None) ''tcp://h:1?nosuch=3#dial'' r' = None"
proof -
  let ?u = "\<lparr>url_Scheme = ''tcp'', url_Host = ''h:1'', url_Path = '''', url_Fragment = ''dial'', url_Query = [(''nosuch'', [''3''])]\<rparr>"
  show ?thesis
    using unknown_option_blocks_later_addresses [of initial_registry "\<lambda>_. Ok ?u" _ ?u "''nosuch''" "[''3'']" "[]" _ ?u "\<lambda>_. None"]
    by (simp add: initial_registry_def)
qed

end
