(* ===== verification/Transports.thy ===== *)
theory Transports
  imports Prelude "HOL-Library.Sublist"
begin

text \<open>
  \<open>transport/transport.go\<close>, \<open>transport/types.go\<close> and \<open>transport/conn.go\<close>: schemes of
  addresses, the registry of transports and the addresses of a connection. A transport is
  its scheme and an implementation of any type; \<open>net.ResolveTCPAddr\<close> is an argument.
\<close>

section \<open>Schemes\<close>

text \<open>\<open>strings.Index(s, sub)\<close>; \<open>None\<close> is the result -1.\<close>

fun str_index :: "string \<Rightarrow> string \<Rightarrow> nat option" where
  "str_index [] sub = (if sub = [] then Some 0 else None)"
| "str_index (c # cs) sub = (if prefix sub (c # cs) then Some 0 else map_option Suc (str_index cs sub))"

definition StripScheme :: "string \<Rightarrow> string outcome" where
  "StripScheme addr =
     (case str_index addr ''://'' of None \<Rightarrow> Error ErrBadTransport | Some i \<Rightarrow> Ok (drop (i + 3) addr))"

definition ParseScheme :: "string \<Rightarrow> string" where
  "ParseScheme addr = (case str_index addr ''://'' of None \<Rightarrow> '''' | Some i \<Rightarrow> take i addr)"

definition ResolveTCPAddr :: "(string \<Rightarrow> 'a outcome) \<Rightarrow> string \<Rightarrow> 'a outcome" where
  "ResolveTCPAddr resolve addr = resolve (if prefix ''*'' addr then drop 1 addr else addr)"

section \<open>The registry of transports\<close>

record 't transport =
  Scheme :: string
  impl :: 't

type_synonym 't transports = "string \<Rightarrow> 't transport option"

definition RegisterTransport :: "'t transport \<Rightarrow> 't transports \<Rightarrow> 't transports" where
  "RegisterTransport t ts = ts(Scheme t \<mapsto> t)"

definition RegisterTransportWithScheme :: "'t transport \<Rightarrow> string \<Rightarrow> 't transports \<Rightarrow> 't transports" where
  "RegisterTransportWithScheme t scheme ts = ts(scheme \<mapsto> t)"

definition GetTransport :: "string \<Rightarrow> 't transports \<Rightarrow> 't transport option" where
  "GetTransport scheme ts = ts scheme"

definition GetTransportFromAddr :: "string \<Rightarrow> 't transports \<Rightarrow> 't transport option" where
  "GetTransportFromAddr addr ts = GetTransport (ParseScheme addr) ts"

section \<open>Connections\<close>

record Address =
  scheme :: string
  addr :: string

definition NewAddress :: "string \<Rightarrow> string \<Rightarrow> Address" where
  "NewAddress s a = \<lparr>scheme = s, addr = a\<rparr>"

definition Network :: "Address \<Rightarrow> string" where
  "Network a = scheme a"

definition Address_String :: "Address \<Rightarrow> string" where
  "Address_String a = addr a"

text \<open>The part of a \<open>net.Conn\<close> a connection reads: its two addresses.\<close>

record 'c net_conn =
  LocalAddr :: Address
  RemoteAddr :: Address
  raw_conn :: 'c

record ('t, 'c) connection =
  tran :: "'t transport"
  Conn :: "'c net_conn"
  laddr :: string
  raddr :: string

definition show_addr :: "string \<Rightarrow> Address \<Rightarrow> string" where
  "show_addr s a = s @ ''://'' @ Address_String a"

definition NewConnection :: "'t transport \<Rightarrow> 'c net_conn \<Rightarrow> bool \<Rightarrow> ('t, 'c) connection" where
  "NewConnection t nc accepted =
     (if accepted
      then \<lparr>tran = t, Conn = nc, laddr = show_addr (Scheme t) (LocalAddr nc),
             raddr = show_addr (Network (RemoteAddr nc)) (RemoteAddr nc)\<rparr>
      else \<lparr>tran = t, Conn = nc, laddr = show_addr (Network (LocalAddr nc)) (LocalAddr nc),
             raddr = show_addr (Scheme t) (RemoteAddr nc)\<rparr>)"

section \<open>Lemmas\<close>

lemma str_index_Some:
  "str_index s sub = Some i \<Longrightarrow> prefix sub (drop i s) \<and> i + length sub \<le> length s \<and> (\<forall>j < i. \<not> prefix sub (drop j s))"
proof (induction s arbitrary: i)
  case (Cons c cs)
  show ?case
  proof (cases "prefix sub (c # cs)")
    case True
    with Cons.prems show ?thesis using prefix_length_le [OF True] by auto
  next
    case False
    with Cons.prems obtain k where k: "i = Suc k" "str_index cs sub = Some k" by auto
    with Cons.IH [OF k(2)] False show ?thesis by (auto simp: less_Suc_eq_0_disj)
  qed
qed (auto split: if_splits)

lemma str_index_None: "str_index s sub = None \<Longrightarrow> j \<le> length s \<Longrightarrow> \<not> prefix sub (drop j s)"
proof (induction s arbitrary: j)
  case (Cons c cs)
  then show ?case by (cases j) (auto split: if_splits)
qed (auto split: if_splits)

lemma str_index_scheme: "CHR '':'' \<notin> set s \<Longrightarrow> str_index (s @ ''://'' @ rest) ''://'' = Some (length s)"
  by (induction s) auto

lemma scheme_split:
  assumes "CHR '':'' \<notin> set s"
  shows "ParseScheme (s @ ''://'' @ rest) = s" "StripScheme (s @ ''://'' @ rest) = Ok rest"
  using str_index_scheme [OF assms, of rest] by (simp_all add: ParseScheme_def StripScheme_def)

section \<open>Properties\<close>

text \<open>
  \<open>StripScheme\<close> succeeds exactly on the addresses that contain \<open>://\<close>; the scheme, the
  separator and the rest then give the address back, and the cut is at the first separator.
\<close>

theorem scheme_decomposes:
  "(\<forall>rest. StripScheme a = Ok rest \<longrightarrow>
      a = ParseScheme a @ ''://'' @ rest \<and> (\<forall>j < length (ParseScheme a). \<not> prefix ''://'' (drop j a))) \<and>
   (StripScheme a = Error ErrBadTransport \<longleftrightarrow> (\<forall>j. \<not> prefix ''://'' (drop j a)))"
proof (cases "str_index a ''://''")
  case None
  have "\<not> prefix ''://'' (drop j a)" for j
    using str_index_None [OF None, of j] by (cases "j \<le> length a") auto
  with None show ?thesis by (simp add: StripScheme_def)
next
  case (Some i)
  note i = str_index_Some [OF Some]
  then obtain t where t: "drop i a = ''://'' @ t" by (auto simp: prefix_def)
  then have "t = drop (i + 3) a" by (metis add.commute append_eq_conv_conj drop_drop length_Cons list.size(3) numeral_3_eq_3)
  with t have "a = take i a @ ''://'' @ drop (i + 3) a" by (metis append_take_drop_id)
  with Some i show ?thesis by (auto simp: StripScheme_def ParseScheme_def)
qed

theorem scheme_decomposes_witness:
  "StripScheme ''tcp://127.0.0.1:9000'' = Ok ''127.0.0.1:9000'' \<and>
   ''tcp://127.0.0.1:9000'' = ParseScheme ''tcp://127.0.0.1:9000'' @ ''://'' @ ''127.0.0.1:9000''"
proof -
  have "StripScheme ''tcp://127.0.0.1:9000'' = Ok ''127.0.0.1:9000''" by (simp add: StripScheme_def)
  with scheme_decomposes [of "''tcp://127.0.0.1:9000''"] show ?thesis by blast
qed

text \<open>
  a transport registered under a scheme is the one that addresses of the scheme get, and
  it is handed the address without the scheme; the addresses of other schemes keep their
  transports. Registering under the transport's own scheme is the same.
\<close>

theorem address_dispatch:
  assumes "CHR '':'' \<notin> set s" and "CHR '':'' \<notin> set s2" and "s2 \<noteq> s"
  shows "GetTransportFromAddr (s @ ''://'' @ rest) (RegisterTransportWithScheme t s ts) = Some t \<and>
    StripScheme (s @ ''://'' @ rest) = Ok rest \<and>
    GetTransportFromAddr (s2 @ ''://'' @ rest) (RegisterTransportWithScheme t s ts) = GetTransportFromAddr (s2 @ ''://'' @ rest) ts \<and>
    RegisterTransport t ts = RegisterTransportWithScheme t (Scheme t) ts"
  using scheme_split [OF assms(1), of rest] scheme_split [OF assms(2), of rest] assms(3)
  by (simp add: GetTransportFromAddr_def GetTransport_def RegisterTransportWithScheme_def RegisterTransport_def)

theorem address_dispatch_witness:
  "GetTransportFromAddr ''tcp://*:80'' (RegisterTransportWithScheme \<lparr>Scheme = ''tcp'', impl = 1 :: nat\<rparr> ''tcp'' Map.empty) =
     Some \<lparr>Scheme = ''tcp'', impl = 1\<rparr> \<and> StripScheme ''tcp://*:80'' = Ok ''*:80''"
  using address_dispatch [of "''tcp''" "''ws''" "''*:80''" "\<lparr>Scheme = ''tcp'', impl = 1 :: nat\<rparr>" Map.empty] by simp

end
