(* ===== verification/Sockets.thy ===== *)
theory Sockets
  imports Wire Option_Registry Option_Sets "HOL-Library.AList" "HOL-Library.Multiset"
begin

text \<open>
  The socket of \<open>socket.go\<close>: its queues, its pipes with a receiver and a sender goroutine
  each, the operations of the application and \<open>Close\<close>. The goroutines interleave at their
  blocking points: each has a program counter, a step of a goroutine is a function of the
  shared state and of a choice (the case a \<open>select\<close> takes, the result of a call into the pipe,
  what the pools return), and a step that is not enabled is \<open>None\<close>. The pipe under the
  socket is the interface \<open>connector.Pipe\<close>: \<open>SendMsg\<close> may return any error, \<open>RecvMsg\<close> builds
  a message from any packet with the constructors of package \<open>message\<close>.
\<close>

section \<open>State\<close>

datatype spc = SStart | SLoop | SSend message | SRemain | SRemSend message | SRemPipe | SWaitStop nat | SDone
datatype rpc = RStart | RLoop | RGot message "err option" | RRemPipe | RDone
datatype tpc = TNone | TDrain | TSend message | TDrop | TDone
datatype cpc = CNone | CClear | CWait | CDrop | CDone

text \<open>
  A pipe of the socket, with the program counters of its sender, of its receiver and of the
  call of \<open>stopPipe\<close> for it. \<open>p_sq\<close> is the queue its sender has captured, if any.
\<close>

record spipe =
  p_id :: u32
  p_raw :: bool
  p_freeLevel :: FreeLevel
  p_stopq :: bool
  p_sendq :: "message chan"
  p_sq :: "nat option"
  p_spc :: spc
  p_rpc :: rpc
  p_tpc :: tpc

text \<open>
  The pipes are objects, the map refers to them. Changing a queue size makes a new channel
  while goroutines may still use the old one, so the channels ever made are a list and
  \<open>s_recvq\<close>, \<open>s_sendq\<close> are indices of it. \<open>s_all\<close> are the calls of \<open>sendToAll\<close> in progress (each
  holds the read lock), \<open>s_user\<close> the messages in the hands of the application.
\<close>

record socket =
  s_opts :: nat
  s_heap :: oheap
  s_handler :: bool
  s_closedq :: bool
  s_pipes :: "u32 \<Rightarrow> nat option"
  s_objs :: "spipe list"
  s_noRecv :: bool
  s_recvqs :: "message chan list"
  s_recvq :: nat
  s_noSend :: bool
  s_ttl :: u8
  s_bestEffort :: bool
  s_sendqs :: "message chan list"
  s_sendq :: nat
  s_senderWg :: nat
  s_senderStoppedq :: bool
  s_closer :: cpc
  s_all :: "(message \<times> nat list) list"
  s_mem :: mem
  s_user :: "message list"

text \<open>The case a \<open>select\<close> takes, or the result of a call into the pipe.\<close>

datatype choice =
    ChClosed | ChStop | ChSendq | ChPipeq | ChRecvq | ChStopped | ChTimeout | ChDone | ChDefault
  | ChResult "err option" choice

section \<open>Options\<close>

definition opt_bool :: "oheap \<Rightarrow> nat \<Rightarrow> opt \<Rightarrow> bool outcome" where
  "opt_bool H a o1 = (case GetOptionDefault (Suc a) H a o1 of Some (VBool b) \<Rightarrow> Ok b | _ \<Rightarrow> Panic)"

definition opt_uint16 :: "oheap \<Rightarrow> nat \<Rightarrow> opt \<Rightarrow> u16 outcome" where
  "opt_uint16 H a o1 = (case GetOptionDefault (Suc a) H a o1 of Some (VUint16 n) \<Rightarrow> Ok n | _ \<Rightarrow> Panic)"

definition opt_uint8 :: "oheap \<Rightarrow> nat \<Rightarrow> opt \<Rightarrow> u8 outcome" where
  "opt_uint8 H a o1 = (case GetOptionDefault (Suc a) H a o1 of Some (VUint8 n) \<Rightarrow> Ok n | _ \<Rightarrow> Panic)"

definition recvQueueSize :: "oheap \<Rightarrow> socket \<Rightarrow> u16 outcome" where
  "recvQueueSize H s = opt_uint16 H (s_opts s) Opt_RecvQueueSize"

definition sendQueueSize :: "oheap \<Rightarrow> socket \<Rightarrow> u16 outcome" where
  "sendQueueSize H s = opt_uint16 H (s_opts s) Opt_SendQueueSize"

definition upd :: "'a outcome \<Rightarrow> ('a \<Rightarrow> 's \<Rightarrow> 's) \<Rightarrow> 's \<Rightarrow> unit outcome \<times> 's" where
  "upd r f s = (case r of Ok x \<Rightarrow> (Ok (), f x s) | Error e \<Rightarrow> (Error e, s) | Panic \<Rightarrow> (Panic, s))"

text \<open>The cases in the order of the source: the one for \<open>noSend\<close> repeats \<open>Options.NoRecv\<close>.\<close>

definition onOptionChange :: "opt \<Rightarrow> oheap \<Rightarrow> socket \<Rightarrow> unit outcome \<times> socket" where
  "onOptionChange o1 H s =
     (if o1 = Opt_NoRecv then upd (opt_bool H (s_opts s) Opt_NoRecv) (\<lambda>b s. s\<lparr>s_noRecv := b\<rparr>) s
      else if o1 = Opt_RecvQueueSize
      then upd (recvQueueSize H s) (\<lambda>n s. s\<lparr>s_recvqs := s_recvqs s @ [make_chan (unat n)], s_recvq := length (s_recvqs s)\<rparr>) s
      else if o1 = Opt_NoRecv then upd (opt_bool H (s_opts s) Opt_NoSend) (\<lambda>b s. s\<lparr>s_noSend := b\<rparr>) s
      else if o1 = Opt_SendQueueSize
      then upd (sendQueueSize H s) (\<lambda>n s. s\<lparr>s_sendqs := s_sendqs s @ [make_chan (unat n)], s_sendq := length (s_sendqs s)\<rparr>) s
      else if o1 = Opt_SendTTL then upd (opt_uint8 H (s_opts s) Opt_SendTTL) (\<lambda>n s. s\<lparr>s_ttl := n\<rparr>) s
      else if o1 = Opt_SendBestEffort
      then upd (opt_bool H (s_opts s) Opt_SendBestEffort) (\<lambda>b s. s\<lparr>s_bestEffort := b\<rparr>) s
      else (Ok (), s))"

text \<open>The hooks of the option set of a socket: the connector's first, then the socket's.\<close>

definition hook_connector :: nat where "hook_connector = 0"
definition hook_socket :: nat where "hook_socket = 1"

definition socket_hooks :: "socket hook_env" where
  "socket_hooks k o1 old v H s = (if k = hook_socket then onOptionChange o1 H s else (Ok (), s))"

definition blank_socket :: "nat \<Rightarrow> oheap \<Rightarrow> mem \<Rightarrow> socket" where
  "blank_socket a H h =
     \<lparr>s_opts = a, s_heap = H, s_handler = False, s_closedq = False, s_pipes = Map.empty, s_objs = [],
      s_noRecv = False, s_recvqs = [], s_recvq = 0, s_noSend = False, s_ttl = 0, s_bestEffort = False,
      s_sendqs = [], s_sendq = 0, s_senderWg = 0, s_senderStoppedq = False, s_closer = CNone, s_all = [],
      s_mem = h, s_user = []\<rparr>"

fun init_values :: "opt list \<Rightarrow> oheap \<Rightarrow> socket \<Rightarrow> unit outcome \<times> socket" where
  "init_values [] H s = (Ok (), s)"
| "init_values (o1 # os) H s =
     (case onOptionChange o1 H s of (Panic, s') \<Rightarrow> (Panic, s') | (_, s') \<Rightarrow> init_values os H s')"

definition socket_New :: "OptionValues \<Rightarrow> oheap \<Rightarrow> mem \<Rightarrow> unit outcome \<times> socket" where
  "socket_New ovs H h =
     (let (a, H1) = NewOptionsWithValues ovs H;
          H2 = AddOptionChangeHook a hook_connector H1;
          (r, s1) = init_values [Opt_NoRecv, Opt_RecvQueueSize, Opt_NoSend, Opt_SendQueueSize, Opt_SendTTL, Opt_SendBestEffort]
                      H2 (blank_socket a H2 h);
          H3 = AddOptionChangeHook a hook_socket H2
      in (r, s1\<lparr>s_heap := H3, s_handler := True\<rparr>))"

text \<open>Both assign into the given map, which panics when it is nil.\<close>

definition NewNoSend :: "OptionValues option \<Rightarrow> oheap \<Rightarrow> mem \<Rightarrow> unit outcome \<times> socket" where
  "NewNoSend ovs H h =
     (case ovs of None \<Rightarrow> (Panic, blank_socket 0 H h)
      | Some ovs \<Rightarrow> socket_New (AList.update Opt_NoSend (VBool True) ovs) H h)"

definition NewNoRecv :: "OptionValues option \<Rightarrow> oheap \<Rightarrow> mem \<Rightarrow> unit outcome \<times> socket" where
  "NewNoRecv ovs H h =
     (case ovs of None \<Rightarrow> (Panic, blank_socket 0 H h)
      | Some ovs \<Rightarrow> socket_New (AList.update Opt_NoRecv (VBool True) ovs) H h)"

definition NewDefault :: "oheap \<Rightarrow> mem \<Rightarrow> unit outcome \<times> socket" where
  "NewDefault H h = socket_New [] H h"

definition socket_SetOption :: "opt \<Rightarrow> optval \<Rightarrow> socket \<Rightarrow> (unit outcome \<times> socket) option" where
  "socket_SetOption o1 v s =
     (case SetOption socket_hooks (Suc (s_opts s)) (s_heap s) (s_opts s) o1 v s of
        None \<Rightarrow> None
      | Some (r, H', s') \<Rightarrow> Some (r, s'\<lparr>s_heap := H'\<rparr>))"

section \<open>Queues\<close>

text \<open>\<open>None\<close>: the case is not ready, so the \<open>select\<close> cannot take it.\<close>

fun doPushMsg :: "choice \<Rightarrow> bool \<Rightarrow> bool \<Rightarrow> message \<Rightarrow> message chan \<Rightarrow> (err option \<times> message chan) option" where
  "doPushMsg ChClosed best closed m q = (if closed then Some (Some ErrClosed, q) else None)"
| "doPushMsg ChSendq best closed m q = (if can_send q then Some (None, chan_send m q) else None)"
| "doPushMsg ChDefault best closed m q =
     (if best \<and> \<not> closed \<and> \<not> can_send q then Some (Some ErrMsgDropped, q) else None)"
| "doPushMsg _ best closed m q = None"

definition push_sendq :: "choice \<Rightarrow> message \<Rightarrow> socket \<Rightarrow> (err option \<times> socket) option" where
  "push_sendq ch m s =
     (if s_sendq s < length (s_sendqs s) then
        map_option (\<lambda>(e, q). (e, s\<lparr>s_sendqs := (s_sendqs s)[s_sendq s := q]\<rparr>))
          (doPushMsg ch (s_bestEffort s) (s_closedq s) m (s_sendqs s ! s_sendq s))
      else None)"

definition push_pipe :: "choice \<Rightarrow> message \<Rightarrow> nat \<Rightarrow> socket \<Rightarrow> (err option \<times> socket) option" where
  "push_pipe ch m a s =
     (if a < length (s_objs s) then
        map_option (\<lambda>(e, q). (e, s\<lparr>s_objs := (s_objs s)[a := (s_objs s ! a)\<lparr>p_sendq := q\<rparr>]\<rparr>))
          (doPushMsg ch (s_bestEffort s) (s_closedq s) m (p_sendq (s_objs s ! a)))
      else None)"

definition resendMsg :: "choice \<Rightarrow> message \<Rightarrow> socket \<Rightarrow> (err option \<times> socket) option" where
  "resendMsg ch m s =
     (if SendType (meta m) = SendTypeToOne then push_sendq ch m s else Some (Some ErrBadMsg, s))"

text \<open>\<open>r\<close> is the result of \<open>p.SendMsg\<close>; the choice is for the \<open>select\<close> of a resend.\<close>

definition doSendMsg :: "FreeLevel \<Rightarrow> err option \<Rightarrow> choice \<Rightarrow> message \<Rightarrow> socket \<Rightarrow> (err option \<times> socket) option" where
  "doSendMsg lvl r ch m s =
     (case r of
        None \<Rightarrow> Some (None, s\<lparr>s_mem := FreeByLevel m lvl (s_mem s)\<rparr>)
      | Some e \<Rightarrow>
          (case resendMsg ch m s of
             None \<Rightarrow> None
           | Some (None, s') \<Rightarrow> Some (Some e, s')
           | Some (Some _, s') \<Rightarrow> Some (Some e, s'\<lparr>s_mem := FreeAll m (s_mem s')\<rparr>)))"

section \<open>Pipes\<close>

abbreviation obj :: "nat \<Rightarrow> socket \<Rightarrow> spipe" where
  "obj a s \<equiv> s_objs s ! a"

definition set_obj :: "nat \<Rightarrow> spipe \<Rightarrow> socket \<Rightarrow> socket" where
  "set_obj a p s = s\<lparr>s_objs := (s_objs s)[a := p]\<rparr>"

definition newPipe :: "u32 \<Rightarrow> bool \<Rightarrow> FreeLevel \<Rightarrow> nat \<Rightarrow> spipe" where
  "newPipe pid raw lvl n =
     \<lparr>p_id = pid, p_raw = raw, p_freeLevel = lvl, p_stopq = False, p_sendq = make_chan n, p_sq = None,
      p_spc = SStart, p_rpc = RStart, p_tpc = TNone\<rparr>"

text \<open>The write lock is free when no \<open>sendToAll\<close> is in progress.\<close>

definition addPipe :: "u32 \<Rightarrow> bool \<Rightarrow> FreeLevel \<Rightarrow> socket \<Rightarrow> socket option" where
  "addPipe pid raw lvl s =
     (if s_all s \<noteq> [] then None
      else case sendQueueSize (s_heap s) s of
             Ok n \<Rightarrow> Some (s\<lparr>s_objs := s_objs s @ [newPipe pid raw lvl (unat n)],
                              s_pipes := (s_pipes s)(pid \<mapsto> length (s_objs s))\<rparr>)
           | _ \<Rightarrow> None)"

text \<open>
  \<open>remPipe\<close> up to the loop of \<open>stopPipe\<close>: the removed object, if any. Closing \<open>stopq\<close> a
  second time is a panic.
\<close>

definition remPipe :: "u32 \<Rightarrow> socket \<Rightarrow> (nat option outcome \<times> socket) option" where
  "remPipe pid s =
     (if s_all s \<noteq> [] then None
      else case s_pipes s pid of
             None \<Rightarrow> Some (Ok None, s)
           | Some a \<Rightarrow>
               (let s1 = s\<lparr>s_pipes := (s_pipes s)(pid := None)\<rparr>
                in if p_stopq (obj a s1) then Some (Panic, s1)
                   else Some (Ok (Some a), set_obj a ((obj a s1)\<lparr>p_stopq := True, p_tpc := TDrain\<rparr>) s1)))"

datatype PipeEvent = PipeEventAdd bool FreeLevel | PipeEventRemove

definition HandlePipeEvent :: "PipeEvent \<Rightarrow> u32 \<Rightarrow> socket \<Rightarrow> socket option" where
  "HandlePipeEvent e pid s =
     (case e of
        PipeEventAdd raw lvl \<Rightarrow> addPipe pid raw lvl s
      | PipeEventRemove \<Rightarrow> (case remPipe pid s of Some (Ok _, s') \<Rightarrow> Some s' | _ \<Rightarrow> None))"

section \<open>The goroutines of a pipe\<close>

text \<open>Taking the oldest message of the pipe's own queue.\<close>

definition take_pipeq :: "nat \<Rightarrow> socket \<Rightarrow> (message \<times> socket) option" where
  "take_pipeq a s =
     map_option (\<lambda>(m, q). (m, set_obj a ((obj a s)\<lparr>p_sendq := q\<rparr>) s)) (chan_recv (p_sendq (obj a s)))"

definition take_sendq :: "nat option \<Rightarrow> socket \<Rightarrow> (message \<times> socket) option" where
  "take_sendq k s =
     (case k of
        Some i \<Rightarrow>
          if i < length (s_sendqs s)
          then map_option (\<lambda>(m, q). (m, s\<lparr>s_sendqs := (s_sendqs s)[i := q]\<rparr>)) (chan_recv (s_sendqs s ! i))
          else None
      | None \<Rightarrow> None)"

definition set_spc :: "nat \<Rightarrow> spc \<Rightarrow> socket \<Rightarrow> socket" where
  "set_spc a pc s = set_obj a ((obj a s)\<lparr>p_spc := pc\<rparr>) s"

definition set_rpc :: "nat \<Rightarrow> rpc \<Rightarrow> socket \<Rightarrow> socket" where
  "set_rpc a pc s = set_obj a ((obj a s)\<lparr>p_rpc := pc\<rparr>) s"

definition set_tpc :: "nat \<Rightarrow> tpc \<Rightarrow> socket \<Rightarrow> socket" where
  "set_tpc a pc s = set_obj a ((obj a s)\<lparr>p_tpc := pc\<rparr>) s"

definition sender_done :: "nat \<Rightarrow> socket \<Rightarrow> socket" where
  "sender_done a s = (set_spc a SDone s)\<lparr>s_senderWg := s_senderWg s - 1\<rparr>"

definition stopPipe_step :: "choice \<Rightarrow> nat \<Rightarrow> socket \<Rightarrow> socket option" where
  "stopPipe_step ch a s =
     (case p_tpc (obj a s) of
        TDrain \<Rightarrow>
          (case ch of
             ChStopped \<Rightarrow> if s_senderStoppedq s then Some (set_tpc a TDrop s) else None
           | ChTimeout \<Rightarrow> Some (set_tpc a TDrop s)
           | ChPipeq \<Rightarrow> map_option (\<lambda>(m, s'). set_tpc a (TSend m) s') (take_pipeq a s)
           | ChDefault \<Rightarrow>
               if \<not> s_senderStoppedq s \<and> \<not> can_recv (p_sendq (obj a s)) then Some (set_tpc a TDone s) else None
           | _ \<Rightarrow> None)
      | TSend m \<Rightarrow>
          (case ch of
             ChResult r ch' \<Rightarrow>
               (case doSendMsg (p_freeLevel (obj a s)) r ch' m s of
                  None \<Rightarrow> None
                | Some (None, s') \<Rightarrow> Some (set_tpc a TDrain s')
                | Some (Some _, s') \<Rightarrow> Some (set_tpc a TDrop s'))
           | _ \<Rightarrow> None)
      | TDrop \<Rightarrow>
          (case ch of
             ChPipeq \<Rightarrow> map_option (\<lambda>(m, s'). s'\<lparr>s_mem := FreeAll m (s_mem s')\<rparr>) (take_pipeq a s)
           | ChDefault \<Rightarrow> if \<not> can_recv (p_sendq (obj a s)) then Some (set_tpc a TDone s) else None
           | _ \<Rightarrow> None)
      | _ \<Rightarrow> None)"

definition sender_step :: "choice \<Rightarrow> nat \<Rightarrow> socket \<Rightarrow> socket option" where
  "sender_step ch a s =
     (case p_spc (obj a s) of
        SStart \<Rightarrow>
          Some (set_obj a ((obj a s)\<lparr>p_spc := SLoop, p_sq := (if p_raw (obj a s) then None else Some (s_sendq s))\<rparr>)
                 (s\<lparr>s_senderWg := s_senderWg s + 1\<rparr>))
      | SLoop \<Rightarrow>
          (case ch of
             ChClosed \<Rightarrow> if s_closedq s then Some (set_spc a SRemain s) else None
           | ChStop \<Rightarrow> if p_stopq (obj a s) then Some (sender_done a s) else None
           | ChSendq \<Rightarrow> map_option (\<lambda>(m, s'). set_spc a (SSend m) s') (take_sendq (p_sq (obj a s)) s)
           | ChPipeq \<Rightarrow> map_option (\<lambda>(m, s'). set_spc a (SSend m) s') (take_pipeq a s)
           | _ \<Rightarrow> None)
      | SSend m \<Rightarrow>
          (case ch of
             ChResult r ch' \<Rightarrow>
               (case doSendMsg (p_freeLevel (obj a s)) r ch' m s of
                  None \<Rightarrow> None
                | Some (None, s') \<Rightarrow> Some (set_spc a SLoop s')
                | Some (Some _, s') \<Rightarrow> Some (sender_done a s'))
           | _ \<Rightarrow> None)
      | SRemain \<Rightarrow>
          (case ch of
             ChSendq \<Rightarrow> map_option (\<lambda>(m, s'). set_spc a (SRemSend m) s') (take_sendq (p_sq (obj a s)) s)
           | ChStopped \<Rightarrow> if s_senderStoppedq s then Some (set_spc a SRemPipe s) else None
           | ChDefault \<Rightarrow>
               if \<not> s_senderStoppedq s \<and> take_sendq (p_sq (obj a s)) s = None then Some (set_spc a SRemPipe s) else None
           | _ \<Rightarrow> None)
      | SRemSend m \<Rightarrow>
          (case ch of
             ChResult r ch' \<Rightarrow>
               (case doSendMsg (p_freeLevel (obj a s)) r ch' m s of
                  None \<Rightarrow> None
                | Some (None, s') \<Rightarrow> Some (set_spc a SRemain s')
                | Some (Some _, s') \<Rightarrow> Some (set_spc a SRemPipe s'))
           | _ \<Rightarrow> None)
      | SRemPipe \<Rightarrow>
          (case remPipe (p_id (obj a s)) s of
             Some (Ok None, s') \<Rightarrow> Some (sender_done a s')
           | Some (Ok (Some b), s') \<Rightarrow> Some (set_spc a (SWaitStop b) s')
           | _ \<Rightarrow> None)
      | SWaitStop b \<Rightarrow> if p_tpc (obj b s) = TDone then Some (sender_done a s) else None
      | SDone \<Rightarrow> None)"

text \<open>
  What \<open>p.RecvMsg()\<close> can do: rebuild a packet, read a message from a stream, rebuild the message of an
  in-process peer, build a raw message, or fail.
\<close>

datatype arrival =
    Packet picks bytes u32
  | Streamed picks reader u32
  | Handed picks message u32
  | RawData picks "bytes option" "err option"
  | RecvFails err

definition arrival_RecvMsg :: "arrival \<Rightarrow> u32 \<Rightarrow> mem \<Rightarrow> (message option \<times> err option) outcome \<times> mem" where
  "arrival_RecvMsg x pid h =
     (case x of
        Packet pk b mx \<Rightarrow> (let (r, h') = NewMessageFromBytes pk pid b mx h in (msg_result r, h'))
      | Streamed pk rd mx \<Rightarrow>
          (case NewMessageFromReader stream_rc pk pid rd mx h of
             Some (r, rd', h') \<Rightarrow> (msg_result r, h')
           | None \<Rightarrow> (Panic, h))
      | Handed pk m mx \<Rightarrow> (let (r, h') = NewMessageFromMsg pk pid m mx h in (msg_result r, h'))
      | RawData pk c e \<Rightarrow>
          (case NewRawRecvMessage pk pid c h of
             (Ok m, h') \<Rightarrow> (Ok (Some m, e), h')
           | (Error e', h') \<Rightarrow> (Ok (None, Some e'), h')
           | (Panic, h') \<Rightarrow> (Panic, h'))
      | RecvFails e \<Rightarrow> (Ok (None, Some e), h))"

abbreviation cur_recvq :: "socket \<Rightarrow> message chan" where
  "cur_recvq s \<equiv> s_recvqs s ! s_recvq s"

definition push_recvq :: "message \<Rightarrow> socket \<Rightarrow> socket option" where
  "push_recvq m s =
     (if s_recvq s < length (s_recvqs s) \<and> can_send (cur_recvq s)
      then Some (s\<lparr>s_recvqs := (s_recvqs s)[s_recvq s := chan_send m (cur_recvq s)]\<rparr>) else None)"

definition after_recv :: "err option \<Rightarrow> rpc" where
  "after_recv e = (case e of None \<Rightarrow> RLoop | Some _ \<Rightarrow> RDone)"

text \<open>The receiver when \<open>RecvMsg\<close> has returned.\<close>

definition recv_return :: "(message option \<times> err option) outcome \<Rightarrow> nat \<Rightarrow> socket \<Rightarrow> socket option" where
  "recv_return r a s =
     (case r of
        Ok (Some m, e) \<Rightarrow> Some (set_rpc a (RGot m e) s)
      | Ok (None, e) \<Rightarrow> Some (set_rpc a (after_recv e) s)
      | _ \<Rightarrow> None)"

definition receiver_step :: "choice \<Rightarrow> arrival \<Rightarrow> nat \<Rightarrow> socket \<Rightarrow> socket option" where
  "receiver_step ch x a s =
     (case p_rpc (obj a s) of
        RStart \<Rightarrow>
          (if p_raw (obj a s) then
             (case NewRawRecvMessage (case x of RawData pk _ _ \<Rightarrow> pk | _ \<Rightarrow> fresh_picks) (p_id (obj a s)) (Some []) (s_mem s) of
                (Ok m, h') \<Rightarrow> map_option (set_rpc a RLoop) (push_recvq m (s\<lparr>s_mem := h'\<rparr>))
              | _ \<Rightarrow> None)
           else Some (set_rpc a RLoop s))
      | RLoop \<Rightarrow>
          (let (r, h') = arrival_RecvMsg x (p_id (obj a s)) (s_mem s) in recv_return r a (s\<lparr>s_mem := h'\<rparr>))
      | RGot m e \<Rightarrow>
          (if s_noRecv s then Some (set_rpc a (after_recv e) (s\<lparr>s_mem := FreeAll m (s_mem s)\<rparr>))
           else if HasFlags (meta m) MsgFlagInternal
           then Some (set_rpc a (after_recv e) (s\<lparr>s_mem := FreeAll m (s_mem s)\<rparr>))
           else
             (case ch of
                ChClosed \<Rightarrow>
                  if s_closedq s then Some (set_rpc a RRemPipe (s\<lparr>s_mem := FreeAll m (s_mem s)\<rparr>)) else None
              | ChSendq \<Rightarrow> map_option (set_rpc a (after_recv e)) (push_recvq m s)
              | _ \<Rightarrow> None))
      | RRemPipe \<Rightarrow>
          (case remPipe (p_id (obj a s)) s of Some (Ok _, s') \<Rightarrow> Some (set_rpc a RDone s') | _ \<Rightarrow> None)
      | RDone \<Rightarrow> None)"

section \<open>The operations of the application\<close>

definition socket_RecvMsg :: "choice \<Rightarrow> socket \<Rightarrow> (message outcome \<times> socket) option" where
  "socket_RecvMsg ch s =
     (let got = (\<lambda>(m, q). (Ok m, s\<lparr>s_recvqs := (s_recvqs s)[s_recvq s := q], s_user := s_user s @ [m]\<rparr>));
          ready = (if s_recvq s < length (s_recvqs s) then chan_recv (cur_recvq s) else None)
      in case ch of
           ChClosed \<Rightarrow>
             if s_closedq s
             then Some (case ready of Some mq \<Rightarrow> got mq | None \<Rightarrow> (Error ErrClosed, s))
             else None
         | ChRecvq \<Rightarrow> map_option got ready
         | _ \<Rightarrow> None)"

definition sendTo :: "choice \<Rightarrow> message \<Rightarrow> socket \<Rightarrow> (err option \<times> socket) option" where
  "sendTo ch m s =
     (if Distance (meta m) = 0 then Some (None, s)
      else case CurID (Destination m) of
             Ok i \<Rightarrow>
               (case s_pipes s i of
                  None \<Rightarrow> Some (Some ErrBrokenPath, s)
                | Some a \<Rightarrow> push_pipe ch m a s)
           | _ \<Rightarrow> None)"

text \<open>
  \<open>sendToAll\<close> ranges over the pipes of the map, in any order \<open>as\<close>, with the read lock held:
  one step to begin, one per pipe, one to release the message and the lock.
\<close>

definition mapped :: "socket \<Rightarrow> nat list" where
  "mapped s = filter (\<lambda>a. s_pipes s (p_id (obj a s)) = Some a) [0..<length (s_objs s)]"

definition sendToAll_begin :: "nat list \<Rightarrow> message \<Rightarrow> socket \<Rightarrow> socket option" where
  "sendToAll_begin as m s = (if mset as = mset (mapped s) then Some (s\<lparr>s_all := s_all s @ [(m, as)]\<rparr>) else None)"

definition sendToAll_step :: "picks \<Rightarrow> choice \<Rightarrow> nat \<Rightarrow> socket \<Rightarrow> socket option" where
  "sendToAll_step pk ch k s =
     (case s_all s ! k of
        (m, []) \<Rightarrow>
          Some (s\<lparr>s_all := take k (s_all s) @ drop (Suc k) (s_all s), s_mem := FreeAll m (s_mem s)\<rparr>)
      | (m, a # as) \<Rightarrow>
          (case Dup pk m (s_mem s) of
             (Ok d, h') \<Rightarrow>
               map_option (\<lambda>(e, s'). s'\<lparr>s_all := (s_all s')[k := (m, as)]\<rparr>) (push_pipe ch d a (s\<lparr>s_mem := h'\<rparr>))
           | _ \<Rightarrow> None))"

definition socket_Send :: "picks \<Rightarrow> choice \<Rightarrow> bytes \<Rightarrow> socket \<Rightarrow> (err option \<times> socket) option" where
  "socket_Send pk ch content s =
     (if s_noSend s then Some (None, s)
      else case NewSendMessage pk 0 SendTypeToOne (s_ttl s) [] [] content (s_mem s) of
             (Ok m, h') \<Rightarrow> push_sendq ch m (s\<lparr>s_mem := h'\<rparr>)
           | _ \<Rightarrow> None)"

definition socket_SendTo :: "picks \<Rightarrow> choice \<Rightarrow> MsgPath \<Rightarrow> bytes \<Rightarrow> socket \<Rightarrow> (err option \<times> socket) option" where
  "socket_SendTo pk ch dest content s =
     (if s_noSend s then Some (None, s)
      else case NewSendMessage pk 0 SendTypeToDest (s_ttl s) [] dest content (s_mem s) of
             (Ok m, h') \<Rightarrow> sendTo ch m (s\<lparr>s_mem := h'\<rparr>)
           | _ \<Rightarrow> None)"

definition socket_SendAll :: "picks \<Rightarrow> nat list \<Rightarrow> bytes \<Rightarrow> socket \<Rightarrow> (err option \<times> socket) option" where
  "socket_SendAll pk as content s =
     (if s_noSend s then Some (None, s)
      else case NewSendMessage pk 0 SendTypeToAll (s_ttl s) [] [] content (s_mem s) of
             (Ok m, h') \<Rightarrow> map_option (\<lambda>s'. (None, s')) (sendToAll_begin as m (s\<lparr>s_mem := h'\<rparr>))
           | _ \<Rightarrow> None)"

definition socket_SendMsg :: "choice \<Rightarrow> nat list \<Rightarrow> message \<Rightarrow> socket \<Rightarrow> (err option \<times> socket) option" where
  "socket_SendMsg ch as m s =
     (if s_noSend s then Some (None, s\<lparr>s_mem := FreeAll m (s_mem s)\<rparr>)
      else if TTL (meta m) = 0 then Some (None, s\<lparr>s_mem := FreeAll m (s_mem s)\<rparr>)
      else if SendType (meta m) = SendTypeToDest then sendTo ch m s
      else if SendType (meta m) = SendTypeToOne then push_sendq ch m s
      else if SendType (meta m) = SendTypeToAll then map_option (\<lambda>s'. (None, s')) (sendToAll_begin as m s)
      else Some (Some ErrInvalidSendType, s))"

text \<open>
  The application forwards or releases the \<open>k\<close>-th message it holds. A \<open>SendMsg\<close> that returns
  an error has not taken the message.
\<close>

definition app_forward :: "choice \<Rightarrow> nat list \<Rightarrow> nat \<Rightarrow> socket \<Rightarrow> (err option \<times> socket) option" where
  "app_forward ch as k s =
     (let m = s_user s ! k; rest = take k (s_user s) @ drop (Suc k) (s_user s)
      in case socket_SendMsg ch as m (s\<lparr>s_user := rest\<rparr>) of
           None \<Rightarrow> None
         | Some (None, s') \<Rightarrow> Some (None, s')
         | Some (Some e, s') \<Rightarrow> Some (Some e, s'\<lparr>s_user := s_user s' @ [m]\<rparr>))"

definition app_release :: "nat \<Rightarrow> socket \<Rightarrow> socket" where
  "app_release k s =
     s\<lparr>s_mem := FreeAll (s_user s ! k) (s_mem s), s_user := take k (s_user s) @ drop (Suc k) (s_user s)\<rparr>"

section \<open>Closing\<close>

definition socket_Close :: "socket \<Rightarrow> (err option \<times> socket) option" where
  "socket_Close s =
     (if s_all s \<noteq> [] then None
      else if s_closedq s then Some (Some ErrClosed, s)
      else Some (None, s\<lparr>s_closedq := True, s_closer := CClear\<rparr>))"

text \<open>The rest of \<open>Close\<close>: \<open>ClearPipeEventHandler\<close>, then \<open>stopSender\<close>.\<close>

definition close_step :: "choice \<Rightarrow> socket \<Rightarrow> socket option" where
  "close_step ch s =
     (case s_closer s of
        CClear \<Rightarrow> Some (s\<lparr>s_handler := False, s_closer := CWait\<rparr>)
      | CWait \<Rightarrow>
          (case ch of
             ChDone \<Rightarrow> if s_senderWg s = 0 then Some (s\<lparr>s_closer := CDrop\<rparr>) else None
           | ChTimeout \<Rightarrow> Some (s\<lparr>s_senderStoppedq := True, s_closer := CDrop\<rparr>)
           | _ \<Rightarrow> None)
      | CDrop \<Rightarrow>
          (case take_sendq (Some (s_sendq s)) s of
             Some (m, s') \<Rightarrow> Some (s'\<lparr>s_mem := FreeAll m (s_mem s')\<rparr>)
           | None \<Rightarrow> Some (s\<lparr>s_closer := CDone\<rparr>))
      | _ \<Rightarrow> None)"

section \<open>Runs\<close>

inductive step :: "socket \<Rightarrow> socket \<Rightarrow> bool" where
  step_event: "s_handler s \<Longrightarrow> HandlePipeEvent e pid s = Some s' \<Longrightarrow> step s s'"
| step_sender: "a < length (s_objs s) \<Longrightarrow> sender_step ch a s = Some s' \<Longrightarrow> step s s'"
| step_receiver: "a < length (s_objs s) \<Longrightarrow> receiver_step ch x a s = Some s' \<Longrightarrow> step s s'"
| step_stopper: "a < length (s_objs s) \<Longrightarrow> stopPipe_step ch a s = Some s' \<Longrightarrow> step s s'"
| step_recv: "socket_RecvMsg ch s = Some (r, s') \<Longrightarrow> step s s'"
| step_Send: "length content < 2 ^ 32 \<Longrightarrow> socket_Send pk ch content s = Some (r, s') \<Longrightarrow> step s s'"
| step_SendTo: "path_ok dest \<Longrightarrow> length content < 2 ^ 32 \<Longrightarrow> socket_SendTo pk ch dest content s = Some (r, s') \<Longrightarrow> step s s'"
| step_SendAll: "length content < 2 ^ 32 \<Longrightarrow> socket_SendAll pk as content s = Some (r, s') \<Longrightarrow> step s s'"
| step_all: "k < length (s_all s) \<Longrightarrow> sendToAll_step pk ch k s = Some s' \<Longrightarrow> step s s'"
| step_forward: "k < length (s_user s) \<Longrightarrow> app_forward ch as k s = Some (r, s') \<Longrightarrow> step s s'"
| step_release: "k < length (s_user s) \<Longrightarrow> step s (app_release k s)"
| step_SetOption: "socket_SetOption o1 v s = Some (r, s') \<Longrightarrow> step s s'"
| step_Close: "socket_Close s = Some (r, s') \<Longrightarrow> step s s'"
| step_close: "close_step ch s = Some s' \<Longrightarrow> step s s'"

inductive reachable :: "socket \<Rightarrow> socket \<Rightarrow> bool" for s0 where
  reach_refl: "reachable s0 s0"
| reach_step: "reachable s0 s \<Longrightarrow> step s s' \<Longrightarrow> reachable s0 s'"

end
