(* ===== verification/Socket_Routing.thy ===== *)
theory Socket_Routing
  imports Sockets
begin

text \<open>
  The structural invariant of a running socket: which pipe objects the map can refer to,
  which messages can be in which queue, and that no queue exceeds its capacity.
\<close>

section \<open>Pieces of a step\<close>

lemma set_obj_simps [simp]:
  "s_mem (set_obj a p s) = s_mem s" "length (s_objs (set_obj a p s)) = length (s_objs s)"
  "a < length (s_objs s) \<Longrightarrow> obj a (set_obj a p s) = p" "s_senderWg (set_obj a p s) = s_senderWg s"
  "s_user (set_obj a p s) = s_user s" "s_all (set_obj a p s) = s_all s" "s_sendqs (set_obj a p s) = s_sendqs s"
  "s_sendq (set_obj a p s) = s_sendq s"
  by (simp_all add: set_obj_def)

lemma set_obj_more [simp]:
  "s_pipes (set_obj a p s) = s_pipes s" "s_recvqs (set_obj a p s) = s_recvqs s" "s_recvq (set_obj a p s) = s_recvq s"
  "s_heap (set_obj a p s) = s_heap s" "s_opts (set_obj a p s) = s_opts s" "s_closedq (set_obj a p s) = s_closedq s"
  "s_senderStoppedq (set_obj a p s) = s_senderStoppedq s" "s_objs (set_obj a p s) = (s_objs s)[a := p]"
  by (simp_all add: set_obj_def)

lemma doSendMsg_cases:
  assumes "doSendMsg lvl r ch m s = Some (e, s')"
  obtains (sent) "r = None" "e = None" "s' = s\<lparr>s_mem := FreeByLevel m lvl (s_mem s)\<rparr>"
    | (resent) x where "r = Some x" "e = Some x" "SendType (meta m) = SendTypeToOne" "push_sendq ch m s = Some (None, s')"
    | (refused) x y t where "r = Some x" "e = Some x" "SendType (meta m) = SendTypeToOne" "push_sendq ch m s = Some (Some y, t)"
        "s' = t\<lparr>s_mem := FreeAll m (s_mem t)\<rparr>"
    | (dropped) x where "r = Some x" "e = Some x" "SendType (meta m) \<noteq> SendTypeToOne" "s' = s\<lparr>s_mem := FreeAll m (s_mem s)\<rparr>"
proof (cases r)
  case None
  with assms show thesis by (intro sent) (auto simp: doSendMsg_def)
next
  case (Some x)
  show thesis
  proof (cases "SendType (meta m) = SendTypeToOne")
    case False
    with assms Some show thesis by (intro dropped) (auto simp: doSendMsg_def resendMsg_def)
  next
    case True
    with assms Some obtain y t where p: "push_sendq ch m s = Some (y, t)"
      by (cases "push_sendq ch m s") (auto simp: doSendMsg_def resendMsg_def)
    show thesis
    proof (cases y)
      case None
      with assms Some True p show thesis by (intro resent) (auto simp: doSendMsg_def resendMsg_def)
    next
      case (Some z)
      with assms \<open>r = Some x\<close> True p show thesis by (intro refused) (auto simp: doSendMsg_def resendMsg_def)
    qed
  qed
qed

text \<open>Hooks change the state only through \<open>onOptionChange\<close>.\<close>

lemma SetOption_rel:
  assumes "\<And>o1 H s. P s (snd (onOptionChange o1 H s))" "\<And>s. P s s" "\<And>s t u. P s t \<Longrightarrow> P t u \<Longrightarrow> P s u"
  shows "SetOption socket_hooks n H a o1 v s = Some (r, H', s') \<Longrightarrow> P s s'"
  by (rule SetOption_keeps [where P = P and env = socket_hooks]) (auto simp: socket_hooks_def intro: assms)

section \<open>The invariant\<close>

definition routed :: "u32 \<Rightarrow> message \<Rightarrow> bool" where
  "routed pid m \<longleftrightarrow> SendType (meta m) = SendTypeToAll \<or> SendType (meta m) = SendTypeToDest \<and> CurID (Destination m) = Ok pid"

definition to_one :: "message \<Rightarrow> bool" where
  "to_one m \<longleftrightarrow> SendType (meta m) = SendTypeToOne"

text \<open>What the sender of a pipe may have in its hands: a message for this pipe, or one for any pipe that is not raw.\<close>

definition sent_ok :: "spipe \<Rightarrow> message \<Rightarrow> bool" where
  "sent_ok p m \<longleftrightarrow> routed (p_id p) m \<or> to_one m \<and> \<not> p_raw p"

definition obj_ok :: "spipe \<Rightarrow> bool" where
  "obj_ok p \<longleftrightarrow>
     chan_ok (p_sendq p) \<and> (\<forall>m \<in> set (chan_buf (p_sendq p)). routed (p_id p) m) \<and>
     (p_raw p \<longrightarrow> p_sq p = None) \<and>
     (case p_spc p of SSend m \<Rightarrow> sent_ok p m | SRemSend m \<Rightarrow> sent_ok p m | _ \<Rightarrow> True) \<and>
     (case p_tpc p of TSend m \<Rightarrow> routed (p_id p) m | _ \<Rightarrow> True) \<and>
     (p_tpc p = TNone \<longleftrightarrow> \<not> p_stopq p)"

definition map_ok :: "socket \<Rightarrow> bool" where
  "map_ok s \<longleftrightarrow>
     (\<forall>pid a. s_pipes s pid = Some a \<longrightarrow> a < length (s_objs s) \<and> p_id (obj a s) = pid \<and> p_tpc (obj a s) = TNone)"

definition sock_inv :: "socket \<Rightarrow> bool" where
  "sock_inv s \<longleftrightarrow>
     map_ok s \<and> (\<forall>p \<in> set (s_objs s). obj_ok p) \<and>
     (\<forall>q \<in> set (s_sendqs s). chan_ok q \<and> (\<forall>m \<in> set (chan_buf q). to_one m)) \<and>
     (\<forall>q \<in> set (s_recvqs s). chan_ok q) \<and>
     (\<forall>(m, as) \<in> set (s_all s). SendType (meta m) = SendTypeToAll)"

lemma sock_inv_flags [simp]:
  "sock_inv (s\<lparr>s_mem := h\<rparr>) = sock_inv s" "sock_inv (s\<lparr>s_senderWg := n\<rparr>) = sock_inv s"
  "sock_inv (s\<lparr>s_senderStoppedq := b\<rparr>) = sock_inv s" "sock_inv (s\<lparr>s_closer := c\<rparr>) = sock_inv s"
  "sock_inv (s\<lparr>s_closedq := b\<rparr>) = sock_inv s" "sock_inv (s\<lparr>s_handler := b\<rparr>) = sock_inv s"
  "sock_inv (s\<lparr>s_heap := H\<rparr>) = sock_inv s" "sock_inv (s\<lparr>s_user := us\<rparr>) = sock_inv s"
  "sock_inv (s\<lparr>s_noRecv := b\<rparr>) = sock_inv s" "sock_inv (s\<lparr>s_noSend := b\<rparr>) = sock_inv s"
  "sock_inv (s\<lparr>s_ttl := t\<rparr>) = sock_inv s" "sock_inv (s\<lparr>s_bestEffort := b\<rparr>) = sock_inv s"
  by (simp_all add: sock_inv_def map_ok_def)

lemma sock_inv_obj: "sock_inv s \<Longrightarrow> a < length (s_objs s) \<Longrightarrow> obj_ok (obj a s)"
  by (simp add: sock_inv_def)

lemma sock_inv_map:
  "sock_inv s \<Longrightarrow> s_pipes s pid = Some a \<Longrightarrow> a < length (s_objs s) \<and> p_id (obj a s) = pid \<and> p_tpc (obj a s) = TNone"
  by (simp add: sock_inv_def map_ok_def)

lemma sock_inv_sendq:
  assumes "sock_inv s" "i < length (s_sendqs s)"
  shows "chan_ok (s_sendqs s ! i)" "\<forall>m \<in> set (chan_buf (s_sendqs s ! i)). to_one m"
  using assms nth_mem [OF assms(2)] by (auto simp only: sock_inv_def)

lemma sock_inv_set_sendq:
  assumes "sock_inv s" "chan_ok q" "\<forall>m \<in> set (chan_buf q). to_one m"
  shows "sock_inv (s\<lparr>s_sendqs := (s_sendqs s)[i := q]\<rparr>)"
proof -
  have "\<forall>x \<in> set ((s_sendqs s)[i := q]). chan_ok x \<and> (\<forall>m \<in> set (chan_buf x). to_one m)"
    using assms set_update_subset_insert [of "s_sendqs s" i q] by (auto simp: sock_inv_def)
  then show ?thesis using assms(1) by (simp add: sock_inv_def map_ok_def)
qed

lemma sock_inv_set_obj:
  assumes "sock_inv s" "a < length (s_objs s)" "obj_ok p" "p_id p = p_id (obj a s)" "p_tpc (obj a s) = TNone \<longrightarrow> p_tpc p = TNone"
  shows "sock_inv (set_obj a p s)"
proof -
  have "map_ok (set_obj a p s)"
    using assms by (auto simp: sock_inv_def map_ok_def nth_list_update)
  moreover have "\<forall>x \<in> set ((s_objs s)[a := p]). obj_ok x"
    using assms(1,3) set_update_subset_insert [of "s_objs s" a p] by (auto simp: sock_inv_def)
  ultimately show ?thesis using assms(1) by (simp add: sock_inv_def)
qed

lemma doPushMsg_buf:
  assumes "doPushMsg ch best closed m q = Some (e, q')" "chan_ok q"
  shows "chan_ok q'" "set (chan_buf q') \<subseteq> insert m (set (chan_buf q))"
  using assms by (cases ch; auto simp: chan_simps split: if_splits)+

lemma sock_inv_push_sendq:
  assumes "sock_inv s" "push_sendq ch m s = Some (e, s')" "to_one m"
  shows "sock_inv s'"
proof -
  from assms(2) obtain q where q: "s_sendq s < length (s_sendqs s)"
      "doPushMsg ch (s_bestEffort s) (s_closedq s) m (s_sendqs s ! s_sendq s) = Some (e, q)"
      "s' = s\<lparr>s_sendqs := (s_sendqs s)[s_sendq s := q]\<rparr>"
    by (auto simp: push_sendq_def split: if_splits)
  from doPushMsg_buf [OF q(2)] sock_inv_sendq [OF assms(1) q(1)] assms(3)
  have "chan_ok q" "\<forall>m \<in> set (chan_buf q). to_one m" by auto
  then show ?thesis unfolding q(3) by (rule sock_inv_set_sendq [OF assms(1)])
qed

lemma sock_inv_push_pipe:
  assumes "sock_inv s" "push_pipe ch m a s = Some (e, s')" "routed (p_id (obj a s)) m"
  shows "sock_inv s'"
proof -
  from assms(2) obtain q where q: "a < length (s_objs s)"
      "doPushMsg ch (s_bestEffort s) (s_closedq s) m (p_sendq (obj a s)) = Some (e, q)"
      "s' = set_obj a ((obj a s)\<lparr>p_sendq := q\<rparr>) s"
    by (auto simp: push_pipe_def set_obj_def split: if_splits)
  note ok = sock_inv_obj [OF assms(1) q(1)]
  have "obj_ok ((obj a s)\<lparr>p_sendq := q\<rparr>)"
    using ok doPushMsg_buf [OF q(2)] assms(3) unfolding obj_ok_def sent_ok_def by (auto split: spc.splits tpc.splits)
  then show ?thesis unfolding q(3) by (intro sock_inv_set_obj assms(1) q(1)) simp_all
qed

lemma chan_recv_Some:
  assumes "chan_recv q = Some (m, q')"
  shows "chan_buf q = m # chan_buf q'" "chan_ok q \<Longrightarrow> chan_ok q'"
  using assms by (auto simp: chan_simps split: list.splits)

lemma sock_inv_take_pipeq:
  assumes "sock_inv s" "take_pipeq a s = Some (m, s')" "a < length (s_objs s)"
  shows "sock_inv s'" "routed (p_id (obj a s)) m"
    and "\<exists>q. s' = set_obj a ((obj a s)\<lparr>p_sendq := q\<rparr>) s"
proof -
  from assms(2) obtain q where q: "chan_recv (p_sendq (obj a s)) = Some (m, q)" "s' = set_obj a ((obj a s)\<lparr>p_sendq := q\<rparr>) s"
    by (auto simp: take_pipeq_def)
  note ok = sock_inv_obj [OF assms(1,3)] and r = chan_recv_Some [OF q(1)]
  have "obj_ok ((obj a s)\<lparr>p_sendq := q\<rparr>)"
    using ok r unfolding obj_ok_def sent_ok_def by (auto split: spc.splits tpc.splits)
  then show "sock_inv s'" unfolding q(2) by (intro sock_inv_set_obj assms(1,3)) simp_all
  show "routed (p_id (obj a s)) m" using ok r by (simp add: obj_ok_def)
  show "\<exists>q. s' = set_obj a ((obj a s)\<lparr>p_sendq := q\<rparr>) s" using q(2) by blast
qed

lemma sock_inv_take_sendq:
  assumes "sock_inv s" "take_sendq k s = Some (m, s')"
  shows "sock_inv s'" "to_one m" "s_objs s' = s_objs s" "k \<noteq> None"
proof -
  from assms(2) obtain i q where q: "k = Some i" "i < length (s_sendqs s)" "chan_recv (s_sendqs s ! i) = Some (m, q)"
      "s' = s\<lparr>s_sendqs := (s_sendqs s)[i := q]\<rparr>"
    by (auto simp: take_sendq_def split: option.splits if_splits)
  note ok = sock_inv_sendq [OF assms(1) q(2)] and r = chan_recv_Some [OF q(3)]
  show "sock_inv s'" unfolding q(4) using ok r by (intro sock_inv_set_sendq [OF assms(1)]) auto
  show "to_one m" "s_objs s' = s_objs s" "k \<noteq> None" using ok r by (simp_all add: q)
qed

lemma sock_inv_doSendMsg:
  assumes "sock_inv s" "doSendMsg lvl r ch m s = Some (e, s')"
  shows "sock_inv s' \<and> s_objs s' = s_objs s"
proof -
  have p: "sock_inv t \<and> s_objs t = s_objs s" if "push_sendq ch m s = Some (y, t)" "SendType (meta m) = SendTypeToOne" for y t
    using sock_inv_push_sendq [OF assms(1) that(1)] that by (auto simp: to_one_def push_sendq_def split: if_splits)
  show ?thesis using assms(2)
    by (cases rule: doSendMsg_cases) (use assms(1) p in auto)
qed

lemma sock_inv_set_spc:
  assumes "sock_inv s" "a < length (s_objs s)"
    "case pc of SSend m \<Rightarrow> sent_ok (obj a s) m | SRemSend m \<Rightarrow> sent_ok (obj a s) m | _ \<Rightarrow> True"
  shows "sock_inv (set_spc a pc s)"
  unfolding set_spc_def using sock_inv_obj [OF assms(1,2)] assms(3)
  by (intro sock_inv_set_obj assms(1,2)) (auto simp: obj_ok_def sent_ok_def split: spc.splits tpc.splits)

lemma sock_inv_set_rpc: "sock_inv s \<Longrightarrow> a < length (s_objs s) \<Longrightarrow> sock_inv (set_rpc a pc s)"
  unfolding set_rpc_def using sock_inv_obj [of s a]
  by (intro sock_inv_set_obj) (auto simp: obj_ok_def sent_ok_def split: spc.splits tpc.splits)

lemma sock_inv_set_tpc:
  assumes "sock_inv s" "a < length (s_objs s)" "p_tpc (obj a s) \<noteq> TNone" "pc \<noteq> TNone"
    "case pc of TSend m \<Rightarrow> routed (p_id (obj a s)) m | _ \<Rightarrow> True"
  shows "sock_inv (set_tpc a pc s)"
  unfolding set_tpc_def using sock_inv_obj [OF assms(1,2)] assms(3-5)
  by (intro sock_inv_set_obj assms(1,2)) (auto simp: obj_ok_def sent_ok_def split: spc.splits tpc.splits)

lemma sock_inv_sender_done: "sock_inv s \<Longrightarrow> a < length (s_objs s) \<Longrightarrow> sock_inv (sender_done a s)"
  by (simp add: sender_done_def sock_inv_set_spc)

lemma sock_inv_push_recvq:
  assumes "sock_inv s" "push_recvq m s = Some s'"
  shows "sock_inv s' \<and> s_objs s' = s_objs s"
proof -
  from assms(2) have q: "s_recvq s < length (s_recvqs s)" "can_send (cur_recvq s)"
      "s' = s\<lparr>s_recvqs := (s_recvqs s)[s_recvq s := chan_send m (cur_recvq s)]\<rparr>"
    by (auto simp: push_recvq_def split: if_splits)
  have "\<forall>x \<in> set ((s_recvqs s)[s_recvq s := chan_send m (cur_recvq s)]). chan_ok x"
    using assms(1) q(2) set_update_subset_insert [of "s_recvqs s" "s_recvq s" "chan_send m (cur_recvq s)"]
    by (auto simp: sock_inv_def chan_simps)
  then show ?thesis using assms(1) by (simp add: sock_inv_def map_ok_def q(3))
qed

text \<open>\<open>remPipe\<close> never closes a \<open>stopq\<close> a second time: an object in the map has not been stopped.\<close>

lemma sock_inv_remPipe:
  assumes "sock_inv s" "remPipe pid s = Some (r, s')"
  shows "sock_inv s' \<and> r \<noteq> Panic \<and> length (s_objs s') = length (s_objs s)"
proof (cases "s_pipes s pid")
  case None
  with assms show ?thesis by (auto simp: remPipe_def split: if_splits)
next
  case (Some a)
  note a = sock_inv_map [OF assms(1) Some]
  then have ok: "obj_ok (obj a s)" using sock_inv_obj [OF assms(1)] by simp
  let ?s1 = "s\<lparr>s_pipes := (s_pipes s)(pid := None)\<rparr>" and ?p = "(obj a s)\<lparr>p_stopq := True, p_tpc := TDrain\<rparr>"
  have st: "\<not> p_stopq (obj a s)" using ok a by (simp add: obj_ok_def)
  with assms(2) Some have r: "r = Ok (Some a)" "s' = set_obj a ?p ?s1"
    by (auto simp: remPipe_def Let_def split: if_splits)
  have p: "obj_ok ?p" using ok unfolding obj_ok_def sent_ok_def by (auto split: spc.splits)
  have "map_ok s'"
    unfolding map_ok_def r(2)
  proof (intro allI impI)
    fix i b assume "s_pipes (set_obj a ?p ?s1) i = Some b"
    then have i: "s_pipes s i = Some b" "i \<noteq> pid" by (auto split: if_splits)
    note b = sock_inv_map [OF assms(1) i(1)]
    with a i(2) have "b \<noteq> a" by auto
    with b show "b < length (s_objs (set_obj a ?p ?s1)) \<and> p_id (obj b (set_obj a ?p ?s1)) = i \<and> p_tpc (obj b (set_obj a ?p ?s1)) = TNone"
      by simp
  qed
  moreover have "\<forall>x \<in> set ((s_objs s)[a := ?p]). obj_ok x"
    using assms(1) p set_update_subset_insert [of "s_objs s" a ?p] by (auto simp: sock_inv_def)
  ultimately show ?thesis using assms(1) by (simp add: sock_inv_def r)
qed

section \<open>Every step keeps the invariant\<close>

lemma sent_ok_take_sendq:
  "sock_inv s \<Longrightarrow> a < length (s_objs s) \<Longrightarrow> take_sendq (p_sq (obj a s)) s = Some (m, s') \<Longrightarrow> sent_ok (obj a s) m"
  using sock_inv_take_sendq [of s "p_sq (obj a s)" m s'] sock_inv_obj [of s a] by (auto simp: sent_ok_def obj_ok_def)

text \<open>What one step of a sender does, whatever it is about.\<close>

lemma sender_step_cases:
  assumes "sender_step ch a s = Some s'"
  obtains (start) "p_spc (obj a s) = SStart"
      "s' = set_obj a ((obj a s)\<lparr>p_spc := SLoop, p_sq := (if p_raw (obj a s) then None else Some (s_sendq s))\<rparr>)
              (s\<lparr>s_senderWg := s_senderWg s + 1\<rparr>)"
  | (idle) pc where "(p_spc (obj a s), pc) \<in> {(SLoop, SRemain), (SRemain, SRemPipe)}" "s' = set_spc a pc s"
  | (ends) "p_spc (obj a s) = SLoop \<or> (\<exists>b. p_spc (obj a s) = SWaitStop b)" "s' = sender_done a s"
  | (common) m t pc where "(p_spc (obj a s), pc) \<in> {(SLoop, SSend m), (SRemain, SRemSend m)}"
      "take_sendq (p_sq (obj a s)) s = Some (m, t)" "s' = set_spc a pc t"
  | (own) m t where "p_spc (obj a s) = SLoop" "take_pipeq a s = Some (m, t)" "s' = set_spc a (SSend m) t"
  | (sent) m r c e t where "p_spc (obj a s) \<in> {SSend m, SRemSend m}" "doSendMsg (p_freeLevel (obj a s)) r c m s = Some (e, t)"
      "s' = sender_done a t \<or> (\<exists>pc \<in> {SLoop, SRemain, SRemPipe}. s' = set_spc a pc t)"
  | (removed) r t where "p_spc (obj a s) = SRemPipe" "remPipe (p_id (obj a s)) s = Some (Ok r, t)"
      "s' = sender_done a t \<or> (\<exists>b. s' = set_spc a (SWaitStop b) t)"
proof (cases "p_spc (obj a s)")
  case SLoop
  then have "(ch = ChClosed \<and> s' = set_spc a SRemain s) \<or> (ch = ChStop \<and> s' = sender_done a s) \<or>
      (\<exists>m t. take_sendq (p_sq (obj a s)) s = Some (m, t) \<and> s' = set_spc a (SSend m) t) \<or>
      (\<exists>m t. take_pipeq a s = Some (m, t) \<and> s' = set_spc a (SSend m) t)"
    using assms by (auto simp: sender_step_def split: choice.splits if_splits)
  with SLoop idle ends common own show thesis by blast
next
  case SRemain
  then have "s' = set_spc a SRemPipe s \<or> (\<exists>m t. take_sendq (p_sq (obj a s)) s = Some (m, t) \<and> s' = set_spc a (SRemSend m) t)"
    using assms by (auto simp: sender_step_def split: choice.splits if_splits)
  with SRemain idle common show thesis by blast
next
  case (SSend m)
  then obtain r c e t where "doSendMsg (p_freeLevel (obj a s)) r c m s = Some (e, t)" "s' = set_spc a SLoop t \<or> s' = sender_done a t"
    using assms by (auto simp: sender_step_def split: choice.splits option.splits)
  with SSend sent show thesis by blast
next
  case (SRemSend m)
  then obtain r c e t where "doSendMsg (p_freeLevel (obj a s)) r c m s = Some (e, t)" "s' = set_spc a SRemain t \<or> s' = set_spc a SRemPipe t"
    using assms by (auto simp: sender_step_def split: choice.splits option.splits)
  with SRemSend sent show thesis by blast
next
  case SRemPipe
  then obtain r t where "remPipe (p_id (obj a s)) s = Some (Ok r, t)" "s' = sender_done a t \<or> (\<exists>b. s' = set_spc a (SWaitStop b) t)"
    using assms by (fastforce simp: sender_step_def split: option.splits outcome.splits)
  with SRemPipe removed show thesis by blast
qed (use assms start ends in \<open>auto simp: sender_step_def split: if_splits\<close>)

lemma sock_inv_sender:
  assumes inv: "sock_inv s" and a: "a < length (s_objs s)" and st: "sender_step ch a s = Some s'"
  shows "sock_inv s'"
  using st
proof (cases rule: sender_step_cases)
  case start
  have "obj_ok ((obj a s)\<lparr>p_spc := SLoop, p_sq := (if p_raw (obj a s) then None else Some (s_sendq s))\<rparr>)"
    using sock_inv_obj [OF inv a] unfolding obj_ok_def sent_ok_def by (auto split: tpc.splits)
  then show ?thesis unfolding start(2) by (intro sock_inv_set_obj) (use inv a in simp_all)
next
  case (common m t pc)
  note q = sock_inv_take_sendq [OF inv common(2)] sent_ok_take_sendq [OF inv a common(2)]
  show ?thesis unfolding common(3) by (rule sock_inv_set_spc) (use q a common(1) in auto)
next
  case (own m t)
  note q = sock_inv_take_pipeq [OF inv own(2) a]
  then obtain b where b: "t = set_obj a ((obj a s)\<lparr>p_sendq := b\<rparr>) s" by blast
  have "sent_ok (obj a t) m" "a < length (s_objs t)" using q(2) a by (simp_all add: b sent_ok_def)
  then show ?thesis unfolding own(3) by (intro sock_inv_set_spc q(1)) simp_all
next
  case (sent m r c e t)
  with sock_inv_doSendMsg [OF inv sent(2)] a show ?thesis by (auto simp: sock_inv_set_spc sock_inv_sender_done)
next
  case (removed r t)
  with sock_inv_remPipe [OF inv removed(2)] a show ?thesis by (auto simp: sock_inv_set_spc sock_inv_sender_done)
qed (use inv a in \<open>auto simp: sock_inv_set_spc sock_inv_sender_done\<close>)

text \<open>And what one step of a receiver does; \<open>after_recv\<close> and \<open>RRemPipe\<close> hold no message.\<close>

lemma receiver_step_cases:
  assumes "receiver_step ch x a s = Some s'"
  obtains (start) "p_rpc (obj a s) = RStart" "s' = set_rpc a RLoop s"
  | (raw) pk m h t where "p_rpc (obj a s) = RStart" "NewRawRecvMessage pk (p_id (obj a s)) (Some []) (s_mem s) = (Ok m, h)"
      "push_recvq m (s\<lparr>s_mem := h\<rparr>) = Some t" "s' = set_rpc a RLoop t"
  | (got) m e h where "p_rpc (obj a s) = RLoop" "arrival_RecvMsg x (p_id (obj a s)) (s_mem s) = (Ok (Some m, e), h)"
      "s' = set_rpc a (RGot m e) (s\<lparr>s_mem := h\<rparr>)"
  | (none) e h where "p_rpc (obj a s) = RLoop" "arrival_RecvMsg x (p_id (obj a s)) (s_mem s) = (Ok (None, e), h)"
      "s' = set_rpc a (after_recv e) (s\<lparr>s_mem := h\<rparr>)"
  | (freed) m e pc where "p_rpc (obj a s) = RGot m e" "pc \<in> {after_recv e, RRemPipe}" "s' = set_rpc a pc (s\<lparr>s_mem := FreeAll m (s_mem s)\<rparr>)"
  | (pushed) m e t where "p_rpc (obj a s) = RGot m e" "push_recvq m s = Some t" "s' = set_rpc a (after_recv e) t"
  | (removed) r t where "p_rpc (obj a s) = RRemPipe" "remPipe (p_id (obj a s)) s = Some (Ok r, t)" "s' = set_rpc a RDone t"
proof (cases "p_rpc (obj a s)")
  case RStart
  with assms start raw show thesis by (fastforce simp: receiver_step_def split: if_splits outcome.splits prod.splits)
next
  case RLoop
  with assms got none show thesis by (auto simp: receiver_step_def recv_return_def Let_def split: prod.splits outcome.splits option.splits)
next
  case (RGot m e)
  with assms freed pushed show thesis by (auto simp: receiver_step_def split: if_splits choice.splits)
next
  case RRemPipe
  with assms removed show thesis by (auto simp: receiver_step_def split: option.splits outcome.splits)
qed (use assms in \<open>simp add: receiver_step_def\<close>)

lemma sock_inv_receiver:
  assumes inv: "sock_inv s" and a: "a < length (s_objs s)" and st: "receiver_step ch x a s = Some s'"
  shows "sock_inv s'"
  using st
proof (cases rule: receiver_step_cases)
  case (raw pk m h t)
  with sock_inv_push_recvq [OF _ raw(3)] inv a show ?thesis by (simp add: sock_inv_set_rpc)
next
  case (pushed m e t)
  with sock_inv_push_recvq [OF inv pushed(2)] a show ?thesis by (simp add: sock_inv_set_rpc)
next
  case (removed r t)
  with sock_inv_remPipe [OF inv removed(2)] a show ?thesis by (simp add: sock_inv_set_rpc)
qed (use inv a in \<open>simp_all add: sock_inv_set_rpc\<close>)

lemma sock_inv_stopper:
  assumes inv: "sock_inv s" and a: "a < length (s_objs s)" and st: "stopPipe_step ch a s = Some s'"
  shows "sock_inv s'"
proof (cases "p_tpc (obj a s)")
  case TDrain
  then have "s' = set_tpc a TDrop s \<or> s' = set_tpc a TDone s \<or>
      (\<exists>m t. take_pipeq a s = Some (m, t) \<and> s' = set_tpc a (TSend m) t)"
    using st by (auto simp: stopPipe_step_def split: choice.splits if_splits)
  then show ?thesis
  proof (elim disjE conjE exE)
    fix m t assume t: "take_pipeq a s = Some (m, t)" "s' = set_tpc a (TSend m) t"
    note q = sock_inv_take_pipeq [OF inv t(1) a]
    then obtain b where b: "t = set_obj a ((obj a s)\<lparr>p_sendq := b\<rparr>) s" by blast
    show ?thesis unfolding t(2)
      by (rule sock_inv_set_tpc [OF q(1)]) (use q(2) a TDrain in \<open>simp_all add: b\<close>)
  qed (auto intro!: sock_inv_set_tpc simp: inv a TDrain)
next
  case (TSend m)
  then obtain r c e t where d: "doSendMsg (p_freeLevel (obj a s)) r c m s = Some (e, t)"
      "s' = set_tpc a TDrain t \<or> s' = set_tpc a TDrop t"
    using st by (auto simp: stopPipe_step_def split: choice.splits option.splits)
  with sock_inv_doSendMsg [OF inv d(1)] a TSend show ?thesis by (auto intro!: sock_inv_set_tpc)
next
  case TDrop
  then have "s' = set_tpc a TDone s \<or> (\<exists>m t h. take_pipeq a s = Some (m, t) \<and> s' = t\<lparr>s_mem := h\<rparr>)"
    using st by (auto simp: stopPipe_step_def split: choice.splits if_splits)
  then show ?thesis
    using sock_inv_take_pipeq(1) [OF inv _ a] by (auto intro!: sock_inv_set_tpc simp: inv a TDrop)
qed (use st in \<open>simp_all add: stopPipe_step_def\<close>)

lemma Dup_meta: "Dup pk m h = (Ok d, h') \<Longrightarrow> meta d = meta m"
  by (auto simp: Dup_def Let_def split: prod.splits outcome.splits option.splits if_splits)

lemma NewSend_meta:
  "NewSendMessage pk f st ttl src dest content h = (Ok m, h') \<Longrightarrow> meta m = send_meta f st ttl src dest content"
  by (auto simp: NewSendMessage_def Let_def split: prod.splits outcome.splits option.splits)

lemma send_meta_type:
  "SendType (send_meta 0 SendTypeToOne t src dst c) = SendTypeToOne"
  "SendType (send_meta 0 SendTypeToAll t src dst c) = SendTypeToAll"
  "SendType (send_meta 0 SendTypeToDest t src dst c) = SendTypeToDest"
  by (simp_all add: send_meta_def send_type_defs)

lemma sock_inv_sendTo:
  assumes "sock_inv s" "SendType (meta m) = SendTypeToDest" "sendTo ch m s = Some (e, s')"
  shows "sock_inv s'"
proof (cases "s' = s")
  case False
  with assms(3) obtain i a where i: "CurID (Destination m) = Ok i" "s_pipes s i = Some a" "push_pipe ch m a s = Some (e, s')"
    by (auto simp: sendTo_def split: if_splits outcome.splits option.splits)
  have "routed (p_id (obj a s)) m" using sock_inv_map [OF assms(1) i(2)] i(1) assms(2) by (simp add: routed_def)
  then show ?thesis by (rule sock_inv_push_pipe [OF assms(1) i(3)])
qed (use assms in simp)

lemma sock_inv_all_begin:
  "sock_inv s \<Longrightarrow> SendType (meta m) = SendTypeToAll \<Longrightarrow> sendToAll_begin as m s = Some s' \<Longrightarrow> sock_inv s'"
  by (auto simp: sendToAll_begin_def sock_inv_def map_ok_def split: if_splits)

lemma sock_inv_Send:
  assumes "sock_inv s" "socket_Send pk ch c s = Some (r, s')"
  shows "sock_inv s'"
proof (cases "s_noSend s")
  case False
  with assms(2) obtain m h where "NewSendMessage pk 0 SendTypeToOne (s_ttl s) [] [] c (s_mem s) = (Ok m, h)"
      "push_sendq ch m (s\<lparr>s_mem := h\<rparr>) = Some (r, s')"
    by (auto simp: socket_Send_def split: prod.splits outcome.splits)
  with assms(1) show ?thesis
    by (intro sock_inv_push_sendq [of "s\<lparr>s_mem := h\<rparr>" ch m r s']) (auto simp: to_one_def NewSend_meta send_meta_type)
qed (use assms in \<open>simp add: socket_Send_def\<close>)

lemma sock_inv_SendTo:
  assumes "sock_inv s" "socket_SendTo pk ch dest c s = Some (r, s')"
  shows "sock_inv s'"
proof (cases "s_noSend s")
  case False
  with assms(2) obtain m h where "NewSendMessage pk 0 SendTypeToDest (s_ttl s) [] dest c (s_mem s) = (Ok m, h)"
      "sendTo ch m (s\<lparr>s_mem := h\<rparr>) = Some (r, s')"
    by (auto simp: socket_SendTo_def split: prod.splits outcome.splits)
  with assms(1) show ?thesis
    by (intro sock_inv_sendTo [of "s\<lparr>s_mem := h\<rparr>" m ch r s']) (auto simp: NewSend_meta send_meta_type)
qed (use assms in \<open>simp add: socket_SendTo_def\<close>)

lemma sock_inv_SendAll:
  assumes "sock_inv s" "socket_SendAll pk as c s = Some (r, s')"
  shows "sock_inv s'"
proof (cases "s_noSend s")
  case False
  with assms(2) obtain m h where "NewSendMessage pk 0 SendTypeToAll (s_ttl s) [] [] c (s_mem s) = (Ok m, h)"
      "sendToAll_begin as m (s\<lparr>s_mem := h\<rparr>) = Some s'"
    by (auto simp: socket_SendAll_def split: prod.splits outcome.splits)
  with assms(1) show ?thesis
    by (intro sock_inv_all_begin [of "s\<lparr>s_mem := h\<rparr>" m as s']) (auto simp: NewSend_meta send_meta_type)
qed (use assms in \<open>simp add: socket_SendAll_def\<close>)

lemma sock_inv_all_drop:
  assumes "sock_inv s" "set xs \<subseteq> set (s_all s)"
  shows "sock_inv (s\<lparr>s_all := xs\<rparr>)"
  using assms by (auto simp: sock_inv_def map_ok_def)

lemma sock_inv_all_step:
  assumes inv: "sock_inv s" and k: "k < length (s_all s)" and st: "sendToAll_step pk ch k s = Some s'"
  shows "sock_inv s'"
proof -
  obtain m as where ms: "s_all s ! k = (m, as)" by (cases "s_all s ! k")
  have ty: "SendType (meta m) = SendTypeToAll" using inv nth_mem [OF k] by (auto simp: sock_inv_def ms)
  show ?thesis
  proof (cases as)
    case Nil
    have "set (take k (s_all s) @ drop (Suc k) (s_all s)) \<subseteq> set (s_all s)"
      by (auto dest: in_set_takeD in_set_dropD)
    then have "sock_inv (s\<lparr>s_all := take k (s_all s) @ drop (Suc k) (s_all s)\<rparr>)" by (rule sock_inv_all_drop [OF inv])
    with st ms Nil show ?thesis by (auto simp: sendToAll_step_def)
  next
    case (Cons a bs)
    with st ms obtain d h e t where d: "Dup pk m (s_mem s) = (Ok d, h)" "push_pipe ch d a (s\<lparr>s_mem := h\<rparr>) = Some (e, t)"
        "s' = t\<lparr>s_all := (s_all t)[k := (m, bs)]\<rparr>"
      by (auto simp: sendToAll_step_def split: prod.splits outcome.splits)
    have "sock_inv t"
      by (rule sock_inv_push_pipe [OF _ d(2)]) (use inv ty Dup_meta [OF d(1)] in \<open>simp_all add: routed_def\<close>)
    then show ?thesis
      using ty set_update_subset_insert [of "s_all t" k "(m, bs)"] by (auto simp: d(3) sock_inv_def map_ok_def)
  qed
qed

lemma sock_inv_SendMsg:
  assumes "sock_inv s" "socket_SendMsg ch as m s = Some (r, s')"
  shows "sock_inv s'"
  using assms sock_inv_sendTo [of s m ch r s'] sock_inv_push_sendq [of s ch m r s'] sock_inv_all_begin [of s m as s']
  by (auto simp: socket_SendMsg_def to_one_def split: if_splits)

lemma sock_inv_onOptionChange: "sock_inv s \<Longrightarrow> sock_inv (snd (onOptionChange o1 H s))"
  by (auto simp: onOptionChange_def upd_def sock_inv_def map_ok_def chan_simps split: outcome.splits)

lemma sock_inv_SetOption:
  assumes "sock_inv s" "socket_SetOption o1 v s = Some (r, s')"
  shows "sock_inv s'"
proof -
  from assms(2) obtain H t where t: "SetOption socket_hooks (Suc (s_opts s)) (s_heap s) (s_opts s) o1 v s = Some (r, H, t)"
      "s' = t\<lparr>s_heap := H\<rparr>"
    by (auto simp: socket_SetOption_def split: option.splits)
  have "sock_inv s \<longrightarrow> sock_inv t"
    by (rule SetOption_rel [where P = "\<lambda>s t. sock_inv s \<longrightarrow> sock_inv t", OF _ _ _ t(1)]) (auto intro: sock_inv_onOptionChange)
  with assms(1) t(2) show ?thesis by simp
qed

lemma sock_inv_RecvMsg:
  assumes "sock_inv s" "socket_RecvMsg ch s = Some (r, s')"
  shows "sock_inv s'"
proof (cases "s' = s")
  case False
  with assms(2) obtain m q where q: "s_recvq s < length (s_recvqs s)" "chan_recv (cur_recvq s) = Some (m, q)"
      "s' = s\<lparr>s_recvqs := (s_recvqs s)[s_recvq s := q], s_user := s_user s @ [m]\<rparr>"
    by (auto simp: socket_RecvMsg_def Let_def split: choice.splits if_splits option.splits)
  have "chan_ok q" using chan_recv_Some [OF q(2)] assms(1) q(1) by (simp add: sock_inv_def)
  then have "\<forall>x \<in> set ((s_recvqs s)[s_recvq s := q]). chan_ok x"
    using assms(1) set_update_subset_insert [of "s_recvqs s" "s_recvq s" q] by (auto simp: sock_inv_def)
  then show ?thesis using assms(1) by (simp add: sock_inv_def map_ok_def q(3))
qed (use assms in simp)

lemma sock_inv_event:
  assumes "sock_inv s" "HandlePipeEvent e pid s = Some s'"
  shows "sock_inv s'"
proof (cases e)
  case (PipeEventAdd raw lvl)
  with assms(2) obtain n where s': "s' = s\<lparr>s_objs := s_objs s @ [newPipe pid raw lvl n], s_pipes := (s_pipes s)(pid \<mapsto> length (s_objs s))\<rparr>"
    by (auto simp: HandlePipeEvent_def addPipe_def split: if_splits outcome.splits)
  have "obj_ok (newPipe pid raw lvl n)" by (simp add: obj_ok_def newPipe_def chan_simps)
  moreover have "p_id (newPipe pid raw lvl n) = pid" "p_tpc (newPipe pid raw lvl n) = TNone" by (simp_all add: newPipe_def)
  moreover have "map_ok s'"
    unfolding map_ok_def
  proof (intro allI impI)
    fix i a assume "s_pipes s' i = Some a"
    then have i: "((s_pipes s)(pid \<mapsto> length (s_objs s))) i = Some a" by (simp add: s')
    show "a < length (s_objs s') \<and> p_id (obj a s') = i \<and> p_tpc (obj a s') = TNone"
    proof (cases "i = pid")
      case True
      with i have "a = length (s_objs s)" by simp
      with True show ?thesis by (simp add: s' newPipe_def)
    next
      case False
      with i have "s_pipes s i = Some a" by simp
      from sock_inv_map [OF assms(1) this] show ?thesis by (simp add: s' nth_append)
    qed
  qed
  ultimately show ?thesis using assms(1) by (simp add: s' sock_inv_def)
next
  case PipeEventRemove
  with assms sock_inv_remPipe [OF assms(1)] show ?thesis
    by (auto simp: HandlePipeEvent_def split: option.splits outcome.splits)
qed

lemma sock_inv_close:
  assumes "sock_inv s" "close_step ch s = Some s'"
  shows "sock_inv s'"
  using assms sock_inv_take_sendq(1) [OF assms(1)]
  by (auto simp: close_step_def split: cpc.splits choice.splits if_splits option.splits)

lemma app_forward_cases:
  assumes "app_forward ch as k s = Some (r, s')"
  obtains (taken) "r = None" "socket_SendMsg ch as (s_user s ! k) (s\<lparr>s_user := take k (s_user s) @ drop (Suc k) (s_user s)\<rparr>) = Some (r, s')"
    | (kept) e t where "r = Some e" "s' = t\<lparr>s_user := s_user t @ [s_user s ! k]\<rparr>"
        "socket_SendMsg ch as (s_user s ! k) (s\<lparr>s_user := take k (s_user s) @ drop (Suc k) (s_user s)\<rparr>) = Some (r, t)"
proof -
  let ?S = "socket_SendMsg ch as (s_user s ! k) (s\<lparr>s_user := take k (s_user s) @ drop (Suc k) (s_user s)\<rparr>)"
  from assms obtain x t where x: "?S = Some (x, t)" by (cases ?S) (auto simp: app_forward_def Let_def)
  show thesis
  proof (cases x)
    case None
    with assms x show thesis by (intro taken) (simp_all add: app_forward_def Let_def)
  next
    case (Some e)
    with assms x show thesis by (intro kept [of e t]) (auto simp: app_forward_def Let_def)
  qed
qed

lemma sock_inv_forward: "sock_inv s \<Longrightarrow> app_forward ch as k s = Some (r, s') \<Longrightarrow> sock_inv s'"
proof (erule app_forward_cases)
  assume inv: "sock_inv s"
    and st: "socket_SendMsg ch as (s_user s ! k) (s\<lparr>s_user := take k (s_user s) @ drop (Suc k) (s_user s)\<rparr>) = Some (r, s')"
  from sock_inv_SendMsg [OF _ st] inv show ?thesis by simp
next
  fix e t
  assume inv: "sock_inv s" and s': "s' = t\<lparr>s_user := s_user t @ [s_user s ! k]\<rparr>"
    and st: "socket_SendMsg ch as (s_user s ! k) (s\<lparr>s_user := take k (s_user s) @ drop (Suc k) (s_user s)\<rparr>) = Some (r, t)"
  from sock_inv_SendMsg [OF _ st] inv show ?thesis by (simp add: s')
qed

lemma sock_inv_step: "step s s' \<Longrightarrow> sock_inv s \<Longrightarrow> sock_inv s'"
proof (induction rule: step.induct)
  case (step_Close s r s')
  then show ?case by (auto simp: socket_Close_def split: if_splits)
next
  case (step_release k s)
  then show ?case by (simp add: app_release_def)
qed (auto intro: sock_inv_event sock_inv_sender sock_inv_receiver sock_inv_stopper sock_inv_RecvMsg sock_inv_Send
    sock_inv_SendTo sock_inv_SendAll sock_inv_all_step sock_inv_forward sock_inv_SetOption sock_inv_close)

lemma sock_inv_init_values: "sock_inv s \<Longrightarrow> sock_inv (snd (init_values os H s))"
proof (induction os arbitrary: s)
  case (Cons o1 os)
  then show ?case using sock_inv_onOptionChange [of s o1 H]
    by (auto split: prod.splits outcome.splits)
qed simp

lemma sock_inv_New:
  assumes "socket_New ovs H h = (r, s)"
  shows "sock_inv s"
proof -
  obtain a H1 where a: "NewOptionsWithValues ovs H = (a, H1)" by (cases "NewOptionsWithValues ovs H")
  let ?H2 = "AddOptionChangeHook a hook_connector H1"
  let ?os = "[Opt_NoRecv, Opt_RecvQueueSize, Opt_NoSend, Opt_SendQueueSize, Opt_SendTTL, Opt_SendBestEffort]"
  obtain r1 s1 where s1: "init_values ?os ?H2 (blank_socket a ?H2 h) = (r1, s1)"
    by (cases "init_values ?os ?H2 (blank_socket a ?H2 h)")
  have "sock_inv (blank_socket a ?H2 h)" by (simp add: sock_inv_def map_ok_def blank_socket_def)
  from sock_inv_init_values [OF this, of ?os ?H2] have "sock_inv s1" by (simp only: s1 snd_conv)
  moreover have "s = s1\<lparr>s_heap := AddOptionChangeHook a hook_socket ?H2, s_handler := True\<rparr>"
    using assms unfolding socket_New_def a Let_def prod.case s1 by simp
  ultimately show ?thesis by simp
qed

lemma reachable_inv: "reachable s0 s \<Longrightarrow> sock_inv s0 \<Longrightarrow> sock_inv s"
  by (induction rule: reachable.induct) (auto intro: sock_inv_step)

section \<open>Properties\<close>

text \<open>
  C9: in every reachable state of a socket, whatever the interleaving of its goroutines, the
  application, pipe events, option changes and \<open>Close\<close>: the map refers only to pipes with that id
  whose \<open>stopq\<close> is open (so \<open>remPipe\<close> never closes one twice); a pipe's own queue holds only
  messages to all or addressed to this pipe; the common queues hold only messages to one; a sender
  of a raw pipe never has a message to one in its hands; and no queue exceeds its capacity.
\<close>

theorem socket_routing_invariant:
  assumes "socket_New ovs H h = (r, s0)" and "reachable s0 s"
  shows "(\<forall>pid a. s_pipes s pid = Some a \<longrightarrow> a < length (s_objs s) \<and> p_id (obj a s) = pid \<and> \<not> p_stopq (obj a s)) \<and>
    (\<forall>pid. remPipe pid s \<noteq> None \<longrightarrow> fst (the (remPipe pid s)) \<noteq> Panic) \<and>
    (\<forall>p \<in> set (s_objs s). (\<forall>m \<in> set (chan_buf (p_sendq p)). routed (p_id p) m) \<and> chan_ok (p_sendq p) \<and>
       (\<forall>m. p_raw p \<and> (p_spc p = SSend m \<or> p_spc p = SRemSend m) \<longrightarrow> \<not> to_one m)) \<and>
    (\<forall>q \<in> set (s_sendqs s). chan_ok q \<and> (\<forall>m \<in> set (chan_buf q). to_one m)) \<and> (\<forall>q \<in> set (s_recvqs s). chan_ok q)"
proof -
  have inv: "sock_inv s" by (rule reachable_inv [OF assms(2) sock_inv_New [OF assms(1)]])
  have "\<not> p_stopq (obj a s)" if "s_pipes s pid = Some a" for pid a
    using sock_inv_map [OF inv that] sock_inv_obj [OF inv, of a] by (simp add: obj_ok_def)
  moreover have "fst (the (remPipe pid s)) \<noteq> Panic" if "remPipe pid s \<noteq> None" for pid
    using that sock_inv_remPipe [OF inv, of pid] by (cases "the (remPipe pid s)") auto
  moreover have "routed pid m \<Longrightarrow> \<not> to_one m" for pid m by (auto simp: routed_def to_one_def send_type_defs)
  then have "\<not> to_one m" if "p \<in> set (s_objs s)" "p_raw p" "p_spc p = SSend m \<or> p_spc p = SRemSend m" for p m
    using inv that by (auto simp: sock_inv_def obj_ok_def sent_ok_def)
  ultimately show ?thesis using inv sock_inv_map [OF inv] by (auto simp: sock_inv_def obj_ok_def)
qed

end
