(* ===== verification/Socket_Memory.thy ===== *)
theory Socket_Memory
  imports Socket_Routing
begin

text \<open>
  Ownership of message buffers in a running socket. Every message in a queue, in the hands
  of a goroutine or of the application has a buffer of its own that the pool does not know:
  no interleaving frees a buffer twice or recycles one that is still in use.
\<close>

section \<open>Freshly built messages\<close>

definition fresh_msg :: "message \<Rightarrow> mem \<Rightarrow> mem \<Rightarrow> bool" where
  "fresh_msg m h h' \<longleftrightarrow> (\<forall>live. mem_inv live h \<longrightarrow> owned_msg live m h')"

definition keeps_mem :: "mem \<Rightarrow> mem \<Rightarrow> bool" where
  "keeps_mem h h' \<longleftrightarrow> (\<forall>live. mem_inv live h \<longrightarrow> mem_inv live h')"

lemma wf_recv_regions:
  assumes "slen s = MetaSize + recv_sourceSize mt + recv_destSize mt + unat (Length mt)" "slen s \<le> cap s"
    "length d = slen s" "clean_msg m0"
  shows "wf_msg (recv_regions mt (set_bytes d s) m0) \<and> msg_arr (recv_regions mt (set_bytes d s) m0) = Some (arr s)"
  using assms
  by (auto simp: wf_msg_def recv_regions_def Let_def msg_arr_def region_is_def clean_msg_def recv_meta_def
      recv_sourceSize_def recv_destSize_def)

lemma overwrite_any_length: "length (overwrite i src dst) = length dst \<or> length dst < i"
  by (cases "i \<le> length dst") auto

lemma FromBytes_mem:
  assumes inv: "mem_inv live h" and eq: "NewMessageFromBytes pk pid b mx h = (r, h')"
  shows "(\<forall>m. r = Ok m \<longrightarrow> owned_msg live m h') \<and> (\<forall>e. r = Error e \<longrightarrow> mem_inv live h')"
proof -
  obtain m0 h1 where g: "msgPool_Get pk h = (m0, h1)" by (cases "msgPool_Get pk h")
  note m0 = msgPool_Get_ok [OF inv g]
  show ?thesis
  proof (cases "decodeMetaFrom b")
    case None
    then have "length b < MetaSize" by (simp add: decodeMetaFrom_None_iff)
    with eq g m0 show ?thesis by (auto simp: NewMessageFromBytes_def Let_def intro: msg_Free_inv)
  next
    case (Some mt)
    let ?n = "MetaSize + recv_sourceSize mt + recv_destSize mt + unat (Length mt)"
    have "0 < ?n" by (simp add: MetaSize_def)
    then obtain s h2 where al: "mem_Alloc ?n pk h1 = (Ok (Some s), h2)" and s: "slen s = ?n" "?n \<le> cap s"
      and a: "arr s \<notin> live" "mem_inv (insert (arr s) live) h2" using mem_Alloc_ok [OF m0(2), of ?n pk] by metis
    have "owned_msg live (recv_regions mt (set_bytes d s) m0) h2" if "length d = slen s" for d
      using wf_recv_regions [OF _ _ that m0(1)] s a by (auto simp: owned_msg_def)
    moreover have "mem_inv live (msg_Free m0 h1)" by (rule msg_Free_inv [OF m0(2)])
    ultimately show ?thesis
      using eq g al s Some by (auto simp: NewMessageFromBytes_def Let_def split: if_splits)
  qed
qed

lemma FromBytes_fresh: "NewMessageFromBytes pk pid b mx h = (Ok m, h') \<Longrightarrow> fresh_msg m h h'"
  using FromBytes_mem by (auto simp: fresh_msg_def)

lemma FromBytes_keeps: "NewMessageFromBytes pk pid b mx h = (Error e, h') \<Longrightarrow> keeps_mem h h'"
  using FromBytes_mem by (auto simp: keeps_mem_def)

lemma FromMsg_mem:
  assumes inv: "mem_inv live h" and eq: "NewMessageFromMsg pk pid sm mx h = (r, h')"
  shows "(\<forall>m. r = Ok m \<longrightarrow> owned_msg live m h') \<and> (\<forall>e. r = Error e \<longrightarrow> mem_inv live h')"
proof -
  let ?mt = "meta sm"
  let ?n = "MetaSize + recv_sourceSize ?mt + recv_destSize ?mt + unat (Length ?mt)"
  have "0 < ?n" by (simp add: MetaSize_def)
  then obtain m0 h1 s h2 where g: "msgPool_Get pk h = (m0, h1)" "mem_Alloc ?n pk h1 = (Ok (Some s), h2)"
    and m0: "clean_msg m0" and s: "slen s = ?n" "?n \<le> cap s" "length (sdata s) = ?n"
    and a: "arr s \<notin> live" "mem_inv (insert (arr s) live) h2"
    using new_msg_ok [OF inv, of ?n pk] by metis
  have "owned_msg live (recv_regions ?mt (set_bytes d s) m0) h2" if "length d = slen s" for d
    using wf_recv_regions [OF _ _ that m0] s a by (auto simp: owned_msg_def)
  moreover have "mem_inv live (msg_Free m0 h1)" by (rule msg_Free_inv [OF msgPool_Get_ok(2) [OF inv g(1)]])
  ultimately show ?thesis
    using eq g s by (auto simp: NewMessageFromMsg_def Let_def split: if_splits)
qed

text \<open>Reading from a stream: whatever the stream holds, the buffer is released when the message is not built.\<close>

definition read_mem :: "nat set \<Rightarrow> (message outcome \<times> 'r \<times> mem) option \<Rightarrow> bool" where
  "read_mem live x \<longleftrightarrow> (\<forall>r rd h. x = Some (r, rd, h) \<longrightarrow> (\<forall>m. r = Ok m \<longrightarrow> owned_msg live m h) \<and> (\<forall>e. r = Error e \<longrightarrow> mem_inv live h))"

lemma read_mem_simps [simp]:
  "read_mem live None" "read_mem live (Some (Panic, rd, h))" "read_mem live (Some (Ok m, rd, h)) = owned_msg live m h"
  "read_mem live (Some (Error e, rd, h)) = mem_inv live h"
  by (simp_all add: read_mem_def)

lemma read_source_mem:
  assumes s: "slen s = MetaSize + recv_sourceSize mt + recv_destSize mt + unat (Length mt)" "slen s \<le> cap s" "length (sdata s) = slen s"
    and m0: "clean_msg m0" and a: "arr s \<notin> live" "mem_inv (insert (arr s) live) h"
  shows "read_mem live (read_source rc pid m0 mt s h rd)"
proof -
  have ok: "owned_msg live (recv_regions mt (set_bytes d s) m0) h" if "length d = slen s" for d
    using wf_recv_regions [OF s(1,2) that m0] a by (auto simp: owned_msg_def)
  have "mem_inv live (FreeAll (m0\<lparr>buf := Some s\<rparr>) h)"
    using FreeAll_inv [OF a(2), of "m0\<lparr>buf := Some s\<rparr>" s] a(1) by simp
  then have fail: "read_mem live (Some (read_fail m0 s h e rd))" for e and rd :: 'a by (simp add: read_fail_def)
  have content: "read_mem live (read_content rc m0 mt s h to d rd)" if "length d = slen s" "to \<le> slen s" for to d rd
    using that ok fail by (auto simp: read_content_def split: option.splits outcome.splits)
  have dest: "read_mem live (read_dest rc m0 mt s h to d rd)" if "length d = slen s" "to + recv_destSize mt \<le> slen s" for to d rd
    using that fail by (auto simp: read_dest_def intro!: content split: option.splits outcome.splits)
  have skip: "read_mem live (skip_hop rc m0 mt s h to d rd)" if "length d = slen s" "to + recv_destSize mt \<le> slen s" for to d rd
    using dest [OF that] fail by (auto simp: skip_hop_def split: option.splits outcome.splits)
  show ?thesis
    using fail s(1,3) by (auto simp: read_source_def intro!: skip split: option.splits outcome.splits)
qed

lemma FromReader_mem:
  assumes inv: "mem_inv live h"
  shows "read_mem live (NewMessageFromReader rc pk pid rd mx h)"
proof -
  obtain m0 h1 where g: "msgPool_Get pk h = (m0, h1)" by (cases "msgPool_Get pk h")
  note m0 = msgPool_Get_ok [OF inv g]
  note f = msg_Free_inv [OF m0(2)]
  have src: "read_mem live (case mem_Alloc (MetaSize + recv_sourceSize mt + recv_destSize mt + unat (Length mt)) pk h1 of
      (Ok (Some s), h2) \<Rightarrow> read_source rc pid m0 mt s h2 rd1 | (Ok None, h2) \<Rightarrow> Some (Panic, rd1, h2)
      | (Error e, h2) \<Rightarrow> Some (Error e, rd1, h2) | (Panic, h2) \<Rightarrow> Some (Panic, rd1, h2))" for mt rd1
  proof -
    let ?n = "MetaSize + recv_sourceSize mt + recv_destSize mt + unat (Length mt)"
    have "0 < ?n" by (simp add: MetaSize_def)
    then obtain s h2 where "mem_Alloc ?n pk h1 = (Ok (Some s), h2)" "slen s = ?n" "?n \<le> cap s" "length (sdata s) = ?n"
      "arr s \<notin> live" "mem_inv (insert (arr s) live) h2" using new_msg_ok [OF inv, of ?n pk] g by (metis prod.inject)
    then show ?thesis using read_source_mem [of s mt m0 live h2 rc pid rd1] m0(1) by simp
  qed
  show ?thesis
    unfolding NewMessageFromReader_def Let_def g prod.case
    using src f by (auto split: option.split outcome.split)
qed

lemma RawRecv_mem:
  assumes inv: "mem_inv live h"
  obtains m h' where "NewRawRecvMessage pk pid c h = (Ok m, h')" "owned_msg live m h'" "HasFlags (meta m) MsgFlagRaw"
    "SendType (meta m) = SendTypeToOne"
proof -
  let ?c = "case c of None \<Rightarrow> [] | Some c \<Rightarrow> c"
  let ?len = "unat (of_nat (length ?c) :: u32)"
  let ?n = "MetaSize + 4 + ?len"
  have "0 < ?n" by simp
  then obtain m0 h1 s h2 where g: "msgPool_Get pk h = (m0, h1)" "mem_Alloc ?n pk h1 = (Ok (Some s), h2)"
    and m0: "clean_msg m0" and s: "slen s = ?n" "?n \<le> cap s" "length (sdata s) = ?n"
    and a: "arr s \<notin> live" "mem_inv (insert (arr s) live) h2"
    using new_msg_ok [OF inv, of ?n pk] by metis
  have "\<exists>m. NewRawRecvMessage pk pid c h = (Ok m, h2) \<and> wf_msg m \<and> msg_arr m = Some (arr s) \<and> Flags (meta m) = MsgFlagRaw OR SendTypeToOne"
    using g s m0
    by (cases c) (auto simp: NewRawRecvMessage_def Let_def wf_msg_def msg_arr_def region_is_def clean_msg_def)
  then show thesis using a
    by (elim exE conjE, intro that) (auto simp: owned_msg_def HasFlags_def SendType_def send_type_defs msg_flag_defs)
qed

lemma FromMsg_fresh: "NewMessageFromMsg pk pid sm mx h = (Ok m, h') \<Longrightarrow> fresh_msg m h h'"
  using FromMsg_mem by (auto simp: fresh_msg_def)

lemma FromMsg_keeps: "NewMessageFromMsg pk pid sm mx h = (Error e, h') \<Longrightarrow> keeps_mem h h'"
  using FromMsg_mem by (auto simp: keeps_mem_def)

lemma FromReader_fresh: "NewMessageFromReader rc pk pid rd mx h = Some (Ok m, rd', h') \<Longrightarrow> fresh_msg m h h'"
  using FromReader_mem [of _ h rc pk pid rd mx] by (auto simp: fresh_msg_def)

lemma FromReader_keeps: "NewMessageFromReader rc pk pid rd mx h = Some (Error e, rd', h') \<Longrightarrow> keeps_mem h h'"
  using FromReader_mem [of _ h rc pk pid rd mx] by (auto simp: keeps_mem_def)

lemma RawRecv_fresh: "NewRawRecvMessage pk pid c h = (Ok m, h') \<Longrightarrow> fresh_msg m h h'"
  unfolding fresh_msg_def using RawRecv_mem by (metis outcome.inject(1) prod.inject)

lemma NewSend_fresh:
  assumes "path_ok dest" "length content < 2 ^ 32" "NewSendMessage pk f st ttl [] dest content h = (Ok m, h')"
  shows "fresh_msg m h h'"
  unfolding fresh_msg_def
proof safe
  fix live assume "mem_inv live h"
  then show "owned_msg live m h'"
    using NewSendMessage_ok [of live h "[]" dest content pk f st ttl] assms
    by (metis Pair_inject list.size(3) mod_0 outcome.inject(1) path_ok_def div_0 zero_less_numeral)
qed

lemma Dup_fresh: "wf_msg m \<Longrightarrow> Dup pk m h = (Ok d, h') \<Longrightarrow> fresh_msg d h h'"
  unfolding fresh_msg_def using Dup_ok by (metis outcome.inject(1) prod.inject)

section \<open>The messages somebody holds\<close>

fun spc_msgs :: "spc \<Rightarrow> message multiset" where
  "spc_msgs (SSend m) = {#m#}"
| "spc_msgs (SRemSend m) = {#m#}"
| "spc_msgs _ = {#}"

fun rpc_msgs :: "rpc \<Rightarrow> message multiset" where
  "rpc_msgs (RGot m e) = {#m#}"
| "rpc_msgs _ = {#}"

fun tpc_msgs :: "tpc \<Rightarrow> message multiset" where
  "tpc_msgs (TSend m) = {#m#}"
| "tpc_msgs _ = {#}"

definition chan_msgs :: "message chan \<Rightarrow> message multiset" where
  "chan_msgs q = mset (chan_buf q)"

definition pipe_msgs :: "spipe \<Rightarrow> message multiset" where
  "pipe_msgs p = chan_msgs (p_sendq p) + spc_msgs (p_spc p) + rpc_msgs (p_rpc p) + tpc_msgs (p_tpc p)"

definition held :: "socket \<Rightarrow> message multiset" where
  "held s = sum_list (map chan_msgs (s_recvqs s)) + sum_list (map chan_msgs (s_sendqs s)) +
     sum_list (map pipe_msgs (s_objs s)) + mset (map fst (s_all s)) + mset (s_user s)"

text \<open>
  \<open>owns A h\<close>: the arrays of \<open>A\<close> are pairwise different and in use, so that the pool cannot hand them
  out. \<open>safe K M h\<close>: the messages of \<open>M\<close> are well formed, and their buffers and the arrays \<open>K\<close> that
  somebody else owns are such arrays.
\<close>

definition marr :: "message \<Rightarrow> nat" where
  "marr m = (case buf m of Some s \<Rightarrow> arr s | None \<Rightarrow> 0)"

definition owns :: "nat multiset \<Rightarrow> mem \<Rightarrow> bool" where
  "owns A h \<longleftrightarrow> (\<exists>live. mem_inv live h \<and> set_mset A \<subseteq> live \<and> (\<forall>x. count A x \<le> 1))"

definition safe :: "nat multiset \<Rightarrow> message multiset \<Rightarrow> mem \<Rightarrow> bool" where
  "safe K M h \<longleftrightarrow> (\<forall>m \<in># M. wf_msg m) \<and> owns (K + image_mset marr M) h"

lemma wf_msg_arr: "wf_msg m \<Longrightarrow> msg_arr m = Some (marr m)"
  by (auto simp: wf_msg_def msg_arr_def marr_def Let_def split: option.splits)

lemma owns_subset: "owns B h \<Longrightarrow> A \<subseteq># B \<Longrightarrow> owns A h"
  unfolding owns_def by (meson le_trans mset_subset_eq_count set_mset_mono subset_trans)

lemma owns_keeps: "owns A h \<Longrightarrow> keeps_mem h h' \<Longrightarrow> owns A h'"
  by (auto simp: owns_def keeps_mem_def)

lemma owns_fresh:
  assumes "owns A h" "fresh_msg m h h'"
  shows "wf_msg m" "owns (add_mset (marr m) A) h'"
proof -
  from assms(1) obtain live where l: "mem_inv live h" "set_mset A \<subseteq> live" "\<forall>x. count A x \<le> 1" unfolding owns_def by blast
  with assms(2) have o: "wf_msg m" "marr m \<notin> live" "mem_inv (insert (marr m) live) h'"
    using wf_msg_arr [of m] by (auto simp: fresh_msg_def owned_msg_def)
  then have "count A (marr m) = 0" using l(2) by (auto simp: count_eq_zero_iff)
  with l o show "wf_msg m" "owns (add_mset (marr m) A) h'"
    by (auto simp: owns_def intro!: exI [of _ "insert (marr m) live"])
qed

lemma owns_FreeAll:
  assumes "owns (add_mset (marr m) A) h" "wf_msg m"
  shows "owns A (FreeAll m h)"
proof -
  from assms(1) obtain live where l: "mem_inv live h" "marr m \<in> live" "set_mset A \<subseteq> live" "\<forall>x. count (add_mset (marr m) A) x \<le> 1"
    unfolding owns_def by auto
  obtain s where s: "buf m = Some s" "marr m = arr s" using assms(2) by (auto simp: wf_msg_def marr_def Let_def split: option.splits)
  have "count A (marr m) = 0" using l(4) [rule_format, of "marr m"] by simp
  then have "set_mset A \<subseteq> live - {arr s}" using l(3) s(2) by (auto simp: count_eq_zero_iff)
  moreover have "count A x \<le> 1" for x using l(4) [rule_format, of x] by (auto split: if_splits)
  ultimately show ?thesis using FreeAll_inv [OF l(1) s(1)] l(2) s(2) by (auto simp: owns_def)
qed

lemma owns_msg_Free: "owns A h \<Longrightarrow> owns A (msg_Free m h)"
  by (auto intro: owns_keeps simp: keeps_mem_def msg_Free_inv)

lemma safe_subset: "safe K M h \<Longrightarrow> N \<subseteq># M \<Longrightarrow> safe K N h"
  unfolding safe_def by (meson image_mset_subseteq_mono mset_subset_eqD owns_subset subset_mset.add_left_mono)

lemma safe_keeps: "safe K M h \<Longrightarrow> keeps_mem h h' \<Longrightarrow> safe K M h'"
  by (auto simp: safe_def intro: owns_keeps)

lemma safe_fresh: "safe K M h \<Longrightarrow> fresh_msg m h h' \<Longrightarrow> safe K (add_mset m M) h'"
  using owns_fresh [of "K + image_mset marr M"] by (auto simp: safe_def)

lemma safe_FreeAll: "safe K (add_mset m M) h \<Longrightarrow> safe K M (FreeAll m h)"
  using owns_FreeAll [of m "K + image_mset marr M"] by (auto simp: safe_def)

lemma safe_FreeByLevel: "safe K (add_mset m M) h \<Longrightarrow> safe K M (FreeByLevel m lvl h)"
proof (cases lvl)
  case LevelFreeMsg
  assume "safe K (add_mset m M) h"
  then have "safe K M h" by (rule safe_subset) simp
  with LevelFreeMsg show ?thesis by (auto intro: safe_keeps simp: keeps_mem_def msg_Free_inv)
qed (auto intro: safe_FreeAll safe_subset)

text \<open>Without anybody else: the buffers of the messages of \<open>M\<close> are pairwise different.\<close>

definition good :: "message multiset \<Rightarrow> mem \<Rightarrow> bool" where
  "good M h \<longleftrightarrow>
     (\<exists>live. mem_inv live h \<and> (\<forall>m \<in># M. wf_msg m \<and> (\<exists>x \<in> live. msg_arr m = Some x)) \<and>
        (\<forall>x. count (image_mset msg_arr M) x \<le> 1))"

lemma good_safe: "good M h \<longleftrightarrow> safe {#} M h"
proof (cases "\<forall>m \<in># M. wf_msg m")
  case True
  then have "image_mset msg_arr M = image_mset Some (image_mset marr M)"
    unfolding multiset.map_comp by (intro image_mset_cong) (simp add: wf_msg_arr)
  moreover have "count (image_mset Some A) x = (case x of None \<Rightarrow> 0 | Some y \<Rightarrow> count A y)" for A :: "nat multiset" and x
    by (induction A) (auto split: option.splits)
  ultimately have "(\<forall>x. count (image_mset msg_arr M) x \<le> 1) \<longleftrightarrow> (\<forall>x. count (image_mset marr M) x \<le> 1)"
    by (metis not_None_eq option.case zero_le)
  with True show ?thesis by (auto simp: good_def safe_def owns_def wf_msg_arr image_subset_iff)
qed (auto simp: good_def safe_def)

section \<open>How the pieces of a step move messages\<close>

lemma held_mem [simp]: "held (s\<lparr>s_mem := h\<rparr>) = held s"
  by (simp add: held_def)

lemma held_flags [simp]:
  "held (s\<lparr>s_senderWg := n\<rparr>) = held s" "held (s\<lparr>s_senderStoppedq := b\<rparr>) = held s" "held (s\<lparr>s_closer := c\<rparr>) = held s"
  "held (s\<lparr>s_closedq := b\<rparr>) = held s" "held (s\<lparr>s_handler := b\<rparr>) = held s" "held (s\<lparr>s_pipes := f\<rparr>) = held s"
  "held (s\<lparr>s_heap := H\<rparr>) = held s" "held (s\<lparr>s_noRecv := b\<rparr>) = held s" "held (s\<lparr>s_noSend := b\<rparr>) = held s"
  "held (s\<lparr>s_ttl := t\<rparr>) = held s" "held (s\<lparr>s_bestEffort := b\<rparr>) = held s" "held (s\<lparr>s_recvq := n\<rparr>) = held s"
  "held (s\<lparr>s_sendq := n\<rparr>) = held s"
  by (simp_all add: held_def)

lemma held_set_obj:
  "a < length (s_objs s) \<Longrightarrow> held (set_obj a p s) + pipe_msgs (obj a s) = held s + pipe_msgs p"
  using sum_list_update [of a "s_objs s" pipe_msgs p] by (simp add: held_def set_obj_def ac_simps)

lemma held_set_spc:
  "a < length (s_objs s) \<Longrightarrow> held (set_spc a pc s) + spc_msgs (p_spc (obj a s)) = held s + spc_msgs pc"
  using held_set_obj [of a s "(obj a s)\<lparr>p_spc := pc\<rparr>"] by (simp add: set_spc_def pipe_msgs_def ac_simps)

lemma held_set_rpc:
  "a < length (s_objs s) \<Longrightarrow> held (set_rpc a pc s) + rpc_msgs (p_rpc (obj a s)) = held s + rpc_msgs pc"
  using held_set_obj [of a s "(obj a s)\<lparr>p_rpc := pc\<rparr>"] by (simp add: set_rpc_def pipe_msgs_def ac_simps)

lemma held_set_tpc:
  "a < length (s_objs s) \<Longrightarrow> held (set_tpc a pc s) + tpc_msgs (p_tpc (obj a s)) = held s + tpc_msgs pc"
  using held_set_obj [of a s "(obj a s)\<lparr>p_tpc := pc\<rparr>"] by (simp add: set_tpc_def pipe_msgs_def ac_simps)

lemma set_pc_mem [simp]:
  "s_mem (set_spc a pc s) = s_mem s" "s_mem (set_rpc a rc s) = s_mem s" "s_mem (set_tpc a tc s) = s_mem s"
  "s_mem (sender_done a s) = s_mem s"
  by (simp_all add: set_spc_def set_rpc_def set_tpc_def sender_done_def)

lemma held_sender_done:
  "a < length (s_objs s) \<Longrightarrow> held (sender_done a s) + spc_msgs (p_spc (obj a s)) = held s"
  using held_set_spc [of a s SDone] by (simp add: sender_done_def)

lemma doPushMsg_msgs:
  "doPushMsg ch best closed m q = Some (e, q') \<Longrightarrow>
     chan_msgs q' = (if e = None then add_mset m (chan_msgs q) else chan_msgs q)"
  by (cases ch) (auto simp: chan_msgs_def chan_send_def split: if_splits)

lemma push_sendq_held:
  assumes "push_sendq ch m s = Some (e, s')"
  shows "held s' = (if e = None then add_mset m (held s) else held s)" "s_mem s' = s_mem s"
    "s_objs s' = s_objs s" "s_all s' = s_all s" "s_user s' = s_user s"
proof -
  from assms obtain q where q: "s_sendq s < length (s_sendqs s)"
      "doPushMsg ch (s_bestEffort s) (s_closedq s) m (s_sendqs s ! s_sendq s) = Some (e, q)"
      "s' = s\<lparr>s_sendqs := (s_sendqs s)[s_sendq s := q]\<rparr>"
    by (auto simp: push_sendq_def split: if_splits)
  show "held s' = (if e = None then add_mset m (held s) else held s)"
    using sum_list_update [OF q(1), of chan_msgs q] doPushMsg_msgs [OF q(2)] by (auto simp: held_def q(3))
  show "s_mem s' = s_mem s" "s_objs s' = s_objs s" "s_all s' = s_all s" "s_user s' = s_user s" by (simp_all add: q(3))
qed

lemma push_pipe_held:
  assumes "push_pipe ch m a s = Some (e, s')"
  shows "held s' = (if e = None then add_mset m (held s) else held s)" "s_mem s' = s_mem s" "s_all s' = s_all s"
    "s_user s' = s_user s"
proof -
  from assms obtain q where q: "a < length (s_objs s)"
      "doPushMsg ch (s_bestEffort s) (s_closedq s) m (p_sendq (obj a s)) = Some (e, q)"
      "s' = set_obj a ((obj a s)\<lparr>p_sendq := q\<rparr>) s"
    by (auto simp: push_pipe_def set_obj_def split: if_splits)
  show "held s' = (if e = None then add_mset m (held s) else held s)"
    using held_set_obj [OF q(1), of "(obj a s)\<lparr>p_sendq := q\<rparr>"] doPushMsg_msgs [OF q(2)] q(3)
    by (auto simp: pipe_msgs_def)
  show "s_mem s' = s_mem s" "s_all s' = s_all s" "s_user s' = s_user s" by (simp_all add: q(3))
qed

lemma take_pipeq_held:
  assumes "take_pipeq a s = Some (m, s')" "a < length (s_objs s)"
  shows "held s = add_mset m (held s')" "s_mem s' = s_mem s" "length (s_objs s') = length (s_objs s)"
    "p_spc (obj a s') = p_spc (obj a s)" "p_tpc (obj a s') = p_tpc (obj a s)"
proof -
  from assms(1) obtain q where q: "chan_recv (p_sendq (obj a s)) = Some (m, q)" "s' = set_obj a ((obj a s)\<lparr>p_sendq := q\<rparr>) s"
    by (auto simp: take_pipeq_def)
  have "chan_msgs (p_sendq (obj a s)) = add_mset m (chan_msgs q)"
    using q(1) by (auto simp: chan_msgs_def split: list.splits)
  with held_set_obj [OF assms(2), of "(obj a s)\<lparr>p_sendq := q\<rparr>"] show "held s = add_mset m (held s')"
    by (simp add: q(2) pipe_msgs_def)
  show "s_mem s' = s_mem s" "length (s_objs s') = length (s_objs s)" "p_spc (obj a s') = p_spc (obj a s)"
    "p_tpc (obj a s') = p_tpc (obj a s)" using assms(2) by (simp_all add: q(2))
qed

lemma take_sendq_held:
  assumes "take_sendq k s = Some (m, s')"
  shows "held s = add_mset m (held s')" "s_mem s' = s_mem s" "s_objs s' = s_objs s"
proof -
  from assms obtain i q where q: "i < length (s_sendqs s)" "chan_recv (s_sendqs s ! i) = Some (m, q)"
      "s' = s\<lparr>s_sendqs := (s_sendqs s)[i := q]\<rparr>"
    by (auto simp: take_sendq_def split: option.splits if_splits)
  have "chan_msgs (s_sendqs s ! i) = add_mset m (chan_msgs q)"
    using q(2) by (auto simp: chan_msgs_def split: list.splits)
  with sum_list_update [OF q(1), of chan_msgs q] show "held s = add_mset m (held s')"
    by (simp add: held_def q(3))
  show "s_mem s' = s_mem s" "s_objs s' = s_objs s" by (simp_all add: q(3))
qed

lemma push_recvq_held:
  assumes "push_recvq m s = Some s'"
  shows "held s' = add_mset m (held s)" "s_mem s' = s_mem s" "s_objs s' = s_objs s"
proof -
  from assms have q: "s_recvq s < length (s_recvqs s)" "s' = s\<lparr>s_recvqs := (s_recvqs s)[s_recvq s := chan_send m (cur_recvq s)]\<rparr>"
    by (auto simp: push_recvq_def split: if_splits)
  show "held s' = add_mset m (held s)"
    using sum_list_update [OF q(1), of chan_msgs "chan_send m (cur_recvq s)"]
    by (simp add: held_def q(2) chan_msgs_def chan_send_def)
  show "s_mem s' = s_mem s" "s_objs s' = s_objs s" by (simp_all add: q(2))
qed

text \<open>\<open>doSendMsg\<close> takes a message out of the hands of its caller: it is queued again or released.\<close>

lemma doSendMsg_held:
  assumes "doSendMsg lvl r ch m s = Some (e, s')"
  shows "s_objs s' = s_objs s \<and> (held s' = add_mset m (held s) \<and> s_mem s' = s_mem s \<or>
    held s' = held s \<and> (\<exists>l. s_mem s' = FreeByLevel m l (s_mem s)))"
  using assms
proof (cases rule: doSendMsg_cases)
  case sent
  then show ?thesis by auto
next
  case (resent x)
  with push_sendq_held [OF resent(4)] show ?thesis by simp
next
  case (refused x y t)
  with push_sendq_held [OF refused(4)] show ?thesis by (auto intro: exI [of _ LevelFreeAll])
next
  case (dropped x)
  then show ?thesis by (auto intro: exI [of _ LevelFreeAll])
qed

section \<open>Every step keeps the messages apart\<close>

abbreviation apart :: "nat multiset \<Rightarrow> socket \<Rightarrow> bool" where
  "apart K s \<equiv> safe K (held s) (s_mem s)"

lemma apart_same: "apart K s \<Longrightarrow> held s' \<subseteq># held s \<Longrightarrow> s_mem s' = s_mem s \<Longrightarrow> apart K s'"
  using safe_subset by metis

text \<open>A goroutine that has a message in its hands passes it to \<open>doSendMsg\<close>.\<close>

lemma apart_doSendMsg:
  assumes "apart K s" "doSendMsg lvl r ch m s = Some (e, s1)" "held s2 + {#m#} = held s1" "s_mem s2 = s_mem s1"
  shows "apart K s2"
  using doSendMsg_held [OF assms(2)]
proof (elim conjE disjE exE)
  assume "held s1 = add_mset m (held s)" "s_mem s1 = s_mem s"
  then show ?thesis using assms by simp
next
  fix l
  assume "held s1 = held s" and l: "s_mem s1 = FreeByLevel m l (s_mem s)"
  then have "held s = add_mset m (held s2)" using assms(3) by simp
  then show ?thesis using safe_FreeByLevel [of K m "held s2" "s_mem s" l] assms(1,4) l by simp
qed

lemma apart_FreeAll: "apart K s \<Longrightarrow> held s = add_mset m (held s') \<Longrightarrow> s_mem s' = FreeAll m (s_mem s) \<Longrightarrow> apart K s'"
  using safe_FreeAll by metis

lemma remPipe_held:
  assumes "remPipe pid s = Some (Ok r, s')" "\<And>a. s_pipes s pid = Some a \<Longrightarrow> a < length (s_objs s) \<and> p_tpc (obj a s) = TNone"
  shows "held s' = held s" "s_mem s' = s_mem s"
proof -
  have "held s' = held s \<and> s_mem s' = s_mem s"
  proof (cases "s_pipes s pid")
    case None
    with assms(1) show ?thesis by (auto simp: remPipe_def split: if_splits)
  next
    case (Some a)
    note a = assms(2) [OF Some]
    let ?s1 = "s\<lparr>s_pipes := (s_pipes s)(pid := None)\<rparr>"
    from assms(1) Some have s': "s' = set_obj a ((obj a s)\<lparr>p_stopq := True, p_tpc := TDrain\<rparr>) ?s1"
      by (auto simp: remPipe_def Let_def split: if_splits)
    have "held s' + pipe_msgs (obj a s) = held s + pipe_msgs ((obj a s)\<lparr>p_stopq := True, p_tpc := TDrain\<rparr>)"
      using held_set_obj [of a ?s1 "(obj a s)\<lparr>p_stopq := True, p_tpc := TDrain\<rparr>"] a unfolding s' by simp
    with a s' show ?thesis by (simp add: pipe_msgs_def)
  qed
  then show "held s' = held s" "s_mem s' = s_mem s" by simp_all
qed

lemma apart_sender:
  assumes inv: "sock_inv s" and a: "a < length (s_objs s)" and st: "sender_step ch a s = Some s'" and ap: "apart K s"
  shows "apart K s'"
  using st
proof (cases rule: sender_step_cases)
  case start
  let ?p = "(obj a s)\<lparr>p_spc := SLoop, p_sq := (if p_raw (obj a s) then None else Some (s_sendq s))\<rparr>"
  have "held s' = held s" using held_set_obj [of a "s\<lparr>s_senderWg := s_senderWg s + 1\<rparr>" ?p] a start by (simp add: pipe_msgs_def)
  with start(2) ap show ?thesis by simp
next
  case (idle pc)
  with held_set_spc [OF a, of pc] ap show ?thesis by auto
next
  case ends
  with held_sender_done [OF a] ap show ?thesis by auto
next
  case (common m t pc)
  note q = take_sendq_held [OF common(2)]
  have "held s' = held s" using held_set_spc [of a t pc] q a common(1) by (auto simp: common(3))
  then show ?thesis using ap q by (simp add: common(3))
next
  case (own m t)
  note q = take_pipeq_held [OF own(2) a]
  have "held s' = held s" using held_set_spc [of a t "SSend m"] q a own(1) by (simp add: own(3))
  then show ?thesis using ap q by (simp add: own(3))
next
  case (sent m r c e t)
  have "s_objs t = s_objs s" using doSendMsg_held [OF sent(2)] by simp
  then have "held s' + {#m#} = held t" "s_mem s' = s_mem t"
    using sent(1,3) held_set_spc [of a t SLoop] held_set_spc [of a t SRemain] held_set_spc [of a t SRemPipe] held_sender_done [of a t] a by auto
  then show ?thesis by (rule apart_doSendMsg [OF ap sent(2)])
next
  case (removed r t)
  have h: "held t = held s" "s_mem t = s_mem s" using remPipe_held [OF removed(2)] sock_inv_map [OF inv] by blast+
  have "held s' + spc_msgs (p_spc (obj a t)) = held t" "s_mem s' = s_mem t"
    using removed(3) held_set_spc [of a t] held_sender_done [of a t] a sock_inv_remPipe [OF inv removed(2)] by auto
  then have "held s' \<subseteq># held s" using h(1) by (metis mset_subset_eq_add_left)
  then show ?thesis by (rule apart_same [OF ap]) (use \<open>s_mem s' = s_mem t\<close> h in simp)
qed

lemma rpc_msgs_after [simp]: "rpc_msgs (after_recv e) = {#}"
  by (simp add: after_recv_def split: option.splits)

lemma pipe_RecvMsg_mem:
  "arrival_RecvMsg x pid h = (Ok (Some m, e), h') \<Longrightarrow> fresh_msg m h h'"
  "arrival_RecvMsg x pid h = (Ok (None, e), h') \<Longrightarrow> keeps_mem h h'"
proof -
  have raw: "NewRawRecvMessage pk pid c h = (Error e', h') \<Longrightarrow> keeps_mem h h'" for pk c e'
    unfolding keeps_mem_def using RawRecv_mem by (metis outcome.distinct(1) prod.inject)
  have res: "msg_result r = Ok (Some m, e) \<longleftrightarrow> r = Ok m \<and> e = None" "msg_result r = Ok (None, e) \<longleftrightarrow> (\<exists>e'. r = Error e' \<and> e = Some e')" for r
    by (cases r; auto)+
  show "arrival_RecvMsg x pid h = (Ok (Some m, e), h') \<Longrightarrow> fresh_msg m h h'"
    by (auto simp: arrival_RecvMsg_def res Let_def split: arrival.splits prod.splits outcome.splits option.splits
        intro: FromBytes_fresh FromMsg_fresh FromReader_fresh RawRecv_fresh)
  show "arrival_RecvMsg x pid h = (Ok (None, e), h') \<Longrightarrow> keeps_mem h h'"
    by (auto simp: arrival_RecvMsg_def res Let_def split: arrival.splits prod.splits outcome.splits option.splits
        intro: FromBytes_keeps FromMsg_keeps FromReader_keeps raw) (simp add: keeps_mem_def)
qed

lemma apart_receiver:
  assumes inv: "sock_inv s" and a: "a < length (s_objs s)" and st: "receiver_step ch x a s = Some s'" and ap: "apart K s"
  shows "apart K s'"
  using st
proof (cases rule: receiver_step_cases)
  case start
  then show ?thesis using held_set_rpc [OF a, of RLoop] ap by simp
next
  case (raw pk m h t)
  note p = push_recvq_held [OF raw(3)]
  have "held s' = add_mset m (held s)" using held_set_rpc [of a t RLoop] a p raw(1) by (simp add: raw(4))
  moreover have "s_mem s' = h" using p by (simp add: raw(4))
  ultimately show ?thesis using safe_fresh [OF ap RawRecv_fresh [OF raw(2)]] by simp
next
  case (got m e h)
  have "held s' = add_mset m (held s)" using held_set_rpc [of a "s\<lparr>s_mem := h\<rparr>" "RGot m e"] a got(1) by (simp add: got(3))
  then show ?thesis using safe_fresh [OF ap pipe_RecvMsg_mem(1) [OF got(2)]] by (simp add: got(3))
next
  case (none e h)
  have "held s' = held s" using held_set_rpc [of a "s\<lparr>s_mem := h\<rparr>" "after_recv e"] a none(1) by (simp add: none(3))
  then show ?thesis using safe_keeps [OF ap pipe_RecvMsg_mem(2) [OF none(2)]] by (simp add: none(3))
next
  case (freed m e pc)
  have "held s = add_mset m (held s')"
    using held_set_rpc [of a "s\<lparr>s_mem := FreeAll m (s_mem s)\<rparr>" pc] a freed by auto
  then show ?thesis by (rule apart_FreeAll [OF ap]) (simp add: freed(3))
next
  case (pushed m e t)
  note p = push_recvq_held [OF pushed(2)]
  have "held s' = held s" using held_set_rpc [of a t "after_recv e"] a p pushed(1) by (simp add: pushed(3))
  then show ?thesis using ap p by (simp add: pushed(3))
next
  case (removed r t)
  have h: "held t = held s" "s_mem t = s_mem s" using remPipe_held [OF removed(2)] sock_inv_map [OF inv] by blast+
  have "held s' + rpc_msgs (p_rpc (obj a t)) = held t"
    using held_set_rpc [of a t RDone] a sock_inv_remPipe [OF inv removed(2)] by (simp add: removed(3))
  then have "held s' \<subseteq># held s" using h(1) by (metis mset_subset_eq_add_left)
  then show ?thesis by (rule apart_same [OF ap]) (simp add: removed(3) h)
qed

lemma apart_stopper:
  assumes a: "a < length (s_objs s)" and st: "stopPipe_step ch a s = Some s'" and ap: "apart K s"
  shows "apart K s'"
proof (cases "p_tpc (obj a s)")
  case TDrain
  then have "s' = set_tpc a TDrop s \<or> s' = set_tpc a TDone s \<or>
      (\<exists>m t. take_pipeq a s = Some (m, t) \<and> s' = set_tpc a (TSend m) t)"
    using st by (auto simp: stopPipe_step_def split: choice.splits if_splits)
  then show ?thesis
  proof (elim disjE conjE exE)
    fix m t assume t: "take_pipeq a s = Some (m, t)" "s' = set_tpc a (TSend m) t"
    note q = take_pipeq_held [OF t(1) a]
    have "held s' = held s" using held_set_tpc [of a t "TSend m"] q a TDrain by (simp add: t(2))
    then show ?thesis using ap q by (simp add: t(2))
  qed (use ap held_set_tpc [OF a, of TDrop] held_set_tpc [OF a, of TDone] TDrain in auto)
next
  case (TSend m)
  then obtain r c e t where d: "doSendMsg (p_freeLevel (obj a s)) r c m s = Some (e, t)"
      "s' = set_tpc a TDrain t \<or> s' = set_tpc a TDrop t"
    using st by (auto simp: stopPipe_step_def split: choice.splits option.splits)
  have o: "s_objs t = s_objs s" using doSendMsg_held [OF d(1)] by simp
  have "held s' + {#m#} = held t" "s_mem s' = s_mem t"
    using d(2) held_set_tpc [of a t TDrain] held_set_tpc [of a t TDrop] a o TSend by auto
  then show ?thesis by (rule apart_doSendMsg [OF ap d(1)])
next
  case TDrop
  then have "s' = set_tpc a TDone s \<or> (\<exists>m t. take_pipeq a s = Some (m, t) \<and> s' = t\<lparr>s_mem := FreeAll m (s_mem t)\<rparr>)"
    using st by (auto simp: stopPipe_step_def split: choice.splits if_splits)
  then show ?thesis
  proof (elim disjE conjE exE)
    fix m t assume t: "take_pipeq a s = Some (m, t)" "s' = t\<lparr>s_mem := FreeAll m (s_mem t)\<rparr>"
    show ?thesis by (rule apart_FreeAll [OF ap, of m]) (use take_pipeq_held [OF t(1) a] in \<open>simp_all add: t(2)\<close>)
  qed (use ap held_set_tpc [OF a, of TDone] TDrop in auto)
qed (use st in \<open>simp_all add: stopPipe_step_def\<close>)

section \<open>The application and the rest\<close>

lemma apart_push_fresh:
  assumes "apart K s" "fresh_msg m (s_mem s) h" "held t \<subseteq># add_mset m (held s)" "s_mem t = h"
  shows "apart K t"
  using safe_subset [OF safe_fresh [OF assms(1,2)] assms(3)] assms(4) by simp

lemma sendTo_held:
  assumes "sendTo ch m s = Some (e, t)"
  shows "held t \<subseteq># add_mset m (held s)" "s_mem t = s_mem s" "e \<noteq> None \<Longrightarrow> held t = held s" "s_user t = s_user s"
proof -
  have "held t \<subseteq># add_mset m (held s) \<and> s_mem t = s_mem s \<and> (e \<noteq> None \<longrightarrow> held t = held s) \<and> s_user t = s_user s"
  proof (cases "t = s")
    case False
    with assms obtain a where p: "push_pipe ch m a s = Some (e, t)"
      by (auto simp: sendTo_def split: if_splits outcome.splits option.splits)
    show ?thesis using push_pipe_held [OF p] by auto
  qed (use assms in auto)
  then show "held t \<subseteq># add_mset m (held s)" "s_mem t = s_mem s" "e \<noteq> None \<Longrightarrow> held t = held s" "s_user t = s_user s"
    by simp_all
qed

lemma all_begin_held:
  "sendToAll_begin as m s = Some t \<Longrightarrow> held t = add_mset m (held s) \<and> s_mem t = s_mem s \<and> s_user t = s_user s"
  by (auto simp: sendToAll_begin_def held_def split: if_splits)

lemma apart_Send:
  assumes "apart K s" "length c < 2 ^ 32" "socket_Send pk ch c s = Some (r, s')"
  shows "apart K s'"
proof (cases "s_noSend s")
  case False
  with assms(3) obtain m h where m: "NewSendMessage pk 0 SendTypeToOne (s_ttl s) [] [] c (s_mem s) = (Ok m, h)"
      "push_sendq ch m (s\<lparr>s_mem := h\<rparr>) = Some (r, s')"
    by (auto simp: socket_Send_def split: prod.splits outcome.splits)
  have "fresh_msg m (s_mem s) h" by (rule NewSend_fresh [OF _ assms(2) m(1)]) (simp add: path_ok_def)
  then show ?thesis by (rule apart_push_fresh [OF assms(1)]) (use push_sendq_held [OF m(2)] in auto)
qed (use assms in \<open>simp add: socket_Send_def\<close>)

lemma apart_SendTo:
  assumes "apart K s" "path_ok dest" "length c < 2 ^ 32" "socket_SendTo pk ch dest c s = Some (r, s')"
  shows "apart K s'"
proof (cases "s_noSend s")
  case False
  with assms(4) obtain m h where m: "NewSendMessage pk 0 SendTypeToDest (s_ttl s) [] dest c (s_mem s) = (Ok m, h)"
      "sendTo ch m (s\<lparr>s_mem := h\<rparr>) = Some (r, s')"
    by (auto simp: socket_SendTo_def split: prod.splits outcome.splits)
  have "fresh_msg m (s_mem s) h" by (rule NewSend_fresh [OF assms(2,3) m(1)])
  then show ?thesis by (rule apart_push_fresh [OF assms(1)]) (use sendTo_held [OF m(2)] in auto)
qed (use assms in \<open>simp add: socket_SendTo_def\<close>)

lemma apart_SendAll:
  assumes "apart K s" "length c < 2 ^ 32" "socket_SendAll pk as c s = Some (r, s')"
  shows "apart K s'"
proof (cases "s_noSend s")
  case False
  with assms(3) obtain m h where m: "NewSendMessage pk 0 SendTypeToAll (s_ttl s) [] [] c (s_mem s) = (Ok m, h)"
      "sendToAll_begin as m (s\<lparr>s_mem := h\<rparr>) = Some s'"
    by (auto simp: socket_SendAll_def split: prod.splits outcome.splits)
  have "fresh_msg m (s_mem s) h" by (rule NewSend_fresh [OF _ assms(2) m(1)]) (simp add: path_ok_def)
  then show ?thesis by (rule apart_push_fresh [OF assms(1)]) (use all_begin_held [OF m(2)] in auto)
qed (use assms in \<open>simp add: socket_SendAll_def\<close>)

lemma mset_take_drop: "k < length xs \<Longrightarrow> mset xs = add_mset (xs ! k) (mset (take k xs @ drop (Suc k) xs))"
  by (metis id_take_nth_drop mset.simps(2) mset_append union_mset_add_mset_right)

lemma apart_wf: "apart K s \<Longrightarrow> m \<in># held s \<Longrightarrow> wf_msg m"
  by (auto simp: safe_def)

lemma apart_all_step:
  assumes ap: "apart K s" and k: "k < length (s_all s)" and st: "sendToAll_step pk ch k s = Some s'"
  shows "apart K s'"
proof -
  obtain m as where ms: "s_all s ! k = (m, as)" by (cases "s_all s ! k")
  show ?thesis
  proof (cases as)
    case Nil
    let ?r = "take k (s_all s) @ drop (Suc k) (s_all s)"
    have s': "s' = s\<lparr>s_all := ?r, s_mem := FreeAll m (s_mem s)\<rparr>" using st ms Nil by (simp add: sendToAll_step_def)
    have "held s = add_mset m (held s')"
      using arg_cong [OF mset_take_drop [OF k], of "image_mset fst"] ms by (simp add: s' held_def)
    then show ?thesis by (rule apart_FreeAll [OF ap]) (simp add: s')
  next
    case (Cons a bs)
    with st ms obtain d h e t where d: "Dup pk m (s_mem s) = (Ok d, h)" "push_pipe ch d a (s\<lparr>s_mem := h\<rparr>) = Some (e, t)"
        "s' = t\<lparr>s_all := (s_all t)[k := (m, bs)]\<rparr>"
      by (auto simp: sendToAll_step_def split: prod.splits outcome.splits)
    note p = push_pipe_held [OF d(2)]
    have "m \<in># held s" using nth_mem [OF k] ms by (force simp: held_def)
    then have f: "fresh_msg d (s_mem s) h" using Dup_fresh [OF apart_wf [OF ap] d(1)] by simp
    have "map fst ((s_all t)[k := (m, bs)]) = map fst (s_all t)"
      using k ms p(3) by (auto simp: map_update list_update_same_conv)
    then have "held s' = held t" by (simp only: d(3) held_def) (simp add: held_def)
    then show ?thesis by (intro apart_push_fresh [OF ap f]) (use p in \<open>auto simp: d(3)\<close>)
  qed
qed

text \<open>\<open>SendMsg\<close> takes the message exactly when it returns no error.\<close>

lemma SendMsg_good:
  assumes g: "safe K (add_mset m (held s)) (s_mem s)" and st: "socket_SendMsg ch as m s = Some (r, s')"
  shows "(r = None \<longrightarrow> apart K s') \<and> (r \<noteq> None \<longrightarrow> safe K (add_mset m (held s')) (s_mem s')) \<and> s_user s' = s_user s"
proof -
  have "r = None \<and> s' = s\<lparr>s_mem := FreeAll m (s_mem s)\<rparr> \<or> sendTo ch m s = Some (r, s') \<or> push_sendq ch m s = Some (r, s') \<or>
      r = None \<and> sendToAll_begin as m s = Some s' \<or> r = Some ErrInvalidSendType \<and> s' = s"
    using st unfolding socket_SendMsg_def by (auto split: if_splits)
  then consider (freed) "r = None" "s' = s\<lparr>s_mem := FreeAll m (s_mem s)\<rparr>"
    | (dest) "sendTo ch m s = Some (r, s')" | (one) "push_sendq ch m s = Some (r, s')"
    | (all) "r = None" "sendToAll_begin as m s = Some s'" | (bad) "r = Some ErrInvalidSendType" "s' = s"
    by blast
  then show ?thesis
  proof cases
    case freed
    then show ?thesis using safe_FreeAll [OF g] by simp
  next
    case dest
    note d = sendTo_held [OF dest]
    have "apart K s'" unfolding d(2) by (rule safe_subset [OF g d(1)])
    then show ?thesis using d g by auto
  next
    case one
    then show ?thesis using push_sendq_held [OF one] g by auto
  next
    case all
    then show ?thesis using all_begin_held [OF all(2)] g by auto
  next
    case bad
    then show ?thesis using g by simp
  qed
qed

lemma held_user: "held (s\<lparr>s_user := us\<rparr>) + mset (s_user s) = held s + mset us"
  by (simp add: held_def ac_simps)

lemma held_take_user:
  assumes "k < length (s_user s)"
  shows "held s = add_mset (s_user s ! k) (held (s\<lparr>s_user := take k (s_user s) @ drop (Suc k) (s_user s)\<rparr>))"
  using mset_take_drop [OF assms] by (simp add: held_def)

lemma apart_forward:
  assumes ap: "apart K s" and k: "k < length (s_user s)" and st: "app_forward ch as k s = Some (r, s')"
  shows "apart K s'"
proof -
  let ?s = "s\<lparr>s_user := take k (s_user s) @ drop (Suc k) (s_user s)\<rparr>"
  have g: "safe K (add_mset (s_user s ! k) (held ?s)) (s_mem ?s)" using ap held_take_user [OF k] by simp
  from st show ?thesis
  proof (cases rule: app_forward_cases)
    case taken
    with SendMsg_good [OF g taken(2)] show ?thesis by simp
  next
    case (kept e t)
    have "held s' = add_mset (s_user s ! k) (held t)" using held_user [where s = t and us = "s_user t @ [s_user s ! k]"] by (simp add: kept(2))
    with SendMsg_good [OF g kept(3)] kept(1,2) show ?thesis by simp
  qed
qed

lemma apart_release: "apart K s \<Longrightarrow> k < length (s_user s) \<Longrightarrow> apart K (app_release k s)"
  by (rule apart_FreeAll [of K s "s_user s ! k"]) (auto simp: app_release_def held_take_user held_def mset_take_drop)

lemma apart_RecvMsg:
  assumes "apart K s" "socket_RecvMsg ch s = Some (r, s')"
  shows "apart K s'"
proof (cases "s' = s")
  case False
  with assms(2) obtain m q where q: "s_recvq s < length (s_recvqs s)" "chan_recv (cur_recvq s) = Some (m, q)"
      "s' = s\<lparr>s_recvqs := (s_recvqs s)[s_recvq s := q], s_user := s_user s @ [m]\<rparr>"
    by (auto simp: socket_RecvMsg_def Let_def split: choice.splits if_splits option.splits)
  have "chan_msgs (cur_recvq s) = add_mset m (chan_msgs q)" using chan_recv_Some(1) [OF q(2)] by (simp add: chan_msgs_def)
  then have "held s' = held s" using sum_list_update [OF q(1), of chan_msgs q] by (simp add: held_def q(3))
  then show ?thesis using assms(1) by (simp add: q(3))
qed (use assms in simp)

lemma same_held_onOptionChange: "held (snd (onOptionChange o1 H s)) = held s \<and> s_mem (snd (onOptionChange o1 H s)) = s_mem s"
  by (auto simp: onOptionChange_def upd_def held_def chan_msgs_def make_chan_def split: outcome.splits)

lemma apart_SetOption:
  assumes "apart K s" "socket_SetOption o1 v s = Some (r, s')"
  shows "apart K s'"
proof -
  from assms(2) obtain H t where t: "SetOption socket_hooks (Suc (s_opts s)) (s_heap s) (s_opts s) o1 v s = Some (r, H, t)"
      "s' = t\<lparr>s_heap := H\<rparr>"
    by (auto simp: socket_SetOption_def split: option.splits)
  have "held t = held s \<and> s_mem t = s_mem s"
    by (rule SetOption_rel [where P = "\<lambda>s t. held t = held s \<and> s_mem t = s_mem s", OF _ _ _ t(1)])
      (auto simp: same_held_onOptionChange)
  with assms(1) t(2) show ?thesis by simp
qed

lemma apart_event:
  assumes inv: "sock_inv s" and ap: "apart K s" and st: "HandlePipeEvent e pid s = Some s'"
  shows "apart K s'"
proof (cases e)
  case (PipeEventAdd raw lvl)
  with st obtain n where s': "s' = s\<lparr>s_objs := s_objs s @ [newPipe pid raw lvl n], s_pipes := (s_pipes s)(pid \<mapsto> length (s_objs s))\<rparr>"
    by (auto simp: HandlePipeEvent_def addPipe_def split: if_splits outcome.splits)
  have "held s' = held s" by (simp add: s' held_def pipe_msgs_def newPipe_def chan_msgs_def make_chan_def)
  then show ?thesis using ap by (simp add: s')
next
  case PipeEventRemove
  with st obtain r where r: "remPipe pid s = Some (Ok r, s')"
    by (auto simp: HandlePipeEvent_def split: option.splits outcome.splits)
  have "held s' = held s" "s_mem s' = s_mem s" using remPipe_held [OF r] sock_inv_map [OF inv] by blast+
  then show ?thesis using ap by simp
qed

lemma apart_close:
  assumes "apart K s" "close_step ch s = Some s'"
  shows "apart K s'"
proof -
  have "apart K (t\<lparr>s_mem := FreeAll m (s_mem t)\<rparr>)" if "take_sendq (Some (s_sendq s)) s = Some (m, t)" for m t
    by (rule apart_FreeAll [OF assms(1), of m]) (use take_sendq_held [OF that] in simp_all)
  with assms show ?thesis
    by (auto simp: close_step_def split: cpc.splits choice.splits if_splits option.splits)
qed

lemma apart_step: "step s s' \<Longrightarrow> sock_inv s \<Longrightarrow> apart K s \<Longrightarrow> apart K s'"
proof (induction rule: step.induct)
  case (step_Close s r s')
  then show ?case by (auto simp: socket_Close_def split: if_splits)
qed (blast intro: apart_event apart_sender apart_receiver apart_stopper apart_RecvMsg apart_Send apart_SendTo
    apart_SendAll apart_all_step apart_forward apart_release apart_SetOption apart_close)+

lemma reachable_apart: "reachable s0 s \<Longrightarrow> sock_inv s0 \<Longrightarrow> apart K s0 \<Longrightarrow> apart K s"
  by (induction rule: reachable.induct) (auto intro: apart_step reachable_inv)

section \<open>Properties\<close>

lemma init_values_held: "held (snd (init_values os H s)) = held s \<and> s_mem (snd (init_values os H s)) = s_mem s"
proof (induction os arbitrary: s)
  case (Cons o1 os)
  obtain r s1 where o: "onOptionChange o1 H s = (r, s1)" by (cases "onOptionChange o1 H s")
  have "held s1 = held s" "s_mem s1 = s_mem s" using same_held_onOptionChange [of o1 H s] by (simp_all add: o)
  with Cons [of s1] o show ?case by (cases r) auto
qed simp

lemma New_held:
  assumes "socket_New ovs H h = (r, s)"
  shows "held s = {#}" "s_mem s = h"
proof -
  obtain a H1 where a: "NewOptionsWithValues ovs H = (a, H1)" by (cases "NewOptionsWithValues ovs H")
  let ?H2 = "AddOptionChangeHook a hook_connector H1"
  let ?os = "[Opt_NoRecv, Opt_RecvQueueSize, Opt_NoSend, Opt_SendQueueSize, Opt_SendTTL, Opt_SendBestEffort]"
  obtain r1 s1 where s1: "init_values ?os ?H2 (blank_socket a ?H2 h) = (r1, s1)"
    by (cases "init_values ?os ?H2 (blank_socket a ?H2 h)")
  have "s = s1\<lparr>s_heap := AddOptionChangeHook a hook_socket ?H2, s_handler := True\<rparr>"
    using assms unfolding socket_New_def a Let_def prod.case s1 by simp
  moreover have "held s1 = held (blank_socket a ?H2 h)" "s_mem s1 = s_mem (blank_socket a ?H2 h)"
    using init_values_held [of ?os ?H2 "blank_socket a ?H2 h"] by (simp_all only: s1 snd_conv)
  ultimately show "held s = {#}" "s_mem s = h" by (simp_all add: held_def blank_socket_def)
qed

text \<open>
  C8: in every reachable state of a socket, the messages in its queues, in the hands of its
  goroutines and in the hands of the application are well formed and have pairwise different
  buffers, and none of these buffers is in the pool: no interleaving frees a buffer twice, or
  reuses one that somebody still holds.
\<close>

theorem socket_messages_apart:
  assumes "mem_inv live0 h" and "socket_New ovs H h = (r, s0)" and "reachable s0 s"
  shows "\<exists>live. mem_inv live (s_mem s) \<and> (\<forall>m \<in># held s. wf_msg m \<and> (\<exists>x \<in> live. msg_arr m = Some x)) \<and>
    (\<forall>x. count (image_mset msg_arr (held s)) x \<le> 1)"
proof -
  have "apart {#} s0" using New_held [OF assms(2)] assms(1) by (auto simp: safe_def owns_def)
  from reachable_apart [OF assms(3) sock_inv_New [OF assms(2)] this] show ?thesis by (simp add: good_safe [symmetric] good_def)
qed

text \<open>
  ownership of a forwarded message: \<open>SendMsg\<close> has taken it (queued, duplicated or released it)
  exactly when it returns no error; when it returns an error the message is still the caller's,
  intact, and no queue has it.
\<close>

theorem SendMsg_takes_iff_no_error:
  assumes "good (add_mset m (held s)) (s_mem s)" and "socket_SendMsg ch as m s = Some (r, s')"
  shows "(r = None \<longrightarrow> good (held s') (s_mem s')) \<and> (r \<noteq> None \<longrightarrow> good (add_mset m (held s')) (s_mem s'))"
  using SendMsg_good [of "{#}", OF assms(1) [unfolded good_safe] assms(2)] by (simp add: good_safe)

end
