(* ===== verification/Socket_Properties.thy ===== *)
theory Socket_Properties
  imports Socket_Memory
begin

text \<open>
  What the operations of a socket do: blocking, delivery, routing, closing; the option that
  has no effect; and concrete runs of a default socket.
\<close>

section \<open>A default socket\<close>

definition default_heap :: oheap where
  "default_heap = [empty_options\<lparr>optionChangeHooks := [hook_connector, hook_socket]\<rparr>]"

definition default_socket :: "mem \<Rightarrow> socket" where
  "default_socket h = (blank_socket 0 default_heap h)\<lparr>s_handler := True, s_recvqs := [make_chan 64],
     s_sendqs := [make_chan 64], s_ttl := 16\<rparr>"

definition one_pipe_socket :: "mem \<Rightarrow> socket" where
  "one_pipe_socket h = (default_socket h)\<lparr>s_objs := [newPipe 7 False LevelFreeAll 64], s_pipes := [7 \<mapsto> 0]\<rparr>"

lemmas read_option_defs = opt_bool_def opt_uint16_def opt_uint8_def recvQueueSize_def sendQueueSize_def
  GetOptionDefault_def acceptOption_def empty_options_def program_options_defs option_constructors

lemma New_default: "socket_New [] [] h = (Ok (), default_socket h)"
  by (simp add: socket_New_def NewOptionsWithValues_def Let_def AddOptionChangeHook_def onOptionChange_def
      upd_def blank_socket_def hook_socket_def hook_connector_def default_socket_def default_heap_def read_option_defs)

lemma default_event:
  "HandlePipeEvent (PipeEventAdd False LevelFreeAll) 7 (default_socket h) = Some (one_pipe_socket h)"
  by (simp add: HandlePipeEvent_def addPipe_def one_pipe_socket_def default_socket_def blank_socket_def
      default_heap_def read_option_defs)

lemma one_pipe_reachable: "reachable (default_socket h) (one_pipe_socket h)"
  by (rule reach_step [OF reach_refl step_event [OF _ default_event]]) (simp add: default_socket_def)

theorem socket_routing_invariant_witness:
  "reachable (default_socket init_mem) (one_pipe_socket init_mem) \<and> s_pipes (one_pipe_socket init_mem) 7 = Some 0 \<and>
   remPipe 7 (one_pipe_socket init_mem) \<noteq> None \<and> fst (the (remPipe 7 (one_pipe_socket init_mem))) \<noteq> Panic"
proof -
  let ?s = "one_pipe_socket init_mem"
  have p: "s_pipes ?s 7 = Some 0" "remPipe 7 ?s \<noteq> None"
    by (simp_all add: one_pipe_socket_def remPipe_def Let_def default_socket_def blank_socket_def)
  have "fst (the (remPipe 7 ?s)) \<noteq> Panic"
    using socket_routing_invariant [OF New_default one_pipe_reachable] p(2) by blast
  with p one_pipe_reachable show ?thesis by blast
qed

section \<open>Blocking\<close>

lemma doPushMsg_blocked_iff:
  "(\<forall>ch. doPushMsg ch best closed m q = None) \<longleftrightarrow> \<not> closed \<and> \<not> can_send q \<and> \<not> best"
proof
  assume a: "\<forall>ch. doPushMsg ch best closed m q = None"
  then have "doPushMsg ChClosed best closed m q = None" "doPushMsg ChSendq best closed m q = None"
    "doPushMsg ChDefault best closed m q = None" by blast+
  then show "\<not> closed \<and> \<not> can_send q \<and> \<not> best" by (auto split: if_splits)
next
  assume b: "\<not> closed \<and> \<not> can_send q \<and> \<not> best"
  show "\<forall>ch. doPushMsg ch best closed m q = None"
  proof
    fix ch show "doPushMsg ch best closed m q = None" using b by (cases ch) simp_all
  qed
qed

lemma doPushMsg_result:
  "doPushMsg ch best closed m q = Some (e, q') \<Longrightarrow>
     e = None \<and> can_send q \<and> q' = chan_send m q \<or> e = Some ErrClosed \<and> closed \<and> q' = q \<or>
     e = Some ErrMsgDropped \<and> best \<and> \<not> closed \<and> \<not> can_send q \<and> q' = q"
  by (cases ch) (auto split: if_splits)

text \<open>
  pushing a message to a queue waits exactly when the socket is open, the queue full and
  best effort off; when it returns, the message is at the end of the queue, or the socket is
  closed, or (best effort only) the queue was full and the message is dropped.
\<close>

theorem push_blocks_iff:
  "((\<forall>ch. doPushMsg ch best closed m q = None) \<longleftrightarrow> \<not> closed \<and> \<not> can_send q \<and> \<not> best) \<and>
   (\<forall>ch e q'. doPushMsg ch best closed m q = Some (e, q') \<longrightarrow>
      e = None \<and> can_send q \<and> q' = chan_send m q \<or> e = Some ErrClosed \<and> closed \<and> q' = q \<or>
      e = Some ErrMsgDropped \<and> best \<and> \<not> closed \<and> \<not> can_send q \<and> q' = q)"
  using doPushMsg_blocked_iff doPushMsg_result by blast

theorem push_blocks_iff_witness:
  "doPushMsg ChDefault True False newMessage (make_chan 0) = Some (Some ErrMsgDropped, make_chan 0) \<and>
   \<not> can_send (make_chan 0 :: message chan)"
proof -
  have "doPushMsg ChDefault True False newMessage (make_chan 0) = Some (Some ErrMsgDropped, make_chan 0)"
    by (simp add: chan_simps)
  with push_blocks_iff [of True False newMessage "make_chan 0"] show ?thesis by (auto simp: chan_simps)
qed

section \<open>Receiving\<close>

text \<open>Calling \<open>RecvMsg\<close> over and over on a closed socket.\<close>

fun recv_closed :: "nat \<Rightarrow> socket \<Rightarrow> message outcome list" where
  "recv_closed 0 s = []"
| "recv_closed (Suc n) s =
     (case socket_RecvMsg ChClosed s of Some (r, s') \<Rightarrow> r # recv_closed n s' | None \<Rightarrow> [])"

lemma RecvMsg_closed:
  assumes "s_closedq s" "s_recvq s < length (s_recvqs s)"
  shows "chan_buf (cur_recvq s) = [] \<Longrightarrow> socket_RecvMsg ChClosed s = Some (Error ErrClosed, s)"
    and "chan_buf (cur_recvq s) = m # ms \<Longrightarrow> socket_RecvMsg ChClosed s =
      Some (Ok m, s\<lparr>s_recvqs := (s_recvqs s)[s_recvq s := (cur_recvq s)\<lparr>chan_buf := ms\<rparr>], s_user := s_user s @ [m]\<rparr>)"
  using assms by (simp_all add: socket_RecvMsg_def Let_def)

lemma recv_closed_drain:
  "s_closedq s \<Longrightarrow> s_recvq s < length (s_recvqs s) \<Longrightarrow> chan_buf (cur_recvq s) = ms \<Longrightarrow>
     recv_closed (length ms + k) s = map Ok ms @ replicate k (Error ErrClosed)"
proof (induction ms arbitrary: s)
  case Nil
  then show ?case by (induction k) (simp_all add: RecvMsg_closed(1) [OF Nil.prems(1,2)])
next
  case (Cons m ms)
  from RecvMsg_closed(2) [OF Cons.prems(1,2,3)] Cons.IH Cons.prems show ?case by simp
qed

text \<open>
  after \<open>Close\<close> the messages already received are not lost: \<open>RecvMsg\<close> returns them one by one,
  in the order in which the receivers queued them, and from then on \<open>ErrClosed\<close>.
\<close>

theorem recv_drains_after_close:
  assumes "s_closedq s" and "s_recvq s < length (s_recvqs s)"
  shows "recv_closed (length (chan_buf (cur_recvq s)) + k) s = map Ok (chan_buf (cur_recvq s)) @ replicate k (Error ErrClosed)"
  using recv_closed_drain [OF assms refl] .

theorem recv_drains_after_close_witness:
  "recv_closed 2 ((default_socket init_mem)\<lparr>s_closedq := True, s_recvqs := [\<lparr>chan_cap = 64, chan_buf = [newMessage]\<rparr>]\<rparr>) =
     [Ok newMessage, Error ErrClosed]"
  using recv_drains_after_close [of "(default_socket init_mem)\<lparr>s_closedq := True, s_recvqs := [\<lparr>chan_cap = 64, chan_buf = [newMessage]\<rparr>]\<rparr>" 1]
  by (simp add: default_socket_def blank_socket_def numeral_2_eq_2 del: recv_closed.simps)

section \<open>What no step touches\<close>

text \<open>\<open>same_senders\<close>: the program counters of the senders, their count and \<open>noSend\<close> are unchanged.\<close>

definition same_senders :: "socket \<Rightarrow> socket \<Rightarrow> bool" where
  "same_senders s t \<longleftrightarrow>
     s_noSend t = s_noSend s \<and> map p_spc (s_objs t) = map p_spc (s_objs s) \<and> s_senderWg t = s_senderWg s"

lemma same_senders_refl [simp]: "same_senders s s"
  by (simp add: same_senders_def)

lemma same_senders_trans: "same_senders s t \<Longrightarrow> same_senders t u \<Longrightarrow> same_senders s u"
  by (simp add: same_senders_def)

lemma same_senders_flags [simp]:
  "same_senders s (t\<lparr>s_mem := h\<rparr>) = same_senders s t" "same_senders s (t\<lparr>s_user := us\<rparr>) = same_senders s t"
  "same_senders s (t\<lparr>s_all := xs\<rparr>) = same_senders s t" "same_senders s (t\<lparr>s_heap := H\<rparr>) = same_senders s t"
  "same_senders s (t\<lparr>s_sendqs := qs\<rparr>) = same_senders s t" "same_senders s (t\<lparr>s_recvqs := qs\<rparr>) = same_senders s t"
  "same_senders s (t\<lparr>s_pipes := ps\<rparr>) = same_senders s t" "same_senders s (t\<lparr>s_closer := c\<rparr>) = same_senders s t"
  "same_senders s (t\<lparr>s_closedq := b\<rparr>) = same_senders s t" "same_senders s (t\<lparr>s_handler := b\<rparr>) = same_senders s t"
  "same_senders s (t\<lparr>s_senderStoppedq := b\<rparr>) = same_senders s t"
  by (simp_all add: same_senders_def)

lemma same_senders_obj: "p_spc p = p_spc (obj a s) \<Longrightarrow> same_senders s (set_obj a p s)"
  by (cases "a < length (s_objs s)") (auto simp: same_senders_def set_obj_def map_update list_update_same_conv list_update_beyond)

lemma same_senders_pieces:
  "push_sendq ch m s = Some (e, t) \<Longrightarrow> same_senders s t"
  "push_pipe ch m a s = Some (e, t) \<Longrightarrow> same_senders s t"
  "take_pipeq a s = Some (m, t) \<Longrightarrow> same_senders s t"
  "take_sendq k s = Some (m, t) \<Longrightarrow> same_senders s t"
  "push_recvq m s = Some t \<Longrightarrow> same_senders s t"
  "same_senders s (set_rpc a rc s)" "same_senders s (set_tpc a tc s)"
proof -
  show "push_pipe ch m a s = Some (e, t) \<Longrightarrow> same_senders s t"
    by (auto simp: push_pipe_def set_obj_def [symmetric] split: if_splits intro!: same_senders_obj)
  show "take_pipeq a s = Some (m, t) \<Longrightarrow> same_senders s t"
    by (auto simp: take_pipeq_def intro!: same_senders_obj)
  show "same_senders s (set_rpc a rc s)" "same_senders s (set_tpc a tc s)"
    by (auto simp: set_rpc_def set_tpc_def intro!: same_senders_obj)
qed (auto simp: push_sendq_def take_sendq_def push_recvq_def split: if_splits option.splits)

lemma same_senders_doSendMsg:
  assumes "doSendMsg lvl r ch m s = Some (e, t)"
  shows "same_senders s t"
  using assms by (cases rule: doSendMsg_cases) (auto dest: same_senders_pieces(1))

lemma same_senders_remPipe: "remPipe pid s = Some (r, t) \<Longrightarrow> same_senders s t"
proof -
  assume r: "remPipe pid s = Some (r, t)"
  let ?s1 = "s\<lparr>s_pipes := (s_pipes s)(pid := None)\<rparr>"
  have "same_senders ?s1 (set_obj a ((obj a ?s1)\<lparr>p_stopq := True, p_tpc := TDrain\<rparr>) ?s1)" for a
    by (rule same_senders_obj) simp
  then have "same_senders s (set_obj a ((obj a ?s1)\<lparr>p_stopq := True, p_tpc := TDrain\<rparr>) ?s1)" for a
    by (simp add: same_senders_def)
  with r show ?thesis by (auto simp: remPipe_def Let_def split: if_splits option.splits)
qed

lemma same_senders_sends:
  "sendTo ch m s = Some (e, t) \<Longrightarrow> same_senders s t"
  "sendToAll_begin as m s = Some t \<Longrightarrow> same_senders s t"
  "socket_SendMsg ch as m s = Some (e, t) \<Longrightarrow> same_senders s t"
proof -
  show st: "sendTo ch m s = Some (e, t) \<Longrightarrow> same_senders s t" for e t
    by (auto simp: sendTo_def split: if_splits outcome.splits option.splits dest: same_senders_pieces(2))
  show sa: "sendToAll_begin as m s = Some t \<Longrightarrow> same_senders s t" for t
    by (auto simp: sendToAll_begin_def split: if_splits)
  show "socket_SendMsg ch as m s = Some (e, t) \<Longrightarrow> same_senders s t"
    using st [of e t] sa [of t] same_senders_pieces(1) [of ch m s e t] unfolding socket_SendMsg_def
    by (auto split: if_splits)
qed

lemma same_senders_onOptionChange: "same_senders s (snd (onOptionChange o1 H s))"
  by (auto simp: onOptionChange_def upd_def same_senders_def split: outcome.splits)

text \<open>The steps of everything but a sender, and the event that adds a pipe.\<close>

lemma same_senders_receiver: "receiver_step ch x a s = Some t \<Longrightarrow> same_senders s t"
proof (cases "p_rpc (obj a s)")
  case RStart
  assume "receiver_step ch x a s = Some t"
  then consider "t = set_rpc a RLoop s" | m h u where "push_recvq m (s\<lparr>s_mem := h\<rparr>) = Some u" "t = set_rpc a RLoop u"
    using RStart by (fastforce simp: receiver_step_def split: if_splits outcome.splits prod.splits)
  then show ?thesis
  proof cases
    case (2 m h u)
    have "same_senders s u" using same_senders_pieces(5) [OF 2(1)] by (simp add: same_senders_def)
    then show ?thesis unfolding 2(2) by (rule same_senders_trans [OF _ same_senders_pieces(6)])
  qed (simp add: same_senders_pieces)
next
  case RLoop
  assume "receiver_step ch x a s = Some t"
  then obtain pc h where t: "t = set_rpc a pc (s\<lparr>s_mem := h\<rparr>)"
    using RLoop by (auto simp: receiver_step_def recv_return_def split: prod.splits outcome.splits option.splits)
  show ?thesis unfolding t by (rule same_senders_trans [OF _ same_senders_pieces(6)]) simp
next
  case (RGot m e)
  assume "receiver_step ch x a s = Some t"
  then have "(\<exists>pc h. t = set_rpc a pc (s\<lparr>s_mem := h\<rparr>)) \<or> (\<exists>u pc. push_recvq m s = Some u \<and> t = set_rpc a pc u)"
    using RGot by (auto simp: receiver_step_def split: if_splits choice.splits)
  then show ?thesis
  proof (elim disjE exE conjE)
    fix pc h assume t: "t = set_rpc a pc (s\<lparr>s_mem := h\<rparr>)"
    show ?thesis unfolding t by (rule same_senders_trans [OF _ same_senders_pieces(6)]) simp
  next
    fix u pc assume t: "push_recvq m s = Some u" "t = set_rpc a pc u"
    show ?thesis unfolding t(2) by (rule same_senders_trans [OF same_senders_pieces(5) [OF t(1)] same_senders_pieces(6)])
  qed
next
  case RRemPipe
  assume "receiver_step ch x a s = Some t"
  then obtain r u where u: "remPipe (p_id (obj a s)) s = Some (r, u)" "t = set_rpc a RDone u"
    using RRemPipe by (auto simp: receiver_step_def split: option.splits outcome.splits)
  show ?thesis unfolding u(2) by (rule same_senders_trans [OF same_senders_remPipe [OF u(1)] same_senders_pieces(6)])
qed (simp add: receiver_step_def)

lemma same_senders_stopper: "stopPipe_step ch a s = Some t \<Longrightarrow> same_senders s t"
proof (cases "p_tpc (obj a s)")
  case TDrain
  assume "stopPipe_step ch a s = Some t"
  then have "t = set_tpc a TDrop s \<or> t = set_tpc a TDone s \<or> (\<exists>m u. take_pipeq a s = Some (m, u) \<and> t = set_tpc a (TSend m) u)"
    using TDrain by (auto simp: stopPipe_step_def split: choice.splits if_splits)
  then show ?thesis
    by (elim disjE exE conjE) (auto intro: same_senders_trans same_senders_pieces)
next
  case (TSend m)
  assume "stopPipe_step ch a s = Some t"
  then obtain r c e u pc where u: "doSendMsg (p_freeLevel (obj a s)) r c m s = Some (e, u)" "t = set_tpc a pc u"
    using TSend by (auto simp: stopPipe_step_def split: choice.splits option.splits)
  show ?thesis unfolding u(2) by (rule same_senders_trans [OF same_senders_doSendMsg [OF u(1)] same_senders_pieces(7)])
next
  case TDrop
  assume "stopPipe_step ch a s = Some t"
  then have "t = set_tpc a TDone s \<or> (\<exists>m u h. take_pipeq a s = Some (m, u) \<and> t = u\<lparr>s_mem := h\<rparr>)"
    using TDrop by (auto simp: stopPipe_step_def split: choice.splits if_splits)
  then show ?thesis by (auto dest: same_senders_pieces(3) intro: same_senders_pieces)
qed (simp_all add: stopPipe_step_def)

lemma same_senders_api:
  "socket_RecvMsg ch s = Some (r, t) \<Longrightarrow> same_senders s t"
  "socket_Send pk ch c s = Some (e, t) \<Longrightarrow> same_senders s t"
  "socket_SendTo pk ch dest c s = Some (e, t) \<Longrightarrow> same_senders s t"
  "socket_SendAll pk as c s = Some (e, t) \<Longrightarrow> same_senders s t"
  "socket_Close s = Some (e, t) \<Longrightarrow> same_senders s t"
  "close_step ch s = Some t \<Longrightarrow> same_senders s t"
  "same_senders s (app_release k s)"
proof -
  have m: "same_senders (s\<lparr>s_mem := h\<rparr>) t = same_senders s t" for h t by (simp add: same_senders_def)
  show "socket_RecvMsg ch s = Some (r, t) \<Longrightarrow> same_senders s t"
    by (auto simp: socket_RecvMsg_def Let_def split: choice.splits if_splits option.splits)
  show "socket_Send pk ch c s = Some (e, t) \<Longrightarrow> same_senders s t"
    by (auto simp: socket_Send_def split: if_splits prod.splits outcome.splits dest!: same_senders_pieces(1)) (simp add: m)
  show "socket_SendTo pk ch dest c s = Some (e, t) \<Longrightarrow> same_senders s t"
    by (auto simp: socket_SendTo_def split: if_splits prod.splits outcome.splits dest!: same_senders_sends(1)) (simp add: m)
  show "socket_SendAll pk as c s = Some (e, t) \<Longrightarrow> same_senders s t"
    by (auto simp: socket_SendAll_def split: if_splits prod.splits outcome.splits dest!: same_senders_sends(2)) (simp add: m)
  show "close_step ch s = Some t \<Longrightarrow> same_senders s t"
    by (auto simp: close_step_def split: cpc.splits choice.splits if_splits option.splits dest: same_senders_pieces(4))
qed (auto simp: socket_Close_def app_release_def split: if_splits)

lemma same_senders_all_step: "sendToAll_step pk ch k s = Some t \<Longrightarrow> same_senders s t"
proof -
  have m: "same_senders (s\<lparr>s_mem := h\<rparr>) t = same_senders s t" for h t by (simp add: same_senders_def)
  show "sendToAll_step pk ch k s = Some t \<Longrightarrow> same_senders s t"
    by (auto simp: sendToAll_step_def split: prod.splits list.splits outcome.splits dest!: same_senders_pieces(2)) (simp_all add: m)
qed

lemma same_senders_forward: "app_forward ch as k s = Some (r, t) \<Longrightarrow> same_senders s t"
proof -
  have m: "same_senders (s\<lparr>s_user := us\<rparr>) t = same_senders s t" for us t by (simp add: same_senders_def)
  assume "app_forward ch as k s = Some (r, t)"
  then show ?thesis
    by (cases rule: app_forward_cases) (auto dest!: same_senders_sends(3) simp: m)
qed

lemma same_senders_SetOption: "socket_SetOption o1 v s = Some (r, t) \<Longrightarrow> same_senders s t"
proof -
  assume "socket_SetOption o1 v s = Some (r, t)"
  then obtain H u where u: "SetOption socket_hooks (Suc (s_opts s)) (s_heap s) (s_opts s) o1 v s = Some (r, H, u)" "t = u\<lparr>s_heap := H\<rparr>"
    by (auto simp: socket_SetOption_def split: option.splits)
  have "same_senders s u"
    by (rule SetOption_rel [where P = same_senders, OF _ _ _ u(1)])
      (auto intro: same_senders_onOptionChange same_senders_trans)
  then show ?thesis by (simp add: u(2))
qed

section \<open>Counting the senders\<close>

fun running :: "spc \<Rightarrow> bool" where
  "running SStart \<longleftrightarrow> False"
| "running SDone \<longleftrightarrow> False"
| "running _ \<longleftrightarrow> True"

definition pcs :: "socket \<Rightarrow> spc list" where
  "pcs s = map p_spc (s_objs s)"

text \<open>A sender starts, goes on, or ends; the last two only while it is running.\<close>

definition sender_moves :: "nat \<Rightarrow> socket \<Rightarrow> socket \<Rightarrow> bool" where
  "sender_moves a s t \<longleftrightarrow> s_noSend t = s_noSend s \<and>
     (\<exists>pc. pcs t = (pcs s)[a := pc] \<and>
        (if running pc then s_senderWg t = (if running (pcs s ! a) then s_senderWg s else s_senderWg s + 1)
         else running (pcs s ! a) \<and> s_senderWg t = s_senderWg s - 1))"

lemma sender_moves_set:
  assumes "same_senders s u" "a < length (s_objs s)" "running (p_spc (obj a s))"
  shows "running pc \<Longrightarrow> sender_moves a s (set_spc a pc u)" "sender_moves a s (sender_done a u)"
proof -
  have p: "pcs u = pcs s" "s_noSend u = s_noSend s" "s_senderWg u = s_senderWg s"
    using assms(1) by (simp_all add: same_senders_def pcs_def)
  have "pcs (set_spc a pc u) = (pcs s)[a := pc]" for pc
    using p(1) by (simp add: set_spc_def set_obj_def pcs_def map_update)
  moreover have "s_noSend (set_spc a pc u) = s_noSend s" "s_senderWg (set_spc a pc u) = s_senderWg s" for pc
    using p by (simp_all add: set_spc_def set_obj_def)
  moreover have "pcs (sender_done a u) = pcs (set_spc a SDone u)" by (simp add: sender_done_def pcs_def)
  moreover have "s_noSend (sender_done a u) = s_noSend s" "s_senderWg (sender_done a u) = s_senderWg s - 1"
    using p by (simp_all add: sender_done_def set_spc_def set_obj_def)
  moreover have "running (pcs s ! a)" using assms(2,3) by (simp add: pcs_def)
  ultimately show "running pc \<Longrightarrow> sender_moves a s (set_spc a pc u)" "sender_moves a s (sender_done a u)"
    unfolding sender_moves_def by (metis running.simps(2))+
qed

lemma sender_step_moves:
  assumes a: "a < length (s_objs s)" and st: "sender_step ch a s = Some t"
  shows "sender_moves a s t"
  using st
proof (cases rule: sender_step_cases)
  case start
  then show ?thesis using a unfolding sender_moves_def
    by (auto simp: set_obj_def pcs_def map_update intro!: exI [of _ SLoop])
next
  case (idle pc)
  then show ?thesis using sender_moves_set [OF same_senders_refl a] by auto
next
  case ends
  then show ?thesis using sender_moves_set(2) [OF same_senders_refl a] by auto
next
  case (common m u pc)
  with sender_moves_set(1) [OF same_senders_pieces(4) [OF common(2)] a] show ?thesis by auto
next
  case (own m u)
  with sender_moves_set(1) [OF same_senders_pieces(3) [OF own(2)] a] show ?thesis by auto
next
  case (sent m x c e u)
  from sender_moves_set [OF same_senders_doSendMsg [OF sent(2)] a] sent show ?thesis by auto
next
  case (removed x u)
  from sender_moves_set [OF same_senders_remPipe [OF removed(2)] a] removed show ?thesis by auto
qed

definition count_running :: "spc list \<Rightarrow> nat" where
  "count_running xs = length (filter running xs)"

lemma count_running_update:
  "a < length xs \<Longrightarrow> count_running (xs[a := pc]) + (if running (xs ! a) then 1 else 0) = count_running xs + (if running pc then 1 else 0)"
  unfolding count_running_def
proof (induction xs arbitrary: a)
  case (Cons x xs)
  then show ?case by (cases a) auto
qed simp

definition counted :: "socket \<Rightarrow> bool" where
  "counted s \<longleftrightarrow> s_senderWg s = count_running (pcs s) \<and> \<not> s_noSend s"

lemma counted_same: "counted s \<Longrightarrow> same_senders s t \<Longrightarrow> counted t"
  by (simp add: counted_def same_senders_def pcs_def)

lemma counted_moves:
  assumes "counted s" "a < length (s_objs s)" "sender_moves a s t"
  shows "counted t"
proof -
  from assms(3) obtain pc where pc: "pcs t = (pcs s)[a := pc]" and "s_noSend t = s_noSend s"
    and w: "if running pc then s_senderWg t = (if running (pcs s ! a) then s_senderWg s else s_senderWg s + 1)
         else running (pcs s ! a) \<and> s_senderWg t = s_senderWg s - 1" by (auto simp: sender_moves_def)
  moreover have "a < length (pcs s)" using assms(2) by (simp add: pcs_def)
  note c = count_running_update [OF this, of pc]
  ultimately show ?thesis using assms(1) by (auto simp: counted_def split: if_splits)
qed

lemma counted_event:
  assumes "counted s" "HandlePipeEvent e pid s = Some t"
  shows "counted t"
proof (cases e)
  case PipeEventRemove
  with assms(2) obtain r where "remPipe pid s = Some (r, t)"
    by (auto simp: HandlePipeEvent_def split: option.splits outcome.splits)
  from counted_same [OF assms(1) same_senders_remPipe [OF this]] show ?thesis .
qed (use assms in \<open>auto simp: HandlePipeEvent_def addPipe_def counted_def pcs_def count_running_def newPipe_def
      split: outcome.splits if_splits\<close>)

lemma counted_step: "step s t \<Longrightarrow> counted s \<Longrightarrow> counted t"
proof (induction rule: step.induct)
  case (step_sender a s ch s')
  then show ?case using counted_moves sender_step_moves by blast
qed (blast intro: counted_event counted_same same_senders_receiver same_senders_stopper same_senders_api
    same_senders_all_step same_senders_forward same_senders_SetOption)+

lemma reachable_counted: "reachable s0 s \<Longrightarrow> counted s0 \<Longrightarrow> counted s"
  by (induction rule: reachable.induct) (auto intro: counted_step)

lemma New_counted:
  assumes "socket_New ovs H h = (r, s)"
  shows "counted s"
proof -
  obtain a H1 where a: "NewOptionsWithValues ovs H = (a, H1)" by (cases "NewOptionsWithValues ovs H")
  let ?H2 = "AddOptionChangeHook a hook_connector H1"
  let ?os = "[Opt_NoRecv, Opt_RecvQueueSize, Opt_NoSend, Opt_SendQueueSize, Opt_SendTTL, Opt_SendBestEffort]"
  obtain r1 s1 where s1: "init_values ?os ?H2 (blank_socket a ?H2 h) = (r1, s1)"
    by (cases "init_values ?os ?H2 (blank_socket a ?H2 h)")
  have iv: "same_senders s (snd (init_values os H s))" for os H s
  proof (induction os arbitrary: s)
    case (Cons o1 os)
    obtain x u where o: "onOptionChange o1 H s = (x, u)" by (cases "onOptionChange o1 H s")
    have "same_senders s u" using same_senders_onOptionChange [of s o1 H] by (simp add: o)
    with Cons.IH [of u] same_senders_trans o show ?case by (cases x) auto
  qed simp
  have "same_senders (blank_socket a ?H2 h) s1" using iv [of "blank_socket a ?H2 h" ?os ?H2] by (simp only: s1 snd_conv)
  moreover have "counted (blank_socket a ?H2 h)" by (simp add: counted_def pcs_def count_running_def blank_socket_def)
  ultimately have "counted s1" by (metis counted_same)
  moreover have "s = s1\<lparr>s_heap := AddOptionChangeHook a hook_socket ?H2, s_handler := True\<rparr>"
    using assms unfolding socket_New_def a Let_def prod.case s1 by simp
  ultimately show ?thesis by (simp add: counted_def pcs_def)
qed

text \<open>
  the wait group counts the running senders exactly, in every reachable state: \<open>Close\<close> gets
  past it without the timer only when no started sender is left.
\<close>

theorem wait_group_counts_senders:
  assumes "socket_New ovs H h = (r, s0)" and "reachable s0 s"
  shows "s_senderWg s = length (filter (\<lambda>p. running (p_spc p)) (s_objs s)) \<and>
    (s_closer s = CWait \<and> close_step ChDone s \<noteq> None \<longrightarrow> (\<forall>p \<in> set (s_objs s). \<not> running (p_spc p)))"
proof -
  have "counted s" by (rule reachable_counted [OF assms(2) New_counted [OF assms(1)]])
  then have w: "s_senderWg s = length (filter (\<lambda>p. running (p_spc p)) (s_objs s))"
    by (simp add: counted_def count_running_def pcs_def filter_map comp_def)
  then show ?thesis by (auto simp: close_step_def filter_empty_conv split: if_splits)
qed

theorem wait_group_counts_senders_witness:
  "s_senderWg (one_pipe_socket init_mem) = length (filter (\<lambda>p. running (p_spc p)) (s_objs (one_pipe_socket init_mem)))"
  using wait_group_counts_senders [OF New_default one_pipe_reachable] by blast

text \<open>
  the option \<open>NoSend\<close> has no effect: whatever options a socket is created with or gets
  later, no reachable state has \<open>noSend\<close> set, so nothing that is sent is dropped for it.
\<close>

theorem NoSend_has_no_effect:
  assumes "socket_New ovs H h = (r, s0)" and "reachable s0 s"
  shows "\<not> s_noSend s"
  using reachable_counted [OF assms(2) New_counted [OF assms(1)]] by (simp add: counted_def)

lemma NoSend_socket:
  "NewNoSend (Some []) [] h = (Ok (), (default_socket h)\<lparr>s_heap := [empty_options\<lparr>opts := [Opt_NoSend \<mapsto> VBool True],
     optionChangeHooks := [hook_connector, hook_socket]\<rparr>]\<rparr>)"
  by (simp add: NewNoSend_def socket_New_def NewOptionsWithValues_def Let_def AddOptionChangeHook_def onOptionChange_def
      upd_def blank_socket_def hook_socket_def hook_connector_def default_socket_def default_heap_def Validate_def read_option_defs)

theorem NoSend_has_no_effect_witness:
  "\<exists>s0. NewNoSend (Some []) [] init_mem = (Ok (), s0) \<and> opts (s_heap s0 ! 0) Opt_NoSend = Some (VBool True) \<and> \<not> s_noSend s0"
proof -
  let ?s = "(default_socket init_mem)\<lparr>s_heap := [empty_options\<lparr>opts := [Opt_NoSend \<mapsto> VBool True],
     optionChangeHooks := [hook_connector, hook_socket]\<rparr>]\<rparr>"
  have "socket_New (AList.update Opt_NoSend (VBool True) []) [] init_mem = (Ok (), ?s)"
    using NoSend_socket by (simp add: NewNoSend_def)
  from NoSend_has_no_effect [OF this reach_refl] NoSend_socket show ?thesis by simp
qed

theorem socket_messages_apart_witness:
  "mem_inv {} init_mem \<and> reachable (default_socket init_mem) (one_pipe_socket init_mem) \<and>
   (\<forall>x. count (image_mset msg_arr (held (one_pipe_socket init_mem))) x \<le> 1)"
  using socket_messages_apart [OF mem_inv_init New_default one_pipe_reachable] mem_inv_init one_pipe_reachable by blast

section \<open>Sending\<close>

lemma good_new:
  assumes "mem_inv live h" "path_ok dest" "length c < 2 ^ 32"
  obtains m h' where "NewSendMessage pk f st ttl [] dest c h = (Ok m, h')" "owned_msg live m h'"
    "meta m = send_meta f st ttl [] dest c" "Source m = []" "Destination m = dest" "Content m = c"
proof -
  have "path_ok []" by (simp add: path_ok_def)
  from NewSendMessage_ok [OF assms(1) this assms(2,3), of pk f st ttl thesis] that show thesis by metis
qed

text \<open>
  \<open>SendTo\<close> hands the message to the pipe its destination names, and to no other queue: with
  room in the queue of that pipe the message is appended there, with the content, the remaining
  path and the socket's TTL; without such a pipe the result is \<open>ErrBrokenPath\<close> and every queue is
  as before.
\<close>

theorem SendTo_routes:
  assumes "mem_inv live (s_mem s)" and "\<not> s_noSend s" and "path_ok dest" and "length c < 2 ^ 32"
    and "un_be32 dest = Some pid"
  shows "(s_pipes s pid = None \<longrightarrow>
      (\<exists>s'. socket_SendTo pk ch dest c s = Some (Some ErrBrokenPath, s') \<and> held s' = held s)) \<and>
    (\<forall>a. s_pipes s pid = Some a \<and> a < length (s_objs s) \<and> can_send (p_sendq (obj a s)) \<longrightarrow>
      (\<exists>m s'. socket_SendTo pk ChSendq dest c s = Some (None, s') \<and>
         chan_buf (p_sendq (obj a s')) = chan_buf (p_sendq (obj a s)) @ [m] \<and> Content m = c \<and> Destination m = dest \<and>
         TTL (meta m) = (if s_ttl s = 0 then DefaultMsgTTL else s_ttl s) \<and> SendType (meta m) = SendTypeToDest \<and>
         (\<forall>b. b \<noteq> a \<longrightarrow> obj b s' = obj b s) \<and> s_sendqs s' = s_sendqs s \<and> s_recvqs s' = s_recvqs s))"
proof -
  obtain m h where m: "NewSendMessage pk 0 SendTypeToDest (s_ttl s) [] dest c (s_mem s) = (Ok m, h)"
    "meta m = send_meta 0 SendTypeToDest (s_ttl s) [] dest c" "Destination m = dest" "Content m = c"
    using good_new [OF assms(1,3,4)] by metis
  have l4: "4 \<le> length dest" using assms(5) un_be32_None_iff [of dest] by fastforce
  then have t: "un_be32 (take 4 dest) = Some pid"
    using assms(5) by (cases dest rule: un_be32.cases) auto
  have d0: "Distance (meta m) \<noteq> 0"
  proof
    assume "Distance (meta m) = 0"
    then have "unat (path_Length dest) = 0" by (simp add: m(2) send_meta_def)
    with path_ok_Length [OF assms(3)] l4 show False by simp
  qed
  have cur: "CurID (Destination m) = Ok pid" by (simp add: CurID_def m(3) t)
  have ty: "SendType (meta m) = SendTypeToDest" by (simp add: m(2) send_meta_type)
  have ttl: "TTL (meta m) = (if s_ttl s = 0 then DefaultMsgTTL else s_ttl s)" by (simp add: m(2) send_meta_def)
  have S: "socket_SendTo pk ch dest c s = sendTo ch m (s\<lparr>s_mem := h\<rparr>)" for ch
    using assms(2) m(1) by (simp add: socket_SendTo_def)
  show ?thesis
  proof (intro conjI allI impI)
    assume "s_pipes s pid = None"
    then show "\<exists>s'. socket_SendTo pk ch dest c s = Some (Some ErrBrokenPath, s') \<and> held s' = held s"
      unfolding S using d0 cur by (simp add: sendTo_def)
  next
    fix a assume a: "s_pipes s pid = Some a \<and> a < length (s_objs s) \<and> can_send (p_sendq (obj a s))"
    let ?s' = "(s\<lparr>s_mem := h\<rparr>)\<lparr>s_objs := (s_objs s)[a := (obj a s)\<lparr>p_sendq := chan_send m (p_sendq (obj a s))\<rparr>]\<rparr>"
    have r: "socket_SendTo pk ChSendq dest c s = Some (None, ?s')"
      unfolding S using a d0 cur by (simp add: sendTo_def push_pipe_def)
    show "\<exists>m s'. socket_SendTo pk ChSendq dest c s = Some (None, s') \<and>
         chan_buf (p_sendq (obj a s')) = chan_buf (p_sendq (obj a s)) @ [m] \<and> Content m = c \<and> Destination m = dest \<and>
         TTL (meta m) = (if s_ttl s = 0 then DefaultMsgTTL else s_ttl s) \<and> SendType (meta m) = SendTypeToDest \<and>
         (\<forall>b. b \<noteq> a \<longrightarrow> obj b s' = obj b s) \<and> s_sendqs s' = s_sendqs s \<and> s_recvqs s' = s_recvqs s"
      by (rule exI [of _ m], rule exI [of _ ?s']) (use r a m(3,4) ttl ty in \<open>simp add: chan_send_def\<close>)
  qed
qed

theorem SendTo_routes_witness:
  "\<exists>m s'. socket_SendTo fresh_picks ChSendq (be32 7) [1, 2] (one_pipe_socket init_mem) = Some (None, s') \<and>
     chan_buf (p_sendq (obj 0 s')) = [m] \<and> Content m = [1, 2]"
proof -
  let ?s = "one_pipe_socket init_mem"
  have c: "s_mem ?s = init_mem" "\<not> s_noSend ?s" "s_pipes ?s 7 = Some 0" "0 < length (s_objs ?s)"
    "can_send (p_sendq (obj 0 ?s))" "chan_buf (p_sendq (obj 0 ?s)) = []"
    by (simp_all add: one_pipe_socket_def default_socket_def blank_socket_def newPipe_def chan_simps)
  have p: "path_ok (be32 7)" "length [1, 2 :: u8] < 2 ^ 32" "un_be32 (be32 7) = Some 7" by (simp_all add: path_ok_def)
  have i: "mem_inv {} (s_mem ?s)" by (simp only: c(1) mem_inv_init)
  have "s_pipes ?s 7 = Some 0 \<and> 0 < length (s_objs ?s) \<and> can_send (p_sendq (obj 0 ?s))" using c by blast
  with SendTo_routes [OF i c(2) p, of fresh_picks] obtain m s'
    where r: "socket_SendTo fresh_picks ChSendq (be32 7) [1, 2] ?s = Some (None, s')"
      "chan_buf (p_sendq (obj 0 s')) = chan_buf (p_sendq (obj 0 ?s)) @ [m]" "Content m = [1, 2]" by blast
  from r(2) have "chan_buf (p_sendq (obj 0 s')) = [m]" unfolding c(6) by (simp only: append_Nil)
  with r show ?thesis by blast
qed

section \<open>Sending to all\<close>





lemma a_message:
  obtains m h where "NewSendMessage fresh_picks 0 SendTypeToAll 5 [] [] [1, 2] init_mem = (Ok m, h)" "owned_msg {} m h"
    "meta m = send_meta 0 SendTypeToAll 5 [] [] [1, 2]" "Source m = []" "Destination m = []" "Content m = [1, 2]"
proof -
  have "path_ok []" "length [1, 2 :: u8] < 2 ^ 32" by (simp_all add: path_ok_def)
  from good_new [OF mem_inv_init this] that show thesis by metis
qed


theorem SendMsg_takes_iff_no_error_witness:
  "\<exists>m h s'. good (add_mset m (held (one_pipe_socket h))) h \<and>
     socket_SendMsg ChSendq [0] m (one_pipe_socket h) = Some (None, s') \<and> good (held s') (s_mem s')"
proof -
  obtain m h where m: "NewSendMessage fresh_picks 0 SendTypeToAll 5 [] [] [1, 2] init_mem = (Ok m, h)" "owned_msg {} m h"
    "meta m = send_meta 0 SendTypeToAll 5 [] [] [1, 2]" "Source m = []" "Destination m = []" "Content m = [1, 2]"
    by (rule a_message)
  let ?s = "one_pipe_socket h"
  have e: "held ?s = {#}" "s_mem ?s = h"
    by (simp_all add: held_def one_pipe_socket_def default_socket_def blank_socket_def newPipe_def pipe_msgs_def chan_msgs_def make_chan_def)
  obtain a where "wf_msg m" "msg_arr m = Some a" "mem_inv {a} h" using m(2) by (auto simp: owned_msg_def)
  then have g: "good (add_mset m (held ?s)) (s_mem ?s)"
    unfolding e good_def by (intro exI [of _ "{a}"]) auto
  have "\<exists>s'. socket_SendMsg ChSendq [0] m ?s = Some (None, s')"
    using m(3) by (simp add: socket_SendMsg_def send_meta_def send_type_defs sendToAll_begin_def mapped_def one_pipe_socket_def
        default_socket_def blank_socket_def newPipe_def)
  then obtain s' where s': "socket_SendMsg ChSendq [0] m ?s = Some (None, s')" ..
  from SendMsg_takes_iff_no_error [OF g s'] s' g e(2) show ?thesis by auto
qed

section \<open>Closing\<close>







text \<open>
  the empty message that a raw pipe announces itself with is pushed without looking at
  \<open>closedq\<close> or \<open>noRecv\<close>: with a full receive queue the receiver of a raw pipe waits even after
  \<open>Close\<close>, and with room the message is delivered even on a socket that drops what it receives.
\<close>

theorem raw_announcement_ignores_close:
  assumes "p_rpc (obj a s) = RStart" and "p_raw (obj a s)" and "mem_inv live (s_mem s)" and "s_recvq s < length (s_recvqs s)"
  shows "(\<not> can_send (cur_recvq s) \<longrightarrow> receiver_step ch x a s = None) \<and>
    (can_send (cur_recvq s) \<longrightarrow> (\<exists>m s'. receiver_step ch x a s = Some s' \<and> HasFlags (meta m) MsgFlagRaw \<and>
       chan_buf (cur_recvq s') = chan_buf (cur_recvq s) @ [m]))"
proof -
  let ?pk = "case x of RawData pk _ _ \<Rightarrow> pk | _ \<Rightarrow> fresh_picks"
  obtain m h where m: "NewRawRecvMessage ?pk (p_id (obj a s)) (Some []) (s_mem s) = (Ok m, h)" "owned_msg live m h"
      "HasFlags (meta m) MsgFlagRaw" "SendType (meta m) = SendTypeToOne" by (rule RawRecv_mem [OF assms(3)])
  have r: "receiver_step ch x a s = map_option (set_rpc a RLoop) (push_recvq m (s\<lparr>s_mem := h\<rparr>))"
    using assms(1,2) m(1) by (simp add: receiver_step_def)
  show ?thesis
  proof (intro conjI impI)
    assume "can_send (cur_recvq s)"
    then have "receiver_step ch x a s = Some (set_rpc a RLoop (s\<lparr>s_mem := h, s_recvqs := (s_recvqs s)[s_recvq s := chan_send m (cur_recvq s)]\<rparr>))"
      using assms(4) unfolding r by (simp add: push_recvq_def)
    then show "\<exists>m s'. receiver_step ch x a s = Some s' \<and> HasFlags (meta m) MsgFlagRaw \<and> chan_buf (cur_recvq s') = chan_buf (cur_recvq s) @ [m]"
      using m(3) assms(4) by (intro exI [of _ m]) (simp add: set_rpc_def chan_send_def)
  qed (simp add: r push_recvq_def)
qed

theorem raw_announcement_ignores_close_witness:
  "\<exists>s. s_closedq s \<and> s_noRecv s \<and> p_raw (obj 0 s) \<and> (\<exists>m s'. receiver_step ChClosed (RecvFails EOF) 0 s = Some s' \<and>
     chan_buf (cur_recvq s') = [m] \<and> HasFlags (meta m) MsgFlagRaw)"
proof -
  let ?s = "(one_pipe_socket init_mem)\<lparr>s_closedq := True, s_noRecv := True, s_objs := [newPipe 7 True LevelFreeAll 64]\<rparr>"
  have c: "p_rpc (obj 0 ?s) = RStart" "p_raw (obj 0 ?s)" "s_recvq ?s < length (s_recvqs ?s)" "can_send (cur_recvq ?s)"
    "chan_buf (cur_recvq ?s) = []" "s_closedq ?s" "s_noRecv ?s"
    by (simp_all add: one_pipe_socket_def default_socket_def blank_socket_def newPipe_def chan_simps)
  have i: "mem_inv {} (s_mem ?s)" using mem_inv_init by (simp add: one_pipe_socket_def default_socket_def blank_socket_def)
  from raw_announcement_ignores_close [OF c(1,2) i c(3), of ChClosed "RecvFails EOF"] c(4) obtain m s'
    where r: "receiver_step ChClosed (RecvFails EOF) 0 ?s = Some s'" "HasFlags (meta m) MsgFlagRaw"
      "chan_buf (cur_recvq s') = chan_buf (cur_recvq ?s) @ [m]" by blast
  from r(3) have "chan_buf (cur_recvq s') = [m]" unfolding c(5) by (simp only: append_Nil)
  with r(1,2) c show ?thesis by (intro exI [of _ ?s]) blast
qed

end
