(* ===== verification/Streams.thy ===== *)
theory Streams
  imports Wire
begin

text \<open>
  \<open>io.ReadFull\<close> and \<open>io.CopyN\<close> as loops over \<open>Read\<close>, the contract of a connection that
  is read as a stream, and the proof that reading messages through such a connection, however it
  cuts the bytes into pieces, is reading them from the byte stream.
\<close>

section \<open>Loops over Read\<close>

text \<open>
  A \<open>Read\<close> of at most \<open>n\<close> bytes returns bytes and possibly an error; \<open>None\<close> means that it waits.
  The loop of \<open>io.ReadAtLeast\<close> ends when it has its bytes or at an error, which is forgotten when the
  bytes are there. Each turn that goes on has read something, so as many turns as bytes are enough.
\<close>

type_synonym 'p read_op = "nat \<Rightarrow> 'p \<Rightarrow> ((bytes \<times> err option) \<times> 'p) option"

fun read_min :: "'p read_op \<Rightarrow> nat \<Rightarrow> bytes \<Rightarrow> nat \<Rightarrow> 'p \<Rightarrow> ((bytes \<times> err option) \<times> 'p) option" where
  "read_min rd 0 acc n p = (if n = 0 then Some ((acc, None), p) else None)"
| "read_min rd (Suc f) acc n p =
     (if n = 0 then Some ((acc, None), p)
      else case rd n p of
             None \<Rightarrow> None
           | Some ((c, None), p') \<Rightarrow> read_min rd f (acc @ c) (n - length c) p'
           | Some ((c, Some e), p') \<Rightarrow> Some ((acc @ c, if n \<le> length c then None else Some e), p'))"

definition read_full :: "'p read_op \<Rightarrow> nat \<Rightarrow> 'p \<Rightarrow> (bytes outcome \<times> 'p) option" where
  "read_full rd n p =
     (case read_min rd n [] n p of
        None \<Rightarrow> None
      | Some ((c, None), p') \<Rightarrow> Some (Ok c, p')
      | Some ((c, Some e), p') \<Rightarrow> Some (Error (if e = EOF \<and> c \<noteq> [] then ErrUnexpectedEOF else e), p'))"

definition copy_n :: "'p read_op \<Rightarrow> nat \<Rightarrow> 'p \<Rightarrow> (unit outcome \<times> 'p) option" where
  "copy_n rd n p =
     (case read_min rd n [] n p of
        None \<Rightarrow> None
      | Some ((c, None), p') \<Rightarrow> Some (Ok (), p')
      | Some ((c, Some e), p') \<Rightarrow> Some (Error e, p'))"

definition rc_of :: "'p read_op \<Rightarrow> ('p \<Rightarrow> 'p) \<Rightarrow> 'p ReadCloser" where
  "rc_of rd cl = \<lparr>io_ReadFull = read_full rd, io_Discard = copy_n rd, io_Close = cl\<rparr>"

lemma rc_of_simps [simp]:
  "io_ReadFull (rc_of rd cl) = read_full rd" "io_Discard (rc_of rd cl) = copy_n rd" "io_Close (rc_of rd cl) = cl"
  by (simp_all add: rc_of_def)

definition view :: "('p \<Rightarrow> bytes) \<Rightarrow> ('p \<Rightarrow> err) \<Rightarrow> 'p \<Rightarrow> reader" where
  "view contents end_err p = \<lparr>rd_bytes = contents p, rd_end = end_err p, rd_closed = False\<rparr>"

text \<open>A reflexive and transitive relation that every read and the close respect is respected by the whole function.\<close>

lemma read_min_rel:
  assumes "\<And>s. R s s" and "\<And>s t u. R s t \<Longrightarrow> R t u \<Longrightarrow> R s u"
    and "\<And>n s r s'. rd n s = Some (r, s') \<Longrightarrow> R s s'"
  shows "read_min rd f acc n s = Some (r, s') \<Longrightarrow> R s s'"
proof (induction f arbitrary: acc n s)
  case 0
  then show ?case using assms(1) by (auto split: if_splits)
next
  case (Suc f)
  show ?case
  proof (cases "n = 0")
    case True
    with Suc.prems assms(1) show ?thesis by simp
  next
    case False
    with Suc.prems obtain c e s1 where r: "rd n s = Some ((c, e), s1)" by (auto split: option.splits)
    note R1 = assms(3) [OF r]
    show ?thesis
    proof (cases e)
      case None
      with Suc.prems False r have "read_min rd f (acc @ c) (n - length c) s1 = Some (r, s')" by simp
      from Suc.IH [OF this] R1 show ?thesis by (rule assms(2) [rotated])
    next
      case (Some e')
      with Suc.prems False r R1 show ?thesis by auto
    qed
  qed
qed

lemma FromReader_rel:
  assumes refl: "\<And>s. R s s" and trans: "\<And>s t u. R s t \<Longrightarrow> R t u \<Longrightarrow> R s u"
    and rd: "\<And>n s r s'. rd n s = Some (r, s') \<Longrightarrow> R s s'" and cl: "\<And>s. R s (cl s)"
    and eq: "NewMessageFromReader (rc_of rd cl) pk pid s mx h = Some (r, s', h')"
  shows "R s s'"
proof -
  have full: "read_full rd n a = Some (x, b) \<Longrightarrow> R a b" for n a x b
    using read_min_rel [where R = R, OF refl trans rd] by (auto simp: read_full_def split: option.splits)
  have copy: "copy_n rd n a = Some (x, b) \<Longrightarrow> R a b" for n a x b
    using read_min_rel [where R = R, OF refl trans rd] by (auto simp: copy_n_def split: option.splits)
  have after: "R a b"
    if "(case q of None \<Rightarrow> None | Some (Ok v, t) \<Rightarrow> k v t | Some (Error e, t) \<Rightarrow> Some (read_fail m0 sl hh e t)
         | Some (Panic, t) \<Rightarrow> Some (Panic, t, hh)) = Some (x, b, hb)"
      and "\<And>y t. q = Some (y, t) \<Longrightarrow> R a t" and "\<And>v t x b hb. k v t = Some (x, b, hb) \<Longrightarrow> R t b"
    for q :: "('v outcome \<times> 'a) option" and k a b m0 sl hh x hb
  proof -
    from that(1) obtain y t where q: "q = Some (y, t)" by (cases q) auto
    note Rt = that(2) [OF q]
    show ?thesis
    proof (cases y)
      case (Ok v)
      with that(1) q have "k v t = Some (x, b, hb)" by simp
      from trans [OF Rt that(3) [OF this]] show ?thesis .
    qed (use that(1) q Rt in \<open>auto simp: read_fail_def\<close>)
  qed
  have content: "read_content (rc_of rd cl) m0 mt sl hh to d a = Some (x, b, hb) \<Longrightarrow> R a b" for m0 mt sl hh to d a x b hb
    unfolding read_content_def rc_of_simps by (erule after) (auto intro: full refl)
  have dest: "read_dest (rc_of rd cl) m0 mt sl hh to d a = Some (x, b, hb) \<Longrightarrow> R a b" for m0 mt sl hh to d a x b hb
    unfolding read_dest_def rc_of_simps by (auto intro: content full elim: after split: if_splits)
  have skip: "skip_hop (rc_of rd cl) m0 mt sl hh to d a = Some (x, b, hb) \<Longrightarrow> R a b" for m0 mt sl hh to d a x b hb
    unfolding skip_hop_def rc_of_simps by (auto intro: dest copy elim: after split: if_splits)
  have source: "read_source (rc_of rd cl) q m0 mt sl hh a = Some (x, b, hb) \<Longrightarrow> R a b" for q m0 mt sl hh a x b hb
    unfolding read_source_def rc_of_simps by (auto intro: refl skip full elim: after split: if_splits)
  obtain m0 h1 where g: "msgPool_Get pk h = (m0, h1)" by fastforce
  obtain x a where f: "read_full rd MetaSize s = Some (x, a)" using eq g by (auto simp: NewMessageFromReader_def split: option.splits)
  note Ra = full [OF f]
  show ?thesis
  proof (cases "\<exists>c mt sl h2. x = Ok c \<and> read_source (rc_of rd cl) pid m0 mt sl h2 a = Some (r, s', h')")
    case True
    then show ?thesis using source trans [OF Ra] by blast
  next
    case False
    with eq g f have "s' = a \<or> s' = cl a"
      by (fastforce simp: NewMessageFromReader_def split: option.splits prod.splits outcome.splits if_splits)
    with Ra cl trans show ?thesis by blast
  qed
qed

section \<open>The contract of a stream connection\<close>

text \<open>
  A read returns a non-empty piece of what is there, the error only when the pipe has ended and
  nothing is left, and waits otherwise. \<open>ok\<close> is an invariant of the connection.
\<close>

locale byte_pipe =
  fixes rd :: "'p read_op"
    and contents :: "'p \<Rightarrow> bytes"
    and ended :: "'p \<Rightarrow> bool"
    and end_err :: "'p \<Rightarrow> err"
    and ok :: "'p \<Rightarrow> bool"
  assumes rd_some: "ok p \<Longrightarrow> 0 < n \<Longrightarrow> contents p \<noteq> [] \<Longrightarrow> \<exists>k p'. 0 < k \<and> k \<le> n \<and> k \<le> length (contents p) \<and>
      rd n p = Some ((take k (contents p), None), p') \<and> contents p' = drop k (contents p) \<and>
      ended p' = ended p \<and> end_err p' = end_err p \<and> ok p'"
    and rd_fails: "ok p \<Longrightarrow> 0 < n \<Longrightarrow> contents p = [] \<Longrightarrow> ended p \<Longrightarrow>
      \<exists>p'. rd n p = Some (([], Some (end_err p)), p') \<and> contents p' = [] \<and> ended p' \<and> ok p'"
    and rd_waits: "ok p \<Longrightarrow> 0 < n \<Longrightarrow> contents p = [] \<Longrightarrow> \<not> ended p \<Longrightarrow> rd n p = None"
begin

abbreviation stream_of :: "'p \<Rightarrow> reader" where
  "stream_of \<equiv> view contents end_err"

lemma read_min_ok:
  "n \<le> f \<Longrightarrow> ok p \<Longrightarrow> n \<le> length (contents p) \<Longrightarrow>
     \<exists>p'. read_min rd f acc n p = Some ((acc @ take n (contents p), None), p') \<and>
       contents p' = drop n (contents p) \<and> ended p' = ended p \<and> end_err p' = end_err p \<and> ok p'"
proof (induction f arbitrary: n p acc)
  case (Suc f)
  show ?case
  proof (cases "n = 0")
    case True
    with Suc.prems show ?thesis by simp
  next
    case False
    with Suc.prems have "contents p \<noteq> []" "0 < n" by auto
    from rd_some [OF Suc.prems(2) this(2,1)] obtain k p1 where k: "0 < k" "k \<le> n" "k \<le> length (contents p)"
      "rd n p = Some ((take k (contents p), None), p1)" "contents p1 = drop k (contents p)"
      "ended p1 = ended p" "end_err p1 = end_err p" "ok p1" by blast
    have "n - k \<le> f" "n - k \<le> length (contents p1)" using k Suc.prems by auto
    from Suc.IH [OF this(1) k(8) this(2), of "acc @ take k (contents p)"] obtain p2 where
      "read_min rd f (acc @ take k (contents p)) (n - k) p1
         = Some (((acc @ take k (contents p)) @ take (n - k) (drop k (contents p)), None), p2)"
      "contents p2 = drop (n - k) (drop k (contents p))" "ended p2 = ended p" "end_err p2 = end_err p" "ok p2"
      using k by metis
    moreover have "take k (contents p) @ take (n - k) (drop k (contents p)) = take n (contents p)"
      using k(2) by (metis le_add_diff_inverse take_add)
    ultimately show ?thesis using False k by simp
  qed
qed simp

text \<open>Too few bytes: all of them and the error when the connection has ended, otherwise a wait.\<close>

lemma read_min_short:
  "n \<le> f \<Longrightarrow> ok p \<Longrightarrow> length (contents p) < n \<Longrightarrow>
     (ended p \<longrightarrow> (\<exists>p'. read_min rd f acc n p = Some ((acc @ contents p, Some (end_err p)), p') \<and> contents p' = [] \<and> ended p' \<and> ok p')) \<and>
     (\<not> ended p \<longrightarrow> read_min rd f acc n p = None)"
proof (induction f arbitrary: n p acc)
  case (Suc f)
  show ?case
  proof (cases "contents p = []")
    case True
    with rd_fails [OF Suc.prems(2) _ True, of n] rd_waits [OF Suc.prems(2) _ True, of n] Suc.prems(3) show ?thesis by auto
  next
    case False
    with Suc.prems have "0 < n" by simp
    from rd_some [OF Suc.prems(2) this False] obtain k p1 where k: "0 < k" "k \<le> n" "k \<le> length (contents p)"
      "rd n p = Some ((take k (contents p), None), p1)" "contents p1 = drop k (contents p)"
      "ended p1 = ended p" "end_err p1 = end_err p" "ok p1" by blast
    have "n - k \<le> f" "length (contents p1) < n - k" using k Suc.prems by auto
    from Suc.IH [OF this(1) k(8) this(2), of "acc @ take k (contents p)"] k \<open>0 < n\<close> show ?thesis by auto
  qed
qed simp

text \<open>
  The three outcomes of \<open>io.ReadFull\<close> on the connection beside the one on its stream, and the same for
  \<open>io.CopyN\<close>.
\<close>

lemma ReadFull_sim:
  assumes "ok p"
  obtains (full) c p' where "read_full rd n p = Some (Ok c, p')" "ReadFull n (stream_of p) = (Ok c, stream_of p')"
      "ended p' = ended p" "ok p'"
    | (error) e p' rd' where "ended p" "read_full rd n p = Some (Error e, p')" "ReadFull n (stream_of p) = (Error e, rd')"
      "contents p' = []" "rd_bytes rd' = []" "ended p'" "ok p'"
    | (waits) e rd' where "\<not> ended p" "read_full rd n p = None" "ReadFull n (stream_of p) = (Error e, rd')"
proof (cases "n \<le> length (contents p)")
  case True
  from read_min_ok [OF order_refl assms True, of "[]"] obtain p' where "read_min rd n [] n p = Some ((take n (contents p), None), p')"
    "contents p' = drop n (contents p)" "ended p' = ended p" "end_err p' = end_err p" "ok p'" by auto
  with True show thesis by (intro full [of "take n (contents p)" p']) (auto simp: read_full_def ReadFull_def view_def)
next
  case False
  note short = read_min_short [OF order_refl assms, of n "[]"]
  show thesis
  proof (cases "ended p")
    case True
    with short False obtain p' where
      "read_min rd n [] n p = Some ((contents p, Some (end_err p)), p')" "contents p' = []" "ended p'" "ok p'" by auto
    with False True show thesis by (intro error) (auto simp: read_full_def ReadFull_def view_def)
  next
    case open_end: False
    with short False show thesis by (intro waits) (auto simp: read_full_def ReadFull_def view_def)
  qed
qed

lemma Discard_sim:
  assumes "ok p"
  obtains (full) p' where "copy_n rd n p = Some (Ok (), p')" "Discard n (stream_of p) = (Ok (), stream_of p')"
      "ended p' = ended p" "ok p'"
    | (error) e p' rd' where "ended p" "copy_n rd n p = Some (Error e, p')" "Discard n (stream_of p) = (Error e, rd')"
    | (waits) e rd' where "\<not> ended p" "copy_n rd n p = None" "Discard n (stream_of p) = (Error e, rd')"
proof (cases "n \<le> length (contents p)")
  case True
  from read_min_ok [OF order_refl assms True, of "[]"] obtain p' where "read_min rd n [] n p = Some ((take n (contents p), None), p')"
    "contents p' = drop n (contents p)" "ended p' = ended p" "end_err p' = end_err p" "ok p'" by auto
  with True show thesis by (intro full [of p']) (auto simp: copy_n_def Discard_def view_def)
next
  case False
  note short = read_min_short [OF order_refl assms, of n "[]"]
  show thesis
  proof (cases "ended p")
    case True
    with short False obtain p' where "read_min rd n [] n p = Some ((contents p, Some (end_err p)), p')" by auto
    with False True show thesis by (intro error) (auto simp: copy_n_def Discard_def view_def)
  next
    case open_end: False
    with short False show thesis by (intro waits) (auto simp: copy_n_def Discard_def view_def)
  qed
qed

text \<open>
  Results of a reading function on the connection and on its stream: the same message or error and the
  same pools, and after a message the connection is where the stream is; or, while the connection is
  open, a wait where the stream has too few bytes.
\<close>

definition sim :: "bool \<Rightarrow> ('x outcome \<times> 'p \<times> mem) option \<Rightarrow> ('x outcome \<times> reader \<times> mem) option \<Rightarrow> bool" where
  "sim e a b \<longleftrightarrow>
     (\<exists>r p' rd' h'. a = Some (r, p', h') \<and> b = Some (r, rd', h') \<and>
        (\<forall>x. r = Ok x \<longrightarrow> stream_of p' = rd' \<and> ended p' = e \<and> ok p')) \<or>
     (\<not> e \<and> a = None \<and> (\<exists>err x. b = Some (Error err, x)))"

lemma read_content_sim:
  assumes "ok p"
  shows "sim (ended p) (read_content (rc_of rd cl) m0 mt s h to d p) (read_content stream_rc m0 mt s h to d (stream_of p))"
  using assms
  by (cases rule: ReadFull_sim [where n = "unat (Length mt)"]) (simp_all add: read_content_def read_fail_def sim_def)

lemma read_dest_sim:
  assumes "ok p"
  shows "sim (ended p) (read_dest (rc_of rd cl) m0 mt s h to d p) (read_dest stream_rc m0 mt s h to d (stream_of p))"
proof (cases "recv_destSize mt > 0")
  case False
  with read_content_sim [OF assms] show ?thesis by (simp add: read_dest_def)
next
  case True
  from assms show ?thesis
  proof (cases rule: ReadFull_sim [where n = "recv_destSize mt"])
    case (full c p')
    with True read_content_sim [OF full(4)] show ?thesis by (simp add: read_dest_def)
  qed (use True in \<open>simp_all add: read_dest_def read_fail_def sim_def\<close>)
qed

lemma skip_hop_sim:
  assumes "ok p"
  shows "sim (ended p) (skip_hop (rc_of rd cl) m0 mt s h to d p) (skip_hop stream_rc m0 mt s h to d (stream_of p))"
proof (cases "SendType mt = SendTypeToDest")
  case False
  with read_dest_sim [OF assms] show ?thesis by (simp add: skip_hop_def)
next
  case True
  from assms show ?thesis
  proof (cases rule: Discard_sim [where n = 4])
    case (full p')
    with True read_dest_sim [OF full(4)] show ?thesis by (simp add: skip_hop_def)
  qed (use True in \<open>simp_all add: skip_hop_def read_fail_def sim_def\<close>)
qed

lemma read_source_sim:
  assumes "ok p"
  shows "sim (ended p) (read_source (rc_of rd cl) pid m0 mt s h p) (read_source stream_rc pid m0 mt s h (stream_of p))"
proof (cases "recv_sourceSize mt < 4")
  case True
  then show ?thesis by (simp add: read_source_def sim_def)
next
  case False
  from assms show ?thesis
  proof (cases rule: ReadFull_sim [where n = "recv_sourceSize mt - 4"])
    case (full c p')
    with False skip_hop_sim [OF full(4)] show ?thesis by (simp add: read_source_def)
  qed (use False in \<open>simp_all add: read_source_def read_fail_def sim_def\<close>)
qed

lemma FromReader_sim:
  assumes "ok p"
  shows "sim (ended p) (NewMessageFromReader (rc_of rd cl) pk pid p mx h) (NewMessageFromReader stream_rc pk pid (stream_of p) mx h)"
proof -
  obtain m0 h1 where g: "msgPool_Get pk h = (m0, h1)" by fastforce
  from assms show ?thesis
  proof (cases rule: ReadFull_sim [where n = MetaSize])
    case (full c p')
    show ?thesis
    proof (cases "decodeMetaFrom c")
      case None
      with full g show ?thesis by (simp add: NewMessageFromReader_def sim_def)
    next
      case (Some mt)
      let ?n = "MetaSize + recv_sourceSize mt + recv_destSize mt + unat (Length mt)"
      obtain r h2 where a: "mem_Alloc ?n pk h1 = (r, h2)" by fastforce
      from Some full(1,2,3) g a read_source_sim [OF full(4)] show ?thesis
        by (auto simp: NewMessageFromReader_def sim_def split: outcome.split option.split)
    qed
  qed (use g in \<open>simp_all add: NewMessageFromReader_def sim_def\<close>)
qed

lemma FromReader_message:
  assumes "ok p" "NewMessageFromReader stream_rc pk pid (stream_of p) mx h = Some (Ok m, rd', h')"
  obtains p' where "NewMessageFromReader (rc_of rd cl) pk pid p mx h = Some (Ok m, p', h')" "stream_of p' = rd'"
    "ended p' = ended p" "ok p'"
  using FromReader_sim [OF assms(1), of cl pk pid mx h] assms(2) by (auto simp: sim_def)

lemma FromReader_ended:
  assumes "ok p" "ended p"
  obtains r p' rd' h' where "NewMessageFromReader (rc_of rd cl) pk pid p mx h = Some (r, p', h')"
    "NewMessageFromReader stream_rc pk pid (stream_of p) mx h = Some (r, rd', h')"
  using FromReader_sim [OF assms(1), of cl pk pid mx h] assms(2) by (auto simp: sim_def)

end

end
