(* ===== verification/Channels.thy ===== *)
theory Channels
  imports Streams Option_Registry Option_Sets Transports
begin

text \<open>
  The in-process pipes of \<open>transport/inproc/channel\<close>: two ends joined by two Go channels, as a byte
  stream (\<open>channel.go\<close>), as a packet pipe (\<open>channel_sr.go\<close>) and as a message pipe
  (\<open>channel_msr.go\<close>). Buffers are handed over, not copied: the reading end releases
  them. A blocked operation is \<open>None\<close>.
\<close>

section \<open>State\<close>

datatype side = Dialled | Accepted

fun peer_of :: "side \<Rightarrow> side" where
  "peer_of Dialled = Accepted"
| "peer_of Accepted = Dialled"

text \<open>
  Both ends of a pipe. \<open>cp_rc x\<close> is the channel the end \<open>x\<close> reads from and its peer writes to;
  \<open>cp_s\<close> and \<open>cp_i\<close> are the slice being read and the position in it. The ends share \<open>closedq\<close>.
\<close>

record chpipe =
  cp_rc :: "side \<Rightarrow> bslice chan"
  cp_s :: "side \<Rightarrow> bslice option"
  cp_i :: "side \<Rightarrow> nat"
  cp_closedq :: bool
  cp_addr :: "side \<Rightarrow> Address"
  cp_mem :: mem

definition createPipe :: "Address \<Rightarrow> Address \<Rightarrow> oheap \<Rightarrow> nat \<Rightarrow> mem \<Rightarrow> chpipe outcome" where
  "createPipe la ra H a h =
     (case GetOptionDefault (Suc a) H a Opt_BufferSize of
        Some (VInt n) \<Rightarrow>
          if sint n < 0 then Panic
          else Ok \<lparr>cp_rc = (\<lambda>_. make_chan (nat (sint n))), cp_s = (\<lambda>_. None), cp_i = (\<lambda>_. 0), cp_closedq = False,
                   cp_addr = (\<lambda>x. case x of Accepted \<Rightarrow> la | Dialled \<Rightarrow> ra), cp_mem = h\<rparr>
      | _ \<Rightarrow> Panic)"

definition ch_LocalAddr :: "side \<Rightarrow> 'a chpipe_scheme \<Rightarrow> Address" where
  "ch_LocalAddr x p = cp_addr p x"

definition ch_RemoteAddr :: "side \<Rightarrow> 'a chpipe_scheme \<Rightarrow> Address" where
  "ch_RemoteAddr x p = cp_addr p (peer_of x)"

definition ch_Close :: "'a chpipe_scheme \<Rightarrow> err option \<times> 'a chpipe_scheme" where
  "ch_Close p = (if cp_closedq p then (Some ErrClosed, p) else (None, p\<lparr>cp_closedq := True\<rparr>))"

section \<open>Reading and writing bytes\<close>

text \<open>
  One turn of the loop of \<open>Read\<close>. Both cases of the outer \<open>select\<close> take the next slice when there is
  one, so only the empty channel needs a decision: closed or blocked.
\<close>

definition next_slice :: "side \<Rightarrow> 'a chpipe_scheme \<Rightarrow> (err option \<times> 'a chpipe_scheme) option" where
  "next_slice x p =
     (case chan_recv (cp_rc p x) of
        Some (s, q) \<Rightarrow>
          Some (None, p\<lparr>cp_rc := (cp_rc p)(x := q), cp_s := (cp_s p)(x := Some s), cp_i := (cp_i p)(x := 0)\<rparr>)
      | None \<Rightarrow> if cp_closedq p then Some (Some ErrClosed, p) else None)"

definition drop_slice :: "side \<Rightarrow> 'a chpipe_scheme \<Rightarrow> 'a chpipe_scheme" where
  "drop_slice x p = p\<lparr>cp_mem := (cp_mem p)\<lparr>bpool := Free (cp_s p x) (bpool (cp_mem p))\<rparr>, cp_s := (cp_s p)(x := None)\<rparr>"

definition read_measure :: "side \<Rightarrow> 'a chpipe_scheme \<Rightarrow> nat" where
  "read_measure x p = 2 * length (chan_buf (cp_rc p x)) + (if cp_s p x = None then 0 else 1)"

lemma next_slice_measure:
  "next_slice x p = Some (None, p') \<Longrightarrow> cp_s p x = None \<Longrightarrow> read_measure x p' < read_measure x p"
  by (auto simp: next_slice_def read_measure_def split: option.splits list.splits if_splits)

lemma drop_slice_measure: "cp_s p x \<noteq> None \<Longrightarrow> read_measure x (drop_slice x p) < read_measure x p"
  by (auto simp: drop_slice_def read_measure_def)

text \<open>\<open>Read(b)\<close> with \<open>len(b) = n\<close>: the bytes copied to \<open>b\<close>.\<close>

function ch_Read :: "nat \<Rightarrow> side \<Rightarrow> 'a chpipe_scheme \<Rightarrow> ((bytes \<times> err option) \<times> 'a chpipe_scheme) option" where
  "ch_Read n x p =
     (case cp_s p x of
        None \<Rightarrow>
          (case next_slice x p of
             None \<Rightarrow> None
           | Some (None, p') \<Rightarrow> ch_Read n x p'
           | Some (Some e, p') \<Rightarrow> Some (([], Some e), p'))
      | Some s \<Rightarrow>
          (if length (sdata s) \<le> cp_i p x then ch_Read n x (drop_slice x p)
           else (let c = take n (drop (cp_i p x) (sdata s))
                 in Some ((c, None), p\<lparr>cp_i := (cp_i p)(x := cp_i p x + length c)\<rparr>))))"
  by pat_completeness auto
termination
  by (relation "measure (\<lambda>(n, x, p). read_measure x p)") (auto simp: next_slice_measure drop_slice_measure)

declare ch_Read.simps [simp del]

datatype wchoice = WClosed | WSend

definition ch_Write :: "wchoice \<Rightarrow> side \<Rightarrow> bslice \<Rightarrow> 'a chpipe_scheme \<Rightarrow> ((nat \<times> err option) \<times> 'a chpipe_scheme) option" where
  "ch_Write ch x b p =
     (case ch of
        WClosed \<Rightarrow> if cp_closedq p then Some ((0, Some ErrClosed), p) else None
      | WSend \<Rightarrow>
          (let q = cp_rc p (peer_of x)
           in if can_send q
              then Some ((length (sdata b), None), p\<lparr>cp_rc := (cp_rc p)(peer_of x := chan_send b q)\<rparr>)
              else None))"

section \<open>Packets and messages\<close>

text \<open>\<open>srPipe\<close>: the buffer of the last packet is released by the next \<open>Recv\<close>.\<close>

record srPipe = chpipe +
  lastBytes :: "side \<Rightarrow> bslice option"

definition sr_Send :: "wchoice \<Rightarrow> side \<Rightarrow> bslice \<Rightarrow> srPipe \<Rightarrow> (err option \<times> srPipe) option" where
  "sr_Send ch x b p =
     (case ch of
        WClosed \<Rightarrow> if cp_closedq p then Some (Some ErrClosed, p) else None
      | WSend \<Rightarrow>
          (let q = cp_rc p (peer_of x)
           in if can_send q then Some (None, p\<lparr>cp_rc := (cp_rc p)(peer_of x := chan_send b q)\<rparr>) else None))"

definition sr_release :: "side \<Rightarrow> srPipe \<Rightarrow> srPipe" where
  "sr_release x p =
     (if lastBytes p x \<noteq> None
      then p\<lparr>cp_mem := (cp_mem p)\<lparr>bpool := Free (lastBytes p x) (bpool (cp_mem p))\<rparr>, lastBytes := (lastBytes p)(x := None)\<rparr> else p)"

definition sr_Recv :: "side \<Rightarrow> srPipe \<Rightarrow> (bslice outcome \<times> srPipe) option" where
  "sr_Recv x p0 =
     (let p = sr_release x p0
      in case chan_recv (cp_rc p x) of
           Some (b, q) \<Rightarrow> Some (Ok b, p\<lparr>cp_rc := (cp_rc p)(x := q), lastBytes := (lastBytes p)(x := Some b)\<rparr>)
         | None \<Rightarrow> if cp_closedq p then Some (Error ErrClosed, p\<lparr>lastBytes := (lastBytes p)(x := None)\<rparr>) else None)"

definition newSrPipe :: "Address \<Rightarrow> Address \<Rightarrow> oheap \<Rightarrow> nat \<Rightarrow> mem \<Rightarrow> srPipe outcome" where
  "newSrPipe la ra H a h =
     (case createPipe la ra H a h of
        Ok p \<Rightarrow> Ok (chpipe.extend p \<lparr>lastBytes = (\<lambda>_. None)\<rparr>)
      | Error e \<Rightarrow> Error e | Panic \<Rightarrow> Panic)"

text \<open>\<open>msrPipe\<close>: whole messages over two more channels; \<open>closedq\<close> is the one of the byte pipe.\<close>

record msrPipe = chpipe +
  mp_recvq :: "side \<Rightarrow> message chan"
  mp_lastMsg :: "side \<Rightarrow> message option"

definition newMsrPipe :: "Address \<Rightarrow> Address \<Rightarrow> oheap \<Rightarrow> nat \<Rightarrow> mem \<Rightarrow> msrPipe outcome" where
  "newMsrPipe la ra H a h =
     (case GetOptionDefault (Suc a) H a Opt_BufferSize of
        Some (VInt n) \<Rightarrow>
          if sint n < 0 then Panic
          else (case createPipe la ra H a h of
                  Ok p \<Rightarrow> Ok (chpipe.extend p \<lparr>mp_recvq = (\<lambda>_. make_chan (nat (sint n))), mp_lastMsg = (\<lambda>_. None)\<rparr>)
                | Error e \<Rightarrow> Error e | Panic \<Rightarrow> Panic)
      | _ \<Rightarrow> Panic)"

definition msr_SendMsg :: "wchoice \<Rightarrow> side \<Rightarrow> message \<Rightarrow> msrPipe \<Rightarrow> (err option \<times> msrPipe) option" where
  "msr_SendMsg ch x m p =
     (case ch of
        WClosed \<Rightarrow> if cp_closedq p then Some (Some ErrClosed, p) else None
      | WSend \<Rightarrow>
          (let q = mp_recvq p (peer_of x)
           in if can_send q then Some (None, p\<lparr>mp_recvq := (mp_recvq p)(peer_of x := chan_send m q)\<rparr>) else None))"

definition msr_release :: "side \<Rightarrow> msrPipe \<Rightarrow> msrPipe" where
  "msr_release x p =
     (case mp_lastMsg p x of
        Some m \<Rightarrow> p\<lparr>cp_mem := FreeAll m (cp_mem p), mp_lastMsg := (mp_lastMsg p)(x := None)\<rparr>
      | None \<Rightarrow> p)"

definition msr_RecvMsg :: "side \<Rightarrow> msrPipe \<Rightarrow> (message outcome \<times> msrPipe) option" where
  "msr_RecvMsg x p0 =
     (let p = msr_release x p0
      in case chan_recv (mp_recvq p x) of
           Some (m, q) \<Rightarrow> Some (Ok m, p\<lparr>mp_recvq := (mp_recvq p)(x := q), mp_lastMsg := (mp_lastMsg p)(x := Some m)\<rparr>)
         | None \<Rightarrow> if cp_closedq p then Some (Error ErrClosed, p\<lparr>mp_lastMsg := (mp_lastMsg p)(x := None)\<rparr>) else None)"

section \<open>The channel pipe as a byte pipe\<close>

text \<open>The bytes the end \<open>x\<close> has still to read.\<close>

definition stream :: "side \<Rightarrow> 'a chpipe_scheme \<Rightarrow> bytes" where
  "stream x p =
     (case cp_s p x of Some s \<Rightarrow> drop (cp_i p x) (sdata s) | None \<Rightarrow> []) @ concat (map sdata (chan_buf (cp_rc p x)))"

lemma next_slice_stream:
  assumes "next_slice x p = Some (None, p')" "cp_s p x = None"
  shows "stream x p' = stream x p" "cp_closedq p' = cp_closedq p"
  using assms by (auto simp: next_slice_def stream_def split: option.splits list.splits if_splits)

lemma drop_slice_stream:
  assumes "cp_s p x = Some s" "length (sdata s) \<le> cp_i p x"
  shows "stream x (drop_slice x p) = stream x p" "cp_closedq (drop_slice x p) = cp_closedq p"
  using assms by (simp_all add: drop_slice_def stream_def)

lemma ch_Read_cases:
  "(stream x p = [] \<and> \<not> cp_closedq p \<longrightarrow> ch_Read n x p = None) \<and>
   (stream x p = [] \<and> cp_closedq p \<longrightarrow> (\<exists>p'. ch_Read n x p = Some (([], Some ErrClosed), p') \<and> stream x p' = [] \<and> cp_closedq p')) \<and>
   (stream x p \<noteq> [] \<longrightarrow> (\<exists>k p'. k \<le> n \<and> (0 < n \<longrightarrow> 0 < k) \<and> k \<le> length (stream x p) \<and>
      ch_Read n x p = Some ((take k (stream x p), None), p') \<and> stream x p' = drop k (stream x p) \<and> cp_closedq p' = cp_closedq p))"
proof (induction n x p rule: ch_Read.induct)
  case (1 n x p)
  show ?case
  proof (cases "cp_s p x")
    case None
    show ?thesis
    proof (cases "chan_buf (cp_rc p x)")
      case Nil
      then have "stream x p = []" using None by (simp add: stream_def)
      then show ?thesis using None Nil by (auto simp: ch_Read.simps [of n x p] next_slice_def)
    next
      case (Cons s ss)
      then obtain p' where p': "next_slice x p = Some (None, p')" by (simp add: next_slice_def)
      have "ch_Read n x p = ch_Read n x p'" by (simp add: ch_Read.simps [of n x p] None p')
      with "1.IH"(1) [OF None p' refl refl] next_slice_stream [OF p' None] show ?thesis by simp
    qed
  next
    case (Some s)
    show ?thesis
    proof (cases "length (sdata s) \<le> cp_i p x")
      case True
      have "ch_Read n x p = ch_Read n x (drop_slice x p)" by (simp add: ch_Read.simps [of n x p] Some True)
      with "1.IH"(2) [OF Some True] drop_slice_stream [OF Some True] show ?thesis by simp
    next
      case False
      let ?d = "drop (cp_i p x) (sdata s)" and ?r = "concat (map sdata (chan_buf (cp_rc p x)))"
      let ?c = "take n ?d"
      let ?p = "p\<lparr>cp_i := (cp_i p)(x := cp_i p x + length ?c)\<rparr>"
      have st: "stream x p = ?d @ ?r" using Some by (simp add: stream_def)
      have c: "?c = take (length ?c) (stream x p)" unfolding st by (cases "length ?d \<le> n") simp_all
      have "stream x ?p = drop (length ?c) ?d @ ?r" using Some by (simp add: stream_def add.commute)
      then have "stream x ?p = drop (length ?c) (stream x p)" unfolding st by simp
      moreover have "ch_Read n x p = Some ((?c, None), ?p)" by (simp add: ch_Read.simps [of n x p] Some False Let_def)
      moreover have "stream x p \<noteq> []" "length ?c \<le> n" "length ?c \<le> length (stream x p)" "0 < n \<longrightarrow> 0 < length ?c"
        using False by (auto simp: st)
      moreover have "cp_closedq ?p = cp_closedq p" by simp
      ultimately have "length ?c \<le> n \<and> (0 < n \<longrightarrow> 0 < length ?c) \<and> length ?c \<le> length (stream x p) \<and>
        ch_Read n x p = Some ((take (length ?c) (stream x p), None), ?p) \<and> stream x ?p = drop (length ?c) (stream x p) \<and>
        cp_closedq ?p = cp_closedq p" using c by presburger
      then have "\<exists>k p'. k \<le> n \<and> (0 < n \<longrightarrow> 0 < k) \<and> k \<le> length (stream x p) \<and>
        ch_Read n x p = Some ((take k (stream x p), None), p') \<and> stream x p' = drop k (stream x p) \<and> cp_closedq p' = cp_closedq p"
        by (intro exI)
      with \<open>stream x p \<noteq> []\<close> show ?thesis by blast
    qed
  qed
qed

interpretation cs: byte_pipe "\<lambda>n. ch_Read n x" "stream x" cp_closedq "\<lambda>_. ErrClosed" "\<lambda>_. True"
  for x
  by unfold_locales (use ch_Read_cases in \<open>blast+\<close>)

text \<open>A write appends to what the other end has to read and leaves this end alone.\<close>

lemma ch_Write_stream:
  assumes "ch_Write WSend x b p = Some (r, p')"
  shows "r = (length (sdata b), None)" "stream (peer_of x) p' = stream (peer_of x) p @ sdata b"
    "stream x p' = stream x p" "cp_closedq p' = cp_closedq p"
proof -
  from assms have "r = (length (sdata b), None)"
    "p' = p\<lparr>cp_rc := (cp_rc p)(peer_of x := chan_send b (cp_rc p (peer_of x)))\<rparr>"
    by (simp_all add: ch_Write_def Let_def split: if_splits)
  moreover have "peer_of x \<noteq> x" by (cases x) simp_all
  ultimately show "r = (length (sdata b), None)" "stream (peer_of x) p' = stream (peer_of x) p @ sdata b"
    "stream x p' = stream x p" "cp_closedq p' = cp_closedq p"
    by (simp_all add: stream_def chan_send_def cong: option.case_cong)
qed

text \<open>A list of writes, each when the channel has room.\<close>

fun write_all :: "side \<Rightarrow> bslice list \<Rightarrow> 'a chpipe_scheme \<Rightarrow> 'a chpipe_scheme option" where
  "write_all x [] p = Some p"
| "write_all x (b # bs) p =
     (case ch_Write WSend x b p of Some ((_, None), p') \<Rightarrow> write_all x bs p' | _ \<Rightarrow> None)"

lemma write_all_stream:
  "write_all x bs p = Some p' \<Longrightarrow>
     stream (peer_of x) p' = stream (peer_of x) p @ concat (map sdata bs) \<and> stream x p' = stream x p \<and> cp_closedq p' = cp_closedq p"
proof (induction bs arbitrary: p)
  case (Cons b bs)
  then obtain n p1 where 1: "ch_Write WSend x b p = Some ((n, None), p1)" "write_all x bs p1 = Some p'"
    by (auto split: option.splits outcome.splits)
  from Cons.IH [OF 1(2)] ch_Write_stream [OF 1(1)] show ?case by simp
qed simp

lemma write_all_room:
  "length (chan_buf (cp_rc p (peer_of x))) + length bs \<le> chan_cap (cp_rc p (peer_of x)) \<Longrightarrow> \<exists>p'. write_all x bs p = Some p'"
  by (induction bs arbitrary: p) (auto simp: ch_Write_def Let_def chan_simps)

lemma peer_of_peer [simp]: "peer_of (peer_of x) = x"
  by (cases x) auto

lemma createPipe_fresh:
  assumes "createPipe la ra H a h = Ok p"
  shows "stream x p = []" "\<not> cp_closedq p" "chan_buf (cp_rc p x) = []" "cp_s p x = None"
  using assms by (auto simp: createPipe_def stream_def make_chan_def split: option.splits optval.splits if_splits)

section \<open>The interface of a message source\<close>

text \<open>
  The common contract of \<open>Recv\<close> and \<open>RecvMsg\<close>: the oldest pending item, the error only when the pipe
  is closed and nothing is pending, and a wait otherwise. \<open>recv_loop\<close> is a receiver that stops at the
  first error.
\<close>

fun recv_loop :: "('p \<Rightarrow> ('m outcome \<times> 'p) option) \<Rightarrow> nat \<Rightarrow> 'p \<Rightarrow> ('m list \<times> err \<times> 'p) option" where
  "recv_loop rcv 0 p = None"
| "recv_loop rcv (Suc n) p =
     (case rcv p of
        Some (Ok m, p') \<Rightarrow> map_option (\<lambda>(ms, e, p''). (m # ms, e, p'')) (recv_loop rcv n p')
      | Some (Error e, p') \<Rightarrow> Some ([], e, p')
      | _ \<Rightarrow> None)"

locale message_source =
  fixes rcv :: "'p \<Rightarrow> ('m outcome \<times> 'p) option"
    and pending :: "'p \<Rightarrow> 'm list"
    and ended :: "'p \<Rightarrow> bool"
  assumes rcv_next: "pending p = m # ms \<Longrightarrow> \<exists>p'. rcv p = Some (Ok m, p') \<and> pending p' = ms \<and> ended p' = ended p"
    and rcv_end: "pending p = [] \<Longrightarrow> ended p \<Longrightarrow> \<exists>p'. rcv p = Some (Error ErrClosed, p') \<and> pending p' = [] \<and> ended p'"
    and rcv_wait: "pending p = [] \<Longrightarrow> \<not> ended p \<Longrightarrow> rcv p = None"
begin

lemma drains: "ended p \<Longrightarrow> \<exists>p'. recv_loop rcv (Suc (length (pending p))) p = Some (pending p, ErrClosed, p') \<and> pending p' = []"
proof (induction "pending p" arbitrary: p)
  case Nil
  with rcv_end [of p] show ?case by auto
next
  case (Cons m ms)
  from rcv_next [OF Cons.hyps(2) [symmetric]] Cons.prems obtain p1 where
    1: "rcv p = Some (Ok m, p1)" "pending p1 = ms" "ended p1" by blast
  with Cons.hyps(1) [of p1] obtain p2 where "recv_loop rcv (Suc (length ms)) p1 = Some (ms, ErrClosed, p2)" "pending p2 = []"
    by blast
  with 1 Cons.hyps(2) show ?case by (auto simp flip: Cons.hyps(2))
qed

lemma waits_iff: "rcv p = None \<longleftrightarrow> pending p = [] \<and> \<not> ended p"
proof (cases "pending p")
  case Nil
  with rcv_end [of p] rcv_wait [of p] show ?thesis by auto
next
  case (Cons m ms)
  with rcv_next [OF Cons] show ?thesis by auto
qed

end

interpretation srq: message_source "sr_Recv x" "\<lambda>p. chan_buf (cp_rc p x)" cp_closedq
  for x
  by unfold_locales (auto simp: sr_Recv_def sr_release_def Let_def)

interpretation msq: message_source "msr_RecvMsg x" "\<lambda>p. chan_buf (mp_recvq p x)" cp_closedq
  for x
  by unfold_locales (auto simp: msr_RecvMsg_def msr_release_def Let_def split: option.splits)

section \<open>Properties\<close>

text \<open>An example pipe with the default buffer size, and two slices to write.\<close>

definition an_addr :: Address where
  "an_addr = NewAddress ''inproc.channel.rw'' ''a''"

definition default_pipe :: chpipe where
  "default_pipe = \<lparr>cp_rc = (\<lambda>_. make_chan 16), cp_s = (\<lambda>_. None), cp_i = (\<lambda>_. 0), cp_closedq = False,
     cp_addr = (\<lambda>_. an_addr), cp_mem = init_mem\<rparr>"

lemma createPipe_default: "createPipe an_addr an_addr [empty_options] 0 init_mem = Ok default_pipe"
proof -
  have "(\<lambda>x. case x of Accepted \<Rightarrow> an_addr | Dialled \<Rightarrow> an_addr) = (\<lambda>_. an_addr)" by (rule ext) (simp split: side.split)
  then show ?thesis
    by (simp add: createPipe_def default_pipe_def GetOptionDefault_def empty_options_def acceptOption_def Opt_BufferSize_def NewIntOption_def)
qed

definition slice_of :: "nat \<Rightarrow> bytes \<Rightarrow> bslice" where
  "slice_of a d = \<lparr>arr = a, backing = d, slen = length d\<rparr>"

lemma sdata_slice_of [simp]: "sdata (slice_of a d) = d"
  by (simp add: slice_of_def sdata_def)

text \<open>
  The channel pipe is a stream: \<open>io.ReadFull\<close> over \<open>Read\<close>, however the bytes are cut into slices, gives
  exactly what reading the remaining bytes of the stream gives, and blocks only when the pipe is open and too
  little has been written.
\<close>

theorem channel_ReadFull_refines:
  assumes "n \<le> length (stream x p) \<or> cp_closedq p"
  shows "\<exists>p'. read_full (\<lambda>n. ch_Read n x) n p = Some (fst (ReadFull n (view (stream x) (\<lambda>_. ErrClosed) p)), p') \<and>
    view (stream x) (\<lambda>_. ErrClosed) p' = snd (ReadFull n (view (stream x) (\<lambda>_. ErrClosed) p)) \<and> cp_closedq p' = cp_closedq p"
  using TrueI
proof (cases rule: cs.ReadFull_sim [where p = p and n = n and x = x])
qed (use assms in \<open>auto simp: view_def ReadFull_def split: if_splits\<close>)

theorem channel_ReadFull_refines_witness:
  "\<exists>q p'. write_all Dialled [slice_of 0 [1, 2], slice_of 1 [3]] default_pipe = Some q \<and>
     read_full (\<lambda>n. ch_Read n Accepted) 3 q = Some (Ok [1, 2, 3], p')"
proof -
  obtain q where q: "write_all Dialled [slice_of 0 [1, 2], slice_of 1 [3]] default_pipe = Some q"
    using write_all_room [of default_pipe Dialled "[slice_of 0 [1, 2], slice_of 1 [3]]"]
    by (auto simp: default_pipe_def make_chan_def)
  then have s: "stream Accepted q = [1, 2, 3]"
    using write_all_stream [OF q] createPipe_fresh [OF createPipe_default] by simp
  with channel_ReadFull_refines [of 3 Accepted q] have "\<exists>p'. read_full (\<lambda>n. ch_Read n Accepted) 3 q = Some (Ok [1, 2, 3], p')"
    by (auto simp: ReadFull_def view_def)
  with q show ?thesis by blast
qed

text \<open>
  Nothing written is lost, doubled or reordered by a close: after any writes on a new pipe and a \<open>Close\<close>
  by either end the other end reads exactly the concatenation of the slices, and then \<open>ErrClosed\<close>.
\<close>

theorem channel_delivers_writes:
  assumes "createPipe la ra H a h = Ok p" and "write_all x bs p = Some q" and "ch_Close q = (r, c)" and "0 < k"
  shows "\<exists>p' p''. read_full (\<lambda>n. ch_Read n (peer_of x)) (length (concat (map sdata bs))) c = Some (Ok (concat (map sdata bs)), p') \<and>
    ch_Read k (peer_of x) p' = Some (([], Some ErrClosed), p'')"
proof -
  have s: "stream (peer_of x) q = concat (map sdata bs)" and "\<not> cp_closedq q"
    using write_all_stream [OF assms(2)] createPipe_fresh [OF assms(1)] by simp_all
  with assms(3) have "c = q\<lparr>cp_closedq := True\<rparr>" by (simp add: ch_Close_def)
  with s have c: "cp_closedq c" "stream (peer_of x) c = concat (map sdata bs)" by (simp_all add: stream_def cong: option.case_cong)
  obtain p' where p': "read_full (\<lambda>n. ch_Read n (peer_of x)) (length (concat (map sdata bs))) c = Some (Ok (concat (map sdata bs)), p')"
      "stream (peer_of x) p' = []" "cp_closedq p'"
    using TrueI c by (cases rule: cs.ReadFull_sim [where p = c and n = "length (concat (map sdata bs))" and x = "peer_of x"])
      (auto simp: view_def ReadFull_def split: if_splits)
  with cs.rd_fails [OF TrueI assms(4) p'(2,3)] show ?thesis by auto
qed

theorem channel_delivers_writes_witness:
  "\<exists>q p' p''. write_all Accepted [slice_of 0 [7], slice_of 1 [], slice_of 2 [8, 9]] default_pipe = Some q \<and>
     read_full (\<lambda>n. ch_Read n Dialled) 3 (snd (ch_Close q)) = Some (Ok [7, 8, 9], p') \<and>
     ch_Read 1 Dialled p' = Some (([], Some ErrClosed), p'')"
proof -
  let ?bs = "[slice_of 0 [7], slice_of 1 [], slice_of 2 [8, 9]]"
  obtain q where q: "write_all Accepted ?bs default_pipe = Some q"
    using write_all_room [of default_pipe Accepted ?bs] by (auto simp: default_pipe_def make_chan_def)
  from channel_delivers_writes [OF createPipe_default q, of "fst (ch_Close q)" "snd (ch_Close q)" 1] q show ?thesis
    by (auto simp: numeral_3_eq_3)
qed

text \<open>
  Messages queued on a closed message pipe are not lost: a receiver that calls \<open>RecvMsg\<close> until an error gets
  all of them in the order they were sent and then \<open>ErrClosed\<close>; and the same for packets with \<open>Recv\<close>.
\<close>

theorem channel_messages_drain:
  assumes "cp_closedq p" and "cp_closedq q"
  shows "(\<exists>p'. recv_loop (msr_RecvMsg x) (Suc (length (chan_buf (mp_recvq p x)))) p = Some (chan_buf (mp_recvq p x), ErrClosed, p')) \<and>
    (\<exists>q'. recv_loop (sr_Recv x) (Suc (length (chan_buf (cp_rc q x)))) q = Some (chan_buf (cp_rc q x), ErrClosed, q'))"
  using msq.drains [OF assms(1), of x] srq.drains [OF assms(2), of x] by blast

definition closed_msr :: "message list \<Rightarrow> msrPipe" where
  "closed_msr ms = chpipe.extend (default_pipe\<lparr>cp_closedq := True\<rparr>)
     \<lparr>mp_recvq = (\<lambda>_. \<lparr>chan_cap = 16, chan_buf = ms\<rparr>), mp_lastMsg = (\<lambda>_. None)\<rparr>"

definition closed_sr :: "bslice list \<Rightarrow> srPipe" where
  "closed_sr bs = chpipe.extend (default_pipe\<lparr>cp_closedq := True, cp_rc := (\<lambda>_. \<lparr>chan_cap = 16, chan_buf = bs\<rparr>)\<rparr>)
     \<lparr>lastBytes = (\<lambda>_. None)\<rparr>"

theorem channel_messages_drain_witness:
  "(\<exists>p'. recv_loop (msr_RecvMsg Dialled) 3 (closed_msr [newMessage, newMessage\<lparr>buf := Some (slice_of 0 [])\<rparr>])
       = Some ([newMessage, newMessage\<lparr>buf := Some (slice_of 0 [])\<rparr>], ErrClosed, p')) \<and>
   (\<exists>q'. recv_loop (sr_Recv Dialled) 2 (closed_sr [slice_of 0 [1]]) = Some ([slice_of 0 [1]], ErrClosed, q'))"
  using channel_messages_drain [of "closed_msr [newMessage, newMessage\<lparr>buf := Some (slice_of 0 [])\<rparr>]" "closed_sr [slice_of 0 [1]]" Dialled]
  by (simp add: closed_msr_def closed_sr_def chpipe.extend_def default_pipe_def numeral_3_eq_3 numeral_2_eq_2)

end
