(* ===== verification/Pipes.thy ===== *)
theory Pipes
  imports Streams Ids Option_Registry Option_Sets
begin

text \<open>
  The pipes of \<open>connector/pipe.go\<close>: a connection of some transport wrapped so that it sends and receives
  messages. The connection is an argument, the record of the methods of its interface;
  \<open>None\<close> means that a call waits. The \<open>remPipe\<close> of the parent connector is an argument of the operations.
\<close>

section \<open>Connections\<close>

text \<open>
  \<open>transport.Connection\<close> (what is written is handed over as a slice), and what its \<open>RawConn\<close> offers when it is a \<open>SendReceiver\<close> or a
  \<open>MsgSendReceiver\<close>. \<open>'c\<close> is the state of the connection.
\<close>

record 'c Connection =
  cf_Scheme :: string
  cf_Read :: "'c read_op"
  cf_Write :: "bslice \<Rightarrow> 'c \<Rightarrow> ((nat \<times> err option) \<times> 'c) option"
  cf_Writev :: "bslice list \<Rightarrow> 'c \<Rightarrow> ((nat \<times> err option) \<times> 'c) option"
  cf_Close :: "'c \<Rightarrow> 'c"
  cf_isSR :: bool
  cf_Send :: "bslice \<Rightarrow> 'c \<Rightarrow> (err option \<times> 'c) option"
  cf_Recv :: "'c \<Rightarrow> ((bytes \<times> err option) \<times> 'c) option"
  cf_isMSR :: bool
  cf_SendMsg :: "message \<Rightarrow> 'c \<Rightarrow> (err option \<times> 'c) option"
  cf_RecvMsg :: "'c \<Rightarrow> ((message \<times> err option) \<times> 'c) option"

text \<open>
  \<open>bufio.Reader\<close>: the size of its buffer, the bytes read ahead and the error to report after them. \<open>Read\<close> makes at
  most one call of the connection's \<open>Read\<close>, straight into the caller's slice when that is not shorter than the buffer.
\<close>

record bufReader =
  br_size :: nat
  br_buf :: bytes
  br_err :: "err option"

definition NewReaderSize :: "nat \<Rightarrow> bufReader" where
  "NewReaderSize n = \<lparr>br_size = max n 16, br_buf = [], br_err = None\<rparr>"

definition bufio_Read :: "'c read_op \<Rightarrow> (bufReader \<times> 'c) read_op" where
  "bufio_Read rd n = (\<lambda>(br, c).
     if n = 0 then
       (if br_buf br \<noteq> [] then Some (([], None), (br, c)) else Some (([], br_err br), (br\<lparr>br_err := None\<rparr>, c)))
     else if br_buf br \<noteq> [] then
       Some ((take n (br_buf br), None), (br\<lparr>br_buf := drop n (br_buf br)\<rparr>, c))
     else if br_err br \<noteq> None then Some (([], br_err br), (br\<lparr>br_err := None\<rparr>, c))
     else if br_size br \<le> n then
       (case rd n c of None \<Rightarrow> None | Some ((b, e), c') \<Rightarrow> Some ((b, e), (br, c')))
     else
       (case rd (br_size br) c of
          None \<Rightarrow> None
        | Some ((b, e), c') \<Rightarrow>
            if b = [] then Some (([], e), (br, c'))
            else Some ((take n b, None), (br\<lparr>br_buf := drop n b, br_err := e\<rparr>, c'))))"

section \<open>State\<close>

datatype sendFunc = FSendBlockRaw | FSendRaw | FSendDirect | FSendBlock | FSendStream
datatype recvFunc = FRecvBlockRaw | FRecvRaw | FRecvDirect | FRecvBlock | FRecvStream

record 'c pipe =
  pp_conn :: 'c
  pp_closeOnEOF :: bool
  pp_raw :: bool
  pp_max :: u32
  pp_id :: u32
  pp_d :: "nat option"
  pp_l :: "nat option"
  pp_r :: "bufReader option"
  pp_sendFunc :: sendFunc
  pp_recvFunc :: recvFunc
  pp_level :: FreeLevel
  pp_rawBuf :: nat
  pp_closed :: bool

text \<open>A pipe with the generator of pipe identifiers and the state of its parent.\<close>

record ('c, 'w) pstate =
  ps_pipe :: "'c pipe"
  ps_ids :: id_gen
  ps_parent :: 'w

section \<open>newPipe\<close>

definition value_bool :: "oheap \<Rightarrow> nat \<Rightarrow> opt \<Rightarrow> bool outcome" where
  "value_bool H a o1 = (case valueFrom (Suc a) H o1 [a] of Some (VBool b) \<Rightarrow> Ok b | _ \<Rightarrow> Panic)"

definition value_int :: "oheap \<Rightarrow> nat \<Rightarrow> opt \<Rightarrow> int outcome" where
  "value_int H a o1 = (case valueFrom (Suc a) H o1 [a] of Some (VInt n) \<Rightarrow> Ok (sint n) | _ \<Rightarrow> Panic)"

definition value_uint32 :: "oheap \<Rightarrow> nat \<Rightarrow> opt \<Rightarrow> u32 outcome" where
  "value_uint32 H a o1 = (case valueFrom (Suc a) H o1 [a] of Some (VUint32 n) \<Rightarrow> Ok n | _ \<Rightarrow> Panic)"

definition default_int :: "oheap \<Rightarrow> nat \<Rightarrow> opt \<Rightarrow> int outcome" where
  "default_int H a o1 = (case GetOptionDefault (Suc a) H a o1 of Some (VInt n) \<Rightarrow> Ok (sint n) | _ \<Rightarrow> Panic)"

definition inproc_channel :: "'c Connection \<Rightarrow> bool" where
  "inproc_channel cf \<longleftrightarrow> prefix ''inproc.channel'' (cf_Scheme cf)"

text \<open>The functions, the free level and the raw buffer: the part after the literal and the reader.\<close>

definition select_raw :: "'c Connection \<Rightarrow> oheap \<Rightarrow> nat \<Rightarrow> 'c pipe \<Rightarrow> 'c pipe outcome" where
  "select_raw cf H a p =
     (let lvl = (if inproc_channel cf then LevelFreeMsg else LevelFreeAll)
      in if cf_isSR cf then Ok (p\<lparr>pp_sendFunc := FSendBlockRaw, pp_recvFunc := FRecvBlockRaw, pp_level := lvl\<rparr>)
         else case value_int H a Opt_RawRecvBufSize of
                Ok n \<Rightarrow> if n < 0 then Panic
                         else Ok (p\<lparr>pp_sendFunc := FSendRaw, pp_recvFunc := FRecvRaw, pp_rawBuf := nat n, pp_level := lvl\<rparr>)
              | Error e \<Rightarrow> Error e
              | Panic \<Rightarrow> Panic)"

definition select_msg :: "'c Connection \<Rightarrow> oheap \<Rightarrow> nat \<Rightarrow> 'c pipe \<Rightarrow> 'c pipe outcome" where
  "select_msg cf H a p0 =
     (case value_uint32 H a Opt_MaxRecvContentLength of
        Ok mx \<Rightarrow>
          (let p = p0\<lparr>pp_max := mx\<rparr>
           in if cf_isMSR cf
              then Ok (p\<lparr>pp_sendFunc := FSendDirect, pp_recvFunc := FRecvDirect,
                         pp_level := (if inproc_channel cf then LevelFreeNone else LevelFreeAll)\<rparr>)
              else (let lvl = (if inproc_channel cf then LevelFreeMsg else LevelFreeAll)
                    in Ok (if cf_isSR cf then p\<lparr>pp_sendFunc := FSendBlock, pp_recvFunc := FRecvBlock, pp_level := lvl\<rparr>
                           else p\<lparr>pp_sendFunc := FSendStream, pp_recvFunc := FRecvStream, pp_level := lvl\<rparr>)))
      | Error e \<Rightarrow> Error e
      | Panic \<Rightarrow> Panic)"

text \<open>The literal, with the reader that \<open>readBuffer\<close> asks for.\<close>

definition pipe_literal :: "'c \<Rightarrow> bool \<Rightarrow> bool \<Rightarrow> u32 \<Rightarrow> nat option \<Rightarrow> nat option \<Rightarrow> int \<Rightarrow> 'c pipe" where
  "pipe_literal tc coe raw i d l readBuffer =
     \<lparr>pp_conn = tc, pp_closeOnEOF = coe, pp_raw = raw, pp_max = 0, pp_id = i, pp_d = d, pp_l = l,
      pp_r = (if readBuffer > 0 then Some (NewReaderSize (nat readBuffer)) else None),
      pp_sendFunc = FSendStream, pp_recvFunc = FRecvStream, pp_level = LevelFreeAll, pp_rawBuf = 0, pp_closed = False\<rparr>"

text \<open>\<open>None\<close> when \<open>NextID\<close> never returns.\<close>

definition new_pipe :: "'c Connection \<Rightarrow> 'c \<Rightarrow> nat option \<Rightarrow> nat option \<Rightarrow> oheap \<Rightarrow> nat \<Rightarrow> id_gen \<Rightarrow> ('c pipe outcome \<times> id_gen) option" where
  "new_pipe cf tc d l H a g =
     (case (value_bool H a Opt_CloseOnEOF, value_bool H a Opt_Raw) of
        (Ok coe, Ok raw) \<Rightarrow>
          (case NextID g of
             None \<Rightarrow> None
           | Some (i, g') \<Rightarrow>
               (case default_int H a Opt_ReadBuffer of
                  Ok rb \<Rightarrow>
                    (let p = pipe_literal tc coe raw i d l rb
                     in Some (if raw then select_raw cf H a p else select_msg cf H a p, g'))
                | Error e \<Rightarrow> Some (Error e, g')
                | Panic \<Rightarrow> Some (Panic, g')))
      | _ \<Rightarrow> Some (Panic, g))"

definition pipe_ID :: "'c pipe \<Rightarrow> u32" where "pipe_ID p = pp_id p"
definition IsRaw :: "'c pipe \<Rightarrow> bool" where "IsRaw p = pp_raw p"
definition MsgFreeLevel :: "'c pipe \<Rightarrow> FreeLevel" where "MsgFreeLevel p = pp_level p"

section \<open>Close and the four transfers\<close>

abbreviation upd_pipe :: "('c pipe \<Rightarrow> 'c pipe) \<Rightarrow> ('c, 'w) pstate \<Rightarrow> ('c, 'w) pstate" where
  "upd_pipe f s \<equiv> s\<lparr>ps_pipe := f (ps_pipe s)\<rparr>"

abbreviation set_conn :: "'c \<Rightarrow> ('c, 'w) pstate \<Rightarrow> ('c, 'w) pstate" where
  "set_conn c s \<equiv> s\<lparr>ps_pipe := (ps_pipe s)\<lparr>pp_conn := c\<rparr>\<rparr>"

definition pipe_Close :: "'c Connection \<Rightarrow> (u32 \<Rightarrow> 'w \<Rightarrow> 'w) \<Rightarrow> ('c, 'w) pstate \<Rightarrow> err option \<times> ('c, 'w) pstate" where
  "pipe_Close cf remPipe s =
     (let p = ps_pipe s
      in if pp_closed p then (Some ErrClosed, s)
         else (None, s\<lparr>ps_pipe := p\<lparr>pp_closed := True, pp_conn := cf_Close cf (pp_conn p)\<rparr>,
                       ps_parent := remPipe (pp_id p) (ps_parent s),
                       ps_ids := Recycle (pp_id p) (ps_ids s)\<rparr>))"

text \<open>\<open>if errx := p.Close(); errx != nil then err = errx\<close>.\<close>

definition close_for :: "'c Connection \<Rightarrow> (u32 \<Rightarrow> 'w \<Rightarrow> 'w) \<Rightarrow> err \<Rightarrow> ('c, 'w) pstate \<Rightarrow> err \<times> ('c, 'w) pstate" where
  "close_for cf remPipe e s =
     (case pipe_Close cf remPipe s of (Some e', s') \<Rightarrow> (e', s') | (None, s') \<Rightarrow> (e, s'))"

text \<open>What \<open>Read\<close> and \<open>recv\<close> do with the error of the connection, when \<open>b\<close> is what was received.\<close>

definition receive_error ::
    "'c Connection \<Rightarrow> (u32 \<Rightarrow> 'w \<Rightarrow> 'w) \<Rightarrow> bytes \<Rightarrow> err option \<Rightarrow> ('c, 'w) pstate \<Rightarrow> (bytes \<times> err option) \<times> ('c, 'w) pstate" where
  "receive_error cf remPipe b e s =
     (case e of
        None \<Rightarrow> ((b, None), s)
      | Some e \<Rightarrow>
          if e = EOF then
            (if b \<noteq> [] then ((b, None), s)
             else if pp_closeOnEOF (ps_pipe s) then ((b, Some ErrClosed), snd (pipe_Close cf remPipe s))
             else ((b, Some EOF), s))
          else (let (e', s') = close_for cf remPipe e s in ((b, Some e'), s')))"

definition inner_Read :: "'c Connection \<Rightarrow> ('c, 'w) pstate read_op" where
  "inner_Read cf n s =
     (case pp_r (ps_pipe s) of
        None \<Rightarrow> map_option (\<lambda>(r, c). (r, set_conn c s)) (cf_Read cf n (pp_conn (ps_pipe s)))
      | Some br \<Rightarrow>
          map_option (\<lambda>(r, br', c). (r, s\<lparr>ps_pipe := (ps_pipe s)\<lparr>pp_r := Some br', pp_conn := c\<rparr>\<rparr>))
            (bufio_Read (cf_Read cf) n (br, pp_conn (ps_pipe s))))"

definition pipe_Read :: "'c Connection \<Rightarrow> (u32 \<Rightarrow> 'w \<Rightarrow> 'w) \<Rightarrow> ('c, 'w) pstate read_op" where
  "pipe_Read cf remPipe n s =
     (case inner_Read cf n s of
        None \<Rightarrow> None
      | Some ((b, e), s1) \<Rightarrow> Some (receive_error cf remPipe b e s1))"

definition pipe_recv :: "'c Connection \<Rightarrow> (u32 \<Rightarrow> 'w \<Rightarrow> 'w) \<Rightarrow> ('c, 'w) pstate \<Rightarrow> ((bytes \<times> err option) \<times> ('c, 'w) pstate) option" where
  "pipe_recv cf remPipe s =
     (case cf_Recv cf (pp_conn (ps_pipe s)) of
        None \<Rightarrow> None
      | Some ((b, e), c) \<Rightarrow> Some (receive_error cf remPipe b e (set_conn c s)))"

definition send_error ::
    "'c Connection \<Rightarrow> (u32 \<Rightarrow> 'w \<Rightarrow> 'w) \<Rightarrow> err option \<Rightarrow> ('c, 'w) pstate \<Rightarrow> err option \<times> ('c, 'w) pstate" where
  "send_error cf remPipe e s =
     (case e of None \<Rightarrow> (None, s) | Some e \<Rightarrow> (let (e', s') = close_for cf remPipe e s in (Some e', s')))"

definition pipe_Write ::
    "'c Connection \<Rightarrow> (u32 \<Rightarrow> 'w \<Rightarrow> 'w) \<Rightarrow> bslice \<Rightarrow> ('c, 'w) pstate \<Rightarrow> ((nat \<times> err option) \<times> ('c, 'w) pstate) option" where
  "pipe_Write cf remPipe b s =
     (case cf_Write cf b (pp_conn (ps_pipe s)) of
        None \<Rightarrow> None
      | Some ((n, e), c) \<Rightarrow> (let (e', s') = send_error cf remPipe e (set_conn c s) in Some ((n, e'), s')))"

definition pipe_Writev ::
    "'c Connection \<Rightarrow> (u32 \<Rightarrow> 'w \<Rightarrow> 'w) \<Rightarrow> bslice list \<Rightarrow> ('c, 'w) pstate \<Rightarrow> ((nat \<times> err option) \<times> ('c, 'w) pstate) option" where
  "pipe_Writev cf remPipe bs s =
     (case cf_Writev cf bs (pp_conn (ps_pipe s)) of
        None \<Rightarrow> None
      | Some ((n, e), c) \<Rightarrow> (let (e', s') = send_error cf remPipe e (set_conn c s) in Some ((n, e'), s')))"

definition pipe_send ::
    "'c Connection \<Rightarrow> (u32 \<Rightarrow> 'w \<Rightarrow> 'w) \<Rightarrow> bslice \<Rightarrow> ('c, 'w) pstate \<Rightarrow> (err option \<times> ('c, 'w) pstate) option" where
  "pipe_send cf remPipe b s =
     (case cf_Send cf b (pp_conn (ps_pipe s)) of
        None \<Rightarrow> None
      | Some (e, c) \<Rightarrow> Some (send_error cf remPipe e (set_conn c s)))"

section \<open>Sending messages\<close>

type_synonym ('c, 'w) send_op = "message \<Rightarrow> ('c, 'w) pstate \<Rightarrow> (err option outcome \<times> ('c, 'w) pstate) option"

abbreviation result :: "(err option \<times> 's) option \<Rightarrow> (err option outcome \<times> 's) option" where
  "result \<equiv> map_option (\<lambda>(e, s). (Ok e, s))"

definition with_encoded ::
    "(bslice \<Rightarrow> ('c, 'w) pstate \<Rightarrow> (err option \<times> ('c, 'w) pstate) option) \<Rightarrow> ('c, 'w) send_op" where
  "with_encoded out m s =
     (if HasFlags (meta m) MsgFlagRaw then Some (Ok None, s)
      else case Encode m of
             Ok (_, m') \<Rightarrow> (case buf m' of Some b \<Rightarrow> result (out b s) | None \<Rightarrow> Some (Panic, s))
           | Error e \<Rightarrow> Some (Error e, s)
           | Panic \<Rightarrow> Some (Panic, s))"

text \<open>\<open>msg.Content\<close> as a slice: its capacity ends with the content.\<close>

definition content_slice :: "message \<Rightarrow> bslice" where
  "content_slice m =
     \<lparr>arr = (case buf m of Some b \<Rightarrow> arr b | None \<Rightarrow> 0), backing = Content m, slen = length (Content m)\<rparr>"

definition pipe_sendMsg :: "'c Connection \<Rightarrow> (u32 \<Rightarrow> 'w \<Rightarrow> 'w) \<Rightarrow> ('c, 'w) send_op" where
  "pipe_sendMsg cf remPipe = with_encoded (\<lambda>b s. map_option (\<lambda>((n, e), s'). (e, s')) (pipe_Write cf remPipe b s))"

definition pipe_sendBlockMsg :: "'c Connection \<Rightarrow> (u32 \<Rightarrow> 'w \<Rightarrow> 'w) \<Rightarrow> ('c, 'w) send_op" where
  "pipe_sendBlockMsg cf remPipe = with_encoded (pipe_send cf remPipe)"

definition pipe_sendRawMsg :: "'c Connection \<Rightarrow> (u32 \<Rightarrow> 'w \<Rightarrow> 'w) \<Rightarrow> ('c, 'w) send_op" where
  "pipe_sendRawMsg cf remPipe m s =
     (if HasAnyFlags (meta m) then Some (Ok None, s)
      else result (map_option (\<lambda>((n, e), s'). (e, s')) (pipe_Write cf remPipe (content_slice m) s)))"

definition pipe_sendBlockRawMsg :: "'c Connection \<Rightarrow> (u32 \<Rightarrow> 'w \<Rightarrow> 'w) \<Rightarrow> ('c, 'w) send_op" where
  "pipe_sendBlockRawMsg cf remPipe m s =
     (if HasAnyFlags (meta m) then Some (Ok None, s) else result (pipe_send cf remPipe (content_slice m) s))"

text \<open>\<open>msr.SendMsg\<close> is called directly: its errors do not close the pipe.\<close>

definition send_direct :: "'c Connection \<Rightarrow> ('c, 'w) send_op" where
  "send_direct cf m s = result (map_option (\<lambda>(e, c). (e, set_conn c s)) (cf_SendMsg cf m (pp_conn (ps_pipe s))))"

definition pipe_SendMsg :: "'c Connection \<Rightarrow> (u32 \<Rightarrow> 'w \<Rightarrow> 'w) \<Rightarrow> ('c, 'w) send_op" where
  "pipe_SendMsg cf remPipe m s =
     (case pp_sendFunc (ps_pipe s) of
        FSendBlockRaw \<Rightarrow> pipe_sendBlockRawMsg cf remPipe m s
      | FSendRaw \<Rightarrow> pipe_sendRawMsg cf remPipe m s
      | FSendDirect \<Rightarrow> send_direct cf m s
      | FSendBlock \<Rightarrow> pipe_sendBlockMsg cf remPipe m s
      | FSendStream \<Rightarrow> pipe_sendMsg cf remPipe m s)"

section \<open>Receiving messages\<close>

text \<open>A received message and an error; both, when a raw pipe reports an end of file.\<close>

type_synonym ('c, 'w) recv_result = "((message option \<times> err option) outcome \<times> ('c, 'w) pstate \<times> mem) option"

definition pipe_recvMsg :: "'c Connection \<Rightarrow> (u32 \<Rightarrow> 'w \<Rightarrow> 'w) \<Rightarrow> picks \<Rightarrow> ('c, 'w) pstate \<Rightarrow> mem \<Rightarrow> ('c, 'w) recv_result" where
  "pipe_recvMsg cf remPipe pk s h =
     map_option (\<lambda>(r, s', h'). (msg_result r, s', h'))
       (NewMessageFromReader (rc_of (pipe_Read cf remPipe) (\<lambda>s. snd (pipe_Close cf remPipe s)))
          pk (pp_id (ps_pipe s)) s (pp_max (ps_pipe s)) h)"

definition pipe_recvBlockMsg :: "'c Connection \<Rightarrow> (u32 \<Rightarrow> 'w \<Rightarrow> 'w) \<Rightarrow> picks \<Rightarrow> ('c, 'w) pstate \<Rightarrow> mem \<Rightarrow> ('c, 'w) recv_result" where
  "pipe_recvBlockMsg cf remPipe pk s h =
     (case pipe_recv cf remPipe s of
        None \<Rightarrow> None
      | Some ((b, Some e), s') \<Rightarrow> Some (Ok (None, Some e), s', h)
      | Some ((b, None), s') \<Rightarrow>
          (let (r, h') = NewMessageFromBytes pk (pp_id (ps_pipe s')) b (pp_max (ps_pipe s')) h in Some (msg_result r, s', h')))"

text \<open>\<open>nil\<close> content stands for the end of the file; that message comes with the error.\<close>

definition raw_result :: "picks \<Rightarrow> (bytes \<times> err option) \<times> ('c, 'w) pstate \<Rightarrow> mem \<Rightarrow> ('c, 'w) recv_result" where
  "raw_result pk x h =
     (case x of
        ((b, Some e), s) \<Rightarrow>
          if e = EOF then
            (case NewRawRecvMessage pk (pp_id (ps_pipe s)) None h of
               (Ok m, h') \<Rightarrow> Some (Ok (Some m, Some EOF), s, h')
             | (Error e', h') \<Rightarrow> Some (Error e', s, h')
             | (Panic, h') \<Rightarrow> Some (Panic, s, h'))
          else Some (Ok (None, Some e), s, h)
      | ((b, None), s) \<Rightarrow>
          (let (r, h') = NewRawRecvMessage pk (pp_id (ps_pipe s)) (Some b) h in Some (msg_result r, s, h')))"

definition pipe_recvRawMsg :: "'c Connection \<Rightarrow> (u32 \<Rightarrow> 'w \<Rightarrow> 'w) \<Rightarrow> picks \<Rightarrow> ('c, 'w) pstate \<Rightarrow> mem \<Rightarrow> ('c, 'w) recv_result" where
  "pipe_recvRawMsg cf remPipe pk s h =
     (case pipe_Read cf remPipe (pp_rawBuf (ps_pipe s)) s of None \<Rightarrow> None | Some x \<Rightarrow> raw_result pk x h)"

definition pipe_recvBlockRawMsg :: "'c Connection \<Rightarrow> (u32 \<Rightarrow> 'w \<Rightarrow> 'w) \<Rightarrow> picks \<Rightarrow> ('c, 'w) pstate \<Rightarrow> mem \<Rightarrow> ('c, 'w) recv_result" where
  "pipe_recvBlockRawMsg cf remPipe pk s h =
     (case pipe_recv cf remPipe s of None \<Rightarrow> None | Some x \<Rightarrow> raw_result pk x h)"

definition pipe_recvDirectMsg :: "'c Connection \<Rightarrow> picks \<Rightarrow> ('c, 'w) pstate \<Rightarrow> mem \<Rightarrow> ('c, 'w) recv_result" where
  "pipe_recvDirectMsg cf pk s h =
     (case cf_RecvMsg cf (pp_conn (ps_pipe s)) of
        None \<Rightarrow> None
      | Some ((srcMsg, Some e), c) \<Rightarrow> Some (Ok (None, Some e), set_conn c s, h)
      | Some ((srcMsg, None), c) \<Rightarrow>
          (let (r, h') = NewMessageFromMsg pk (pp_id (ps_pipe s)) srcMsg (pp_max (ps_pipe s)) h
           in Some (msg_result r, set_conn c s, h')))"

definition pipe_RecvMsg :: "'c Connection \<Rightarrow> (u32 \<Rightarrow> 'w \<Rightarrow> 'w) \<Rightarrow> picks \<Rightarrow> ('c, 'w) pstate \<Rightarrow> mem \<Rightarrow> ('c, 'w) recv_result" where
  "pipe_RecvMsg cf remPipe pk s h =
     (case pp_recvFunc (ps_pipe s) of
        FRecvBlockRaw \<Rightarrow> pipe_recvBlockRawMsg cf remPipe pk s h
      | FRecvRaw \<Rightarrow> pipe_recvRawMsg cf remPipe pk s h
      | FRecvDirect \<Rightarrow> pipe_recvDirectMsg cf pk s h
      | FRecvBlock \<Rightarrow> pipe_recvBlockMsg cf remPipe pk s h
      | FRecvStream \<Rightarrow> pipe_recvMsg cf remPipe pk s h)"

end
