(* ===== verification/Pipe_Properties.thy ===== *)
theory Pipe_Properties
  imports Pipes Channels
begin

text \<open>
  What the pipes of the connector guarantee: the parent is told once, whatever fails; a stream pipe reads
  exactly the messages of the byte stream under it, buffered or not; and a message sent by one pipe over an
  in-process channel comes out of the other one.
\<close>

section \<open>Closing\<close>

text \<open>Between \<open>s\<close> and \<open>s'\<close> the pipe was not closed, or it was closed once: parent told, identifier recycled.\<close>

definition closing :: "(u32 \<Rightarrow> 'w \<Rightarrow> 'w) \<Rightarrow> ('c, 'w) pstate \<Rightarrow> ('c, 'w) pstate \<Rightarrow> bool" where
  "closing remPipe s s' \<longleftrightarrow>
     pp_id (ps_pipe s') = pp_id (ps_pipe s) \<and>
     (if pp_closed (ps_pipe s') = pp_closed (ps_pipe s) then ps_parent s' = ps_parent s \<and> ps_ids s' = ps_ids s
      else pp_closed (ps_pipe s') \<and> ps_parent s' = remPipe (pp_id (ps_pipe s)) (ps_parent s) \<and>
           ps_ids s' = Recycle (pp_id (ps_pipe s)) (ps_ids s))"

lemma closing_refl [simp]: "closing r s s"
  by (simp add: closing_def)

lemma closing_trans: "closing r s t \<Longrightarrow> closing r t u \<Longrightarrow> closing r s u"
  by (auto simp: closing_def split: if_splits)

lemma closing_conn [simp]: "closing r s (set_conn c s)" "closing r s (s\<lparr>ps_pipe := (ps_pipe s)\<lparr>pp_r := b, pp_conn := c\<rparr>\<rparr>)"
  by (simp_all add: closing_def)

lemma closing_pipe_Close: "closing r s (snd (pipe_Close cf r s))"
  by (simp add: closing_def pipe_Close_def Let_def)

lemma closing_close_for: "close_for cf r e s = (e', s') \<Longrightarrow> closing r s s'"
  using closing_pipe_Close [of r s cf] by (auto simp: close_for_def split: prod.splits option.splits)

lemma closing_receive_error: "receive_error cf r b e s = (x, s') \<Longrightarrow> closing r s s'"
  by (auto simp: receive_error_def closing_pipe_Close split: option.splits if_splits prod.splits dest: closing_close_for)

lemma closing_send_error: "send_error cf r e s = (x, s') \<Longrightarrow> closing r s s'"
  by (auto simp: send_error_def split: option.splits prod.splits dest: closing_close_for)

lemma closing_inner_Read: "inner_Read cf n s = Some (x, s') \<Longrightarrow> closing r s s'"
  by (auto simp: inner_Read_def split: option.splits)

lemma closing_Read: "pipe_Read cf r n s = Some (x, s') \<Longrightarrow> closing r s s'"
proof -
  assume "pipe_Read cf r n s = Some (x, s')"
  then obtain b e s1 where 1: "inner_Read cf n s = Some ((b, e), s1)" "receive_error cf r b e s1 = (x, s')"
    by (auto simp: pipe_Read_def split: option.splits)
  from closing_inner_Read [OF 1(1)] closing_receive_error [OF 1(2)] show ?thesis by (rule closing_trans)
qed

lemma closing_recv: "pipe_recv cf r s = Some (x, s') \<Longrightarrow> closing r s s'"
  by (auto simp: pipe_recv_def split: option.splits intro: closing_trans [OF closing_conn(1) closing_receive_error])

lemma closing_Write: "pipe_Write cf r b s = Some (x, s') \<Longrightarrow> closing r s s'"
  by (auto simp: pipe_Write_def Let_def split: option.splits prod.splits intro: closing_trans [OF closing_conn(1) closing_send_error])

lemma closing_send: "pipe_send cf r b s = Some (x, s') \<Longrightarrow> closing r s s'"
  by (auto simp: pipe_send_def split: option.splits intro: closing_trans [OF closing_conn(1) closing_send_error])

lemma closing_with_encoded:
  "with_encoded out m s = Some (x, s') \<Longrightarrow> (\<And>b y t. out b s = Some (y, t) \<Longrightarrow> closing r s t) \<Longrightarrow> closing r s s'"
  by (auto simp: with_encoded_def split: if_splits outcome.splits option.splits)

lemma closing_SendMsg: "pipe_SendMsg cf r m s = Some (x, s') \<Longrightarrow> closing r s s'"
  by (auto simp: pipe_SendMsg_def pipe_sendBlockRawMsg_def pipe_sendRawMsg_def send_direct_def pipe_sendBlockMsg_def pipe_sendMsg_def
      split: sendFunc.splits if_splits intro: closing_Write closing_send closing_with_encoded elim!: closing_with_encoded)

lemma raw_result_state: "raw_result pk (x, s) h = Some (y, s', h') \<Longrightarrow> s' = s"
  by (auto simp: raw_result_def Let_def split: prod.splits option.splits outcome.splits if_splits)

lemma closing_recvMsg: "pipe_recvMsg cf r pk s h = Some (x, s', h') \<Longrightarrow> closing r s s'"
  using FromReader_rel [where R = "closing r", OF closing_refl closing_trans closing_Read closing_pipe_Close]
  by (fastforce simp: pipe_recvMsg_def)

lemma closing_RecvMsg:
  assumes "pipe_RecvMsg cf r pk s h = Some (x, s', h')"
  shows "closing r s s'"
proof (cases "pp_recvFunc (ps_pipe s)")
  case FRecvBlockRaw
  with assms show ?thesis
    by (auto simp: pipe_RecvMsg_def pipe_recvBlockRawMsg_def split: option.splits dest: raw_result_state intro: closing_recv)
next
  case FRecvRaw
  with assms show ?thesis
    by (auto simp: pipe_RecvMsg_def pipe_recvRawMsg_def split: option.splits dest: raw_result_state intro: closing_Read)
next
  case FRecvDirect
  with assms show ?thesis
    by (auto simp: pipe_RecvMsg_def pipe_recvDirectMsg_def Let_def split: option.splits prod.splits)
next
  case FRecvBlock
  with assms show ?thesis
    by (auto simp: pipe_RecvMsg_def pipe_recvBlockMsg_def Let_def split: option.splits prod.splits intro: closing_recv)
next
  case FRecvStream
  with assms show ?thesis by (auto simp: pipe_RecvMsg_def intro: closing_recvMsg)
qed

text \<open>Calls on a pipe, one after the other; a call that waits ends the run.\<close>

datatype pipe_call = CallSend message | CallRecv picks | CallClose

fun run_pipe_call :: "'c Connection \<Rightarrow> (u32 \<Rightarrow> 'w \<Rightarrow> 'w) \<Rightarrow> pipe_call \<Rightarrow> ('c, 'w) pstate \<times> mem \<Rightarrow> (('c, 'w) pstate \<times> mem) option" where
  "run_pipe_call cf r (CallSend m) (s, h) = map_option (\<lambda>(_, s'). (s', h)) (pipe_SendMsg cf r m s)"
| "run_pipe_call cf r (CallRecv pk) (s, h) = map_option (\<lambda>(_, s', h'). (s', h')) (pipe_RecvMsg cf r pk s h)"
| "run_pipe_call cf r CallClose (s, h) = Some (snd (pipe_Close cf r s), h)"

fun run_pipe_calls :: "'c Connection \<Rightarrow> (u32 \<Rightarrow> 'w \<Rightarrow> 'w) \<Rightarrow> pipe_call list \<Rightarrow> ('c, 'w) pstate \<times> mem \<Rightarrow> (('c, 'w) pstate \<times> mem) option" where
  "run_pipe_calls cf r [] x = Some x"
| "run_pipe_calls cf r (c # cs) x = (case run_pipe_call cf r c x of None \<Rightarrow> None | Some x' \<Rightarrow> run_pipe_calls cf r cs x')"

lemma closing_call: "run_pipe_call cf r c (s, h) = Some (s', h') \<Longrightarrow> closing r s s'"
  by (cases c) (auto intro: closing_SendMsg closing_RecvMsg closing_pipe_Close)

lemma closing_calls: "run_pipe_calls cf r cs (s, h) = Some (s', h') \<Longrightarrow> closing r s s'"
proof (induction cs arbitrary: s h)
  case (Cons c cs)
  then obtain s1 h1 where 1: "run_pipe_call cf r c (s, h) = Some (s1, h1)" "run_pipe_calls cf r cs (s1, h1) = Some (s', h')"
    by (auto split: option.splits)
  from closing_call [OF 1(1)] Cons.IH [OF 1(2)] show ?case by (rule closing_trans)
qed simp

section \<open>A pipe as a stream\<close>

text \<open>A \<open>bufio.Reader\<close> over a stream is a stream: the bytes read ahead and then the rest.\<close>

definition buf_ok :: "bufReader \<Rightarrow> bool" where
  "buf_ok br \<longleftrightarrow> br_err br = None \<and> 0 < br_size br"

context byte_pipe
begin

lemma bufio_ahead:
  "0 < n \<Longrightarrow> br_buf br \<noteq> [] \<Longrightarrow>
     bufio_Read rd n (br, c) = Some ((take n (br_buf br), None), (br\<lparr>br_buf := drop n (br_buf br)\<rparr>, c))"
  by (simp add: bufio_Read_def)

lemma bufio_fetch:
  assumes "0 < n" "br_buf br = []" "buf_ok br" "ok c" "contents c \<noteq> []"
  obtains k br' c' where "0 < k" "k \<le> n" "k \<le> length (contents c)"
    "bufio_Read rd n (br, c) = Some ((take k (contents c), None), (br', c'))" "br_buf br' @ contents c' = drop k (contents c)"
    "buf_ok br'" "ended c' = ended c" "end_err c' = end_err c" "ok c'"
proof -
  let ?n = "if br_size br \<le> n then n else br_size br"
  have br: "br_err br = None" "0 < br_size br" using assms(3) by (simp_all add: buf_ok_def)
  then have "0 < ?n" using assms(1) by simp
  from rd_some [OF assms(4) this assms(5)] obtain k c' where k: "0 < k" "k \<le> ?n" "k \<le> length (contents c)"
    "rd ?n c = Some ((take k (contents c), None), c')" "contents c' = drop k (contents c)" "ended c' = ended c"
    "end_err c' = end_err c" "ok c'" by blast
  show thesis
  proof (cases "br_size br \<le> n")
    case True
    with k br assms show thesis by (intro that [of k br c']) (simp_all add: bufio_Read_def)
  next
    case False
    let ?br = "br\<lparr>br_buf := drop n (take k (contents c)), br_err := None\<rparr>"
    have "take k (contents c) \<noteq> []" using k(1) assms(5) by simp
    with False k(4) br assms(1,2) have 1: "bufio_Read rd n (br, c) = Some ((take (min n k) (contents c), None), (?br, c'))"
      by (simp add: bufio_Read_def min.commute)
    have 2: "br_buf ?br @ contents c' = drop (min n k) (contents c)"
    proof (cases "n \<le> k")
      case True
      then have "drop k (contents c) = drop (k - n) (drop n (contents c))" by simp
      with True k(5) show ?thesis by (simp add: drop_take min_def del: drop_drop)
    next
      case False
      with k(3,5) show ?thesis by (simp add: min_def)
    qed
    have 3: "0 < min n k" "min n k \<le> n" "min n k \<le> length (contents c)" "buf_ok ?br" using k(1,3) assms(1,3) by (simp_all add: buf_ok_def)
    from that [OF 3(1-3) 1 2 3(4) k(6-8)] show thesis .
  qed
qed

lemma bufio_end:
  assumes "0 < n" "br_buf br = []" "buf_ok br" "ok c" "contents c = []"
  shows "if ended c then \<exists>c'. bufio_Read rd n (br, c) = Some (([], Some (end_err c)), (br, c')) \<and> contents c' = [] \<and> ended c' \<and> ok c'
    else bufio_Read rd n (br, c) = None"
proof -
  have "0 < (if br_size br \<le> n then n else br_size br)" using assms(1,3) by (simp add: buf_ok_def)
  with rd_fails [OF assms(4) this assms(5)] rd_waits [OF assms(4) this assms(5)] assms(1-3) show ?thesis
    by (auto simp: bufio_Read_def buf_ok_def split: if_splits)
qed

end

text \<open>What is still to be read through a pipe, and how it ends, from the same of its connection.\<close>

definition ahead :: "'c pipe \<Rightarrow> bytes" where
  "ahead p = (case pp_r p of None \<Rightarrow> [] | Some br \<Rightarrow> br_buf br)"

definition pipe_contents :: "('c \<Rightarrow> bytes) \<Rightarrow> ('c, 'w) pstate \<Rightarrow> bytes" where
  "pipe_contents contents s = ahead (ps_pipe s) @ contents (pp_conn (ps_pipe s))"

definition pipe_end :: "('c \<Rightarrow> err) \<Rightarrow> ('c, 'w) pstate \<Rightarrow> err" where
  "pipe_end end_err s =
     (let p = ps_pipe s; e = end_err (pp_conn p)
      in if e = EOF then (if pp_closeOnEOF p then ErrClosed else EOF) else if pp_closed p then ErrClosed else e)"

definition pipe_ended :: "('c \<Rightarrow> bool) \<Rightarrow> ('c, 'w) pstate \<Rightarrow> bool" where
  "pipe_ended ended s = ended (pp_conn (ps_pipe s))"

definition pipe_ok :: "('c \<Rightarrow> bool) \<Rightarrow> ('c, 'w) pstate \<Rightarrow> bool" where
  "pipe_ok ok s \<longleftrightarrow> ok (pp_conn (ps_pipe s)) \<and> (\<forall>br. pp_r (ps_pipe s) = Some br \<longrightarrow> buf_ok br)"

lemmas pipe_stream_defs = pipe_contents_def pipe_end_def pipe_ended_def pipe_ok_def ahead_def Let_def

text \<open>What no operation changes.\<close>

definition same_cfg :: "('c, 'w) pstate \<Rightarrow> ('c, 'w) pstate \<Rightarrow> bool" where
  "same_cfg s s' \<longleftrightarrow>
     pp_id (ps_pipe s') = pp_id (ps_pipe s) \<and> pp_max (ps_pipe s') = pp_max (ps_pipe s) \<and>
     pp_recvFunc (ps_pipe s') = pp_recvFunc (ps_pipe s) \<and> pp_sendFunc (ps_pipe s') = pp_sendFunc (ps_pipe s)"

lemma same_cfg_Close: "same_cfg s (snd (pipe_Close cf r s))"
  by (simp add: same_cfg_def pipe_Close_def Let_def)

lemma same_cfg_trans: "same_cfg s t \<Longrightarrow> same_cfg t u \<Longrightarrow> same_cfg s u"
  by (simp add: same_cfg_def)

lemma same_cfg_receive_error: "receive_error cf r b e s = (x, s') \<Longrightarrow> same_cfg s s'"
  using same_cfg_Close [of s cf r]
  by (auto simp: receive_error_def close_for_def same_cfg_def split: option.splits if_splits prod.splits)

lemma same_cfg_Read: "pipe_Read cf r n s = Some (x, s') \<Longrightarrow> same_cfg s s'"
proof -
  assume "pipe_Read cf r n s = Some (x, s')"
  then obtain b e s1 where 1: "inner_Read cf n s = Some ((b, e), s1)" "receive_error cf r b e s1 = (x, s')"
    by (auto simp: pipe_Read_def split: option.splits)
  have "same_cfg s s1" using 1(1) by (auto simp: inner_Read_def same_cfg_def split: option.splits)
  from this same_cfg_receive_error [OF 1(2)] show ?thesis by (rule same_cfg_trans)
qed

lemma same_cfg_reader:
  "NewMessageFromReader (rc_of (pipe_Read cf r) (\<lambda>s. snd (pipe_Close cf r s))) pk pid s mx h = Some (x, s', h') \<Longrightarrow> same_cfg s s'"
  by (rule FromReader_rel [where R = same_cfg, OF _ same_cfg_trans same_cfg_Read same_cfg_Close]) (simp_all add: same_cfg_def)

text \<open>Receiving a number of messages, and sending a list of them.\<close>

fun recv_msgs :: "'c Connection \<Rightarrow> (u32 \<Rightarrow> 'w \<Rightarrow> 'w) \<Rightarrow> picks list \<Rightarrow> ('c, 'w) pstate \<Rightarrow> mem \<Rightarrow> (message list \<times> ('c, 'w) pstate \<times> mem) option" where
  "recv_msgs cf r [] s h = Some ([], s, h)"
| "recv_msgs cf r (pk # pks) s h =
     (case pipe_RecvMsg cf r pk s h of
        Some (Ok (Some m, None), s', h') \<Rightarrow> map_option (\<lambda>(ms, x). (m # ms, x)) (recv_msgs cf r pks s' h')
      | _ \<Rightarrow> None)"

fun send_msgs :: "'c Connection \<Rightarrow> (u32 \<Rightarrow> 'w \<Rightarrow> 'w) \<Rightarrow> message list \<Rightarrow> ('c, 'w) pstate \<Rightarrow> ('c, 'w) pstate option" where
  "send_msgs cf r [] s = Some s"
| "send_msgs cf r (m # ms) s =
     (case pipe_SendMsg cf r m s of Some (Ok None, s') \<Rightarrow> send_msgs cf r ms s' | _ \<Rightarrow> None)"

text \<open>A connection that is a stream and stays at its end when it is closed there.\<close>

locale stream_conn = byte_pipe "cf_Read cf" contents ended end_err ok
  for cf :: "'c Connection" and contents ended end_err ok +
  assumes close_end: "ok c \<Longrightarrow> contents c = [] \<Longrightarrow>
    contents (cf_Close cf c) = [] \<and> ended (cf_Close cf c) \<and> ok (cf_Close cf c)"
begin

lemma inner_some:
  assumes "pipe_ok ok s" "0 < n" "pipe_contents contents s \<noteq> []"
  obtains k s' where "0 < k" "k \<le> n" "k \<le> length (pipe_contents contents s)"
    "inner_Read cf n s = Some ((take k (pipe_contents contents s), None), s')"
    "pipe_contents contents s' = drop k (pipe_contents contents s)"
    "pipe_ended ended s' = pipe_ended ended s" "pipe_end end_err s' = pipe_end end_err s" "pipe_ok ok s'"
proof (cases "pp_r (ps_pipe s)")
  case None
  with assms have o: "ok (pp_conn (ps_pipe s))" "contents (pp_conn (ps_pipe s)) \<noteq> []"
    by (simp_all add: pipe_ok_def pipe_contents_def ahead_def)
  from rd_some [OF o(1) assms(2) o(2)] obtain k c' where k: "0 < k" "k \<le> n" "k \<le> length (contents (pp_conn (ps_pipe s)))"
    "cf_Read cf n (pp_conn (ps_pipe s)) = Some ((take k (contents (pp_conn (ps_pipe s))), None), c')"
    "contents c' = drop k (contents (pp_conn (ps_pipe s)))" "ended c' = ended (pp_conn (ps_pipe s))"
    "end_err c' = end_err (pp_conn (ps_pipe s))" "ok c'" by blast
  with None show thesis by (intro that [of k "set_conn c' s"]) (simp_all add: inner_Read_def pipe_stream_defs)
next
  case (Some br)
  with assms(1) have o: "ok (pp_conn (ps_pipe s))" "buf_ok br" by (simp_all add: pipe_ok_def)
  show thesis
  proof (cases "br_buf br = []")
    case False
    let ?s = "s\<lparr>ps_pipe := (ps_pipe s)\<lparr>pp_r := Some (br\<lparr>br_buf := drop n (br_buf br)\<rparr>), pp_conn := pp_conn (ps_pipe s)\<rparr>\<rparr>"
    have "take n (br_buf br) = take (min n (length (br_buf br))) (br_buf br)" "drop n (br_buf br) = drop (min n (length (br_buf br))) (br_buf br)"
      by (simp_all add: min_def)
    with False Some o assms(2) bufio_ahead [OF assms(2) False] show thesis
      by (intro that [of "min n (length (br_buf br))" ?s]) (simp_all add: inner_Read_def pipe_stream_defs buf_ok_def)
  next
    case True
    with Some assms(3) have "contents (pp_conn (ps_pipe s)) \<noteq> []" by (simp add: pipe_contents_def ahead_def)
    from bufio_fetch [OF assms(2) True o(2,1) this] obtain k br' c' where
      k: "0 < k" "k \<le> n" "k \<le> length (contents (pp_conn (ps_pipe s)))"
      "bufio_Read (cf_Read cf) n (br, pp_conn (ps_pipe s)) = Some ((take k (contents (pp_conn (ps_pipe s))), None), (br', c'))"
      "br_buf br' @ contents c' = drop k (contents (pp_conn (ps_pipe s)))"
      "buf_ok br'" "ended c' = ended (pp_conn (ps_pipe s))" "end_err c' = end_err (pp_conn (ps_pipe s))" "ok c'" by metis
    with True Some show thesis
      by (intro that [of k "s\<lparr>ps_pipe := (ps_pipe s)\<lparr>pp_r := Some br', pp_conn := c'\<rparr>\<rparr>"]) (simp_all add: inner_Read_def pipe_stream_defs)
  qed
qed

lemma inner_end:
  assumes "pipe_ok ok s" "0 < n" "pipe_contents contents s = []"
  shows "if pipe_ended ended s
    then \<exists>s'. inner_Read cf n s = Some (([], Some (end_err (pp_conn (ps_pipe s)))), s') \<and> pipe_contents contents s' = [] \<and>
      pipe_ended ended s' \<and> pipe_ok ok s' \<and> pp_closeOnEOF (ps_pipe s') = pp_closeOnEOF (ps_pipe s) \<and> pp_closed (ps_pipe s') = pp_closed (ps_pipe s)
    else inner_Read cf n s = None"
proof (cases "pp_r (ps_pipe s)")
  case None
  with assms have o: "ok (pp_conn (ps_pipe s))" "contents (pp_conn (ps_pipe s)) = []"
    by (simp_all add: pipe_ok_def pipe_contents_def ahead_def)
  from rd_fails [OF o(1) assms(2) o(2)] rd_waits [OF o(1) assms(2) o(2)] None show ?thesis
    by (auto simp: inner_Read_def pipe_stream_defs)
next
  case (Some br)
  with assms have o: "ok (pp_conn (ps_pipe s))" "buf_ok br" "br_buf br = []" "contents (pp_conn (ps_pipe s)) = []"
    by (simp_all add: pipe_ok_def pipe_contents_def ahead_def)
  from bufio_end [OF assms(2) o(3,2,1,4)] Some o show ?thesis
    by (auto simp: inner_Read_def pipe_stream_defs split: if_splits)
qed

lemma pipe_Close_end:
  assumes "pipe_ok ok s" "pipe_contents contents s = []" "pipe_ended ended s"
  shows "pipe_contents contents (snd (pipe_Close cf r s)) = [] \<and> pipe_ended ended (snd (pipe_Close cf r s)) \<and>
    pipe_ok ok (snd (pipe_Close cf r s))"
  using assms close_end [of "pp_conn (ps_pipe s)"] by (auto simp: pipe_Close_def Let_def pipe_stream_defs)

lemma pipe_byte_pipe:
  "byte_pipe (pipe_Read cf (r :: u32 \<Rightarrow> 'w \<Rightarrow> 'w)) (pipe_contents contents) (pipe_ended ended) (pipe_end end_err) (pipe_ok ok)"
proof
  fix s :: "('c, 'w) pstate" and n :: nat
  assume s: "pipe_ok ok s" "0 < n"
  {
    assume "pipe_contents contents s \<noteq> []"
    from inner_some [OF s this] obtain k s' where k: "0 < k" "k \<le> n" "k \<le> length (pipe_contents contents s)"
      "inner_Read cf n s = Some ((take k (pipe_contents contents s), None), s')"
      "pipe_contents contents s' = drop k (pipe_contents contents s)"
      "pipe_ended ended s' = pipe_ended ended s" "pipe_end end_err s' = pipe_end end_err s" "pipe_ok ok s'" by metis
    then have "pipe_Read cf r n s = Some ((take k (pipe_contents contents s), None), s')"
      by (simp add: pipe_Read_def receive_error_def)
    with k show "\<exists>k p'. 0 < k \<and> k \<le> n \<and> k \<le> length (pipe_contents contents s) \<and>
      pipe_Read cf r n s = Some ((take k (pipe_contents contents s), None), p') \<and>
      pipe_contents contents p' = drop k (pipe_contents contents s) \<and> pipe_ended ended p' = pipe_ended ended s \<and>
      pipe_end end_err p' = pipe_end end_err s \<and> pipe_ok ok p'" by blast
  next
    assume e: "pipe_contents contents s = []"
    {
      assume "pipe_ended ended s"
      with inner_end [OF s e] obtain s' where s': "inner_Read cf n s = Some (([], Some (end_err (pp_conn (ps_pipe s)))), s')"
        "pipe_contents contents s' = []" "pipe_ended ended s'" "pipe_ok ok s'"
        "pp_closeOnEOF (ps_pipe s') = pp_closeOnEOF (ps_pipe s)" "pp_closed (ps_pipe s') = pp_closed (ps_pipe s)" by auto
      note c = pipe_Close_end [OF s'(4,2,3), of r]
      have "fst (pipe_Close cf r s') = (if pp_closed (ps_pipe s) then Some ErrClosed else None)"
        by (simp add: pipe_Close_def Let_def s'(6))
      with s' c show "\<exists>p'. pipe_Read cf r n s = Some (([], Some (pipe_end end_err s)), p') \<and>
          pipe_contents contents p' = [] \<and> pipe_ended ended p' \<and> pipe_ok ok p'"
        by (cases "pipe_Close cf r s'") (auto simp: pipe_Read_def receive_error_def close_for_def pipe_end_def Let_def)
    next
      assume "\<not> pipe_ended ended s"
      with inner_end [OF s e] show "pipe_Read cf r n s = None" by (simp add: pipe_Read_def)
    }
  }
qed

sublocale pr: byte_pipe "pipe_Read cf r" "pipe_contents contents" "pipe_ended ended" "pipe_end end_err" "pipe_ok ok"
  for r :: "u32 \<Rightarrow> 'w \<Rightarrow> 'w"
  by (rule pipe_byte_pipe)

lemma recvMsg_ended:
  assumes "pipe_ok ok s" "pp_recvFunc (ps_pipe s) = FRecvStream" "pipe_ended ended s"
  shows "\<exists>x s' rd' h'. pipe_RecvMsg cf r pk s h = Some (msg_result x, s', h') \<and>
    NewMessageFromReader stream_rc pk (pp_id (ps_pipe s)) (view (pipe_contents contents) (pipe_end end_err) s) (pp_max (ps_pipe s)) h = Some (x, rd', h')"
proof -
  obtain x s' rd' h' where "NewMessageFromReader (rc_of (pipe_Read cf r) (\<lambda>s. snd (pipe_Close cf r s))) pk (pp_id (ps_pipe s)) s
      (pp_max (ps_pipe s)) h = Some (x, s', h')"
    "NewMessageFromReader stream_rc pk (pp_id (ps_pipe s)) (view (pipe_contents contents) (pipe_end end_err) s) (pp_max (ps_pipe s)) h = Some (x, rd', h')"
    by (rule pr.FromReader_ended [OF assms(1,3)])
  with assms(2) show ?thesis by (auto simp: pipe_RecvMsg_def pipe_recvMsg_def)
qed

lemma recvMsg_frame:
  assumes "pipe_ok ok s" "pp_recvFunc (ps_pipe s) = FRecvStream" "pipe_contents contents s = wire m @ rest"
    "sendable (pp_max (ps_pipe s)) m" "mem_good h"
  obtains d s' h' where "pipe_RecvMsg cf r pk s h = Some (Ok (Some d, None), s', h')" "delivers (pp_id (ps_pipe s)) m d"
    "pipe_contents contents s' = rest" "pipe_ok ok s'" "same_cfg s s'" "mem_good h'"
proof -
  let ?e = "pipe_end end_err s"
  obtain d h' where d: "read_step (pp_id (ps_pipe s)) (pp_max (ps_pipe s)) ?e pk (wire m @ rest) h = Some (d, rest, h')"
    "delivers (pp_id (ps_pipe s)) m d" "mem_good h'" using read_step_wire [OF assms(4,5)] by metis
  then obtain rd' where rd: "NewMessageFromReader stream_rc pk (pp_id (ps_pipe s)) (view (pipe_contents contents) (pipe_end end_err) s)
      (pp_max (ps_pipe s)) h = Some (Ok d, rd', h')" "rd_bytes rd' = rest"
    using assms(3) by (auto simp: read_step_def view_def split: option.splits outcome.splits)
  obtain s' where s': "NewMessageFromReader (rc_of (pipe_Read cf r) (\<lambda>s. snd (pipe_Close cf r s))) pk (pp_id (ps_pipe s)) s
      (pp_max (ps_pipe s)) h = Some (Ok d, s', h')" "view (pipe_contents contents) (pipe_end end_err) s' = rd'" "pipe_ok ok s'"
    by (rule pr.FromReader_message [OF assms(1) rd(1), of r "\<lambda>s. snd (pipe_Close cf r s)"])
  from s'(2) rd(2) have c: "pipe_contents contents s' = rest" by (auto simp: view_def)
  have "same_cfg s s'" by (rule same_cfg_reader [OF s'(1)])
  with s' c d assms(2) show thesis by (intro that) (auto simp: pipe_RecvMsg_def pipe_recvMsg_def)
qed

lemma recvMsg_frames:
  assumes "length pks = length ms" "pipe_ok ok s" "pp_recvFunc (ps_pipe s) = FRecvStream"
    "pipe_contents contents s = concat (map wire ms) @ rest" "\<forall>m \<in> set ms. sendable (pp_max (ps_pipe s)) m" "mem_good h"
  shows "\<exists>ds s' h'. recv_msgs cf r pks s h = Some (ds, s', h') \<and> list_all2 (delivers (pp_id (ps_pipe s))) ms ds \<and>
    pipe_contents contents s' = rest"
  using assms
proof (induction pks ms arbitrary: s h rule: list_induct2)
  case (Cons pk pks m ms)
  obtain d s1 h1 where 1: "pipe_RecvMsg cf r pk s h = Some (Ok (Some d, None), s1, h1)" "delivers (pp_id (ps_pipe s)) m d"
    "pipe_contents contents s1 = concat (map wire ms) @ rest" "pipe_ok ok s1" "same_cfg s s1" "mem_good h1"
    by (rule recvMsg_frame [OF Cons.prems(1,2), of m "concat (map wire ms) @ rest" h r pk]) (use Cons.prems in auto)
  then have "pp_recvFunc (ps_pipe s1) = FRecvStream" "\<forall>m \<in> set ms. sendable (pp_max (ps_pipe s1)) m" "pp_id (ps_pipe s1) = pp_id (ps_pipe s)"
    using Cons.prems by (auto simp: same_cfg_def)
  with Cons.IH [OF 1(4) _ 1(3) _ 1(6)] 1(1,2) show ?case by auto
qed simp

end

section \<open>The in-process connections\<close>

fun writev_all :: "(bslice \<Rightarrow> 'c \<Rightarrow> ((nat \<times> err option) \<times> 'c) option) \<Rightarrow> bslice list \<Rightarrow> 'c \<Rightarrow> ((nat \<times> err option) \<times> 'c) option" where
  "writev_all wr [] c = Some ((0, None), c)"
| "writev_all wr (b # bs) c =
     (case wr b c of
        None \<Rightarrow> None
      | Some ((n, Some e), c') \<Rightarrow> Some ((n, Some e), c')
      | Some ((n, None), c') \<Rightarrow>
          map_option (\<lambda>((m, e), c''). ((n + m, e), c'')) (writev_all wr bs c'))"

text \<open>An end of a channel pipe, a writer that sees the close when there is one.\<close>

definition ch_write :: "side \<Rightarrow> bslice \<Rightarrow> chpipe \<Rightarrow> ((nat \<times> err option) \<times> chpipe) option" where
  "ch_write x b p = ch_Write (if cp_closedq p then WClosed else WSend) x b p"

definition rw_conn :: "side \<Rightarrow> chpipe Connection" where
  "rw_conn x =
     \<lparr>cf_Scheme = ''inproc.channel.rw'', cf_Read = (\<lambda>n. ch_Read n x), cf_Write = ch_write x, cf_Writev = writev_all (ch_write x),
      cf_Close = (\<lambda>p. snd (ch_Close p)), cf_isSR = False, cf_Send = (\<lambda>_ _. None), cf_Recv = (\<lambda>_. None),
      cf_isMSR = False, cf_SendMsg = (\<lambda>_ _. None), cf_RecvMsg = (\<lambda>_. None)\<rparr>"

interpretation rw: stream_conn "rw_conn x" "stream x" cp_closedq "\<lambda>_. ErrClosed" "\<lambda>_. True"
  for x
proof
  fix n :: nat and p :: chpipe
  assume n: "0 < n"
  show "stream x p \<noteq> [] \<Longrightarrow> \<exists>k p'. 0 < k \<and> k \<le> n \<and> k \<le> length (stream x p) \<and>
      cf_Read (rw_conn x) n p = Some ((take k (stream x p), None), p') \<and> stream x p' = drop k (stream x p) \<and>
      cp_closedq p' = cp_closedq p \<and> ErrClosed = ErrClosed \<and> True"
    using cs.rd_some [OF TrueI n, of x p] by (simp add: rw_conn_def)
  show "stream x p = [] \<Longrightarrow> cp_closedq p \<Longrightarrow>
      \<exists>p'. cf_Read (rw_conn x) n p = Some (([], Some ErrClosed), p') \<and> stream x p' = [] \<and> cp_closedq p' \<and> True"
    using cs.rd_fails [OF TrueI n, of x p] by (simp add: rw_conn_def)
  show "stream x p = [] \<Longrightarrow> \<not> cp_closedq p \<Longrightarrow> cf_Read (rw_conn x) n p = None"
    using cs.rd_waits [OF TrueI n, of x p] by (simp add: rw_conn_def)
next
  fix c :: chpipe
  show "stream x c = [] \<Longrightarrow> stream x (cf_Close (rw_conn x) c) = [] \<and> cp_closedq (cf_Close (rw_conn x) c) \<and> True"
    by (simp add: rw_conn_def ch_Close_def stream_def cong: option.case_cong)
qed

lemma Encode_slice:
  assumes "wf_msg m"
  obtains m' b where "Encode m = Ok (wire m, m')" "buf m' = Some b" "sdata b = wire m" "msg_arr m' = msg_arr m"
proof -
  obtain m' where m': "Encode m = Ok (wire m, m')" "wf_msg m'" "msg_arr m' = msg_arr m" using Encode_ok [OF assms] by metis
  then obtain s b where s: "buf m = Some s" and b: "buf m' = Some b" "b = set_bytes (wire m) s"
    by (auto simp: Encode_def Let_def split: option.splits if_splits)
  have "slen s \<le> cap s" "length (wire m) = slen s"
    using assms s by (auto simp: wf_msg_def wire_simps(1) buf_bytes_def Let_def)
  with b(2) have "sdata b = wire m" by (simp add: set_bytes_def sdata_def)
  from that [OF m'(1) b(1) this m'(3)] show thesis .
qed

lemma rw_send:
  assumes "pp_sendFunc (ps_pipe s) = FSendStream" "\<not> cp_closedq (pp_conn (ps_pipe s))"
    "can_send (cp_rc (pp_conn (ps_pipe s)) (peer_of x))" "wf_msg m" "\<not> HasFlags (meta m) MsgFlagRaw"
  obtains s' where "pipe_SendMsg (rw_conn x) r m s = Some (Ok None, s')" "pp_sendFunc (ps_pipe s') = FSendStream"
    "\<not> cp_closedq (pp_conn (ps_pipe s'))" "stream (peer_of x) (pp_conn (ps_pipe s')) = stream (peer_of x) (pp_conn (ps_pipe s)) @ wire m"
    "length (chan_buf (cp_rc (pp_conn (ps_pipe s')) (peer_of x))) = Suc (length (chan_buf (cp_rc (pp_conn (ps_pipe s)) (peer_of x))))"
    "chan_cap (cp_rc (pp_conn (ps_pipe s')) (peer_of x)) = chan_cap (cp_rc (pp_conn (ps_pipe s)) (peer_of x))"
proof -
  obtain m' b where b: "Encode m = Ok (wire m, m')" "buf m' = Some b" "sdata b = wire m" using Encode_slice [OF assms(4)] by metis
  let ?c = "pp_conn (ps_pipe s)"
  let ?c' = "?c\<lparr>cp_rc := (cp_rc ?c)(peer_of x := chan_send b (cp_rc ?c (peer_of x)))\<rparr>"
  have w: "ch_Write WSend x b ?c = Some ((length (wire m), None), ?c')" using assms(3) b(3) by (simp add: ch_Write_def Let_def)
  then have "pipe_SendMsg (rw_conn x) r m s = Some (Ok None, set_conn ?c' s)"
    using assms b by (simp add: pipe_SendMsg_def pipe_sendMsg_def with_encoded_def pipe_Write_def rw_conn_def ch_write_def send_error_def)
  from that [OF this] ch_Write_stream [OF w] assms(1,2) b(3) show thesis by (simp add: chan_send_def)
qed

lemma rw_send_all:
  assumes "pp_sendFunc (ps_pipe s) = FSendStream" "\<not> cp_closedq (pp_conn (ps_pipe s))"
    "length (chan_buf (cp_rc (pp_conn (ps_pipe s)) (peer_of x))) + length ms \<le> chan_cap (cp_rc (pp_conn (ps_pipe s)) (peer_of x))"
    "\<forall>m \<in> set ms. wf_msg m \<and> \<not> HasFlags (meta m) MsgFlagRaw"
  shows "\<exists>s'. send_msgs (rw_conn x) r ms s = Some s' \<and>
    stream (peer_of x) (pp_conn (ps_pipe s')) = stream (peer_of x) (pp_conn (ps_pipe s)) @ concat (map wire ms)"
  using assms
proof (induction ms arbitrary: s)
  case (Cons m ms)
  have "can_send (cp_rc (pp_conn (ps_pipe s)) (peer_of x))" using Cons.prems(3) by (simp add: can_send_def)
  then obtain s1 where 1: "pipe_SendMsg (rw_conn x) r m s = Some (Ok None, s1)" "pp_sendFunc (ps_pipe s1) = FSendStream"
    "\<not> cp_closedq (pp_conn (ps_pipe s1))" "stream (peer_of x) (pp_conn (ps_pipe s1)) = stream (peer_of x) (pp_conn (ps_pipe s)) @ wire m"
    "length (chan_buf (cp_rc (pp_conn (ps_pipe s1)) (peer_of x))) = Suc (length (chan_buf (cp_rc (pp_conn (ps_pipe s)) (peer_of x))))"
    "chan_cap (cp_rc (pp_conn (ps_pipe s1)) (peer_of x)) = chan_cap (cp_rc (pp_conn (ps_pipe s)) (peer_of x))"
    using rw_send [OF Cons.prems(1,2), of x m r] Cons.prems(4) by auto
  from Cons.IH [OF 1(2,3)] 1 Cons.prems(3,4) show ?case by auto
qed simp

section \<open>Properties\<close>

text \<open>
  C34: The parent is told once: whatever is sent and received on a pipe and however often it fails or is closed,
  the parent's \<open>remPipe\<close> has been called and the identifier recycled exactly once when the pipe is closed, and
  not at all while it is open.
\<close>

theorem pipe_tells_parent_once:
  assumes "\<not> pp_closed (ps_pipe s)" and "run_pipe_calls cf remPipe cs (s, h) = Some (s', h')"
  shows "ps_parent s' = (if pp_closed (ps_pipe s') then remPipe (pp_id (ps_pipe s)) (ps_parent s) else ps_parent s) \<and>
    ps_ids s' = (if pp_closed (ps_pipe s') then Recycle (pp_id (ps_pipe s)) (ps_ids s) else ps_ids s)"
  using closing_calls [OF assms(2)] assms(1) by (auto simp: closing_def split: if_splits)

definition a_pipe :: "chpipe \<Rightarrow> chpipe pipe" where
  "a_pipe c = \<lparr>pp_conn = c, pp_closeOnEOF = True, pp_raw = False, pp_max = 0, pp_id = 5, pp_d = None, pp_l = None,
     pp_r = Some (NewReaderSize 64), pp_sendFunc = FSendStream, pp_recvFunc = FRecvStream, pp_level = LevelFreeMsg,
     pp_rawBuf = 0, pp_closed = False\<rparr>"

definition a_pstate :: "chpipe \<Rightarrow> (chpipe, u32 list) pstate" where
  "a_pstate c = \<lparr>ps_pipe = a_pipe c, ps_ids = NewRecyclableIDGenerator, ps_parent = []\<rparr>"

theorem pipe_tells_parent_once_witness:
  "\<exists>s' h'. run_pipe_calls (rw_conn Dialled) (\<lambda>i xs. i # xs) [CallClose, CallRecv fresh_picks, CallClose]
      (a_pstate (default_pipe\<lparr>cp_closedq := True\<rparr>), init_mem) = Some (s', h') \<and> ps_parent s' = [5]"
proof -
  let ?s = "a_pstate (default_pipe\<lparr>cp_closedq := True\<rparr>)"
  let ?s1 = "snd (pipe_Close (rw_conn Dialled) (\<lambda>i xs. i # xs) ?s)"
  have s1: "pp_recvFunc (ps_pipe ?s1) = FRecvStream" "pipe_ok (\<lambda>_. True) ?s1" "pipe_ended cp_closedq ?s1" "pp_closed (ps_pipe ?s1)"
    by (simp_all add: pipe_Close_def Let_def a_pstate_def a_pipe_def pipe_ok_def pipe_ended_def buf_ok_def NewReaderSize_def rw_conn_def ch_Close_def)
  obtain x s2 h2 where r: "pipe_RecvMsg (rw_conn Dialled) (\<lambda>i xs. i # xs) fresh_picks ?s1 init_mem = Some (x, s2, h2)"
    using rw.recvMsg_ended [OF s1(2,1,3)] by blast
  let ?s3 = "snd (pipe_Close (rw_conn Dialled) (\<lambda>i xs. i # xs) s2)"
  from r have run: "run_pipe_calls (rw_conn Dialled) (\<lambda>i xs. i # xs) [CallClose, CallRecv fresh_picks, CallClose] (?s, init_mem) = Some (?s3, h2)"
    by simp
  have "pp_closed (ps_pipe ?s3)" by (simp add: pipe_Close_def Let_def)
  with pipe_tells_parent_once [OF _ run] have "ps_parent ?s3 = [5]" by (simp add: a_pstate_def a_pipe_def)
  with run show ?thesis by blast
qed

text \<open>
  C11: A stream pipe implements reading from the byte stream: with or without a read buffer, and however the
  connection cuts the bytes, \<open>RecvMsg\<close> on a pipe over an ended channel returns exactly the message or the
  error that \<open>NewMessageFromReader\<close> returns on the bytes still to be read, ended by the error that the pipe
  reports, and leaves the pools the same.
\<close>

theorem stream_pipe_refines:
  assumes "pipe_ok (\<lambda>_. True) s" and "pp_recvFunc (ps_pipe s) = FRecvStream" and "cp_closedq (pp_conn (ps_pipe s))"
  shows "\<exists>x s' rd' h'. pipe_RecvMsg (rw_conn e) remPipe pk s h = Some (msg_result x, s', h') \<and>
    NewMessageFromReader stream_rc pk (pp_id (ps_pipe s)) (view (pipe_contents (stream e)) (pipe_end (\<lambda>_. ErrClosed)) s)
      (pp_max (ps_pipe s)) h = Some (x, rd', h')"
  using rw.recvMsg_ended [OF assms(1,2)] assms(3) by (simp add: pipe_ended_def)

lemma a_pstate_ok: "pipe_ok (\<lambda>_. True) (a_pstate c)"
  by (simp add: pipe_ok_def a_pstate_def a_pipe_def buf_ok_def NewReaderSize_def)

theorem stream_pipe_refines_witness:
  "\<exists>x s' rd' h'. pipe_RecvMsg (rw_conn Dialled) (\<lambda>i xs. i # xs) fresh_picks (a_pstate (default_pipe\<lparr>cp_closedq := True\<rparr>)) init_mem
      = Some (msg_result x, s', h') \<and> NewMessageFromReader stream_rc fresh_picks 5
      \<lparr>rd_bytes = [], rd_end = ErrClosed, rd_closed = False\<rparr> 0 init_mem = Some (x, rd', h')"
proof -
  let ?s = "a_pstate (default_pipe\<lparr>cp_closedq := True\<rparr>)"
  have "view (pipe_contents (stream Dialled)) (pipe_end (\<lambda>_. ErrClosed)) ?s = \<lparr>rd_bytes = [], rd_end = ErrClosed, rd_closed = False\<rparr>"
    by (simp add: view_def pipe_stream_defs a_pstate_def a_pipe_def NewReaderSize_def stream_def default_pipe_def make_chan_def)
  with stream_pipe_refines [OF a_pstate_ok, of "default_pipe\<lparr>cp_closedq := True\<rparr>" Dialled "\<lambda>i xs. i # xs" fresh_picks init_mem]
  show ?thesis by (simp add: a_pstate_def a_pipe_def)
qed

text \<open>
  C12: From pipe to pipe: messages sent by one end of an in-process channel come out of the pipe at the other end,
  complete, in order and with the identifier of the receiving pipe added to their source.
\<close>

theorem channel_pipe_roundtrip:
  assumes "pp_sendFunc (ps_pipe A) = FSendStream" and "pp_recvFunc (ps_pipe B) = FRecvStream"
    and "\<not> cp_closedq (pp_conn (ps_pipe A))" and "stream (peer_of e) (pp_conn (ps_pipe A)) = []"
    and "length (chan_buf (cp_rc (pp_conn (ps_pipe A)) (peer_of e))) + length ms \<le> chan_cap (cp_rc (pp_conn (ps_pipe A)) (peer_of e))"
    and "\<forall>m \<in> set ms. sendable (pp_max (ps_pipe B)) m \<and> \<not> HasFlags (meta m) MsgFlagRaw"
    and "pipe_ok (\<lambda>_. True) B" and "ahead (ps_pipe B) = []" and "length pks = length ms" and "mem_good h"
  shows "\<exists>A' ds B' h'. send_msgs (rw_conn e) remPipe ms A = Some A' \<and>
    recv_msgs (rw_conn (peer_of e)) remPipe pks (set_conn (pp_conn (ps_pipe A')) B) h = Some (ds, B', h') \<and>
    list_all2 (delivers (pp_id (ps_pipe B))) ms ds"
proof -
  have "\<forall>m \<in> set ms. wf_msg m \<and> \<not> HasFlags (meta m) MsgFlagRaw" using assms(6) by (simp add: sendable_def)
  from rw_send_all [OF assms(1,3,5) this, of remPipe] assms(4) obtain A' where
    A': "send_msgs (rw_conn e) remPipe ms A = Some A'" "stream (peer_of e) (pp_conn (ps_pipe A')) = concat (map wire ms)" by auto
  let ?B = "set_conn (pp_conn (ps_pipe A')) B"
  have "pipe_ok (\<lambda>_. True) ?B" "pp_recvFunc (ps_pipe ?B) = FRecvStream" "pipe_contents (stream (peer_of e)) ?B = concat (map wire ms) @ []"
    "\<forall>m \<in> set ms. sendable (pp_max (ps_pipe ?B)) m"
    using assms(2,6,7,8) A'(2) by (simp_all add: pipe_ok_def pipe_contents_def ahead_def)
  from rw.recvMsg_frames [OF assms(9) this assms(10), of remPipe] A'(1) show ?thesis by auto
qed

theorem channel_pipe_roundtrip_witness:
  "\<exists>m h A' ds B' h'. sendable 0 m \<and> mem_good h \<and> send_msgs (rw_conn Accepted) (\<lambda>i xs. i # xs) [m, m] (a_pstate default_pipe) = Some A' \<and>
    recv_msgs (rw_conn Dialled) (\<lambda>i xs. i # xs) [fresh_picks, fresh_picks] (a_pstate (pp_conn (ps_pipe A'))) h = Some (ds, B', h') \<and>
    list_all2 (delivers 5) [m, m] ds"
proof -
  obtain m h where m: "sendable 0 m" "mem_good h" "\<not> HasFlags (meta m) MsgFlagRaw"
    using example_msg by blast
  have c: "stream Dialled default_pipe = []" "\<not> cp_closedq default_pipe"
    "length (chan_buf (cp_rc default_pipe Dialled)) + 2 \<le> chan_cap (cp_rc default_pipe Dialled)"
    by (simp_all add: stream_def default_pipe_def make_chan_def)
  have "ahead (ps_pipe (a_pstate default_pipe)) = []" by (simp add: ahead_def a_pstate_def a_pipe_def NewReaderSize_def)
  with channel_pipe_roundtrip [of "a_pstate default_pipe" "a_pstate default_pipe" Accepted "[m, m]" "[fresh_picks, fresh_picks]" h "\<lambda>i xs. i # xs"]
    m c a_pstate_ok [of default_pipe] show ?thesis by (fastforce simp: a_pstate_def a_pipe_def)
qed

text \<open>
  How \<open>newPipe\<close> configures a pipe: its identifier is new, sending and receiving use the same encoding, messages
  are handed over whole only when the connection can, raw pipes exchange plain content, and a sent message is
  left to the receiver (not freed, or only its struct freed) exactly on the in-process channels, where the peer frees it.
\<close>

theorem newPipe_configures:
  assumes "new_pipe cf tc d l H a g = Some (Ok p, g')"
  shows "valid_id (pp_id p) \<and> pp_id p \<notin> ids g \<and> ids g' = insert (pp_id p) (ids g) \<and> \<not> pp_closed p \<and>
    value_bool H a Opt_Raw = Ok (pp_raw p) \<and>
    (pp_sendFunc p, pp_recvFunc p) =
      (if pp_raw p then (if cf_isSR cf then (FSendBlockRaw, FRecvBlockRaw) else (FSendRaw, FRecvRaw))
       else if cf_isMSR cf then (FSendDirect, FRecvDirect)
       else if cf_isSR cf then (FSendBlock, FRecvBlock) else (FSendStream, FRecvStream)) \<and>
    pp_level p = (if \<not> inproc_channel cf then LevelFreeAll
      else if pp_sendFunc p = FSendDirect then LevelFreeNone else LevelFreeMsg)"
proof -
  obtain coe raw i rb where v: "value_bool H a Opt_Raw = Ok raw" "NextID g = Some (i, g')"
    and p: "(if raw then select_raw cf H a (pipe_literal tc coe raw i d l rb) else select_msg cf H a (pipe_literal tc coe raw i d l rb)) = Ok p"
    using assms by (auto simp: new_pipe_def Let_def split: outcome.splits option.splits prod.splits)
  from p have "pp_id p = i \<and> pp_raw p = raw \<and> \<not> pp_closed p \<and>
    (pp_sendFunc p, pp_recvFunc p) =
      (if raw then (if cf_isSR cf then (FSendBlockRaw, FRecvBlockRaw) else (FSendRaw, FRecvRaw))
       else if cf_isMSR cf then (FSendDirect, FRecvDirect)
       else if cf_isSR cf then (FSendBlock, FRecvBlock) else (FSendStream, FRecvStream)) \<and>
    pp_level p = (if \<not> inproc_channel cf then LevelFreeAll
      else if pp_sendFunc p = FSendDirect then LevelFreeNone else LevelFreeMsg)"
    by (auto simp: select_raw_def select_msg_def pipe_literal_def Let_def split: if_splits outcome.splits)
  with v NextID_result [OF v(2)] show ?thesis by simp
qed

theorem newPipe_configures_witness:
  "\<exists>p g'. new_pipe (rw_conn Dialled) default_pipe None None [empty_options] 0 NewRecyclableIDGenerator = Some (Ok p, g') \<and>
     pp_level p = LevelFreeMsg \<and> pp_sendFunc p = FSendStream \<and> pp_id p \<noteq> 0"
proof -
  obtain r where "NextID NewRecyclableIDGenerator = Some r"
    using NextID_returns_at [of 1 NewRecyclableIDGenerator] by (auto simp: valid_id_def NewRecyclableIDGenerator_def word_less_nat_alt)
  then obtain i g' where i: "NextID NewRecyclableIDGenerator = Some (i, g')" by (cases r) auto
  have "\<exists>p. new_pipe (rw_conn Dialled) default_pipe None None [empty_options] 0 NewRecyclableIDGenerator = Some (Ok p, g')"
    by (simp add: new_pipe_def i value_bool_def default_int_def select_msg_def value_uint32_def GetOptionDefault_def empty_options_def
        acceptOption_def program_options_defs option_constructors Let_def rw_conn_def)
  then obtain p where p: "new_pipe (rw_conn Dialled) default_pipe None None [empty_options] 0 NewRecyclableIDGenerator = Some (Ok p, g')" ..
  have "prefix ''inproc.channel'' ''inproc.channel.rw''" by (simp add: prefix_def)
  with newPipe_configures [OF p] p show ?thesis by (auto simp: rw_conn_def inproc_channel_def valid_id_def value_bool_def
        empty_options_def acceptOption_def program_options_defs option_constructors)
qed

end
