(* ===== verification/Dialers.thy ===== *)
theory Dialers
  imports Option_Registry Option_Sets
begin

text \<open>
  The dialer of \<open>connector/dialer.go\<close>: dialling, reconnecting with a growing delay, stopping and starting. A
  step is one section under the dialer's lock (or the check of \<open>closedq\<close> before it); the goroutines in between
  are a list of program counters, and the timers of \<open>time.AfterFunc\<close> a list of delays with a flag that says
  whether the timer is still to fire. The transport's \<open>Dial\<close> gives its result as an argument.
\<close>

section \<open>State\<close>

text \<open>
  \<open>GDial r\<close> is about to run \<open>dial(r)\<close>, \<open>GDialing r\<close> has called the transport, \<open>GAdd\<close> has a connection
  and has called \<open>addPipe\<close>; \<open>GClosed\<close> runs \<open>pipeClosed\<close>, \<open>GReconn\<close> and \<open>GRemove\<close> are its later parts.
\<close>

datatype dthread = GDial bool | GDialing bool | GAdd | GClosed | GReconn | GRemove | GDone "err option" | GPanic

record timer =
  tm_delay :: int
  tm_pending :: bool

record dialer =
  d_heap :: oheap
  d_opts :: nat
  d_addr :: string
  d_closedq :: bool
  d_stopped :: bool
  d_active :: bool
  d_dialing :: bool
  d_connected :: bool
  d_redialer :: "nat option"
  d_reconnTime :: int
  d_timers :: "timer list"
  d_threads :: "dthread list"
  d_live :: nat

text \<open>\<open>d_live\<close> counts the pipes made by this dialer whose close it has not been told of.\<close>

definition newDialer :: "string \<Rightarrow> oheap \<Rightarrow> nat \<Rightarrow> dialer" where
  "newDialer ad H a =
     \<lparr>d_heap = H, d_opts = a, d_addr = ad, d_closedq = False, d_stopped = False, d_active = False, d_dialing = False,
      d_connected = False, d_redialer = None, d_reconnTime = 0, d_timers = [], d_threads = [], d_live = 0\<rparr>"

section \<open>Options\<close>

definition dial_duration :: "opt \<Rightarrow> dialer \<Rightarrow> int outcome" where
  "dial_duration o1 d =
     (case GetOptionDefault (Suc (d_opts d)) (d_heap d) (d_opts d) o1 of Some (VDuration t) \<Rightarrow> Ok (sint t) | _ \<Rightarrow> Panic)"

definition dial_bool :: "opt \<Rightarrow> dialer \<Rightarrow> bool outcome" where
  "dial_bool o1 d =
     (case GetOptionDefault (Suc (d_opts d)) (d_heap d) (d_opts d) o1 of Some (VBool b) \<Rightarrow> Ok b | _ \<Rightarrow> Panic)"

definition minReconnectTime :: "dialer \<Rightarrow> int outcome" where
  "minReconnectTime d = dial_duration Opt_MinReconnectTime d"

definition maxReconnectTime :: "dialer \<Rightarrow> int outcome" where
  "maxReconnectTime d = dial_duration Opt_MaxReconnectTime d"

definition dialAsync :: "dialer \<Rightarrow> bool outcome" where
  "dialAsync d = dial_bool Opt_DialAsync d"

definition reconnect :: "dialer \<Rightarrow> bool outcome" where
  "reconnect d = dial_bool Opt_Reconnect d"

section \<open>Timers\<close>

definition Stop_redialer :: "dialer \<Rightarrow> dialer" where
  "Stop_redialer d =
     (case d_redialer d of
        None \<Rightarrow> d
      | Some k \<Rightarrow> d\<lparr>d_timers := (d_timers d)[k := (d_timers d ! k)\<lparr>tm_pending := False\<rparr>]\<rparr>)"

definition AfterFunc_redial :: "int \<Rightarrow> dialer \<Rightarrow> dialer" where
  "AfterFunc_redial t d =
     d\<lparr>d_timers := d_timers d @ [\<lparr>tm_delay = t, tm_pending = True\<rparr>], d_redialer := Some (length (d_timers d))\<rparr>"

definition go :: "dthread \<Rightarrow> dialer \<Rightarrow> dialer" where
  "go g d = d\<lparr>d_threads := d_threads d @ [g]\<rparr>"

text \<open>A timer that fires runs \<open>redial\<close> in a goroutine of its own.\<close>

definition fire :: "nat \<Rightarrow> dialer \<Rightarrow> dialer option" where
  "fire k d =
     (if k < length (d_timers d) \<and> tm_pending (d_timers d ! k)
      then Some (go (GDial True) (d\<lparr>d_timers := (d_timers d)[k := (d_timers d ! k)\<lparr>tm_pending := False\<rparr>]\<rparr>))
      else None)"

section \<open>Operations\<close>

text \<open>The error is the answer of the call; without one, \<open>dial\<close> runs as the goroutine added last.\<close>

definition dialer_Dial :: "dialer \<Rightarrow> err option outcome \<times> dialer" where
  "dialer_Dial d =
     (if d_closedq d then (Ok (Some ErrClosed), d)
      else if d_active d then (Ok (Some ErrAddrInUse), d)
      else (case minReconnectTime d of
              Ok t \<Rightarrow>
                (let d1 = d\<lparr>d_active := True, d_reconnTime := t\<rparr>
                 in case dialAsync d1 of
                      Ok async \<Rightarrow> (Ok None, go (GDial async) d1)
                    | Error e \<Rightarrow> (Error e, d1)
                    | Panic \<Rightarrow> (Panic, d1))
            | Error e \<Rightarrow> (Error e, d)
            | Panic \<Rightarrow> (Panic, d)))"

definition dialer_Close :: "dialer \<Rightarrow> err option \<times> dialer" where
  "dialer_Close d = (if d_closedq d then (Some ErrClosed, d) else (None, d\<lparr>d_closedq := True\<rparr>))"

definition reconn :: "dialer \<Rightarrow> bool outcome \<times> dialer" where
  "reconn d =
     (if d_closedq d then (Ok True, d)
      else case reconnect d of
             Ok b \<Rightarrow>
               if \<not> b then (Ok False, d)
               else (Ok True, AfterFunc_redial (d_reconnTime d) (Stop_redialer d))
           | Error e \<Rightarrow> (Error e, d)
           | Panic \<Rightarrow> (Panic, d))"

definition dialer_start :: "dialer \<Rightarrow> unit outcome \<times> dialer" where
  "dialer_start d =
     (if \<not> d_stopped d then (Ok (), d)
      else case reconn (d\<lparr>d_stopped := False\<rparr>) of (Ok _, d') \<Rightarrow> (Ok (), d') | (Error e, d') \<Rightarrow> (Error e, d') | (Panic, d') \<Rightarrow> (Panic, d'))"

definition dialer_stop :: "dialer \<Rightarrow> dialer" where
  "dialer_stop d = (if d_stopped d then d else Stop_redialer (d\<lparr>d_stopped := True\<rparr>))"

text \<open>The beginning of \<open>dial\<close>, up to the call of the transport: an error, or none and the dialer is dialling.\<close>

definition dial_enter :: "dialer \<Rightarrow> err option \<times> dialer" where
  "dial_enter d =
     (if d_closedq d then (Some ErrClosed, d)
      else if d_stopped d then (Some ErrStopped, d)
      else if d_dialing d \<or> d_connected d then (Some ErrAddrInUse, d)
      else (None, (Stop_redialer d)\<lparr>d_redialer := None, d_dialing := True\<rparr>))"

text \<open>After \<open>addPipe\<close>.\<close>

definition dial_success :: "dialer \<Rightarrow> unit outcome \<times> dialer" where
  "dial_success d =
     (let d1 = d\<lparr>d_dialing := False, d_connected := True\<rparr>
      in case minReconnectTime d1 of
           Ok t \<Rightarrow> (Ok (), d1\<lparr>d_reconnTime := t\<rparr>)
         | Error e \<Rightarrow> (Error e, d1)
         | Panic \<Rightarrow> (Panic, d1))"

text \<open>
  The next delay is the present one times a random factor between 1.1 and 1.5, computed in floating point and
  truncated. The product is an argument; \<open>backoff\<close> says what it can be, with a nanosecond for the rounding.
\<close>

definition backoff :: "int \<Rightarrow> int \<Rightarrow> bool" where
  "backoff t t' \<longleftrightarrow> 11 * t \<le> 10 * t' + 20 \<and> 10 * t' \<le> 15 * t + 10"

definition dial_failure :: "bool \<Rightarrow> int \<Rightarrow> dialer \<Rightarrow> unit outcome \<times> dialer" where
  "dial_failure redial product d =
     (let d1 = d\<lparr>d_dialing := False\<rparr>
      in if \<not> redial then (Ok (), d1)
         else (let rtime = d_reconnTime d1; d2 = d1\<lparr>d_reconnTime := product\<rparr>
               in case maxReconnectTime d2 of
                    Ok mx \<Rightarrow>
                      (Ok (), AfterFunc_redial rtime (if mx \<noteq> 0 \<and> d_reconnTime d2 > mx then d2\<lparr>d_reconnTime := mx\<rparr> else d2))
                  | Error e \<Rightarrow> (Error e, d2)
                  | Panic \<Rightarrow> (Panic, d2)))"

section \<open>Goroutines\<close>

definition set_thread :: "nat \<Rightarrow> dthread \<Rightarrow> dialer \<Rightarrow> dialer" where
  "set_thread k g d = d\<lparr>d_threads := (d_threads d)[k := g]\<rparr>"

text \<open>What the transport's \<open>Dial\<close> returned, with the product for the next delay.\<close>

datatype dial_result = Connected | Failed err int

fun ended_as :: "'a outcome \<Rightarrow> dthread \<Rightarrow> dthread" where
  "ended_as Panic g = GPanic"
| "ended_as _ g = g"

definition thread_step :: "dial_result \<Rightarrow> nat \<Rightarrow> dialer \<Rightarrow> dialer option" where
  "thread_step res k d =
     (case d_threads d ! k of
        GDial redial \<Rightarrow>
          (case dial_enter d of
             (Some e, d') \<Rightarrow> Some (set_thread k (GDone (Some e)) d')
           | (None, d') \<Rightarrow> Some (set_thread k (GDialing redial) d'))
      | GDialing redial \<Rightarrow>
          (case res of
             Connected \<Rightarrow> Some (set_thread k GAdd (d\<lparr>d_live := Suc (d_live d)\<rparr>))
           | Failed e product \<Rightarrow>
               if redial \<and> \<not> backoff (d_reconnTime d) product then None
               else (let (r, d') = dial_failure redial product d in Some (set_thread k (ended_as r (GDone (Some e))) d')))
      | GAdd \<Rightarrow> (let (r, d') = dial_success d in Some (set_thread k (ended_as r (GDone None)) d'))
      | GClosed \<Rightarrow> Some (set_thread k GReconn (d\<lparr>d_connected := False\<rparr>))
      | GReconn \<Rightarrow>
          (case reconn d of
             (Ok b, d') \<Rightarrow> Some (set_thread k (if b then GDone None else GRemove) d')
           | (_, d') \<Rightarrow> Some (set_thread k GPanic d'))
      | GRemove \<Rightarrow> Some (set_thread k (GDone None) (snd (dialer_Close d)))
      | GDone e \<Rightarrow> None
      | GPanic \<Rightarrow> None)"

text \<open>The parent tells the dialer of a closed pipe: \<open>go d.pipeClosed()\<close>.\<close>

definition pipe_gone :: "dialer \<Rightarrow> dialer option" where
  "pipe_gone d = (if d_live d = 0 then None else Some (go GClosed (d\<lparr>d_live := d_live d - 1\<rparr>)))"

inductive dstep :: "dialer \<Rightarrow> dialer \<Rightarrow> bool" where
  ds_Dial: "dialer_Dial d = (r, d') \<Longrightarrow> dstep d d'"
| ds_Close: "dialer_Close d = (r, d') \<Longrightarrow> dstep d d'"
| ds_start: "dialer_start d = (r, d') \<Longrightarrow> dstep d d'"
| ds_stop: "dstep d (dialer_stop d)"
| ds_fire: "fire k d = Some d' \<Longrightarrow> dstep d d'"
| ds_thread: "k < length (d_threads d) \<Longrightarrow> thread_step res k d = Some d' \<Longrightarrow> dstep d d'"
| ds_gone: "pipe_gone d = Some d' \<Longrightarrow> dstep d d'"

inductive drun :: "dialer \<Rightarrow> dialer \<Rightarrow> bool" for d0 where
  dr_refl: "drun d0 d0"
| dr_step: "drun d0 d \<Longrightarrow> dstep d d' \<Longrightarrow> drun d0 d'"

inductive_cases dstepE: "dstep d d'"

section \<open>At most one dial at a time\<close>

fun busy :: "dthread \<Rightarrow> bool" where
  "busy (GDialing r) = True"
| "busy GAdd = True"
| "busy _ = False"

definition one_dial :: "dialer \<Rightarrow> bool" where
  "one_dial d \<longleftrightarrow> length (filter busy (d_threads d)) = (if d_dialing d then 1 else 0)"

lemma Stop_redialer_simps [simp]:
  "d_threads (Stop_redialer d) = d_threads d" "d_dialing (Stop_redialer d) = d_dialing d" "d_closedq (Stop_redialer d) = d_closedq d"
  "d_stopped (Stop_redialer d) = d_stopped d" "d_connected (Stop_redialer d) = d_connected d" "d_heap (Stop_redialer d) = d_heap d"
  "d_opts (Stop_redialer d) = d_opts d" "d_active (Stop_redialer d) = d_active d" "d_reconnTime (Stop_redialer d) = d_reconnTime d"
  "d_live (Stop_redialer d) = d_live d" "length (d_timers (Stop_redialer d)) = length (d_timers d)"
  "map tm_delay (d_timers (Stop_redialer d)) = map tm_delay (d_timers d)"
proof -
  have "map tm_delay ((d_timers d)[k := (d_timers d ! k)\<lparr>tm_pending := False\<rparr>]) = map tm_delay (d_timers d)" for k
    by (cases "k < length (d_timers d)") (simp_all add: list_eq_iff_nth_eq nth_list_update)
  then show "map tm_delay (d_timers (Stop_redialer d)) = map tm_delay (d_timers d)"
    by (simp add: Stop_redialer_def split: option.split)
qed (simp_all add: Stop_redialer_def split: option.split)

lemma AfterFunc_simps [simp]:
  "d_threads (AfterFunc_redial t d) = d_threads d" "d_dialing (AfterFunc_redial t d) = d_dialing d"
  "d_closedq (AfterFunc_redial t d) = d_closedq d" "d_stopped (AfterFunc_redial t d) = d_stopped d"
  "d_connected (AfterFunc_redial t d) = d_connected d" "d_heap (AfterFunc_redial t d) = d_heap d"
  "d_opts (AfterFunc_redial t d) = d_opts d" "d_active (AfterFunc_redial t d) = d_active d"
  "d_reconnTime (AfterFunc_redial t d) = d_reconnTime d" "d_live (AfterFunc_redial t d) = d_live d"
  "map tm_delay (d_timers (AfterFunc_redial t d)) = map tm_delay (d_timers d) @ [t]"
  by (simp_all add: AfterFunc_redial_def)

lemma reconn_simps [simp]:
  "d_threads (snd (reconn d)) = d_threads d" "d_dialing (snd (reconn d)) = d_dialing d" "d_closedq (snd (reconn d)) = d_closedq d"
  "d_stopped (snd (reconn d)) = d_stopped d" "d_connected (snd (reconn d)) = d_connected d" "d_heap (snd (reconn d)) = d_heap d"
  "d_opts (snd (reconn d)) = d_opts d" "d_active (snd (reconn d)) = d_active d" "d_reconnTime (snd (reconn d)) = d_reconnTime d"
  by (simp_all add: reconn_def split: outcome.split)

lemma snd_start: "snd (dialer_start d) = (if d_stopped d then snd (reconn (d\<lparr>d_stopped := False\<rparr>)) else d)"
  by (cases "reconn (d\<lparr>d_stopped := False\<rparr>)") (simp add: dialer_start_def split: outcome.split)

lemma start_simps [simp]:
  "d_threads (snd (dialer_start d)) = d_threads d" "d_dialing (snd (dialer_start d)) = d_dialing d"
  "d_closedq (snd (dialer_start d)) = d_closedq d" "d_connected (snd (dialer_start d)) = d_connected d"
  "d_heap (snd (dialer_start d)) = d_heap d" "d_opts (snd (dialer_start d)) = d_opts d"
  "d_active (snd (dialer_start d)) = d_active d" "d_reconnTime (snd (dialer_start d)) = d_reconnTime d"
  by (simp_all add: snd_start)

lemma stop_simps [simp]:
  "d_threads (dialer_stop d) = d_threads d" "d_dialing (dialer_stop d) = d_dialing d" "d_closedq (dialer_stop d) = d_closedq d"
  "d_connected (dialer_stop d) = d_connected d" "d_heap (dialer_stop d) = d_heap d" "d_opts (dialer_stop d) = d_opts d"
  "d_active (dialer_stop d) = d_active d" "d_reconnTime (dialer_stop d) = d_reconnTime d" "d_stopped (dialer_stop d)"
  by (simp_all add: dialer_stop_def)

lemma one_dial_update:
  assumes "one_dial d" "k < length (d_threads d)" "d_threads d' = d_threads d"
    and "(if d_dialing d' then 1 else 0 :: nat) + (if busy (d_threads d ! k) then 1 else 0) = (if d_dialing d then 1 else 0) + (if busy g then 1 else 0)"
  shows "one_dial (set_thread k g d')"
  using length_filter_update [OF assms(2), of busy g] assms(1,3,4) by (auto simp: one_dial_def set_thread_def split: if_splits)

text \<open>A goroutine between its two lock sections accounts for the flag.\<close>

lemma one_dial_busy: "one_dial d \<Longrightarrow> k < length (d_threads d) \<Longrightarrow> busy (d_threads d ! k) \<Longrightarrow> d_dialing d"
  using nth_mem [of k "d_threads d"] by (auto simp: one_dial_def filter_empty_conv split: if_splits)

lemma one_dial_thread_step:
  assumes "one_dial d" "k < length (d_threads d)" "thread_step res k d = Some d'"
  shows "one_dial d'"
proof (cases "d_threads d ! k")
  case (GDial r)
  with assms show ?thesis
    by (auto simp: thread_step_def dial_enter_def split: if_splits intro!: one_dial_update [OF assms(1,2)])
next
  case (GDialing r)
  then have "d_dialing d" using one_dial_busy [OF assms(1,2)] by simp
  with GDialing assms show ?thesis
    by (auto simp: thread_step_def dial_failure_def Let_def split: if_splits dial_result.splits outcome.splits intro!: one_dial_update [OF assms(1,2)])
next
  case GAdd
  then have "d_dialing d" using one_dial_busy [OF assms(1,2)] by simp
  with GAdd assms show ?thesis
    by (auto simp: thread_step_def dial_success_def Let_def split: outcome.splits intro!: one_dial_update [OF assms(1,2)])
next
  case GReconn
  obtain r d1 where r: "reconn d = (r, d1)" by fastforce
  with reconn_simps [of d] have "d_threads d1 = d_threads d" "d_dialing d1 = d_dialing d" by simp_all
  with GReconn assms r show ?thesis
    by (auto simp: thread_step_def split: outcome.splits intro!: one_dial_update [OF assms(1,2)])
qed (use assms in \<open>auto simp: thread_step_def dialer_Close_def intro!: one_dial_update [OF assms(1,2)]\<close>)

lemma one_dial_step:
  assumes "one_dial d" "dstep d d'"
  shows "one_dial d'"
  using assms(2)
proof cases
  case (ds_start r)
  then have "d' = snd (dialer_start d)" by simp
  with assms(1) show ?thesis by (simp add: one_dial_def)
next
  case (ds_thread k res)
  with one_dial_thread_step [OF assms(1)] show ?thesis by blast
qed (use assms(1) in \<open>auto simp: one_dial_def dialer_Dial_def dialer_Close_def fire_def pipe_gone_def go_def Let_def split: if_splits outcome.splits\<close>)

lemma one_dial_run: "drun d0 d \<Longrightarrow> one_dial d0 \<Longrightarrow> one_dial d"
  by (induction rule: drun.induct) (auto intro: one_dial_step)

lemma one_dial_new: "one_dial (newDialer ad H a)"
  by (simp add: one_dial_def newDialer_def)

section \<open>A reconnecting dialer does not fall asleep\<close>

fun unfinished :: "dthread \<Rightarrow> bool" where
  "unfinished (GDone e) = False"
| "unfinished GPanic = False"
| "unfinished _ = True"

definition working :: "dialer \<Rightarrow> bool" where
  "working d \<longleftrightarrow> (\<exists>g \<in> set (d_threads d). unfinished g) \<or> (\<exists>t \<in> set (d_timers d). tm_pending t) \<or> d_connected d"



lemma option_reads:
  assumes "d_heap d' = d_heap d" "d_opts d' = d_opts d"
  shows "reconnect d' = reconnect d" "minReconnectTime d' = minReconnectTime d" "maxReconnectTime d' = maxReconnectTime d"
    "dialAsync d' = dialAsync d"
  using assms by (simp_all add: reconnect_def minReconnectTime_def maxReconnectTime_def dialAsync_def dial_bool_def dial_duration_def)

lemma option_reads_upd [simp]:
  "reconnect (d\<lparr>d_stopped := b\<rparr>) = reconnect d" "minReconnectTime (d\<lparr>d_dialing := b, d_connected := c\<rparr>) = minReconnectTime d"
  "maxReconnectTime (d\<lparr>d_dialing := b, d_reconnTime := t\<rparr>) = maxReconnectTime d"
  by (rule option_reads; simp)+

lemma working_AfterFunc [simp]: "working (AfterFunc_redial t d)"
  by (simp add: working_def AfterFunc_redial_def)









section \<open>Delays\<close>

definition within :: "int \<Rightarrow> int \<Rightarrow> dialer \<Rightarrow> bool" where
  "within mn mx d \<longleftrightarrow>
     minReconnectTime d = Ok mn \<and> maxReconnectTime d = Ok mx \<and> d_active d \<and> mn \<le> d_reconnTime d \<and> d_reconnTime d \<le> mx \<and>
     (\<forall>t \<in> set (map tm_delay (d_timers d)). mn \<le> t \<and> t \<le> mx)"

lemma within_same:
  assumes "within mn mx d" "d_heap d' = d_heap d" "d_opts d' = d_opts d" "d_active d' = d_active d" "d_reconnTime d' = d_reconnTime d"
    "set (map tm_delay (d_timers d')) \<subseteq> insert (d_reconnTime d) (set (map tm_delay (d_timers d)))"
  shows "within mn mx d'"
  using assms option_reads [OF assms(2,3)] unfolding within_def by auto

lemma delays_update [simp]:
  "map tm_delay (ts[k := (ts ! k)\<lparr>tm_pending := b\<rparr>]) = map tm_delay ts"
  by (cases "k < length ts") (simp_all add: list_eq_iff_nth_eq nth_list_update)

lemma reconn_delays: "set (map tm_delay (d_timers (snd (reconn d)))) \<subseteq> insert (d_reconnTime d) (set (map tm_delay (d_timers d)))"
proof -
  have "map tm_delay (d_timers (snd (reconn d))) = map tm_delay (d_timers d) \<or>
      map tm_delay (d_timers (snd (reconn d))) = map tm_delay (d_timers d) @ [d_reconnTime d]"
    by (simp add: reconn_def split: outcome.split)
  then show ?thesis by (metis Un_insert_right empty_set list.simps(15) set_append set_eq_subset subset_insertI sup_bot_right)
qed

lemma set_thread_simps [simp]:
  "d_heap (set_thread k g d) = d_heap d" "d_opts (set_thread k g d) = d_opts d" "d_active (set_thread k g d) = d_active d"
  "d_reconnTime (set_thread k g d) = d_reconnTime d" "d_timers (set_thread k g d) = d_timers d" "d_live (set_thread k g d) = d_live d"
  "d_connected (set_thread k g d) = d_connected d" "d_threads (set_thread k g d) = (d_threads d)[k := g]"
  "d_closedq (set_thread k g d) = d_closedq d" "d_stopped (set_thread k g d) = d_stopped d"
  by (simp_all add: set_thread_def)

lemma within_set_thread [simp]: "within mn mx (set_thread k g d) = within mn mx d"
proof -
  have "minReconnectTime (set_thread k g d) = minReconnectTime d" "maxReconnectTime (set_thread k g d) = maxReconnectTime d"
    by (rule option_reads; simp add: set_thread_def)+
  then show ?thesis by (simp add: within_def set_thread_def)
qed

lemma within_failure:
  assumes "within mn mx d" "20 \<le> mn" "backoff (d_reconnTime d) product" "dial_failure True product d = (r, d')"
  shows "within mn mx d'"
proof -
  let ?d2 = "d\<lparr>d_dialing := False, d_reconnTime := product\<rparr>"
  let ?t = "if mx \<noteq> 0 \<and> product > mx then mx else product"
  have w: "minReconnectTime d = Ok mn" "maxReconnectTime d = Ok mx" "d_active d" "mn \<le> d_reconnTime d" "d_reconnTime d \<le> mx"
    "\<forall>t \<in> set (map tm_delay (d_timers d)). mn \<le> t \<and> t \<le> mx" using assms(1) by (simp_all add: within_def)
  from assms(4) w(2) have d': "d' = AfterFunc_redial (d_reconnTime d) (?d2\<lparr>d_reconnTime := ?t\<rparr>)"
    by (auto simp: dial_failure_def Let_def)
  have "d_heap d' = d_heap d" "d_opts d' = d_opts d" by (simp_all add: d')
  note o = option_reads [OF this]
  have "mn \<le> ?t" "?t \<le> mx" using w(4,5) assms(2,3) by (auto simp: backoff_def)
  with o w show ?thesis unfolding within_def by (simp add: d')
qed

lemma within_thread_step:
  assumes "within mn mx d" "20 \<le> mn" "thread_step res k d = Some d'"
  shows "within mn mx d'"
proof -
  have min: "minReconnectTime d = Ok mn" using assms(1) by (simp add: within_def)
  show ?thesis
  proof (cases "d_threads d ! k")
    case (GDial r)
    with assms(3) show ?thesis
      by (auto simp: thread_step_def dial_enter_def simp del: set_map split: if_splits intro!: within_same [OF assms(1)])
  next
    case (GDialing r)
    show ?thesis
    proof (cases res)
      case Connected
      with GDialing assms(3) show ?thesis by (auto simp: thread_step_def intro!: within_same [OF assms(1)])
    next
      case (Failed e product)
      obtain x d1 where f: "dial_failure r product d = (x, d1)" by fastforce
      with Failed GDialing assms(3) have d': "d' = set_thread k (ended_as x (GDone (Some e))) d1" and b: "r \<Longrightarrow> backoff (d_reconnTime d) product"
        by (auto simp: thread_step_def split: if_splits)
      have "within mn mx d1"
      proof (cases r)
        case True
        with f within_failure [OF assms(1,2) b [OF True]] show ?thesis by simp
      next
        case False
        with f have "d1 = d\<lparr>d_dialing := False\<rparr>" by (auto simp: dial_failure_def Let_def)
        then show ?thesis by (auto intro!: within_same [OF assms(1)])
      qed
      with d' show ?thesis by simp
    qed
  next
    case GAdd
    with assms(3) min have d': "d' = set_thread k (GDone None) (d\<lparr>d_dialing := False, d_connected := True, d_reconnTime := mn\<rparr>)"
      by (simp add: thread_step_def dial_success_def Let_def)
    have "minReconnectTime (d\<lparr>d_dialing := False, d_connected := True, d_reconnTime := mn\<rparr>) = minReconnectTime d"
      "maxReconnectTime (d\<lparr>d_dialing := False, d_connected := True, d_reconnTime := mn\<rparr>) = maxReconnectTime d" by (rule option_reads; simp)+
    with assms(1) have "within mn mx (d\<lparr>d_dialing := False, d_connected := True, d_reconnTime := mn\<rparr>)" by (auto simp: within_def)
    with d' show ?thesis by simp
  next
    case GReconn
    obtain x d1 where r: "reconn d = (x, d1)" by fastforce
    have "within mn mx d1" using reconn_simps [of d] reconn_delays [of d] r by (intro within_same [OF assms(1)]) simp_all
    with GReconn assms(3) r show ?thesis by (auto simp: thread_step_def split: outcome.splits)
  qed (use assms in \<open>auto simp: thread_step_def dialer_Close_def split: if_splits intro!: within_same [OF assms(1)]\<close>)
qed

lemma within_step:
  assumes "within mn mx d" "20 \<le> mn" "dstep d d'"
  shows "within mn mx d'"
  using assms(3)
proof cases
  case (ds_Dial r)
  with assms(1) have "d' = d" by (auto simp: dialer_Dial_def within_def split: if_splits)
  with assms(1) show ?thesis by simp
next
  case (ds_start r)
  then have "d' = (if d_stopped d then snd (reconn (d\<lparr>d_stopped := False\<rparr>)) else d)" using snd_start [of d] by simp
  with reconn_delays [of "d\<lparr>d_stopped := False\<rparr>"] show ?thesis by (auto simp del: set_map intro!: within_same [OF assms(1)])
next
  case (ds_thread k res)
  with within_thread_step [OF assms(1,2)] show ?thesis by blast
next
  case ds_stop
  then show ?thesis by (auto simp: dialer_stop_def simp del: set_map intro!: within_same [OF assms(1)])
next
  case (ds_fire k)
  then show ?thesis by (auto simp: fire_def go_def simp del: set_map split: if_splits intro!: within_same [OF assms(1)])
qed (auto simp: dialer_Close_def pipe_gone_def go_def split: if_splits intro!: within_same [OF assms(1)])

lemma within_run: "drun d0 d \<Longrightarrow> 20 \<le> mn \<Longrightarrow> within mn mx d0 \<Longrightarrow> within mn mx d"
  by (induction rule: drun.induct) (auto intro: within_step)

section \<open>A dialer that believes it is connected\<close>

text \<open>No pipe is left and none is on the way, but \<open>connected\<close> is set: no step changes that.\<close>

fun harmless :: "dthread \<Rightarrow> bool" where
  "harmless (GDialing r) = False"
| "harmless GAdd = False"
| "harmless GClosed = False"
| "harmless _ = True"

definition believes :: "dialer \<Rightarrow> bool" where
  "believes d \<longleftrightarrow> d_connected d \<and> d_live d = 0 \<and> (\<forall>g \<in> set (d_threads d). harmless g)"

lemma believes_set_thread:
  "believes d \<Longrightarrow> harmless g \<Longrightarrow> d_connected d' \<Longrightarrow> d_live d' = 0 \<Longrightarrow> d_threads d' = d_threads d \<Longrightarrow> believes (set_thread k g d')"
  using set_update_subset_insert [of "d_threads d" k g] by (auto simp: believes_def)

lemma reconn_live [simp]: "d_live (snd (reconn d)) = d_live d"
  by (simp add: reconn_def split: outcome.split)

lemma believes_thread_step:
  assumes "believes d" "k < length (d_threads d)" "thread_step res k d = Some d'"
  shows "believes d'"
proof -
  have b: "d_connected d" "d_live d = 0" "harmless (d_threads d ! k)" using assms(1,2) by (auto simp: believes_def)
  show ?thesis
  proof (cases "d_threads d ! k")
    case (GDial r)
    with assms(3) b show ?thesis
      by (auto simp: thread_step_def dial_enter_def split: if_splits intro!: believes_set_thread [OF assms(1)])
  next
    case GReconn
    obtain x d1 where r: "reconn d = (x, d1)" by fastforce
    with reconn_simps [of d] reconn_live [of d] b have "d_connected d1" "d_live d1 = 0" "d_threads d1 = d_threads d" by simp_all
    with GReconn assms(3) r show ?thesis
      by (auto simp: thread_step_def split: outcome.splits intro!: believes_set_thread [OF assms(1)])
  qed (use b assms(3) in \<open>auto simp: thread_step_def dialer_Close_def intro!: believes_set_thread [OF assms(1)]\<close>)
qed

lemma believes_step:
  assumes "believes d" "dstep d d'"
  shows "believes d'"
  using assms(2)
proof cases
  case (ds_start r)
  then have "d' = (if d_stopped d then snd (reconn (d\<lparr>d_stopped := False\<rparr>)) else d)" using snd_start [of d] by simp
  with assms(1) show ?thesis by (auto simp: believes_def)
next
  case (ds_thread k res)
  with believes_thread_step [OF assms(1)] show ?thesis by blast
next
  case ds_stop
  with assms(1) show ?thesis by (auto simp: believes_def dialer_stop_def)
qed (use assms(1) in \<open>auto simp: believes_def dialer_Dial_def dialer_Close_def fire_def pipe_gone_def go_def Let_def split: if_splits outcome.splits\<close>)

lemma believes_run: "drun d0 d \<Longrightarrow> believes d0 \<Longrightarrow> believes d"
  by (induction rule: drun.induct) (auto intro: believes_step)

section \<open>Examples\<close>

text \<open>A dialer with the default options, and one that dials asynchronously.\<close>

definition default_dialer :: dialer where
  "default_dialer = newDialer ''tcp://h:1'' [empty_options] 0"


lemma default_options:
  "d_heap d = [empty_options] \<Longrightarrow> d_opts d = 0 \<Longrightarrow> minReconnectTime d = Ok 100000000"
  "d_heap d = [empty_options] \<Longrightarrow> d_opts d = 0 \<Longrightarrow> maxReconnectTime d = Ok 8000000000"
  "d_heap d = [empty_options] \<Longrightarrow> d_opts d = 0 \<Longrightarrow> dialAsync d = Ok False"
  "d_heap d = [empty_options] \<Longrightarrow> d_opts d = 0 \<Longrightarrow> reconnect d = Ok True"
  by (simp_all add: minReconnectTime_def maxReconnectTime_def dialAsync_def reconnect_def dial_duration_def dial_bool_def GetOptionDefault_def
      acceptOption_def empty_options_def program_options_defs option_constructors)


lemma Dial_starts:
  assumes "minReconnectTime d = Ok t" "dialAsync d = Ok b" "\<not> d_closedq d" "\<not> d_active d"
  shows "dialer_Dial d = (Ok None, go (GDial b) (d\<lparr>d_active := True, d_reconnTime := t\<rparr>))"
proof -
  have "dialAsync (d\<lparr>d_active := True, d_reconnTime := t\<rparr>) = dialAsync d" by (rule option_reads) simp_all
  with assms show ?thesis by (simp add: dialer_Dial_def Let_def)
qed

section \<open>Properties\<close>

text \<open>
  C19: Dials exclude each other: in every run of a new dialer at most one goroutine is between the two lock sections of
  \<open>dial\<close>, the flag \<open>dialing\<close> says whether there is one, and meanwhile every other dial is turned away.
\<close>

theorem dials_exclusive:
  assumes "drun (newDialer ad H a) d" and "j < length (d_threads d)" and "busy (d_threads d ! j)"
  shows "d_dialing d \<and> (\<forall>k < length (d_threads d). busy (d_threads d ! k) \<longrightarrow> k = j) \<and> fst (dial_enter d) \<noteq> None"
proof -
  have od: "one_dial d" by (rule one_dial_run [OF assms(1) one_dial_new])
  then have di: "d_dialing d" by (rule one_dial_busy [OF _ assms(2,3)])
  have "k = j" if k: "k < length (d_threads d)" "busy (d_threads d ! k)" for k
  proof (rule ccontr)
    assume "k \<noteq> j"
    have "length (filter busy ((d_threads d)[j := GPanic])) = 0"
      using length_filter_update [OF assms(2), of busy GPanic] assms(3) od di by (simp add: one_dial_def)
    moreover have "(d_threads d)[j := GPanic] ! k \<in> set ((d_threads d)[j := GPanic])" using k(1) by (intro nth_mem) simp
    ultimately show False using k \<open>k \<noteq> j\<close> by (auto simp: filter_empty_conv)
  qed
  with di show ?thesis by (auto simp: dial_enter_def)
qed

text \<open>The steps that lead a default dialer to its first connection attempt.\<close>

definition dialled :: dialer where
  "dialled = go (GDial False) (default_dialer\<lparr>d_active := True, d_reconnTime := 100000000\<rparr>)"

definition attempting :: dialer where
  "attempting = set_thread 0 (GDialing False) (dialled\<lparr>d_redialer := None, d_dialing := True\<rparr>)"

lemma default_dialer_simps [simp]:
  "d_heap default_dialer = [empty_options]" "d_opts default_dialer = 0" "d_closedq default_dialer = False" "d_stopped default_dialer = False"
  "d_active default_dialer = False" "d_dialing default_dialer = False" "d_connected default_dialer = False" "d_redialer default_dialer = None"
  "d_timers default_dialer = []" "d_threads default_dialer = []" "d_live default_dialer = 0"
  by (simp_all add: default_dialer_def newDialer_def)

lemma dialled_simps [simp]:
  "d_heap dialled = [empty_options]" "d_opts dialled = 0" "d_closedq dialled = False" "d_stopped dialled = False"
  "d_active dialled = True" "d_dialing dialled = False" "d_connected dialled = False" "d_redialer dialled = None"
  "d_timers dialled = []" "d_threads dialled = [GDial False]" "d_live dialled = 0" "d_reconnTime dialled = 100000000"
  by (simp_all add: dialled_def go_def)

lemma run_thread: "drun d0 d \<Longrightarrow> k < length (d_threads d) \<Longrightarrow> thread_step res k d = Some d' \<Longrightarrow> drun d0 d'"
  by (blast intro: dr_step ds_thread)

lemma Dial_default: "dialer_Dial default_dialer = (Ok None, dialled)"
  unfolding dialled_def by (rule Dial_starts) (simp_all add: default_options)

lemma run_first: "drun dialled d \<Longrightarrow> drun default_dialer d"
proof (induction rule: drun.induct)
  case dr_refl
  show ?case using Dial_default by (metis drun.dr_refl dr_step ds_Dial)
qed (rule dr_step)

lemma reaches_attempting: "drun dialled attempting"
  by (rule run_thread [OF dr_refl, of 0 _ Connected])
    (simp_all add: thread_step_def dial_enter_def Stop_redialer_def attempting_def)

theorem dials_exclusive_witness:
  "drun default_dialer attempting \<and> d_dialing attempting \<and> fst (dial_enter attempting) \<noteq> None"
proof -
  note r = run_first [OF reaches_attempting]
  with dials_exclusive [of "''tcp://h:1''" "[empty_options]" 0 attempting 0] show ?thesis
    by (simp add: attempting_def default_dialer_def)
qed



text \<open>
  The delays before a redial never fall below \<open>MinReconnectTime\<close> nor exceed \<open>MaxReconnectTime\<close>, whatever factors
  the backoff draws.
\<close>

theorem reconnect_delays_bounded:
  assumes "minReconnectTime (newDialer ad H a) = Ok mn" and "maxReconnectTime (newDialer ad H a) = Ok mx" and "20 \<le> mn" and "mn \<le> mx"
    and "dialAsync (newDialer ad H a) = Ok async" and "dialer_Dial (newDialer ad H a) = (r, d0)" and "drun d0 d" and "t \<in> set (d_timers d)"
  shows "mn \<le> tm_delay t \<and> tm_delay t \<le> mx"
proof -
  let ?d = "newDialer ad H a"
  have d0: "d0 = go (GDial async) (?d\<lparr>d_active := True, d_reconnTime := mn\<rparr>)"
    using Dial_starts [OF assms(1,5)] assms(6) by (simp add: newDialer_def)
  have "d_heap d0 = d_heap ?d" "d_opts d0 = d_opts ?d" by (simp_all add: d0 go_def)
  note o = option_reads [OF this]
  have "within mn mx d0" using o assms(1,2,4) by (simp add: within_def) (simp add: d0 go_def newDialer_def)
  from within_run [OF assms(7,3) this] assms(8) show ?thesis by (auto simp: within_def)
qed

definition stuck_dialer :: dialer where
  "stuck_dialer = default_dialer\<lparr>d_active := True, d_connected := True, d_reconnTime := 100000000, d_redialer := Some 0,
     d_timers := [\<lparr>tm_delay = 100000000, tm_pending = True\<rparr>], d_threads := [GDone None, GDone None]\<rparr>"

lemma reaches_stuck: "drun dialled stuck_dialer"
proof -
  let ?add = "set_thread 0 GAdd (attempting\<lparr>d_live := 1\<rparr>)"
  let ?gone = "go GClosed (?add\<lparr>d_live := 0\<rparr>)"
  let ?rec = "set_thread 1 GReconn (?gone\<lparr>d_connected := False\<rparr>)"
  let ?tm = "set_thread 1 (GDone None) (AfterFunc_redial 100000000 ?rec)"
  have 1: "drun dialled ?add"
    by (rule run_thread [OF reaches_attempting, of 0 Connected]) (simp_all add: thread_step_def attempting_def)
  then have 2: "drun dialled ?gone"
    by (rule dr_step) (rule ds_gone, simp add: pipe_gone_def)
  then have 3: "drun dialled ?rec"
    by (rule run_thread [of _ _ 1 Connected]) (simp_all add: thread_step_def go_def attempting_def)
  have "reconn ?rec = (Ok True, AfterFunc_redial 100000000 ?rec)"
    by (simp add: reconn_def default_options go_def attempting_def Stop_redialer_def)
       (simp add: set_thread_def)
  with 3 have 4: "drun dialled ?tm"
    by (intro run_thread [OF 3, of 1 Connected]) (simp_all add: thread_step_def go_def attempting_def)
  have "thread_step Connected 0 ?tm = Some stuck_dialer"
    by (simp add: thread_step_def dial_success_def default_options go_def attempting_def AfterFunc_redial_def Let_def stuck_dialer_def)
      (simp add: set_thread_def dialled_def go_def)
  with 4 show ?thesis by (intro run_thread [OF 4, of 0 Connected]) (simp_all add: go_def attempting_def)
qed

text \<open>
  A pipe that is closed before \<open>dial\<close> has set \<open>connected\<close>, as one over the limit is, leaves the dialer stuck: it
  counts as connected without a pipe, and in no later state does it dial again or have one, although it is
  neither closed nor stopped and a redial is scheduled.
\<close>

theorem early_close_sticks_dialer:
  "drun default_dialer stuck_dialer \<and> \<not> d_closedq stuck_dialer \<and> \<not> d_stopped stuck_dialer \<and>
   (\<forall>d. drun stuck_dialer d \<longrightarrow> d_connected d \<and> d_live d = 0 \<and> (\<forall>g \<in> set (d_threads d). \<not> busy g))"
proof -
  have "believes stuck_dialer" by (simp add: believes_def stuck_dialer_def)
  then have "d_connected d \<and> d_live d = 0 \<and> (\<forall>g \<in> set (d_threads d). \<not> busy g)" if "drun stuck_dialer d" for d
    using believes_run [OF that] by (auto simp: believes_def elim!: busy.elims)
  with run_first [OF reaches_stuck] show ?thesis by (simp add: stuck_dialer_def)
qed

theorem early_close_sticks_dialer_witness:
  "d_connected (dialer_stop stuck_dialer) \<and> d_live (dialer_stop stuck_dialer) = 0"
proof -
  have "drun stuck_dialer (dialer_stop stuck_dialer)" by (rule dr_step [OF dr_refl ds_stop])
  with early_close_sticks_dialer show ?thesis by blast
qed

theorem reconnect_delays_bounded_witness:
  "\<exists>t \<in> set (d_timers stuck_dialer). 100000000 \<le> tm_delay t \<and> tm_delay t \<le> 8000000000"
proof -
  let ?d = "newDialer ''tcp://h:1'' [empty_options] 0" and ?t = "\<lparr>tm_delay = 100000000, tm_pending = True\<rparr>"
  have d: "dialer_Dial ?d = (Ok None, dialled)" using Dial_default by (simp add: default_dialer_def)
  have o: "minReconnectTime ?d = Ok 100000000" "maxReconnectTime ?d = Ok 8000000000" "dialAsync ?d = Ok False"
    by (simp_all add: default_options newDialer_def)
  have t: "?t \<in> set (d_timers stuck_dialer)" by (simp add: stuck_dialer_def)
  have "100000000 \<le> tm_delay ?t \<and> tm_delay ?t \<le> 8000000000"
    by (rule reconnect_delays_bounded [OF o(1,2) _ _ o(3) d reaches_stuck t]) simp_all
  with t show ?thesis by (intro bexI [of _ ?t])
qed

text \<open>
  A first, synchronous dial that fails is final: nothing is scheduled, and the dialer refuses every further
  \<open>Dial\<close> because it stays active.
\<close>

theorem failed_first_dial_is_final:
  assumes "thread_step (Failed e product) 0 attempting = Some d"
  shows "d_threads d = [GDone (Some e)] \<and> \<not> working d \<and> dialer_Dial d = (Ok (Some ErrAddrInUse), d)"
  using assms
  by (auto simp: thread_step_def attempting_def dial_failure_def Let_def working_def dialer_Dial_def)

theorem failed_first_dial_is_final_witness:
  "\<exists>d. thread_step (Failed ErrConnRefused 0) 0 attempting = Some d \<and> dialer_Dial d = (Ok (Some ErrAddrInUse), d)"
proof -
  obtain d where d: "thread_step (Failed ErrConnRefused 0) 0 attempting = Some d"
    by (simp add: thread_step_def attempting_def dial_failure_def Let_def)
  with failed_first_dial_is_final [OF d] show ?thesis by blast
qed

text \<open>
  The guard on \<open>dialing\<close> is used: a stop and a start during a dial schedule a redial that finds the first one still
  in progress.
\<close>

lemma dial_guard_used:
  "\<exists>d k. drun default_dialer d \<and> d_dialing d \<and> k < length (d_threads d) \<and> d_threads d ! k = GDial True \<and>
     dial_enter d = (Some ErrAddrInUse, d)"
proof -
  have a: "d_redialer attempting = None" "d_stopped attempting = False" "d_closedq attempting = False" "d_heap attempting = [empty_options]"
    "d_opts attempting = 0" "d_reconnTime attempting = 100000000" "d_timers attempting = []" "d_threads attempting = [GDialing False]"
    "d_dialing attempting" by (simp_all add: attempting_def) (simp_all add: set_thread_def)
  let ?s = "attempting\<lparr>d_stopped := True\<rparr>"
  let ?t = "AfterFunc_redial 100000000 (attempting\<lparr>d_stopped := False\<rparr>)"
  have "dialer_stop attempting = ?s" by (simp add: dialer_stop_def Stop_redialer_def a)
  then have s: "drun default_dialer ?s" using dr_step [OF run_first [OF reaches_attempting] ds_stop] by simp
  have "reconnect (attempting\<lparr>d_stopped := False\<rparr>) = Ok True" by (rule default_options) (simp_all add: a)
  then have "reconn (attempting\<lparr>d_stopped := False\<rparr>) = (Ok True, ?t)" by (simp add: reconn_def Stop_redialer_def a)
  then have "dialer_start ?s = (Ok (), ?t)" by (simp add: dialer_start_def)
  with s have t: "drun default_dialer ?t" by (blast intro: dr_step ds_start)
  let ?d = "go (GDial True) (?t\<lparr>d_timers := [\<lparr>tm_delay = 100000000, tm_pending = False\<rparr>]\<rparr>)"
  have "fire 0 ?t = Some ?d" by (simp add: fire_def AfterFunc_redial_def a)
  with t have "drun default_dialer ?d" by (blast intro: dr_step ds_fire)
  moreover have "dial_enter ?d = (Some ErrAddrInUse, ?d)" by (simp add: dial_enter_def go_def AfterFunc_redial_def a)
  ultimately show ?thesis by (intro exI [of _ ?d] exI [of _ 1]) (simp add: go_def AfterFunc_redial_def a)
qed

end
