(* ===== verification/Connectors.thy ===== *)
theory Connectors
  imports Dialers Ids Transports "HOL-Library.AList"
begin

text \<open>
  The connector of \<open>connector/connector.go\<close> with its listeners (\<open>connector/listener.go\<close>) and dialers: the table of
  pipes and its limit, negotiation, pipe events, stopping and starting, and closing. A step is one section under the
  connector's lock; what runs in goroutines, and what is left of a call after it has released the lock, is a list of
  pending tasks. The transports, the negotiator and what \<open>Accept\<close> returns are arguments.
\<close>

section \<open>State\<close>

record clistener =
  cl_addr :: string
  cl_heap :: oheap
  cl_opts :: nat
  cl_closed :: bool
  cl_stopped :: bool
  cl_serving :: bool

text \<open>A pipe: new until \<open>addPipe\<close> has decided what becomes of it.\<close>

datatype pipe_fate = PNew | PAdded | PDropped | PRefused

record cpipe =
  cq_id :: u32
  cq_d :: "nat option"
  cq_l :: "nat option"
  cq_fate :: pipe_fate
  cq_closed :: bool
  cq_recycled :: bool

text \<open>
  \<open>TAdd i w\<close> is a call of \<open>addPipe\<close> for pipe \<open>i\<close> by the goroutine \<open>w\<close> of its dialer, if any; \<open>TRem\<close>,
  \<open>TCheck\<close> and \<open>TRecycle\<close> are what is left of a pipe's \<open>Close\<close> after its flag, after the map entry is gone and after
  the limit was checked; \<open>TCloseL\<close>, \<open>TCloseD\<close> and \<open>TCloseP\<close> are what \<open>Close\<close> of the connector has still to close.
\<close>

datatype task =
    TAdd nat "(nat \<times> nat) option" | TRem nat | TCheck nat | TRecycle nat
  | TCloseL nat | TCloseD nat | TCloseP nat

datatype PipeEventKind = EvAdd | EvRemove

record connector =
  c_heap :: oheap
  c_opts :: nat
  c_negotiator :: bool
  c_limit :: int
  c_dialers :: "nat list"
  c_listeners :: "nat list"
  c_pipes :: "(u32 \<times> nat) list option"
  c_handler :: bool
  c_closed :: bool
  c_dobjs :: "dialer list"
  c_lobjs :: "clistener list"
  c_pobjs :: "cpipe list"
  c_ids :: id_gen
  c_tasks :: "task list"
  c_events :: "(PipeEventKind \<times> u32) list"

definition len_pipes :: "connector \<Rightarrow> nat" where
  "len_pipes c = (case c_pipes c of None \<Rightarrow> 0 | Some ps \<Rightarrow> length ps)"

definition task_add :: "task \<Rightarrow> connector \<Rightarrow> connector" where
  "task_add t c = c\<lparr>c_tasks := c_tasks c @ [t]\<rparr>"

section \<open>Listeners\<close>

definition newListener :: "string \<Rightarrow> oheap \<Rightarrow> nat \<Rightarrow> clistener" where
  "newListener ad H a =
     \<lparr>cl_addr = ad, cl_heap = H, cl_opts = a, cl_closed = False, cl_stopped = False, cl_serving = False\<rparr>"

definition listener_start :: "clistener \<Rightarrow> clistener" where
  "listener_start l = (if \<not> cl_stopped l then l else l\<lparr>cl_stopped := False\<rparr>)"

definition listener_stop :: "clistener \<Rightarrow> clistener" where
  "listener_stop l = (if cl_stopped l then l else l\<lparr>cl_stopped := True\<rparr>)"

definition isStopped :: "clistener \<Rightarrow> bool" where
  "isStopped l = cl_stopped l"

text \<open>\<open>r\<close> is what the transport's \<open>Listen\<close> or \<open>Close\<close> returned.\<close>

definition listener_Listen :: "err option \<Rightarrow> clistener \<Rightarrow> err option \<times> clistener" where
  "listener_Listen r l = (case r of Some e \<Rightarrow> (Some e, l) | None \<Rightarrow> (None, l\<lparr>cl_serving := True\<rparr>))"

definition listener_Close :: "err option \<Rightarrow> clistener \<Rightarrow> err option \<times> clistener" where
  "listener_Close r l = (if cl_closed l then (Some ErrClosed, l) else (r, l\<lparr>cl_closed := True\<rparr>))"

section \<open>The limit\<close>

definition each :: "nat list \<Rightarrow> ('a \<Rightarrow> 'a) \<Rightarrow> 'a list \<Rightarrow> 'a list" where
  "each is f xs = map (\<lambda>(i, x). if i \<in> set is then f x else x) (enumerate 0 xs)"

definition startConnecting :: "connector \<Rightarrow> connector" where
  "startConnecting c =
     c\<lparr>c_lobjs := each (c_listeners c) listener_start (c_lobjs c),
       c_dobjs := each (c_dialers c) (\<lambda>d. snd (dialer_start d)) (c_dobjs c)\<rparr>"

definition stopConnecting :: "connector \<Rightarrow> connector" where
  "stopConnecting c =
     c\<lparr>c_lobjs := each (c_listeners c) listener_stop (c_lobjs c),
       c_dobjs := each (c_dialers c) dialer_stop (c_dobjs c)\<rparr>"

definition checkLimit :: "bool \<Rightarrow> connector \<Rightarrow> connector" where
  "checkLimit checkNoLimit c =
     (if c_closed c then c
      else if c_limit c = -1 then (if checkNoLimit then startConnecting c else c)
      else if int (len_pipes c) < c_limit c then startConnecting c
      else stopConnecting c)"

definition connector_onOptionChange :: "opt \<Rightarrow> optval \<Rightarrow> connector \<Rightarrow> unit outcome \<times> connector" where
  "connector_onOptionChange o1 newVal c =
     (if o1 = Opt_PipeLimit
      then (case newVal of
              VInt n \<Rightarrow> (Ok (), checkLimit True (c\<lparr>c_limit := sint n\<rparr>))
            | _ \<Rightarrow> (Panic, c))
      else (Ok (), c))"

section \<open>Construction\<close>

text \<open>\<open>vs\<close> is the order in which the range over \<open>OptionValues()\<close> visits the values of the options.\<close>

fun change_all :: "OptionValues \<Rightarrow> connector \<Rightarrow> unit outcome \<times> connector" where
  "change_all [] c = (Ok (), c)"
| "change_all ((o1, v) # vs) c =
     (case connector_onOptionChange o1 v c of (Ok _, c') \<Rightarrow> change_all vs c' | (r, c') \<Rightarrow> (r, c'))"

definition NewWithLimitAndOptions :: "int \<Rightarrow> oheap \<Rightarrow> nat \<Rightarrow> OptionValues \<Rightarrow> id_gen \<Rightarrow> unit outcome \<times> connector" where
  "NewWithLimitAndOptions limit H a vs g =
     change_all vs
       \<lparr>c_heap = H, c_opts = a, c_negotiator = False, c_limit = limit, c_dialers = [], c_listeners = [], c_pipes = Some [],
        c_handler = False, c_closed = False, c_dobjs = [], c_lobjs = [], c_pobjs = [], c_ids = g, c_tasks = [], c_events = []\<rparr>"

definition NewWithLimitAndOptionValues :: "int \<Rightarrow> OptionValues \<Rightarrow> oheap \<Rightarrow> OptionValues \<Rightarrow> id_gen \<Rightarrow> unit outcome \<times> connector" where
  "NewWithLimitAndOptionValues limit ovs H vs g = (let (a, H') = NewOptionsWithValues ovs H in NewWithLimitAndOptions limit H' a vs g)"

definition NewWithOptionValues :: "OptionValues \<Rightarrow> oheap \<Rightarrow> OptionValues \<Rightarrow> id_gen \<Rightarrow> unit outcome \<times> connector" where
  "NewWithOptionValues ovs H vs g = NewWithLimitAndOptionValues (-1) ovs H vs g"

definition NewWithOptions :: "oheap \<Rightarrow> nat \<Rightarrow> OptionValues \<Rightarrow> id_gen \<Rightarrow> unit outcome \<times> connector" where
  "NewWithOptions H a vs g = NewWithLimitAndOptions (-1) H a vs g"

section \<open>Pipes\<close>

definition set_fate :: "nat \<Rightarrow> pipe_fate \<Rightarrow> connector \<Rightarrow> connector" where
  "set_fate i f c = c\<lparr>c_pobjs := (c_pobjs c)[i := (c_pobjs c ! i)\<lparr>cq_fate := f\<rparr>]\<rparr>"

definition pipeEvent :: "PipeEventKind \<Rightarrow> u32 \<Rightarrow> connector \<Rightarrow> connector" where
  "pipeEvent k i c = (if c_handler c then c\<lparr>c_events := c_events c @ [(k, i)]\<rparr> else c)"

text \<open>\<open>neg\<close> is the error of the negotiator. Assigning into the map that \<open>Close\<close> has set to nil panics.\<close>

definition connector_addPipe :: "err option \<Rightarrow> nat \<Rightarrow> connector \<Rightarrow> unit outcome \<times> connector" where
  "connector_addPipe neg i c =
     (if c_negotiator c \<and> neg \<noteq> None then (Ok (), set_fate i PRefused c)
      else if c_limit c = -1 \<or> c_limit c > int (len_pipes c)
      then (case c_pipes c of
              None \<Rightarrow> (Panic, c)
            | Some ps \<Rightarrow>
                (let pid = cq_id (c_pobjs c ! i);
                     c1 = set_fate i PAdded (c\<lparr>c_pipes := Some (AList.update pid i ps)\<rparr>)
                 in (Ok (), checkLimit False (pipeEvent EvAdd pid c1))))
      else (Ok (), task_add (TCloseP i) (set_fate i PDropped c)))"

text \<open>The negotiator and the handler matter only as being there or not.\<close>

definition SetNegotiator :: "bool \<Rightarrow> connector \<Rightarrow> connector" where
  "SetNegotiator negotiator c = c\<lparr>c_negotiator := negotiator\<rparr>"

definition SetPipeEventHandler :: "bool \<Rightarrow> connector \<Rightarrow> connector" where
  "SetPipeEventHandler handler c = c\<lparr>c_handler := handler\<rparr>"

definition ClearPipeEventHandler :: "connector \<Rightarrow> connector" where
  "ClearPipeEventHandler c = c\<lparr>c_handler := False\<rparr>"

declare SetNegotiator_def [simp] SetPipeEventHandler_def [simp] ClearPipeEventHandler_def [simp]

text \<open>The three lock sections of \<open>remPipe\<close> and what runs between them.\<close>

definition remPipe_delete :: "nat \<Rightarrow> connector \<Rightarrow> connector" where
  "remPipe_delete i c =
     (let pid = cq_id (c_pobjs c ! i)
      in pipeEvent EvRemove pid (c\<lparr>c_pipes := map_option (AList.delete pid) (c_pipes c)\<rparr>))"

definition remPipe_tell :: "nat \<Rightarrow> connector \<Rightarrow> connector" where
  "remPipe_tell i c =
     (case cq_d (c_pobjs c ! i) of
        None \<Rightarrow> c
      | Some d \<Rightarrow>
          (case pipe_gone (c_dobjs c ! d) of
             Some x \<Rightarrow> c\<lparr>c_dobjs := (c_dobjs c)[d := x]\<rparr>
           | None \<Rightarrow> c))"

text \<open>\<open>p.Close()\<close> up to the call of \<open>remPipe\<close>; the rest is the task \<open>TRem\<close>.\<close>

definition pipe_close :: "nat \<Rightarrow> connector \<Rightarrow> err option \<times> connector" where
  "pipe_close i c =
     (if cq_closed (c_pobjs c ! i) then (Some ErrClosed, c)
      else (None, task_add (TRem i) (c\<lparr>c_pobjs := (c_pobjs c)[i := (c_pobjs c ! i)\<lparr>cq_closed := True\<rparr>]\<rparr>)))"

definition GetPipe :: "u32 \<Rightarrow> connector \<Rightarrow> nat option" where
  "GetPipe pid c = (case c_pipes c of None \<Rightarrow> None | Some ps \<Rightarrow> map_of ps pid)"

definition ClosePipe :: "u32 \<Rightarrow> connector \<Rightarrow> connector" where
  "ClosePipe pid c = (case GetPipe pid c of None \<Rightarrow> c | Some i \<Rightarrow> snd (pipe_close i c))"

text \<open>\<open>newPipe\<close> for a connection that was dialled or accepted: \<open>None\<close> when no identifier is left.\<close>

definition make_pipe :: "nat option \<Rightarrow> nat option \<Rightarrow> (nat \<times> nat) option \<Rightarrow> connector \<Rightarrow> connector option" where
  "make_pipe d l w c =
     (case NextID (c_ids c) of
        None \<Rightarrow> None
      | Some (pid, g) \<Rightarrow>
          Some (task_add (TAdd (length (c_pobjs c)) w)
            (c\<lparr>c_ids := g, c_pobjs := c_pobjs c @
                [\<lparr>cq_id = pid, cq_d = d, cq_l = l, cq_fate = PNew, cq_closed = False, cq_recycled = False\<rparr>]\<rparr>)))"

section \<open>Dialling and listening\<close>

definition exceed :: "connector \<Rightarrow> bool" where
  "exceed c \<longleftrightarrow> c_limit c \<noteq> -1 \<and> c_limit c \<le> int (len_pipes c)"

definition connector_NewDialer ::
    "'t transports \<Rightarrow> ('t \<Rightarrow> string \<Rightarrow> unit outcome) \<Rightarrow> string \<Rightarrow> OptionValues \<Rightarrow> connector \<Rightarrow> nat outcome \<times> connector" where
  "connector_NewDialer ts tNewDialer ad ovs c =
     (if c_closed c then (Error ErrClosed, c)
      else case GetTransportFromAddr ad ts of
             None \<Rightarrow> (Error ErrBadTransport, c)
           | Some t \<Rightarrow>
               (case tNewDialer (impl t) ad of
                  Ok _ \<Rightarrow>
                    (let (a, H) = NewOptionsWithValuesAndSubs ovs [c_opts c] (c_heap c);
                         xd = newDialer ad H a;
                         xd' = (if exceed c then dialer_stop xd else xd);
                         k = length (c_dobjs c)
                     in (Ok k, c\<lparr>c_heap := H, c_dobjs := c_dobjs c @ [xd'], c_dialers := c_dialers c @ [k]\<rparr>))
                | Error e \<Rightarrow> (Error e, c)
                | Panic \<Rightarrow> (Panic, c)))"

definition connector_NewListener ::
    "'t transports \<Rightarrow> ('t \<Rightarrow> string \<Rightarrow> unit outcome) \<Rightarrow> string \<Rightarrow> OptionValues \<Rightarrow> connector \<Rightarrow> nat outcome \<times> connector" where
  "connector_NewListener ts tNewListener ad ovs c =
     (if c_closed c then (Error ErrClosed, c)
      else case GetTransportFromAddr ad ts of
             None \<Rightarrow> (Error ErrBadTransport, c)
           | Some t \<Rightarrow>
               (case tNewListener (impl t) ad of
                  Ok _ \<Rightarrow>
                    (let (a, H) = NewOptionsWithValuesAndSubs ovs [c_opts c] (c_heap c);
                         xl = newListener ad H a;
                         xl' = (if exceed c then listener_stop xl else xl);
                         k = length (c_lobjs c)
                     in (Ok k, c\<lparr>c_heap := H, c_lobjs := c_lobjs c @ [xl'], c_listeners := c_listeners c @ [k]\<rparr>))
                | Error e \<Rightarrow> (Error e, c)
                | Panic \<Rightarrow> (Panic, c)))"

definition set_dobj :: "nat \<Rightarrow> dialer \<Rightarrow> connector \<Rightarrow> connector" where
  "set_dobj k d c = c\<lparr>c_dobjs := (c_dobjs c)[k := d]\<rparr>"

definition set_lobj :: "nat \<Rightarrow> clistener \<Rightarrow> connector \<Rightarrow> connector" where
  "set_lobj k l c = c\<lparr>c_lobjs := (c_lobjs c)[k := l]\<rparr>"

definition DialOptions ::
    "'t transports \<Rightarrow> ('t \<Rightarrow> string \<Rightarrow> unit outcome) \<Rightarrow> string \<Rightarrow> OptionValues \<Rightarrow> connector \<Rightarrow> err option outcome \<times> connector" where
  "DialOptions ts tNewDialer ad ovs c =
     (case connector_NewDialer ts tNewDialer ad ovs c of
        (Ok k, c1) \<Rightarrow> (case dialer_Dial (c_dobjs c1 ! k) of (r, d) \<Rightarrow> (r, set_dobj k d c1))
      | (Error e, c1) \<Rightarrow> (Ok (Some e), c1)
      | (Panic, c1) \<Rightarrow> (Panic, c1))"

definition connector_Dial ::
    "'t transports \<Rightarrow> ('t \<Rightarrow> string \<Rightarrow> unit outcome) \<Rightarrow> string \<Rightarrow> connector \<Rightarrow> err option outcome \<times> connector" where
  "connector_Dial ts tNewDialer ad c = DialOptions ts tNewDialer ad [] c"

text \<open>\<open>lr\<close> is the result of the transport listener's \<open>Listen\<close>.\<close>

definition ListenOptions ::
    "'t transports \<Rightarrow> ('t \<Rightarrow> string \<Rightarrow> unit outcome) \<Rightarrow> err option \<Rightarrow> string \<Rightarrow> OptionValues \<Rightarrow> connector \<Rightarrow> err option outcome \<times> connector" where
  "ListenOptions ts tNewListener lr ad ovs c =
     (case connector_NewListener ts tNewListener ad ovs c of
        (Ok k, c1) \<Rightarrow> (case listener_Listen lr (c_lobjs c1 ! k) of (r, l) \<Rightarrow> (Ok r, set_lobj k l c1))
      | (Error e, c1) \<Rightarrow> (Ok (Some e), c1)
      | (Panic, c1) \<Rightarrow> (Panic, c1))"

definition connector_Listen ::
    "'t transports \<Rightarrow> ('t \<Rightarrow> string \<Rightarrow> unit outcome) \<Rightarrow> err option \<Rightarrow> string \<Rightarrow> connector \<Rightarrow> err option outcome \<times> connector" where
  "connector_Listen ts tNewListener lr ad c = ListenOptions ts tNewListener lr ad [] c"

definition remDialer :: "nat \<Rightarrow> connector \<Rightarrow> connector" where
  "remDialer d c = c\<lparr>c_dialers := removeAll d (c_dialers c)\<rparr>"

definition StopDial :: "string \<Rightarrow> connector \<Rightarrow> connector" where
  "StopDial ad c =
     (let ks = filter (\<lambda>k. d_addr (c_dobjs c ! k) = ad) (c_dialers c)
      in c\<lparr>c_dialers := filter (\<lambda>k. d_addr (c_dobjs c ! k) \<noteq> ad) (c_dialers c),
            c_dobjs := each ks (\<lambda>d. snd (dialer_Close d)) (c_dobjs c)\<rparr>)"

definition StopListen :: "string \<Rightarrow> connector \<Rightarrow> connector" where
  "StopListen ad c =
     (let ks = filter (\<lambda>k. cl_addr (c_lobjs c ! k) = ad) (c_listeners c)
      in c\<lparr>c_listeners := filter (\<lambda>k. cl_addr (c_lobjs c ! k) \<noteq> ad) (c_listeners c),
            c_lobjs := each ks (\<lambda>l. snd (listener_Close None l)) (c_lobjs c)\<rparr>)"

text \<open>One turn of \<open>serve\<close>, with what \<open>Accept\<close> returned: it ends on \<open>ErrClosed\<close> and goes on after other errors.\<close>

definition serve_step :: "unit outcome \<Rightarrow> nat \<Rightarrow> connector \<Rightarrow> connector option" where
  "serve_step acc k c =
     (if \<not> cl_serving (c_lobjs c ! k) then None
      else case acc of
             Error e \<Rightarrow> Some (if e = ErrClosed then set_lobj k ((c_lobjs c ! k)\<lparr>cl_serving := False\<rparr>) c else c)
           | Ok _ \<Rightarrow> if isStopped (c_lobjs c ! k) then Some c else make_pipe None (Some k) None c
           | Panic \<Rightarrow> None)"

section \<open>Closing\<close>

definition connector_Close :: "connector \<Rightarrow> connector" where
  "connector_Close c =
     (if c_closed c then c
      else c\<lparr>c_closed := True, c_listeners := [], c_dialers := [], c_pipes := None,
             c_tasks := c_tasks c @ map TCloseL (c_listeners c) @ map TCloseD (c_dialers c) @
               map (\<lambda>(_, i). TCloseP i) (case c_pipes c of None \<Rightarrow> [] | Some ps \<Rightarrow> ps)\<rparr>)"

section \<open>Runs\<close>

definition task_drop :: "nat \<Rightarrow> connector \<Rightarrow> connector" where
  "task_drop t c = c\<lparr>c_tasks := take t (c_tasks c) @ drop (Suc t) (c_tasks c)\<rparr>"

text \<open>One task: the result of a panicking call is \<open>Panic\<close>.\<close>

definition task_step :: "err option \<Rightarrow> nat \<Rightarrow> connector \<Rightarrow> unit outcome \<times> connector" where
  "task_step neg t c =
     (let c0 = task_drop t c
      in case c_tasks c ! t of
           TAdd i w \<Rightarrow> connector_addPipe neg i c0
         | TRem i \<Rightarrow> (Ok (), task_add (TCheck i) (remPipe_tell i (remPipe_delete i c0)))
         | TCheck i \<Rightarrow> (Ok (), task_add (TRecycle i) (checkLimit False c0))
         | TRecycle i \<Rightarrow>
             (Ok (), c0\<lparr>c_ids := Recycle (cq_id (c_pobjs c ! i)) (c_ids c),
                         c_pobjs := (c_pobjs c)[i := (c_pobjs c ! i)\<lparr>cq_recycled := True\<rparr>]\<rparr>)
         | TCloseL k \<Rightarrow> (Ok (), set_lobj k (snd (listener_Close None (c_lobjs c ! k))) c0)
         | TCloseD k \<Rightarrow> (Ok (), set_dobj k (snd (dialer_Close (c_dobjs c ! k))) c0)
         | TCloseP i \<Rightarrow> (Ok (), snd (pipe_close i c0)))"

text \<open>
  A goroutine of a dialer. A connection becomes a pipe and a call of \<open>addPipe\<close>, which the goroutine waits for;
  \<open>remDialer\<close> takes the dialer out of the table before it closes it.
\<close>

definition dialer_step :: "dial_result \<Rightarrow> nat \<Rightarrow> nat \<Rightarrow> connector \<Rightarrow> connector option" where
  "dialer_step res k j c =
     (case thread_step res j (c_dobjs c ! k) of
        None \<Rightarrow> None
      | Some d \<Rightarrow>
          (case d_threads (c_dobjs c ! k) ! j of
             GDialing r \<Rightarrow>
               (case res of
                  Connected \<Rightarrow> make_pipe (Some k) None (Some (k, j)) (set_dobj k d c)
                | Failed e x \<Rightarrow> Some (set_dobj k d c))
           | GAdd \<Rightarrow> if \<exists>i. TAdd i (Some (k, j)) \<in> set (c_tasks c) then None else Some (set_dobj k d c)
           | GRemove \<Rightarrow> Some (remDialer k (set_dobj k d c))
           | _ \<Rightarrow> Some (set_dobj k d c)))"

inductive cstep :: "connector \<Rightarrow> connector \<Rightarrow> bool" where
  cs_NewDialer: "connector_NewDialer (ts :: unit transports) nd ad ovs c = (Ok k, c') \<Longrightarrow> cstep c c'"
| cs_NewListener: "connector_NewListener (ts :: unit transports) nl ad ovs c = (Ok k, c') \<Longrightarrow> cstep c c'"
| cs_Dial: "k < length (c_dobjs c) \<Longrightarrow> dialer_Dial (c_dobjs c ! k) = (r, d) \<Longrightarrow> cstep c (set_dobj k d c)"
| cs_Listen: "k < length (c_lobjs c) \<Longrightarrow> listener_Listen r (c_lobjs c ! k) = (e, l) \<Longrightarrow> cstep c (set_lobj k l c)"
| cs_fire: "k < length (c_dobjs c) \<Longrightarrow> fire j (c_dobjs c ! k) = Some d \<Longrightarrow> cstep c (set_dobj k d c)"
| cs_dialer: "k < length (c_dobjs c) \<Longrightarrow> j < length (d_threads (c_dobjs c ! k)) \<Longrightarrow> dialer_step res k j c = Some c' \<Longrightarrow> cstep c c'"
| cs_dialer_Close: "k < length (c_dobjs c) \<Longrightarrow> dialer_Close (c_dobjs c ! k) = (e, d) \<Longrightarrow> cstep c (set_dobj k d c)"
| cs_listener_Close: "k < length (c_lobjs c) \<Longrightarrow> listener_Close r (c_lobjs c ! k) = (e, l) \<Longrightarrow> cstep c (set_lobj k l c)"
| cs_serve: "k < length (c_lobjs c) \<Longrightarrow> serve_step acc k c = Some c' \<Longrightarrow> cstep c c'"
| cs_StopDial: "cstep c (StopDial ad c)"
| cs_StopListen: "cstep c (StopListen ad c)"
| cs_task: "t < length (c_tasks c) \<Longrightarrow> task_step neg t c = (Ok (), c') \<Longrightarrow> cstep c c'"
| cs_pipe_close: "i < length (c_pobjs c) \<Longrightarrow> cq_fate (c_pobjs c ! i) = PAdded \<Longrightarrow> pipe_close i c = (e, c') \<Longrightarrow> cstep c c'"
| cs_limit: "connector_onOptionChange Opt_PipeLimit (VInt n) c = (Ok (), c') \<Longrightarrow> cstep c c'"
| cs_negotiator: "cstep c (SetNegotiator b c)"
| cs_handler: "cstep c (SetPipeEventHandler b c)"
| cs_no_handler: "cstep c (ClearPipeEventHandler c)"
| cs_Close: "cstep c (connector_Close c)"

text \<open>Runs all of whose states satisfy \<open>P\<close>.\<close>

inductive crun :: "(connector \<Rightarrow> bool) \<Rightarrow> connector \<Rightarrow> connector \<Rightarrow> bool" for P c0 where
  cr_refl: "P c0 \<Longrightarrow> crun P c0 c0"
| cr_step: "crun P c0 c \<Longrightarrow> cstep c c' \<Longrightarrow> P c' \<Longrightarrow> crun P c0 c'"

end
