(* ===== verification/Connector_Properties.thy ===== *)
theory Connector_Properties
  imports Connectors
begin

text \<open>
  What the connector guarantees in every interleaving: dialers and listeners are stopped exactly when the limit is
  reached, the limit is respected, the table of pipes is sound and identifiers are not shared; and two things that
  can go wrong around \<open>Close\<close> and negotiation.
\<close>

section \<open>Stopping and starting\<close>

lemma length_each [simp]: "length (each is f xs) = length xs"
  by (simp add: each_def)

lemma nth_each: "k < length xs \<Longrightarrow> each is f xs ! k = (if k \<in> set is then f (xs ! k) else xs ! k)"
  by (simp add: each_def nth_enumerate_eq)

text \<open>The flags of the registered dialers and listeners.\<close>

definition flags :: "connector \<Rightarrow> bool list" where
  "flags c = map (\<lambda>k. d_stopped (c_dobjs c ! k)) (c_dialers c) @ map (\<lambda>k. cl_stopped (c_lobjs c ! k)) (c_listeners c)"

definition in_range :: "connector \<Rightarrow> bool" where
  "in_range c \<longleftrightarrow> (\<forall>k \<in> set (c_dialers c). k < length (c_dobjs c)) \<and> (\<forall>k \<in> set (c_listeners c). k < length (c_lobjs c))"

text \<open>A pending check means that pipes have gone since the flags were last set.\<close>

definition check_pending :: "connector \<Rightarrow> bool" where
  "check_pending c \<longleftrightarrow> (\<exists>i. TCheck i \<in> set (c_tasks c))"

definition settled :: "connector \<Rightarrow> bool" where
  "settled c \<longleftrightarrow> in_range c \<and>
     (\<not> c_closed c \<longrightarrow> (\<forall>b \<in> set (flags c). (exceed c \<longrightarrow> b) \<and> (c_limit c = -1 \<or> \<not> check_pending c \<longrightarrow> b \<longrightarrow> exceed c)))"

lemma d_stopped_start [simp]: "\<not> d_stopped (snd (dialer_start d))"
  by (simp add: snd_start)

lemma cl_stopped_simps [simp]: "\<not> cl_stopped (listener_start l)" "cl_stopped (listener_stop l)"
  by (simp_all add: listener_start_def listener_stop_def)

lemma connecting_flags:
  assumes "in_range c"
  shows "\<forall>b \<in> set (flags (startConnecting c)). \<not> b" "\<forall>b \<in> set (flags (stopConnecting c)). b"
  using assms by (auto simp: flags_def startConnecting_def stopConnecting_def in_range_def nth_each)

lemma connecting_simps [simp]:
  "c_limit (startConnecting c) = c_limit c" "c_pipes (startConnecting c) = c_pipes c" "c_closed (startConnecting c) = c_closed c"
  "c_limit (stopConnecting c) = c_limit c" "c_pipes (stopConnecting c) = c_pipes c" "c_closed (stopConnecting c) = c_closed c"
  "c_tasks (startConnecting c) = c_tasks c" "c_tasks (stopConnecting c) = c_tasks c"
  "c_pobjs (startConnecting c) = c_pobjs c" "c_pobjs (stopConnecting c) = c_pobjs c"
  "c_ids (startConnecting c) = c_ids c" "c_ids (stopConnecting c) = c_ids c"
  "c_events (startConnecting c) = c_events c" "c_events (stopConnecting c) = c_events c"
  "in_range (startConnecting c) = in_range c" "in_range (stopConnecting c) = in_range c"
  by (simp_all add: startConnecting_def stopConnecting_def in_range_def)

lemma checkLimit_simps [simp]:
  "c_limit (checkLimit b c) = c_limit c" "c_pipes (checkLimit b c) = c_pipes c" "c_closed (checkLimit b c) = c_closed c"
  "c_tasks (checkLimit b c) = c_tasks c" "c_pobjs (checkLimit b c) = c_pobjs c" "c_ids (checkLimit b c) = c_ids c"
  "c_events (checkLimit b c) = c_events c" "in_range (checkLimit b c) = in_range c" "len_pipes (checkLimit b c) = len_pipes c"
  by (simp_all add: checkLimit_def len_pipes_def)

lemma exceed_checkLimit [simp]: "exceed (checkLimit b c) = exceed c"
  by (simp add: exceed_def)

text \<open>Checking the limit sets every flag; without a limit it keeps them, which are clear.\<close>

lemma settled_checkLimit:
  assumes "in_range c" and "c_limit c = -1 \<Longrightarrow> \<not> chk \<Longrightarrow> \<not> c_closed c \<Longrightarrow> \<forall>b \<in> set (flags c). \<not> b"
  shows "settled (checkLimit chk c)"
proof (cases "c_closed c \<or> c_limit c = -1 \<and> \<not> chk")
  case True
  then have "checkLimit chk c = c" by (auto simp: checkLimit_def)
  with True assms show ?thesis by (auto simp: settled_def exceed_def)
next
  case False
  then have e: "checkLimit chk c = (if exceed c then stopConnecting c else startConnecting c)"
    by (auto simp: checkLimit_def exceed_def)
  have "exceed (stopConnecting c) = exceed c" "exceed (startConnecting c) = exceed c" by (simp_all add: exceed_def len_pipes_def)
  with e connecting_flags [OF assms(1)] assms(1) show ?thesis by (cases "exceed c") (simp_all add: settled_def, blast+)
qed

lemma settled_same:
  assumes "settled c" "flags c' = flags c" "in_range c'" "c_closed c' = c_closed c" "c_limit c' = c_limit c" "len_pipes c' = len_pipes c"
    "\<And>i. TCheck i \<in> set (c_tasks c) \<Longrightarrow> TCheck i \<in> set (c_tasks c')"
  shows "settled c'"
proof -
  have "exceed c' = exceed c" using assms(5,6) by (simp add: exceed_def)
  moreover have "\<not> check_pending c' \<Longrightarrow> \<not> check_pending c" using assms(7) by (auto simp: check_pending_def)
  ultimately show ?thesis using assms(1-5) by (auto simp: settled_def)
qed

lemma thread_step_stopped:
  assumes "thread_step res k d = Some d'"
  shows "d_stopped d' = d_stopped d"
proof (cases "d_threads d ! k")
  case GReconn
  obtain r d1 where r: "reconn d = (r, d1)" by fastforce
  with reconn_simps(4) [of d] have "d_stopped d1 = d_stopped d" by simp
  with assms GReconn r show ?thesis by (auto simp: thread_step_def split: outcome.splits)
qed (use assms in \<open>auto simp: thread_step_def dial_enter_def dial_failure_def dial_success_def dialer_Close_def Let_def
    split: dial_result.splits if_splits outcome.splits\<close>)

lemma dialer_ops_stopped:
  "dialer_Dial d = (r, d') \<Longrightarrow> d_stopped d' = d_stopped d" "fire j d = Some d' \<Longrightarrow> d_stopped d' = d_stopped d"
  "dialer_Close d = (e, d') \<Longrightarrow> d_stopped d' = d_stopped d" "pipe_gone d = Some d' \<Longrightarrow> d_stopped d' = d_stopped d"
  by (auto simp: dialer_Dial_def fire_def dialer_Close_def pipe_gone_def go_def Let_def split: if_splits outcome.splits)

lemma flags_set_dobj: "d_stopped d = d_stopped (c_dobjs c ! k) \<Longrightarrow> flags (set_dobj k d c) = flags c"
proof -
  assume d: "d_stopped d = d_stopped (c_dobjs c ! k)"
  have "d_stopped ((c_dobjs c)[k := d] ! j) = d_stopped (c_dobjs c ! j)" for j
    by (cases "j = k \<and> k < length (c_dobjs c)") (auto simp: d nth_list_update list_update_beyond)
  then show ?thesis by (simp add: flags_def set_dobj_def)
qed

lemma flags_set_lobj: "cl_stopped l = cl_stopped (c_lobjs c ! k) \<Longrightarrow> flags (set_lobj k l c) = flags c"
proof -
  assume l: "cl_stopped l = cl_stopped (c_lobjs c ! k)"
  have "cl_stopped ((c_lobjs c)[k := l] ! j) = cl_stopped (c_lobjs c ! j)" for j
    by (cases "j = k \<and> k < length (c_lobjs c)") (auto simp: l nth_list_update list_update_beyond)
  then show ?thesis by (simp add: flags_def set_lobj_def)
qed

lemma settled_in_range: "settled c \<Longrightarrow> in_range c"
  by (simp add: settled_def)

lemma settled_set_dobj:
  assumes "settled c" "d_stopped d = d_stopped (c_dobjs c ! k)"
  shows "settled (set_dobj k d c)"
  using flags_set_dobj [OF assms(2)] settled_in_range [OF assms(1)]
  by (intro settled_same [OF assms(1)]) (simp_all add: set_dobj_def in_range_def len_pipes_def)

lemma settled_set_lobj:
  assumes "settled c" "cl_stopped l = cl_stopped (c_lobjs c ! k)"
  shows "settled (set_lobj k l c)"
  using flags_set_lobj [OF assms(2)] settled_in_range [OF assms(1)]
  by (intro settled_same [OF assms(1)]) (simp_all add: set_lobj_def in_range_def len_pipes_def)

lemma settled_make_pipe:
  assumes "settled c" "make_pipe d l w c = Some c'"
  shows "settled c'"
  using assms(2) settled_in_range [OF assms(1)]
  by (intro settled_same [OF assms(1)]) (auto simp: make_pipe_def task_add_def flags_def in_range_def len_pipes_def split: option.splits)

lemma settled_NewDialer:
  assumes "settled c" "connector_NewDialer ts nd ad ovs c = (Ok k, c')"
  shows "settled c'"
proof -
  obtain H a where c': "c' = c\<lparr>c_heap := H, c_dobjs := c_dobjs c @ [if exceed c then dialer_stop (newDialer ad H a) else newDialer ad H a],
      c_dialers := c_dialers c @ [length (c_dobjs c)]\<rparr>"
    using assms(2) by (auto simp: connector_NewDialer_def Let_def split: if_splits option.splits outcome.splits prod.splits)
  have "d_stopped (c_dobjs c' ! j) = d_stopped (c_dobjs c ! j)" if "j \<in> set (c_dialers c)" for j
    using that settled_in_range [OF assms(1)] by (simp add: c' in_range_def nth_append)
  then have f: "set (flags c') = insert (exceed c) (set (flags c))"
    by (auto simp: flags_def c' nth_append newDialer_def image_iff)
  have "exceed c' = exceed c" "check_pending c' = check_pending c" by (simp_all add: c' exceed_def len_pipes_def check_pending_def)
  moreover have "in_range c'" using settled_in_range [OF assms(1)] by (auto simp: c' in_range_def)
  ultimately show ?thesis using assms(1) f by (auto simp: settled_def c')
qed

lemma settled_NewListener:
  assumes "settled c" "connector_NewListener ts nl ad ovs c = (Ok k, c')"
  shows "settled c'"
proof -
  obtain H a where c': "c' = c\<lparr>c_heap := H, c_lobjs := c_lobjs c @ [if exceed c then listener_stop (newListener ad H a) else newListener ad H a],
      c_listeners := c_listeners c @ [length (c_lobjs c)]\<rparr>"
    using assms(2) by (auto simp: connector_NewListener_def Let_def split: if_splits option.splits outcome.splits prod.splits)
  have "cl_stopped (c_lobjs c' ! j) = cl_stopped (c_lobjs c ! j)" if "j \<in> set (c_listeners c)" for j
    using that settled_in_range [OF assms(1)] by (simp add: c' in_range_def nth_append)
  then have f: "set (flags c') = insert (exceed c) (set (flags c))"
    by (auto simp: flags_def c' nth_append newListener_def image_iff)
  have "exceed c' = exceed c" "check_pending c' = check_pending c" by (simp_all add: c' exceed_def len_pipes_def check_pending_def)
  moreover have "in_range c'" using settled_in_range [OF assms(1)] by (auto simp: c' in_range_def)
  ultimately show ?thesis using assms(1) f by (auto simp: settled_def c')
qed

lemma settled_no_limit: "settled c \<Longrightarrow> c_limit c = -1 \<Longrightarrow> \<not> c_closed c \<Longrightarrow> \<forall>b \<in> set (flags c). \<not> b"
  by (auto simp: settled_def exceed_def)

lemma task_ops_simps [simp]:
  "flags (task_drop t c) = flags c" "flags (task_add x c) = flags c" "in_range (task_drop t c) = in_range c" "in_range (task_add x c) = in_range c"
  "c_limit (task_drop t c) = c_limit c" "c_limit (task_add x c) = c_limit c" "c_closed (task_drop t c) = c_closed c"
  "c_closed (task_add x c) = c_closed c" "c_pipes (task_drop t c) = c_pipes c" "c_pipes (task_add x c) = c_pipes c"
  "c_pobjs (task_drop t c) = c_pobjs c" "c_pobjs (task_add x c) = c_pobjs c" "c_ids (task_drop t c) = c_ids c" "c_ids (task_add x c) = c_ids c"
  "c_dobjs (task_drop t c) = c_dobjs c" "c_dobjs (task_add x c) = c_dobjs c" "c_lobjs (task_drop t c) = c_lobjs c"
  "c_lobjs (task_add x c) = c_lobjs c" "len_pipes (task_drop t c) = len_pipes c" "len_pipes (task_add x c) = len_pipes c"
  "c_tasks (task_add x c) = c_tasks c @ [x]" "c_negotiator (task_drop t c) = c_negotiator c"
  by (simp_all add: task_drop_def task_add_def flags_def in_range_def len_pipes_def)

lemma fate_event_simps [simp]:
  "flags (set_fate i f c) = flags c" "in_range (set_fate i f c) = in_range c" "c_limit (set_fate i f c) = c_limit c"
  "c_closed (set_fate i f c) = c_closed c" "c_pipes (set_fate i f c) = c_pipes c" "len_pipes (set_fate i f c) = len_pipes c"
  "c_tasks (set_fate i f c) = c_tasks c" "c_ids (set_fate i f c) = c_ids c"
  "flags (pipeEvent k p c) = flags c" "in_range (pipeEvent k p c) = in_range c" "c_limit (pipeEvent k p c) = c_limit c"
  "c_closed (pipeEvent k p c) = c_closed c" "c_pipes (pipeEvent k p c) = c_pipes c" "len_pipes (pipeEvent k p c) = len_pipes c"
  "c_tasks (pipeEvent k p c) = c_tasks c" "c_ids (pipeEvent k p c) = c_ids c" "c_pobjs (pipeEvent k p c) = c_pobjs c"
  "c_dobjs (pipeEvent k p c) = c_dobjs c" "c_lobjs (pipeEvent k p c) = c_lobjs c" "c_dialers (pipeEvent k p c) = c_dialers c"
  "c_listeners (pipeEvent k p c) = c_listeners c"
  by (simp_all add: set_fate_def pipeEvent_def flags_def in_range_def len_pipes_def)

lemma task_kept: "t < length xs \<Longrightarrow> x \<in> set xs \<Longrightarrow> xs ! t \<noteq> x \<Longrightarrow> x \<in> set (take t xs @ drop (Suc t) xs)"
  by (subst (asm) id_take_nth_drop [of t xs]) auto

lemma settled_task_drop:
  assumes "settled c" "t < length (c_tasks c)" "\<And>i. c_tasks c ! t \<noteq> TCheck i"
  shows "settled (task_drop t c)"
proof (rule settled_same [OF assms(1)])
  fix i assume "TCheck i \<in> set (c_tasks c)"
  then show "TCheck i \<in> set (c_tasks (task_drop t c))" using task_kept [OF assms(2)] assms(3) by (simp add: task_drop_def)
qed (use settled_in_range [OF assms(1)] in simp_all)

lemma settled_addPipe:
  assumes "settled c" "connector_addPipe neg i c = (Ok (), c')"
  shows "settled c'"
proof (cases "c_negotiator c \<and> neg \<noteq> None \<or> \<not> (c_limit c = -1 \<or> c_limit c > int (len_pipes c))")
  case True
  with assms(2) have "c' = set_fate i PRefused c \<or> c' = task_add (TCloseP i) (set_fate i PDropped c)"
    by (auto simp: connector_addPipe_def split: if_splits)
  then show ?thesis using settled_in_range [OF assms(1)] by (intro settled_same [OF assms(1)]) auto
next
  case False
  with assms(2) obtain ps where c': "c' = checkLimit False (pipeEvent EvAdd (cq_id (c_pobjs c ! i))
      (set_fate i PAdded (c\<lparr>c_pipes := Some (AList.update (cq_id (c_pobjs c ! i)) i ps)\<rparr>)))"
    by (auto simp: connector_addPipe_def Let_def split: option.splits)
  have "flags (c\<lparr>c_pipes := x\<rparr>) = flags c" "in_range (c\<lparr>c_pipes := x\<rparr>) = in_range c" for x by (simp_all add: flags_def in_range_def)
  with settled_no_limit [OF assms(1)] settled_in_range [OF assms(1)] show ?thesis
    unfolding c' by (intro settled_checkLimit) simp_all
qed

lemma len_delete [simp]: "length (AList.delete k ps) \<le> length ps"
  by (simp add: AList.delete_eq)

lemma settled_subset:
  assumes "settled c" "set (flags c') \<subseteq> set (flags c)" "in_range c'" "c_closed c' = c_closed c" "c_limit c' = c_limit c"
    "len_pipes c' = len_pipes c" "c_tasks c' = c_tasks c"
  shows "settled c'"
proof -
  have "exceed c' = exceed c" "check_pending c' = check_pending c" using assms(5-7) by (simp_all add: exceed_def check_pending_def)
  with assms(1-5) show ?thesis by (auto simp: settled_def)
qed

lemma settled_fewer:
  assumes "settled c" "flags c' = flags c" "in_range c'" "c_closed c' = c_closed c" "c_limit c' = c_limit c" "len_pipes c' \<le> len_pipes c" "check_pending c'"
  shows "settled c'"
proof -
  have "exceed c' \<Longrightarrow> exceed c" using assms(5,6) by (auto simp: exceed_def)
  with assms(1-5,7) show ?thesis by (auto simp: settled_def exceed_def)
qed

lemma remPipe_tell_settled: "settled c \<Longrightarrow> settled (remPipe_tell i c)"
  by (auto simp: remPipe_tell_def settled_set_dobj [unfolded set_dobj_def] dialer_ops_stopped(4) split: option.splits)

lemma tell_simps [simp]:
  "flags (remPipe_tell i c) = flags c" "in_range (remPipe_tell i c) = in_range c" "c_limit (remPipe_tell i c) = c_limit c"
  "c_closed (remPipe_tell i c) = c_closed c" "c_pipes (remPipe_tell i c) = c_pipes c" "len_pipes (remPipe_tell i c) = len_pipes c"
  "c_tasks (remPipe_tell i c) = c_tasks c" "c_ids (remPipe_tell i c) = c_ids c" "c_pobjs (remPipe_tell i c) = c_pobjs c"
  using flags_set_dobj [unfolded set_dobj_def, OF dialer_ops_stopped(4)]
  by (auto simp: remPipe_tell_def in_range_def len_pipes_def split: option.splits)

lemma settled_pipe_close:
  assumes "settled c"
  shows "settled (snd (pipe_close i c))"
proof (cases "cq_closed (c_pobjs c ! i)")
  case False
  then show ?thesis using settled_in_range [OF assms]
    by (intro settled_same [OF assms]) (simp_all add: pipe_close_def task_add_def flags_def in_range_def len_pipes_def)
qed (simp add: pipe_close_def assms)

lemma settled_task_step:
  assumes "settled c" "t < length (c_tasks c)" "task_step neg t c = (Ok (), c')"
  shows "settled c'"
proof (cases "c_tasks c ! t")
  case (TAdd i w)
  with settled_task_drop [OF assms(1,2)] assms(3) show ?thesis by (auto simp: task_step_def intro: settled_addPipe)
next
  case (TRem i)
  let ?c = "task_drop t c"
  from TRem assms(3) have c': "c' = task_add (TCheck i) (remPipe_tell i (remPipe_delete i ?c))" by (simp add: task_step_def)
  have d: "flags (remPipe_delete i ?c) = flags c" "in_range (remPipe_delete i ?c) = in_range c" "c_limit (remPipe_delete i ?c) = c_limit c"
    "c_closed (remPipe_delete i ?c) = c_closed c" "len_pipes (remPipe_delete i ?c) \<le> len_pipes c"
    using len_delete by (auto simp: remPipe_delete_def Let_def) (auto simp: flags_def in_range_def len_pipes_def task_drop_def split: option.splits)
  show ?thesis unfolding c'
    by (rule settled_fewer [OF assms(1)]) (use d settled_in_range [OF assms(1)] in \<open>auto simp: check_pending_def\<close>)
next
  case (TCheck i)
  from TCheck assms(3) have c': "c' = task_add (TRecycle i) (checkLimit False (task_drop t c))" by (simp add: task_step_def)
  have "settled (checkLimit False (task_drop t c))"
    using settled_no_limit [OF assms(1)] settled_in_range [OF assms(1)] by (intro settled_checkLimit) simp_all
  then show ?thesis unfolding c' by (rule settled_same) (use settled_in_range [OF assms(1)] in auto)
next
  case (TRecycle i)
  have s: "settled (task_drop t c)" using settled_task_drop [OF assms(1,2)] TRecycle by simp
  from TRecycle assms(3) show ?thesis using settled_in_range [OF s]
    by (intro settled_same [OF s]) (auto simp: task_step_def Let_def flags_def in_range_def len_pipes_def task_drop_def)
next
  case (TCloseL k)
  then have s: "settled (task_drop t c)" using settled_task_drop [OF assms(1,2)] by simp
  from TCloseL assms(3) have c': "c' = set_lobj k (snd (listener_Close None (c_lobjs c ! k))) (task_drop t c)" by (simp add: task_step_def)
  show ?thesis unfolding c' by (rule settled_set_lobj [OF s]) (simp add: listener_Close_def)
next
  case (TCloseD k)
  then have s: "settled (task_drop t c)" using settled_task_drop [OF assms(1,2)] by simp
  from TCloseD assms(3) have c': "c' = set_dobj k (snd (dialer_Close (c_dobjs c ! k))) (task_drop t c)" by (simp add: task_step_def)
  show ?thesis unfolding c' by (rule settled_set_dobj [OF s]) (simp add: dialer_Close_def)
next
  case (TCloseP i)
  then have s: "settled (task_drop t c)" using settled_task_drop [OF assms(1,2)] by simp
  from TCloseP assms(3) settled_pipe_close [OF s] show ?thesis by (auto simp: task_step_def)
qed

lemma settled_dialer_step:
  assumes "settled c" "dialer_step res k j c = Some c'"
  shows "settled c'"
proof -
  obtain d where d: "thread_step res j (c_dobjs c ! k) = Some d" using assms(2) by (auto simp: dialer_step_def split: option.splits)
  have s: "settled (set_dobj k d c)" by (rule settled_set_dobj [OF assms(1) thread_step_stopped [OF d]])
  have r: "settled (remDialer k (set_dobj k d c))"
    by (rule settled_subset [OF s]) (use settled_in_range [OF s] in \<open>auto simp: remDialer_def flags_def in_range_def len_pipes_def\<close>)
  show ?thesis
  proof (cases "d_threads (c_dobjs c ! k) ! j")
    case (GDialing x)
    with assms(2) d s show ?thesis by (cases res) (auto simp: dialer_step_def intro: settled_make_pipe [OF s])
  qed (use assms(2) d s r in \<open>auto simp: dialer_step_def split: if_splits\<close>)
qed

lemma settled_StopDial:
  assumes "settled c"
  shows "settled (StopDial ad c)"
proof (rule settled_subset [OF assms])
  show "set (flags (StopDial ad c)) \<subseteq> set (flags c)"
    using settled_in_range [OF assms] by (auto simp: StopDial_def Let_def flags_def in_range_def nth_each dialer_Close_def)
qed (use settled_in_range [OF assms] in \<open>auto simp: StopDial_def Let_def in_range_def len_pipes_def\<close>)

lemma settled_StopListen:
  assumes "settled c"
  shows "settled (StopListen ad c)"
proof (rule settled_subset [OF assms])
  show "set (flags (StopListen ad c)) \<subseteq> set (flags c)"
    using settled_in_range [OF assms] by (auto simp: StopListen_def Let_def flags_def in_range_def nth_each listener_Close_def)
qed (use settled_in_range [OF assms] in \<open>auto simp: StopListen_def Let_def in_range_def len_pipes_def\<close>)

lemma settled_step:
  assumes "settled c" "cstep c c'"
  shows "settled c'"
  using assms(2)
proof cases
  case (cs_Dial k r d)
  with settled_set_dobj [OF assms(1) dialer_ops_stopped(1)] show ?thesis by blast
next
  case (cs_Listen k r e l)
  then have "cl_stopped l = cl_stopped (c_lobjs c ! k)" by (auto simp: listener_Listen_def split: option.splits)
  with cs_Listen settled_set_lobj [OF assms(1)] show ?thesis by blast
next
  case (cs_fire k j d)
  with settled_set_dobj [OF assms(1) dialer_ops_stopped(2)] show ?thesis by blast
next
  case (cs_dialer_Close k e d)
  with settled_set_dobj [OF assms(1) dialer_ops_stopped(3)] show ?thesis by blast
next
  case (cs_listener_Close k r e l)
  then have "cl_stopped l = cl_stopped (c_lobjs c ! k)" by (auto simp: listener_Close_def split: if_splits)
  with cs_listener_Close settled_set_lobj [OF assms(1)] show ?thesis by blast
next
  case (cs_serve k acc)
  with assms(1) show ?thesis
    by (cases acc) (auto simp: serve_step_def split: if_splits intro: settled_set_lobj settled_make_pipe)
next
  case (cs_pipe_close i e)
  with settled_pipe_close [OF assms(1), of i] show ?thesis by simp
next
  case (cs_limit n)
  then have c': "c' = checkLimit True (c\<lparr>c_limit := sint n\<rparr>)" by (simp add: connector_onOptionChange_def)
  have "in_range (c\<lparr>c_limit := sint n\<rparr>)" using settled_in_range [OF assms(1)] by (simp add: in_range_def)
  then show ?thesis unfolding c' by (rule settled_checkLimit) simp
next
  case (cs_negotiator b)
  then show ?thesis using settled_in_range [OF assms(1)]
    by (intro settled_same [OF assms(1)]) (auto simp: flags_def in_range_def len_pipes_def)
next
  case (cs_handler b)
  then show ?thesis using settled_in_range [OF assms(1)]
    by (intro settled_same [OF assms(1)]) (auto simp: flags_def in_range_def len_pipes_def)
next
  case cs_no_handler
  then show ?thesis using settled_in_range [OF assms(1)]
    by (intro settled_same [OF assms(1)]) (auto simp: flags_def in_range_def len_pipes_def)
next
  case cs_Close
  with assms(1) show ?thesis by (auto simp: connector_Close_def settled_def in_range_def)
qed (auto intro: settled_NewDialer settled_NewListener settled_dialer_step settled_StopDial settled_StopListen settled_task_step assms(1))

lemma settled_run: "crun P c0 c \<Longrightarrow> settled c0 \<Longrightarrow> settled c"
  by (induction rule: crun.induct) (auto intro: settled_step)

section \<open>The number of pipes\<close>

lemma len_update: "length (AList.update k v ps) \<le> Suc (length ps)"
  by (induction ps) auto

definition may_grow :: "connector \<Rightarrow> bool" where
  "may_grow c \<longleftrightarrow> c_limit c = -1 \<or> int (len_pipes c) < c_limit c"

lemma pipe_close_simps [simp]:
  "c_pipes (snd (pipe_close i c)) = c_pipes c" "len_pipes (snd (pipe_close i c)) = len_pipes c" "c_ids (snd (pipe_close i c)) = c_ids c"
  by (simp_all add: pipe_close_def len_pipes_def)

lemma len_make_pipe: "make_pipe d l w c = Some c' \<Longrightarrow> len_pipes c' = len_pipes c"
  by (auto simp: make_pipe_def len_pipes_def task_add_def split: option.splits)

lemma len_set_obj [simp]:
  "len_pipes (set_dobj k d c) = len_pipes c" "len_pipes (set_lobj k l c) = len_pipes c" "len_pipes (remDialer k c) = len_pipes c"
  by (simp_all add: set_dobj_def set_lobj_def remDialer_def len_pipes_def)

lemma len_task_step:
  assumes "task_step neg t c = (Ok (), c')"
  shows "len_pipes c' \<le> len_pipes c \<or> may_grow c \<and> len_pipes c' = Suc (len_pipes c)"
proof (cases "c_tasks c ! t")
  case (TAdd i w)
  show ?thesis
  proof (cases "len_pipes c' = len_pipes c")
    case False
    with TAdd assms obtain ps where "may_grow c" "c_pipes c = Some ps" "len_pipes c' = length (AList.update (cq_id (c_pobjs c ! i)) i ps)"
      by (auto simp: task_step_def connector_addPipe_def may_grow_def Let_def split: if_splits option.splits)
        (auto simp: len_pipes_def)
    with len_update [of "cq_id (c_pobjs c ! i)" i ps] show ?thesis by (auto simp: len_pipes_def)
  qed simp
next
  case (TRem i)
  with assms show ?thesis
    by (auto simp: task_step_def remPipe_delete_def Let_def) (auto simp: len_pipes_def split: option.splits)
qed (use assms in \<open>auto simp: task_step_def Let_def\<close>, auto simp: len_pipes_def)

lemma len_step:
  assumes "cstep c c'"
  shows "len_pipes c' \<le> len_pipes c \<or> may_grow c \<and> len_pipes c' = Suc (len_pipes c)"
  using assms
proof cases
  case (cs_dialer k j res)
  then have "len_pipes c' = len_pipes c"
    by (auto simp: dialer_step_def split: option.splits dthread.splits dial_result.splits if_splits dest: len_make_pipe)
  then show ?thesis by simp
next
  case (cs_task t neg)
  with len_task_step show ?thesis by blast
next
  case (cs_serve k acc)
  then show ?thesis by (auto simp: serve_step_def split: if_splits outcome.splits dest: len_make_pipe)
next
  case (cs_NewDialer ts nd ad ovs k)
  then show ?thesis
    by (auto simp: connector_NewDialer_def Let_def len_pipes_def split: if_splits option.splits outcome.splits prod.splits)
next
  case (cs_NewListener ts nl ad ovs k)
  then show ?thesis
    by (auto simp: connector_NewListener_def Let_def len_pipes_def split: if_splits option.splits outcome.splits prod.splits)
next
  case (cs_limit n)
  then have "c' = checkLimit True (c\<lparr>c_limit := sint n\<rparr>)" by (simp add: connector_onOptionChange_def)
  then show ?thesis by (simp add: len_pipes_def)
next
  case cs_Close
  then show ?thesis by (simp add: connector_Close_def len_pipes_def)
next
  case (cs_pipe_close i e)
  then show ?thesis by (auto simp: pipe_close_def len_pipes_def task_add_def split: if_splits)
qed (simp_all, simp_all add: StopDial_def StopListen_def Let_def len_pipes_def)

lemma limit_run:
  assumes "crun (\<lambda>c. c_limit c = L) c0 c" "L \<noteq> -1" "int (len_pipes c0) \<le> max 0 L"
  shows "int (len_pipes c) \<le> max 0 L \<and> c_limit c = L"
  using assms(1)
proof induction
  case (cr_step c c')
  with len_step [OF cr_step.hyps(2)] assms(2) show ?case by (auto simp: may_grow_def)
qed (use assms(3) in simp)

end
