(* ===== verification/Connector_Table.thy ===== *)
theory Connector_Table
  imports Connector_Properties
begin

text \<open>
  The table of pipes in every interleaving: it maps identifiers to the pipes that have them, a pipe is removed and its
  identifier given back at most once, and pipes in use never share an identifier.
\<close>

section \<open>The table of pipes\<close>

fun closing_task :: "nat \<Rightarrow> task \<Rightarrow> bool" where
  "closing_task i (TRem j) = (i = j)"
| "closing_task i (TCheck j) = (i = j)"
| "closing_task i (TRecycle j) = (i = j)"
| "closing_task i _ = False"

fun adding_task :: "nat \<Rightarrow> task \<Rightarrow> bool" where
  "adding_task i (TAdd j w) = (i = j)"
| "adding_task i _ = False"

text \<open>
  A pipe whose \<open>Close\<close> has begun and not ended has exactly one task for the rest of it, one that \<open>addPipe\<close> has not
  decided about has at most one call of it; pipes that are not done have different identifiers, all taken; the
  table maps identifiers to the added pipes that have them, and one that is closed is about to be removed.
\<close>

definition pipe_ok :: "task list \<Rightarrow> nat \<Rightarrow> cpipe \<Rightarrow> bool" where
  "pipe_ok ts i p \<longleftrightarrow>
     length (filter (closing_task i) ts) = (if cq_closed p \<and> \<not> cq_recycled p then 1 else 0) \<and>
     length (filter (adding_task i) ts) \<le> (if cq_fate p = PNew then 1 else 0) \<and>
     (TCloseP i \<in> set ts \<longrightarrow> cq_fate p \<noteq> PNew) \<and> (cq_recycled p \<longrightarrow> cq_closed p) \<and> (cq_closed p \<longrightarrow> cq_fate p \<noteq> PNew)"

definition pipe_tasks_ok :: "connector \<Rightarrow> bool" where
  "pipe_tasks_ok c \<longleftrightarrow> (\<forall>i < length (c_pobjs c). pipe_ok (c_tasks c) i (c_pobjs c ! i))"

fun task_pipe :: "task \<Rightarrow> nat option" where
  "task_pipe (TAdd i w) = Some i"
| "task_pipe (TRem i) = Some i"
| "task_pipe (TCheck i) = Some i"
| "task_pipe (TRecycle i) = Some i"
| "task_pipe (TCloseP i) = Some i"
| "task_pipe _ = None"

definition task_range :: "connector \<Rightarrow> bool" where
  "task_range c \<longleftrightarrow> (\<forall>t \<in> set (c_tasks c). \<forall>i. task_pipe t = Some i \<longrightarrow> i < length (c_pobjs c))"

definition ids_ok :: "connector \<Rightarrow> bool" where
  "ids_ok c \<longleftrightarrow> (\<forall>i < length (c_pobjs c). \<not> cq_recycled (c_pobjs c ! i) \<longrightarrow> cq_id (c_pobjs c ! i) \<in> ids (c_ids c) \<and>
     (\<forall>j < length (c_pobjs c). \<not> cq_recycled (c_pobjs c ! j) \<and> cq_id (c_pobjs c ! i) = cq_id (c_pobjs c ! j) \<longrightarrow> i = j))"

definition entry_ok :: "connector \<Rightarrow> u32 \<times> nat \<Rightarrow> bool" where
  "entry_ok c x \<longleftrightarrow> snd x < length (c_pobjs c) \<and> cq_id (c_pobjs c ! snd x) = fst x \<and> cq_fate (c_pobjs c ! snd x) = PAdded \<and>
     \<not> cq_recycled (c_pobjs c ! snd x) \<and> (cq_closed (c_pobjs c ! snd x) \<longrightarrow> TRem (snd x) \<in> set (c_tasks c))"

definition entries_ok :: "connector \<Rightarrow> bool" where
  "entries_ok c \<longleftrightarrow> (\<forall>ps. c_pipes c = Some ps \<longrightarrow> distinct (map fst ps) \<and> (\<forall>x \<in> set ps. entry_ok c x))"

definition table_ok :: "connector \<Rightarrow> bool" where
  "table_ok c \<longleftrightarrow> pipe_tasks_ok c \<and> task_range c \<and> ids_ok c \<and> entries_ok c"

lemmas table_defs = table_ok_def pipe_tasks_ok_def pipe_ok_def task_range_def ids_ok_def entries_ok_def entry_ok_def

text \<open>Steps that touch neither pipes nor tasks, and those that only add or drop a task of another kind.\<close>

lemma table_same:
  "table_ok c \<Longrightarrow> c_pobjs c' = c_pobjs c \<Longrightarrow> c_tasks c' = c_tasks c \<Longrightarrow> c_ids c' = c_ids c \<Longrightarrow> c_pipes c' = c_pipes c \<Longrightarrow> table_ok c'"
  by (simp add: table_defs)

lemma filter_one_of_two:
  assumes "length (filter P xs) \<le> 1" "x \<in> set xs" "y \<in> set xs" "P x" "P y"
  shows "x = y"
proof -
  from assms have "x \<in> set (filter P xs)" "y \<in> set (filter P xs)" by simp_all
  with assms(1) show ?thesis by (cases "filter P xs") (auto simp: le_Suc_eq)
qed

lemma closing_once:
  assumes "pipe_tasks_ok c" "i < length (c_pobjs c)" "a \<in> set (c_tasks c)" "b \<in> set (c_tasks c)" "closing_task i a" "closing_task i b"
  shows "a = b" "cq_closed (c_pobjs c ! i)" "\<not> cq_recycled (c_pobjs c ! i)" "cq_fate (c_pobjs c ! i) \<noteq> PNew"
proof -
  have l: "length (filter (closing_task i) (c_tasks c)) = (if cq_closed (c_pobjs c ! i) \<and> \<not> cq_recycled (c_pobjs c ! i) then 1 else 0)"
    "cq_closed (c_pobjs c ! i) \<longrightarrow> cq_fate (c_pobjs c ! i) \<noteq> PNew" using assms(1,2) by (auto simp: pipe_tasks_ok_def pipe_ok_def)
  from l show "a = b" using filter_one_of_two [OF _ assms(3-6)] by (simp split: if_splits)
  have "filter (closing_task i) (c_tasks c) \<noteq> []" using assms(3,5) by (auto simp: filter_empty_conv)
  with l show "cq_closed (c_pobjs c ! i)" "\<not> cq_recycled (c_pobjs c ! i)" "cq_fate (c_pobjs c ! i) \<noteq> PNew" by (auto split: if_splits)
qed

lemma tableI: "pipe_tasks_ok c \<Longrightarrow> task_range c \<Longrightarrow> ids_ok c \<Longrightarrow> entries_ok c \<Longrightarrow> table_ok c"
  by (simp add: table_ok_def)

lemma tableD: "table_ok c \<Longrightarrow> pipe_tasks_ok c" "table_ok c \<Longrightarrow> task_range c" "table_ok c \<Longrightarrow> ids_ok c" "table_ok c \<Longrightarrow> entries_ok c"
  by (simp_all add: table_ok_def)

lemma pipe_okD: "pipe_tasks_ok c \<Longrightarrow> i < length (c_pobjs c) \<Longrightarrow> pipe_ok (c_tasks c) i (c_pobjs c ! i)"
  by (simp add: pipe_tasks_ok_def)

text \<open>One pipe object and the tasks of one pipe change: the others keep what holds of them.\<close>

lemma pipe_tasks_okI:
  assumes "pipe_tasks_ok c" "pipe_ok (c_tasks c') i (c_pobjs c' ! i)" "length (c_pobjs c') = length (c_pobjs c)"
    "\<And>j. j < length (c_pobjs c) \<Longrightarrow> j \<noteq> i \<Longrightarrow> c_pobjs c' ! j = c_pobjs c ! j \<and>
       filter (closing_task j) (c_tasks c') = filter (closing_task j) (c_tasks c) \<and>
       filter (adding_task j) (c_tasks c') = filter (adding_task j) (c_tasks c) \<and> (TCloseP j \<in> set (c_tasks c') \<longrightarrow> TCloseP j \<in> set (c_tasks c))"
  shows "pipe_tasks_ok c'"
  unfolding pipe_tasks_ok_def
proof (intro allI impI)
  fix j
  assume j: "j < length (c_pobjs c')"
  show "pipe_ok (c_tasks c') j (c_pobjs c' ! j)"
  proof (cases "j = i")
    case False
    with assms(4) [of j] j assms(3) pipe_okD [OF assms(1), of j] show ?thesis by (simp add: pipe_ok_def)
  qed (use assms(2) in simp)
qed

lemma ids_ok_same:
  assumes "ids_ok c" "length (c_pobjs c') = length (c_pobjs c)" "ids (c_ids c') = ids (c_ids c)"
    "\<And>j. cq_id (c_pobjs c' ! j) = cq_id (c_pobjs c ! j)" "\<And>j. cq_recycled (c_pobjs c' ! j) = cq_recycled (c_pobjs c ! j)"
  shows "ids_ok c'"
  using assms(1) by (simp add: ids_ok_def assms(2-5))

lemma table_new_pipe:
  assumes "table_ok c" "make_pipe d l w c = Some c'"
  shows "table_ok c'"
proof -
  let ?n = "length (c_pobjs c)"
  obtain pid g where n: "NextID (c_ids c) = Some (pid, g)" and c': "c' = task_add (TAdd ?n w)
     (c\<lparr>c_ids := g, c_pobjs := c_pobjs c @ [\<lparr>cq_id = pid, cq_d = d, cq_l = l, cq_fate = PNew, cq_closed = False, cq_recycled = False\<rparr>]\<rparr>)"
    using assms(2) by (auto simp: make_pipe_def split: option.splits)
  note r = NextID_result [OF n] and ok = tableD [OF assms(1)]
  have no: "filter (closing_task ?n) (c_tasks c) = []" "filter (adding_task ?n) (c_tasks c) = []" "TCloseP ?n \<notin> set (c_tasks c)"
    using ok(2) by (auto simp: task_range_def filter_empty_conv elim!: closing_task.elims adding_task.elims)
  show ?thesis
  proof (rule tableI)
    show "pipe_tasks_ok c'"
      using ok(1) no by (simp add: pipe_tasks_ok_def pipe_ok_def c' task_add_def nth_append less_Suc_eq)
    show "task_range c'" using ok(2) by (auto simp: task_range_def c' less_Suc_eq)
    show "ids_ok c'" using ok(3) r by (fastforce simp: ids_ok_def c' nth_append less_Suc_eq)
    show "entries_ok c'" using ok(4) by (fastforce simp: entries_ok_def entry_ok_def c' nth_append)
  qed
qed

lemma task_count:
  assumes "t < length (c_tasks c)"
  shows "length (filter P (c_tasks (task_drop t c))) = length (filter P (c_tasks c)) - (if P (c_tasks c ! t) then 1 else 0)"
  using length_filter_remove [OF assms, of P] by (simp add: task_drop_def)

lemma set_task_drop: "set (c_tasks (task_drop t c)) \<subseteq> set (c_tasks c)"
  by (auto simp: task_drop_def dest: in_set_takeD in_set_dropD)

text \<open>A task that is not part of closing a pipe is dropped.\<close>

lemma table_drop:
  assumes "table_ok c" "t < length (c_tasks c)" "\<And>i. \<not> closing_task i (c_tasks c ! t)"
  shows "table_ok (task_drop t c)"
proof (rule tableI)
  note ok = tableD [OF assms(1)] and s = set_task_drop [of t c]
  have rem: "TRem i \<in> set (c_tasks (task_drop t c))" if "TRem i \<in> set (c_tasks c)" for i
    using task_kept [OF assms(2) that] assms(3) [of i] unfolding task_drop_def by (cases "c_tasks c ! t = TRem i") auto
  have add: "length (filter (adding_task i) (c_tasks (task_drop t c))) \<le> length (filter (adding_task i) (c_tasks c))" for i
    by (simp add: task_count [OF assms(2)])
  have clo: "length (filter (closing_task i) (c_tasks (task_drop t c))) = length (filter (closing_task i) (c_tasks c))" for i
    using assms(3) by (simp add: task_count [OF assms(2)])
  have "pipe_ok (c_tasks (task_drop t c)) i p" if "pipe_ok (c_tasks c) i p" for i p
    using that clo [of i] add [of i] s by (auto simp: pipe_ok_def split: if_splits)
  then show "pipe_tasks_ok (task_drop t c)" using ok(1) by (simp add: pipe_tasks_ok_def)
  show "task_range (task_drop t c)" using ok(2) s by (simp add: task_range_def) blast
  show "ids_ok (task_drop t c)" using ok(3) by (simp add: ids_ok_def)
  show "entries_ok (task_drop t c)" using ok(4) rem by (simp add: entries_ok_def entry_ok_def)
qed

lemma table_set_fate:
  assumes "table_ok c" "i < length (c_pobjs c)" "cq_fate (c_pobjs c ! i) = PNew" "filter (adding_task i) (c_tasks c) = []" "f \<noteq> PNew"
  shows "table_ok (set_fate i f c)"
proof (rule tableI)
  let ?c = "set_fate i f c"
  note ok = tableD [OF assms(1)]
  have p: "c_pobjs ?c ! j = (if j = i then (c_pobjs c ! i)\<lparr>cq_fate := f\<rparr> else c_pobjs c ! j)" "length (c_pobjs ?c) = length (c_pobjs c)" for j
    using assms(2) by (auto simp: set_fate_def nth_list_update)
  have "pipe_ok (c_tasks c) i ((c_pobjs c ! i)\<lparr>cq_fate := f\<rparr>)"
    using pipe_okD [OF ok(1) assms(2)] assms(4,5) by (simp add: pipe_ok_def)
  then show "pipe_tasks_ok ?c" by (intro pipe_tasks_okI [OF ok(1), of _ i]) (simp_all add: p)
  show "task_range ?c" using ok(2) by (simp add: task_range_def p)
  show "ids_ok ?c" by (rule ids_ok_same [OF ok(3)]) (simp_all add: p)
  have "entry_ok ?c x" if "entry_ok c x" for x using that assms(3) by (cases "snd x = i") (simp_all add: entry_ok_def p)
  then show "entries_ok ?c" using ok(4) by (simp add: entries_ok_def)
qed

lemma table_add_close:
  assumes "table_ok c" "i < length (c_pobjs c)" "cq_fate (c_pobjs c ! i) \<noteq> PNew"
  shows "table_ok (task_add (TCloseP i) c)"
  using assms by (auto simp: table_defs)

lemma table_add_entry:
  assumes "table_ok c" "i < length (c_pobjs c)" "cq_fate (c_pobjs c ! i) = PAdded" "\<not> cq_closed (c_pobjs c ! i)" "c_pipes c = Some ps"
  shows "table_ok (c\<lparr>c_pipes := Some (AList.update (cq_id (c_pobjs c ! i)) i ps)\<rparr>)"
proof (rule tableI)
  let ?c = "c\<lparr>c_pipes := Some (AList.update (cq_id (c_pobjs c ! i)) i ps)\<rparr>"
  note ok = tableD [OF assms(1)]
  have d: "distinct (map fst ps)" and e: "\<And>x. x \<in> set ps \<Longrightarrow> entry_ok c x" using ok(4) assms(5) by (simp_all add: entries_ok_def)
  have "x = (cq_id (c_pobjs c ! i), i) \<or> x \<in> set ps" if "x \<in> set (AList.update (cq_id (c_pobjs c ! i)) i ps)" for x
    using that by (induction ps) (auto split: if_splits)
  moreover have "entry_ok ?c (cq_id (c_pobjs c ! i), i)"
    using assms(2-4) pipe_okD [OF ok(1) assms(2)] by (simp add: entry_ok_def pipe_ok_def)
  moreover have "entry_ok ?c x" if "entry_ok c x" for x using that by (simp add: entry_ok_def)
  ultimately have "\<forall>x \<in> set (AList.update (cq_id (c_pobjs c ! i)) i ps). entry_ok ?c x" using e by blast
  then show "entries_ok ?c" using distinct_update [OF d] by (simp add: entries_ok_def)
  show "pipe_tasks_ok ?c" "task_range ?c" "ids_ok ?c" using ok by (simp_all add: pipe_tasks_ok_def task_range_def ids_ok_def)
qed

lemma table_addPipe:
  assumes "table_ok c" "t < length (c_tasks c)" "c_tasks c ! t = TAdd i w" "connector_addPipe neg i (task_drop t c) = (Ok (), c')"
  shows "table_ok c'"
proof -
  let ?c = "task_drop t c"
  note ok = tableD [OF assms(1)]
  have dr: "table_ok ?c" using assms(1-3) by (intro table_drop) auto
  have mem: "TAdd i w \<in> set (c_tasks c)" using nth_mem [OF assms(2)] assms(3) by simp
  have i: "i < length (c_pobjs c)" using ok(2) mem by (fastforce simp: task_range_def)
  have "filter (adding_task i) (c_tasks c) \<noteq> []" using mem unfolding filter_empty_conv by (intro notI) (drule bspec, auto)
  then have fresh: "cq_fate (c_pobjs c ! i) = PNew" "length (filter (adding_task i) (c_tasks c)) = 1"
    using pipe_okD [OF ok(1) i] by (auto simp: pipe_ok_def le_Suc_eq split: if_splits)
  then have gone: "filter (adding_task i) (c_tasks ?c) = []" using task_count [OF assms(2), of "adding_task i"] assms(3) by simp
  have op: "\<not> cq_closed (c_pobjs c ! i)" using pipe_okD [OF ok(1) i] fresh(1) by (auto simp: pipe_ok_def)
  have fate: "table_ok (set_fate i f ?c)" if "f \<noteq> PNew" for f using table_set_fate [OF dr _ _ gone that] i fresh(1) by simp
  have at: "c_pobjs (set_fate i f ?c) ! i = (c_pobjs c ! i)\<lparr>cq_fate := f\<rparr>" "i < length (c_pobjs (set_fate i f ?c))" for f
    using i by (simp_all add: set_fate_def)
  have dropped: "table_ok (task_add (TCloseP i) (set_fate i PDropped ?c))" using fate at by (intro table_add_close) simp_all
  have added: "table_ok (set_fate i PAdded (?c\<lparr>c_pipes := Some (AList.update (cq_id (c_pobjs ?c ! i)) i ps)\<rparr>))" if "c_pipes ?c = Some ps" for ps
  proof -
    have "set_fate i PAdded (?c\<lparr>c_pipes := Some (AList.update (cq_id (c_pobjs ?c ! i)) i ps)\<rparr>) =
        (set_fate i PAdded ?c)\<lparr>c_pipes := Some (AList.update (cq_id (c_pobjs (set_fate i PAdded ?c) ! i)) i ps)\<rparr>"
      using i by (simp add: set_fate_def)
    with table_add_entry [OF fate at(2), of PAdded] at op that show ?thesis by simp
  qed
  have ev: "table_ok (checkLimit False (pipeEvent EvAdd pid d))" if "table_ok d" for pid d
    by (rule table_same [OF that]) simp_all
  show ?thesis using assms(4) fate dropped ev [OF added]
    by (auto simp: connector_addPipe_def Let_def split: if_splits option.splits)
qed

lemma table_pipe_close:
  assumes "table_ok c" "i < length (c_pobjs c)" "cq_fate (c_pobjs c ! i) \<noteq> PNew"
  shows "table_ok (snd (pipe_close i c))"
proof (cases "cq_closed (c_pobjs c ! i)")
  case False
  let ?c = "task_add (TRem i) (c\<lparr>c_pobjs := (c_pobjs c)[i := (c_pobjs c ! i)\<lparr>cq_closed := True\<rparr>]\<rparr>)"
  note ok = tableD [OF assms(1)]
  have p: "c_pobjs ?c ! j = (if j = i then (c_pobjs c ! i)\<lparr>cq_closed := True\<rparr> else c_pobjs c ! j)" "length (c_pobjs ?c) = length (c_pobjs c)" for j
    using assms(2) by (auto simp: nth_list_update)
  have "table_ok ?c"
  proof (rule tableI)
    have "pipe_ok (c_tasks ?c) i ((c_pobjs c ! i)\<lparr>cq_closed := True\<rparr>)"
      using pipe_okD [OF ok(1) assms(2)] False assms(3) by (auto simp: pipe_ok_def)
    then show "pipe_tasks_ok ?c" by (intro pipe_tasks_okI [OF ok(1), of _ i]) (simp_all add: p del: task_ops_simps, simp_all)
    show "task_range ?c" using ok(2) assms(2) by (auto simp: task_range_def)
    show "ids_ok ?c" using p(1) by (intro ids_ok_same [OF ok(3)]) simp_all
    have "entry_ok ?c x" if "entry_ok c x" for x
      using that by (cases "snd x = i") (auto simp: entry_ok_def p)
    then show "entries_ok ?c" using ok(4) by (simp add: entries_ok_def)
  qed
  then show ?thesis using False by (simp add: pipe_close_def)
qed (simp add: pipe_close_def assms(1))

text \<open>A closing pipe goes on to the next part of its \<open>Close\<close>.\<close>

lemma filter_remove: "t < length xs \<Longrightarrow> \<not> P (xs ! t) \<Longrightarrow> filter P (take t xs @ drop (Suc t) xs) = filter P xs"
  using arg_cong [OF id_take_nth_drop [of t xs], of "filter P"] by simp

lemma closing_range: "task_range c \<Longrightarrow> a \<in> set (c_tasks c) \<Longrightarrow> closing_task i a \<Longrightarrow> i < length (c_pobjs c)"
  by (cases a) (auto simp: task_range_def)

lemma closing_other: "closing_task i a \<Longrightarrow> j \<noteq> i \<Longrightarrow> \<not> closing_task j a" "closing_task i a \<Longrightarrow> \<not> adding_task j a" "closing_task i a \<Longrightarrow> a \<noteq> TCloseP j"
  by (cases a; auto)+

lemma out_of_table:
  assumes "table_ok c" "a \<in> set (c_tasks c)" "closing_task i a" "a \<noteq> TRem i" "entry_ok c x"
  shows "snd x \<noteq> i"
proof
  assume x: "snd x = i"
  have i: "i < length (c_pobjs c)" using closing_range tableD(2) assms(1-3) by blast
  from closing_once(2) [OF tableD(1) [OF assms(1)] i assms(2,2,3,3)] have "TRem i \<in> set (c_tasks c)"
    using assms(5) x by (auto simp: entry_ok_def)
  from closing_once(1) [OF tableD(1) [OF assms(1)] i assms(2) this assms(3)] assms(4) show False by simp
qed

lemma table_closing_step:
  assumes "table_ok c" "t < length (c_tasks c)" "closing_task i (c_tasks c ! t)" "closing_task i b"
    and c': "c_tasks c' = c_tasks (task_drop t c) @ [b]" "c_pobjs c' = c_pobjs c" "c_ids c' = c_ids c"
    and e: "\<And>ps. c_pipes c' = Some ps \<Longrightarrow> distinct (map fst ps) \<and> (\<forall>x \<in> set ps. entry_ok c x \<and> snd x \<noteq> i)"
  shows "table_ok c'"
proof (rule tableI)
  let ?a = "c_tasks c ! t"
  note ok = tableD [OF assms(1)] and a = nth_mem [OF assms(2)]
  have i: "i < length (c_pobjs c)" using closing_range [OF ok(2) a assms(3)] .
  note once = closing_once [OF ok(1) i a a assms(3,3)]
  have other: "filter (closing_task j) (c_tasks c') = filter (closing_task j) (c_tasks c)" if "j \<noteq> i" for j
    using closing_other(1) [OF assms(3) that] closing_other(1) [OF assms(4) that]
      filter_remove [OF assms(2), of "closing_task j"] by (simp add: c' task_drop_def)
  show "pipe_tasks_ok c'"
  proof (rule pipe_tasks_okI [OF ok(1), of _ i])
    show "pipe_ok (c_tasks c') i (c_pobjs c' ! i)"
      using pipe_okD [OF ok(1) i] once assms(3,4) closing_other(2,3) [OF assms(4)] set_task_drop [of t c] task_count [OF assms(2)]
      by (auto simp: pipe_ok_def c')
  qed (use assms(4) other closing_other(2,3) [OF assms(3)] closing_other(2,3) [OF assms(4)] set_task_drop [of t c] filter_remove [OF assms(2)]
    in \<open>auto simp: c' task_drop_def\<close>)
  show "task_range c'" using ok(2) set_task_drop [of t c] assms(4) i by (cases b) (auto simp: task_range_def c')
  show "ids_ok c'" by (rule ids_ok_same [OF ok(3)]) (simp_all add: c')
  have "entry_ok c' x" if "entry_ok c x" "snd x \<noteq> i" for x
  proof -
    have "TRem (snd x) \<noteq> ?a" using assms(3) that(2) by (metis closing_task.simps(1))
    then have "TRem (snd x) \<in> set (c_tasks c')" if "TRem (snd x) \<in> set (c_tasks c)"
      using task_kept [OF assms(2) that] by (auto simp: c' task_drop_def)
    with that(1) show ?thesis by (simp add: entry_ok_def c')
  qed
  with e show "entries_ok c'" by (simp add: entries_ok_def)
qed

lemma table_recycle:
  assumes "table_ok c" "t < length (c_tasks c)" "c_tasks c ! t = TRecycle i"
  shows "table_ok ((task_drop t c)\<lparr>c_ids := Recycle (cq_id (c_pobjs c ! i)) (c_ids c),
                      c_pobjs := (c_pobjs c)[i := (c_pobjs c ! i)\<lparr>cq_recycled := True\<rparr>]\<rparr>)" (is "table_ok ?c")
proof (rule tableI)
  note ok = tableD [OF assms(1)]
  have a: "TRecycle i \<in> set (c_tasks c)" using nth_mem [OF assms(2)] assms(3) by simp
  have cl: "closing_task i (c_tasks c ! t)" by (simp add: assms(3))
  have i: "i < length (c_pobjs c)" using closing_range [OF ok(2) a] by simp
  have p: "c_pobjs ?c ! j = (if j = i then (c_pobjs c ! i)\<lparr>cq_recycled := True\<rparr> else c_pobjs c ! j)" "length (c_pobjs ?c) = length (c_pobjs c)"
      "c_tasks ?c = c_tasks (task_drop t c)" "c_pipes ?c = c_pipes c" for j
    using i by (auto simp: nth_list_update)
  have tk: "c_tasks ?c = take t (c_tasks c) @ drop (Suc t) (c_tasks c)" by (simp add: task_drop_def)
  show "pipe_tasks_ok ?c"
  proof (rule pipe_tasks_okI [OF ok(1), of _ i])
    show "pipe_ok (c_tasks ?c) i (c_pobjs ?c ! i)"
      using pipe_okD [OF ok(1) i] closing_once(2-4) [OF ok(1) i a a] set_task_drop [of t c] task_count [OF assms(2)] assms(3)
      unfolding p by (auto simp: pipe_ok_def)
    fix j assume "j < length (c_pobjs c)" "j \<noteq> i"
    then show "c_pobjs ?c ! j = c_pobjs c ! j \<and> filter (closing_task j) (c_tasks ?c) = filter (closing_task j) (c_tasks c) \<and>
       filter (adding_task j) (c_tasks ?c) = filter (adding_task j) (c_tasks c) \<and> (TCloseP j \<in> set (c_tasks ?c) \<longrightarrow> TCloseP j \<in> set (c_tasks c))"
      using closing_other(1,2) [OF cl] set_task_drop [of t c] filter_remove [OF assms(2)] unfolding tk p(1)
      by (auto simp: task_drop_def)
  qed (simp add: p)
  show "task_range ?c" using ok(2) set_task_drop [of t c] unfolding task_range_def p by blast
  have "cq_id (c_pobjs c ! j) \<in> ids (c_ids ?c)" if "j < length (c_pobjs c)" "j \<noteq> i" "\<not> cq_recycled (c_pobjs c ! j)" for j
    using ok(3) that i closing_once(3) [OF ok(1) i a a] by (auto simp: ids_ok_def Recycle_def)
  with ok(3) show "ids_ok ?c" unfolding ids_ok_def p by (auto split: if_splits)
  have "entry_ok ?c x" if "entry_ok c x" for x
  proof -
    have "snd x \<noteq> i" using out_of_table [OF assms(1) a _ _ that] by simp
    moreover have "TRem (snd x) \<in> set (c_tasks (task_drop t c))" if "TRem (snd x) \<in> set (c_tasks c)"
      using task_kept [OF assms(2) that] assms(3) by (simp add: task_drop_def)
    ultimately show ?thesis using that unfolding entry_ok_def p by auto
  qed
  then show "entries_ok ?c" using ok(4) by (simp add: entries_ok_def)
qed

lemma table_remPipe:
  assumes "table_ok c" "t < length (c_tasks c)" "c_tasks c ! t = TRem i"
  shows "table_ok (task_add (TCheck i) (remPipe_tell i (remPipe_delete i (task_drop t c))))"
proof (rule table_closing_step [OF assms(1,2)])
  fix ps
  assume "c_pipes (task_add (TCheck i) (remPipe_tell i (remPipe_delete i (task_drop t c)))) = Some ps"
  then obtain qs where q: "c_pipes c = Some qs" "ps = AList.delete (cq_id (c_pobjs c ! i)) qs" by (auto simp: remPipe_delete_def Let_def)
  then have e: "distinct (map fst qs)" "\<And>x. x \<in> set qs \<Longrightarrow> entry_ok c x" using tableD(4) [OF assms(1)] by (simp_all add: entries_ok_def)
  show "distinct (map fst ps) \<and> (\<forall>x \<in> set ps. entry_ok c x \<and> snd x \<noteq> i)"
    using e distinct_delete [OF e(1)] unfolding q(2) by (auto simp: AList.delete_eq entry_ok_def)
qed (simp_all add: assms(3) remPipe_delete_def Let_def)

lemma table_check:
  assumes "table_ok c" "t < length (c_tasks c)" "c_tasks c ! t = TCheck i"
  shows "table_ok (task_add (TRecycle i) (checkLimit False (task_drop t c)))"
proof (rule table_closing_step [OF assms(1,2)])
  fix ps
  assume "c_pipes (task_add (TRecycle i) (checkLimit False (task_drop t c))) = Some ps"
  moreover have "TCheck i \<in> set (c_tasks c)" using nth_mem [OF assms(2)] assms(3) by simp
  ultimately show "distinct (map fst ps) \<and> (\<forall>x \<in> set ps. entry_ok c x \<and> snd x \<noteq> i)"
    using tableD(4) [OF assms(1)] out_of_table [OF assms(1), of "TCheck i" i] by (simp add: entries_ok_def)
qed (simp_all add: assms(3))

lemma table_connector_Close:
  assumes "table_ok c"
  shows "table_ok (connector_Close c)"
proof (cases "c_closed c")
  case False
  note ok = tableD [OF assms]
  define xs where "xs = map TCloseL (c_listeners c) @ map TCloseD (c_dialers c) @ map (\<lambda>(_, i). TCloseP i) (case c_pipes c of None \<Rightarrow> [] | Some ps \<Rightarrow> ps)"
  have c': "c_tasks (connector_Close c) = c_tasks c @ xs" "c_pobjs (connector_Close c) = c_pobjs c"
    "c_ids (connector_Close c) = c_ids c" "c_pipes (connector_Close c) = None" using False by (simp_all add: connector_Close_def xs_def)
  have cp: "i < length (c_pobjs c) \<and> cq_fate (c_pobjs c ! i) \<noteq> PNew" if "TCloseP i \<in> set xs" for i
    using that ok(4) by (force simp: xs_def entries_ok_def entry_ok_def split: option.splits)
  have tp: "t = TCloseP i" if "t \<in> set xs" "task_pipe t = Some i" for t i using that by (auto simp: xs_def)
  have f: "filter (closing_task i) xs = []" "filter (adding_task i) xs = []" for i
    by (auto simp: filter_empty_conv xs_def)
  show ?thesis
  proof (rule tableI)
    show "pipe_tasks_ok (connector_Close c)"
      using ok(1) cp f by (auto simp: pipe_tasks_ok_def pipe_ok_def c')
    show "task_range (connector_Close c)"
      using ok(2) cp tp unfolding task_range_def c' by auto
    show "ids_ok (connector_Close c)" by (rule ids_ok_same [OF ok(3)]) (simp_all add: c')
  qed (simp add: entries_ok_def c')
qed (simp add: connector_Close_def assms)

lemma table_task_step:
  assumes "table_ok c" "t < length (c_tasks c)" "task_step neg t c = (Ok (), c')"
  shows "table_ok c'"
proof (cases "c_tasks c ! t")
  case (TAdd i w)
  with table_addPipe [OF assms(1,2)] assms(3) show ?thesis by (simp add: task_step_def Let_def)
next
  case (TRem i)
  with table_remPipe [OF assms(1,2)] assms(3) show ?thesis by (simp add: task_step_def Let_def)
next
  case (TCheck i)
  with table_check [OF assms(1,2)] assms(3) show ?thesis by (simp add: task_step_def Let_def)
next
  case (TRecycle i)
  with table_recycle [OF assms(1,2)] assms(3) show ?thesis by (simp add: task_step_def Let_def)
next
  case (TCloseL k)
  then have "table_ok (task_drop t c)" using assms(1,2) by (intro table_drop) simp_all
  with TCloseL assms(3) show ?thesis by (auto simp: task_step_def Let_def set_lobj_def intro: table_same)
next
  case (TCloseD k)
  then have "table_ok (task_drop t c)" using assms(1,2) by (intro table_drop) simp_all
  with TCloseD assms(3) show ?thesis by (auto simp: task_step_def Let_def set_dobj_def intro: table_same)
next
  case (TCloseP i)
  have "TCloseP i \<in> set (c_tasks c)" using nth_mem [OF assms(2)] TCloseP by simp
  then have "i < length (c_pobjs c)" "cq_fate (c_pobjs c ! i) \<noteq> PNew"
    using tableD(1,2) [OF assms(1)] by (fastforce simp: task_range_def, fastforce simp: task_range_def pipe_tasks_ok_def pipe_ok_def)
  moreover have "table_ok (task_drop t c)" using assms(1,2) TCloseP by (intro table_drop) simp_all
  ultimately show ?thesis using table_pipe_close [of "task_drop t c" i] TCloseP assms(3) by (auto simp: task_step_def Let_def)
qed

lemma table_set_obj: "table_ok c \<Longrightarrow> table_ok (set_dobj k d c)" "table_ok c \<Longrightarrow> table_ok (set_lobj k l c)" "table_ok c \<Longrightarrow> table_ok (remDialer k c)"
  by (rule table_same; simp add: set_dobj_def set_lobj_def remDialer_def)+

lemma table_dialer_step:
  assumes "table_ok c" "dialer_step res k j c = Some c'"
  shows "table_ok c'"
  using assms by (auto simp: dialer_step_def split: option.splits dthread.splits dial_result.splits if_splits
    intro: table_set_obj table_new_pipe)

lemma table_step:
  assumes "table_ok c" "cstep c c'"
  shows "table_ok c'"
  using assms(2)
proof cases
  case (cs_serve k acc)
  with assms(1) show ?thesis
    by (cases acc) (auto simp: serve_step_def split: if_splits intro: table_set_obj table_new_pipe)
next
  case (cs_NewDialer ts nd ad ovs k)
  then show ?thesis
    by (intro table_same [OF assms(1)])
      (auto simp: connector_NewDialer_def Let_def split: if_splits option.splits outcome.splits prod.splits)
next
  case (cs_NewListener ts nl ad ovs k)
  then show ?thesis
    by (intro table_same [OF assms(1)])
      (auto simp: connector_NewListener_def Let_def split: if_splits option.splits outcome.splits prod.splits)
next
  case (cs_limit n)
  then have "c' = checkLimit True (c\<lparr>c_limit := sint n\<rparr>)" by (simp add: connector_onOptionChange_def)
  then show ?thesis by (intro table_same [OF assms(1)]) simp_all
next
  case (cs_pipe_close i e)
  with table_pipe_close [OF assms(1), of i] show ?thesis by simp
next
  case (cs_StopDial ad)
  then show ?thesis by (intro table_same [OF assms(1)]) (simp_all add: StopDial_def Let_def)
next
  case (cs_StopListen ad)
  then show ?thesis by (intro table_same [OF assms(1)]) (simp_all add: StopListen_def Let_def)
next
  case (cs_negotiator b)
  then show ?thesis by (intro table_same [OF assms(1)]) simp_all
next
  case (cs_handler b)
  then show ?thesis by (intro table_same [OF assms(1)]) simp_all
next
  case cs_no_handler
  then show ?thesis by (intro table_same [OF assms(1)]) simp_all
qed (use assms(1) in \<open>auto intro: table_set_obj table_connector_Close table_task_step table_dialer_step\<close>)

lemma table_run: "crun P c0 c \<Longrightarrow> table_ok c0 \<Longrightarrow> table_ok c"
  by (induction rule: crun.induct) (auto intro: table_step)

section \<open>Every added pipe is closed in the end\<close>

text \<open>
  An added pipe that is open is in the table or, once the connector is closed, has its close still to run; so has a
  dropped one.
\<close>

definition open_ok :: "connector \<Rightarrow> nat \<Rightarrow> bool" where
  "open_ok c i \<longleftrightarrow> cq_closed (c_pobjs c ! i) \<or>
     (case cq_fate (c_pobjs c ! i) of
        PAdded \<Rightarrow> TCloseP i \<in> set (c_tasks c) \<or> GetPipe (cq_id (c_pobjs c ! i)) c = Some i
      | PDropped \<Rightarrow> TCloseP i \<in> set (c_tasks c)
      | _ \<Rightarrow> True)"

definition all_open_ok :: "connector \<Rightarrow> bool" where
  "all_open_ok c \<longleftrightarrow> (c_closed c \<longleftrightarrow> c_pipes c = None) \<and> (\<forall>i < length (c_pobjs c). open_ok c i)"

lemma open_frame:
  assumes "open_ok c i" "c_pobjs c' ! i = c_pobjs c ! i" "TCloseP i \<in> set (c_tasks c) \<Longrightarrow> TCloseP i \<in> set (c_tasks c')"
    "GetPipe (cq_id (c_pobjs c ! i)) c = Some i \<Longrightarrow> \<not> cq_closed (c_pobjs c ! i) \<Longrightarrow>
       GetPipe (cq_id (c_pobjs c ! i)) c' = Some i \<or> TCloseP i \<in> set (c_tasks c')"
  shows "open_ok c' i"
  using assms by (auto simp: open_ok_def split: pipe_fate.splits)

lemma open_okI: "c_closed c \<longleftrightarrow> c_pipes c = None \<Longrightarrow> (\<And>i. i < length (c_pobjs c) \<Longrightarrow> open_ok c i) \<Longrightarrow> all_open_ok c"
  by (simp add: all_open_ok_def)

lemma open_okD: "all_open_ok c \<Longrightarrow> c_closed c \<longleftrightarrow> c_pipes c = None" "all_open_ok c \<Longrightarrow> i < length (c_pobjs c) \<Longrightarrow> open_ok c i"
  by (simp_all add: all_open_ok_def)

lemma open_set_fate:
  assumes "all_open_ok c" "i < length (c_pobjs c)" "\<And>j. TCloseP j \<in> set (c_tasks c) \<Longrightarrow> TCloseP j \<in> set (c_tasks c')"
    and c': "c_closed c' = c_closed c" "c_pobjs c' = (c_pobjs c)[i := p]" "c_pipes c' = None \<longleftrightarrow> c_pipes c = None" "open_ok c' i"
    and g: "\<And>j. j \<noteq> i \<Longrightarrow> j < length (c_pobjs c) \<Longrightarrow> GetPipe (cq_id (c_pobjs c ! j)) c = Some j \<Longrightarrow> GetPipe (cq_id (c_pobjs c ! j)) c' = Some j"
  shows "all_open_ok c'"
proof (rule open_okI)
  fix j
  assume "j < length (c_pobjs c')"
  then have j: "j < length (c_pobjs c)" by (simp add: c')
  show "open_ok c' j"
  proof (cases "j = i")
    case False
    with g [of j] show ?thesis by (intro open_frame [OF open_okD(2) [OF assms(1) j] _ assms(3)]) (simp_all add: c' j)
  qed (use c'(4) in simp)
qed (simp add: c' open_okD(1) [OF assms(1)])

lemma open_same:
  assumes "all_open_ok c" "c_closed c' = c_closed c" "c_pipes c' = c_pipes c" "c_pobjs c' = c_pobjs c"
    "\<And>i. TCloseP i \<in> set (c_tasks c) \<Longrightarrow> TCloseP i \<in> set (c_tasks c')"
  shows "all_open_ok c'"
  using assms open_frame [of c _ c'] by (simp add: all_open_ok_def GetPipe_def)

lemma open_task_drop:
  assumes "all_open_ok c" "t < length (c_tasks c)" "\<And>i. c_tasks c ! t \<noteq> TCloseP i"
  shows "all_open_ok (task_drop t c)"
  by (rule open_same [OF assms(1)]) (use task_kept [OF assms(2)] assms(3) in \<open>auto simp: task_drop_def\<close>)

lemma open_new_pipe:
  assumes "all_open_ok c" "make_pipe d l w c = Some c'"
  shows "all_open_ok c'"
proof -
  have c': "c_closed c' = c_closed c" "c_pipes c' = c_pipes c" "set (c_tasks c) \<subseteq> set (c_tasks c')"
    "length (c_pobjs c') = Suc (length (c_pobjs c))" "cq_fate (c_pobjs c' ! length (c_pobjs c)) = PNew"
    "\<And>i. i < length (c_pobjs c) \<Longrightarrow> c_pobjs c' ! i = c_pobjs c ! i"
    using assms(2) by (auto simp: make_pipe_def nth_append split: option.splits)
  have "open_ok c' (length (c_pobjs c))" by (simp add: open_ok_def c'(5))
  moreover have "open_ok c' i" if "i < length (c_pobjs c)" for i
    by (rule open_frame [of c]) (use assms(1) c' that in \<open>auto simp: all_open_ok_def GetPipe_def\<close>)
  ultimately show ?thesis using assms(1) by (simp add: all_open_ok_def c' less_Suc_eq)
qed

lemma open_pipe_close:
  assumes "\<forall>j < length (c_pobjs c). j \<noteq> i \<longrightarrow> open_ok c j" "c_closed c \<longleftrightarrow> c_pipes c = None" "i < length (c_pobjs c)"
  shows "all_open_ok (snd (pipe_close i c))"
proof -
  let ?c = "snd (pipe_close i c)"
  have c': "c_closed ?c = c_closed c" "c_pipes ?c = c_pipes c" "set (c_tasks c) \<subseteq> set (c_tasks ?c)" "length (c_pobjs ?c) = length (c_pobjs c)"
    "cq_closed (c_pobjs ?c ! i)" "\<And>j. j \<noteq> i \<Longrightarrow> c_pobjs ?c ! j = c_pobjs c ! j"
    using assms(3) by (auto simp: pipe_close_def)
  have "open_ok ?c j" if "j < length (c_pobjs c)" "j \<noteq> i" for j
    by (rule open_frame [of c]) (use assms(1) c' that in \<open>auto simp: GetPipe_def\<close>)
  moreover have "open_ok ?c i" by (simp add: open_ok_def c'(5))
  ultimately show ?thesis using assms(2) unfolding all_open_ok_def c' by blast
qed

text \<open>A pipe that is added takes no identifier that is in the table; one that is removed takes nothing else with it.\<close>

lemma not_listed_twice:
  assumes "table_ok c" "i < length (c_pobjs c)" "\<not> cq_recycled (c_pobjs c ! i)" "GetPipe (cq_id (c_pobjs c ! i)) c = Some j"
  shows "j = i"
proof -
  obtain ps where "c_pipes c = Some ps" "(cq_id (c_pobjs c ! i), j) \<in> set ps"
    using assms(4) by (auto simp: GetPipe_def map_of_SomeD split: option.splits)
  then have "entry_ok c (cq_id (c_pobjs c ! i), j)" using tableD(4) [OF assms(1)] by (auto simp: entries_ok_def)
  then show ?thesis using tableD(3) [OF assms(1)] assms(2,3) by (auto simp: entry_ok_def ids_ok_def)
qed

lemma open_remPipe:
  assumes "table_ok c" "all_open_ok c" "t < length (c_tasks c)" "c_tasks c ! t = TRem i"
  shows "all_open_ok (task_add (TCheck i) (remPipe_tell i (remPipe_delete i (task_drop t c))))" (is "all_open_ok ?c")
proof -
  have a: "TRem i \<in> set (c_tasks c)" using nth_mem [OF assms(3)] assms(4) by simp
  have i: "i < length (c_pobjs c)" using closing_range [OF tableD(2) [OF assms(1)] a] by simp
  note cl = closing_once(2-3) [OF tableD(1) [OF assms(1)] i a a]
  have c': "c_pipes ?c = map_option (AList.delete (cq_id (c_pobjs c ! i))) (c_pipes c)" "c_closed ?c = c_closed c" "c_pobjs ?c = c_pobjs c"
    "\<And>j. TCloseP j \<in> set (c_tasks c) \<Longrightarrow> TCloseP j \<in> set (c_tasks ?c)"
    using task_kept [OF assms(3)] assms(4) by (auto simp: remPipe_delete_def Let_def task_drop_def)
  have "open_ok ?c j" if "j < length (c_pobjs c)" for j
  proof (rule open_frame [of c])
    assume g: "GetPipe (cq_id (c_pobjs c ! j)) c = Some j" "\<not> cq_closed (c_pobjs c ! j)"
    with cl have "j \<noteq> i" by auto
    then have "cq_id (c_pobjs c ! j) \<noteq> cq_id (c_pobjs c ! i)" using g(1) not_listed_twice [OF assms(1) i] cl by auto
    with g show "GetPipe (cq_id (c_pobjs c ! j)) ?c = Some j \<or> TCloseP j \<in> set (c_tasks ?c)"
      unfolding GetPipe_def c' by (auto split: option.splits)
  qed (use assms(2) that c' in \<open>simp_all add: all_open_ok_def\<close>)
  then show ?thesis using open_okD [OF assms(2)] by (intro open_okI) (simp_all only: c', simp)
qed

lemma open_addPipe:
  assumes "table_ok c" "all_open_ok c" "t < length (c_tasks c)" "c_tasks c ! t = TAdd i w" "connector_addPipe neg i (task_drop t c) = (Ok (), c')"
  shows "all_open_ok c'"
proof -
  let ?c = "task_drop t c"
  have dr: "all_open_ok ?c" using assms(2-4) by (intro open_task_drop) auto
  have mem: "TAdd i w \<in> set (c_tasks c)" using nth_mem [OF assms(3)] assms(4) by simp
  have i: "i < length (c_pobjs c)" using tableD(2) [OF assms(1)] mem by (fastforce simp: task_range_def)
  have "filter (adding_task i) (c_tasks c) \<noteq> []" using mem unfolding filter_empty_conv by (intro notI) (drule bspec, auto)
  then have nr: "\<not> cq_recycled (c_pobjs c ! i)" "cq_fate (c_pobjs c ! i) = PNew"
    using pipe_okD [OF tableD(1) [OF assms(1)] i] by (auto simp: pipe_ok_def split: if_splits)
  have fate: "c_pobjs (set_fate i f d) = (c_pobjs d)[i := (c_pobjs d ! i)\<lparr>cq_fate := f\<rparr>]" "GetPipe pid (set_fate i f d) = GetPipe pid d" for f d pid
    by (simp_all add: set_fate_def GetPipe_def)
  have gt: "GetPipe pid (task_add x d) = GetPipe pid d" for pid x d by (simp add: GetPipe_def)
  have refused: "all_open_ok (set_fate i PRefused ?c)"
    by (rule open_set_fate [OF dr, of i]) (simp_all add: i fate open_ok_def)
  have dropped: "all_open_ok (task_add (TCloseP i) (set_fate i PDropped ?c))"
    by (rule open_set_fate [OF dr, of i]) (simp_all add: i fate gt open_ok_def)
  have added: "all_open_ok (set_fate i PAdded (?c\<lparr>c_pipes := Some (AList.update (cq_id (c_pobjs c ! i)) i ps)\<rparr>))" (is "all_open_ok ?a")
    if p: "c_pipes c = Some ps" for ps
  proof (rule open_set_fate [OF dr, of i])
    fix j
    assume j: "j \<noteq> i" "GetPipe (cq_id (c_pobjs ?c ! j)) ?c = Some j"
    then have "GetPipe (cq_id (c_pobjs c ! j)) c = Some j" by (simp add: GetPipe_def)
    then have "cq_id (c_pobjs c ! j) \<noteq> cq_id (c_pobjs c ! i)" using not_listed_twice [OF assms(1) i nr(1), of j] j(1) by metis
    with j show "GetPipe (cq_id (c_pobjs ?c ! j)) ?a = Some j" using p by (simp add: fate GetPipe_def update_conv')
  qed (use p i in \<open>simp_all add: fate open_ok_def GetPipe_def update_conv'\<close>)
  have ev: "all_open_ok (checkLimit False (pipeEvent EvAdd pid d))" if "all_open_ok d" for pid d
    by (rule open_same [OF that]) simp_all
  show ?thesis using assms(5) refused dropped ev [OF added]
    by (auto simp: connector_addPipe_def Let_def split: if_splits option.splits)
qed

lemma open_Close:
  assumes "all_open_ok c"
  shows "all_open_ok (connector_Close c)"
proof (cases "c_closed c")
  case False
  have "open_ok (connector_Close c) j" if "j < length (c_pobjs c)" for j
    by (rule open_frame [of c]) (use False assms that in
      \<open>force simp: all_open_ok_def connector_Close_def GetPipe_def image_iff dest: map_of_SomeD split: option.splits\<close>)+
  then show ?thesis using False by (simp add: all_open_ok_def connector_Close_def)
qed (simp add: connector_Close_def assms)

lemma open_task_step:
  assumes "table_ok c" "all_open_ok c" "t < length (c_tasks c)" "task_step neg t c = (Ok (), c')"
  shows "all_open_ok c'"
proof (cases "c_tasks c ! t")
  case (TAdd i w)
  with open_addPipe [OF assms(1-3)] assms(4) show ?thesis by (simp add: task_step_def Let_def)
next
  case (TRem i)
  with open_remPipe [OF assms(1-3)] assms(4) show ?thesis by (simp add: task_step_def Let_def)
next
  case (TCheck i)
  then have "all_open_ok (task_drop t c)" using assms(2,3) by (intro open_task_drop) simp_all
  with TCheck assms(4) show ?thesis by (auto simp: task_step_def Let_def intro: open_same)
next
  case (TRecycle i)
  then have d: "all_open_ok (task_drop t c)" using assms(2,3) by (intro open_task_drop) simp_all
  have a: "TRecycle i \<in> set (c_tasks c)" using nth_mem [OF assms(3)] TRecycle by simp
  have i: "i < length (c_pobjs c)" using closing_range [OF tableD(2) [OF assms(1)] a] by simp
  note cl = closing_once(2) [OF tableD(1) [OF assms(1)] i a a]
  have c': "c' = (task_drop t c)\<lparr>c_ids := Recycle (cq_id (c_pobjs c ! i)) (c_ids c),
                      c_pobjs := (c_pobjs c)[i := (c_pobjs c ! i)\<lparr>cq_recycled := True\<rparr>]\<rparr>"
    using TRecycle assms(4) by (simp add: task_step_def Let_def)
  show ?thesis
    by (rule open_set_fate [OF d, of i]) (use i cl in \<open>simp_all add: c' open_ok_def GetPipe_def\<close>)
next
  case (TCloseL k)
  then have "all_open_ok (task_drop t c)" using assms(2,3) by (intro open_task_drop) simp_all
  with TCloseL assms(4) show ?thesis by (auto simp: task_step_def Let_def set_lobj_def intro: open_same)
next
  case (TCloseD k)
  then have "all_open_ok (task_drop t c)" using assms(2,3) by (intro open_task_drop) simp_all
  with TCloseD assms(4) show ?thesis by (auto simp: task_step_def Let_def set_dobj_def intro: open_same)
next
  case (TCloseP i)
  have "TCloseP i \<in> set (c_tasks c)" using nth_mem [OF assms(3)] TCloseP by simp
  then have i: "i < length (c_pobjs c)" using tableD(2) [OF assms(1)] by (fastforce simp: task_range_def)
  have o: "open_ok (task_drop t c) j" if "j < length (c_pobjs c)" "j \<noteq> i" for j
  proof (rule open_frame [OF open_okD(2) [OF assms(2) that(1)]])
    show "TCloseP j \<in> set (c_tasks (task_drop t c))" if "TCloseP j \<in> set (c_tasks c)"
      using task_kept [OF assms(3) that] TCloseP \<open>j \<noteq> i\<close> by (simp add: task_drop_def)
  qed (simp_all add: GetPipe_def)
  have "all_open_ok (snd (pipe_close i (task_drop t c)))"
    by (rule open_pipe_close) (use o i open_okD(1) [OF assms(2)] in simp_all)
  then show ?thesis using TCloseP assms(4) by (simp add: task_step_def Let_def)
qed

lemma open_set_obj: "all_open_ok c \<Longrightarrow> all_open_ok (set_dobj k d c)" "all_open_ok c \<Longrightarrow> all_open_ok (set_lobj k l c)"
    "all_open_ok c \<Longrightarrow> all_open_ok (remDialer k c)"
  by (rule open_same; simp add: set_dobj_def set_lobj_def remDialer_def)+

lemma open_dialer_step: "all_open_ok c \<Longrightarrow> dialer_step res k j c = Some c' \<Longrightarrow> all_open_ok c'"
  by (auto simp: dialer_step_def split: option.splits dthread.splits dial_result.splits if_splits
    intro: open_set_obj open_new_pipe)

lemma open_step:
  assumes "table_ok c" "all_open_ok c" "cstep c c'"
  shows "all_open_ok c'"
  using assms(3)
proof cases
  case (cs_serve k acc)
  with assms(2) show ?thesis
    by (cases acc) (auto simp: serve_step_def split: if_splits intro: open_set_obj open_new_pipe)
next
  case (cs_NewDialer ts nd ad ovs k)
  then show ?thesis
    by (intro open_same [OF assms(2)])
      (auto simp: connector_NewDialer_def Let_def split: if_splits option.splits outcome.splits prod.splits)
next
  case (cs_NewListener ts nl ad ovs k)
  then show ?thesis
    by (intro open_same [OF assms(2)])
      (auto simp: connector_NewListener_def Let_def split: if_splits option.splits outcome.splits prod.splits)
next
  case (cs_limit n)
  then have "c' = checkLimit True (c\<lparr>c_limit := sint n\<rparr>)" by (simp add: connector_onOptionChange_def)
  then show ?thesis by (intro open_same [OF assms(2)]) simp_all
next
  case (cs_pipe_close i e)
  with open_pipe_close [of c i] open_okD [OF assms(2)] show ?thesis by simp
next
  case (cs_StopDial ad)
  then show ?thesis by (intro open_same [OF assms(2)]) (simp_all add: StopDial_def Let_def)
next
  case (cs_StopListen ad)
  then show ?thesis by (intro open_same [OF assms(2)]) (simp_all add: StopListen_def Let_def)
next
  case (cs_negotiator b)
  then show ?thesis by (intro open_same [OF assms(2)]) simp_all
next
  case (cs_handler b)
  then show ?thesis by (intro open_same [OF assms(2)]) simp_all
next
  case cs_no_handler
  then show ?thesis by (intro open_same [OF assms(2)]) simp_all
qed (use assms(1,2) in \<open>auto intro: open_set_obj open_Close open_task_step open_dialer_step\<close>)

lemma open_run: "crun P c0 c \<Longrightarrow> table_ok c0 \<Longrightarrow> all_open_ok c0 \<Longrightarrow> all_open_ok c"
  by (induction rule: crun.induct) (auto intro: open_step table_run)

section \<open>A new connector\<close>

definition fresh_connector :: "connector \<Rightarrow> bool" where
  "fresh_connector c \<longleftrightarrow> c_dialers c = [] \<and> c_listeners c = [] \<and> c_pipes c = Some [] \<and> \<not> c_closed c \<and> c_pobjs c = [] \<and> c_tasks c = []"

lemma fresh_change_all: "change_all vs c = (Ok (), c') \<Longrightarrow> fresh_connector c \<Longrightarrow> fresh_connector c'"
proof (induction vs c rule: change_all.induct)
  case (2 o1 v vs c)
  obtain d where "connector_onOptionChange o1 v c = (Ok (), d)" and e: "change_all vs d = (Ok (), c')"
    using "2.prems"(1) by (auto split: prod.splits outcome.splits)
  moreover from this "2.prems"(2) have "fresh_connector d"
    by (auto simp: connector_onOptionChange_def fresh_connector_def checkLimit_def startConnecting_def stopConnecting_def
      split: if_splits optval.splits)
  ultimately show ?case using "2.IH" by simp
qed simp

lemma fresh_New: "NewWithLimitAndOptions limit H a vs g = (Ok (), c) \<Longrightarrow> fresh_connector c"
  unfolding NewWithLimitAndOptions_def by (erule fresh_change_all) (simp add: fresh_connector_def)

lemma fresh_ok: "fresh_connector c \<Longrightarrow> settled c" "fresh_connector c \<Longrightarrow> table_ok c" "fresh_connector c \<Longrightarrow> all_open_ok c" "fresh_connector c \<Longrightarrow> len_pipes c = 0"
  by (simp_all add: fresh_connector_def settled_def in_range_def flags_def table_defs all_open_ok_def len_pipes_def)

lemmas New_ok = fresh_ok [OF fresh_New]

section \<open>A run\<close>

text \<open>A connector for one pipe, with a listener and a dialer, that accepts a connection.\<close>

definition demo_ts :: "unit transports" where
  "demo_ts = [''inproc'' \<mapsto> \<lparr>Scheme = ''inproc'', impl = ()\<rparr>]"

definition demo_new :: connector where
  "demo_new = snd (NewWithLimitAndOptions 1 [empty_options] 0 [] NewRecyclableIDGenerator)"

definition demo_listening :: connector where
  "demo_listening = snd (connector_NewListener demo_ts (\<lambda>_ _. Ok ()) ''inproc://a'' [] demo_new)"

definition demo_dialing :: connector where
  "demo_dialing = snd (connector_NewDialer demo_ts (\<lambda>_ _. Ok ()) ''inproc://b'' [] demo_listening)"

definition demo_serving :: connector where
  "demo_serving = set_lobj 0 ((c_lobjs demo_dialing ! 0)\<lparr>cl_serving := True\<rparr>) demo_dialing"

definition demo_accepted :: connector where
  "demo_accepted = the (serve_step (Ok ()) 0 demo_serving)"

definition demo_full :: connector where
  "demo_full = snd (task_step None 0 demo_accepted)"

lemma demo_New: "NewWithLimitAndOptions 1 [empty_options] 0 [] NewRecyclableIDGenerator = (Ok (), demo_new)"
  by (simp add: demo_new_def NewWithLimitAndOptions_def)

lemma demo_listening: "connector_NewListener demo_ts (\<lambda>_ _. Ok ()) ''inproc://a'' [] demo_new = (Ok 0, demo_listening)"
  by (simp add: demo_listening_def connector_NewListener_def demo_new_def NewWithLimitAndOptions_def demo_ts_def
    GetTransportFromAddr_def GetTransport_def ParseScheme_def split_def Let_def)

lemma demo_dialing: "connector_NewDialer demo_ts (\<lambda>_ _. Ok ()) ''inproc://b'' [] demo_listening = (Ok 0, demo_dialing)"
  by (simp add: demo_dialing_def connector_NewDialer_def demo_listening_def connector_NewListener_def demo_new_def
    NewWithLimitAndOptions_def demo_ts_def GetTransportFromAddr_def GetTransport_def ParseScheme_def split_def Let_def)

lemma demo_dialing_state:
  "c_limit demo_dialing = 1" "c_pipes demo_dialing = Some []" "\<not> c_closed demo_dialing" "c_tasks demo_dialing = []" "c_pobjs demo_dialing = []"
  "c_dialers demo_dialing = [0]" "c_listeners demo_dialing = [0]" "c_ids demo_dialing = NewRecyclableIDGenerator" "\<not> c_negotiator demo_dialing"
  "length (c_lobjs demo_dialing) = 1" "length (c_dobjs demo_dialing) = 1" "\<not> cl_stopped (c_lobjs demo_dialing ! 0)"
  by (simp_all add: demo_dialing_def connector_NewDialer_def demo_listening_def connector_NewListener_def demo_new_def exceed_def len_pipes_def
    NewWithLimitAndOptions_def demo_ts_def GetTransportFromAddr_def GetTransport_def ParseScheme_def split_def Let_def newListener_def)

lemma demo_NextID: "NextID NewRecyclableIDGenerator = Some (1, \<lparr>ids = {1}, next_id = 2\<rparr>)"
  by (simp add: NewRecyclableIDGenerator_def NextID.simps Let_def)

lemma demo_accepted: "serve_step (Ok ()) 0 demo_serving = Some demo_accepted"
  by (simp add: demo_accepted_def serve_step_def demo_serving_def set_lobj_def demo_dialing_state isStopped_def make_pipe_def demo_NextID)

lemma demo_accepted_state:
  "c_limit demo_accepted = 1" "c_pipes demo_accepted = Some []" "\<not> c_closed demo_accepted" "c_tasks demo_accepted = [TAdd 0 None]"
  "c_pobjs demo_accepted = [\<lparr>cq_id = 1, cq_d = None, cq_l = Some 0, cq_fate = PNew, cq_closed = False, cq_recycled = False\<rparr>]"
  "c_dialers demo_accepted = [0]" "c_listeners demo_accepted = [0]" "c_ids demo_accepted = \<lparr>ids = {1}, next_id = 2\<rparr>" "\<not> c_negotiator demo_accepted"
  by (simp_all add: demo_accepted_def serve_step_def demo_serving_def set_lobj_def demo_dialing_state isStopped_def make_pipe_def demo_NextID
    task_add_def)

lemma demo_full: "task_step None 0 demo_accepted = (Ok (), demo_full)"
  by (simp add: demo_full_def task_step_def Let_def demo_accepted_state connector_addPipe_def len_pipes_def)

lemma checkLimit_lists [simp]: "c_dialers (checkLimit b c) = c_dialers c" "c_listeners (checkLimit b c) = c_listeners c"
  by (simp_all add: checkLimit_def startConnecting_def stopConnecting_def)

lemma demo_full_state:
  "c_limit demo_full = 1" "c_pipes demo_full = Some [(1, 0)]" "\<not> c_closed demo_full" "c_tasks demo_full = []"
  "c_pobjs demo_full = [\<lparr>cq_id = 1, cq_d = None, cq_l = Some 0, cq_fate = PAdded, cq_closed = False, cq_recycled = False\<rparr>]"
  "c_dialers demo_full = [0]" "c_listeners demo_full = [0]"
  by (simp_all add: demo_full_def task_step_def Let_def demo_accepted_state connector_addPipe_def len_pipes_def)
    (simp_all add: demo_accepted_state set_fate_def task_drop_def pipeEvent_def)

lemma demo_run:
  assumes "\<And>c. c_limit c = 1 \<Longrightarrow> P c"
  shows "crun P demo_new demo_full"
proof -
  have "crun P demo_new demo_new" by (rule cr_refl) (simp add: assms demo_new_def NewWithLimitAndOptions_def)
  then have "crun P demo_new demo_listening" by (rule cr_step [OF _ cs_NewListener [OF demo_listening]])
      (simp add: assms demo_listening_def connector_NewListener_def demo_new_def NewWithLimitAndOptions_def Let_def split: option.splits prod.splits)
  then have "crun P demo_new demo_dialing" by (rule cr_step [OF _ cs_NewDialer [OF demo_dialing]]) (simp add: assms demo_dialing_state)
  then have "crun P demo_new demo_serving"
    unfolding demo_serving_def
    by (rule cr_step [OF _ cs_Listen [of _ _ None]]) (simp_all add: listener_Listen_def demo_dialing_state assms set_lobj_def)
  then have "crun P demo_new demo_accepted"
    by (rule cr_step [OF _ cs_serve [OF _ demo_accepted]])
      (simp_all add: assms demo_accepted_state demo_serving_def set_lobj_def demo_dialing_state)
  then show ?thesis by (rule cr_step [OF _ cs_task [OF _ demo_full]]) (simp_all add: assms demo_full_state demo_accepted_state)
qed

section \<open>Properties\<close>

text \<open>
  C17: In every run of a connector that is not closed, a registered dialer and a registered listener are stopped whenever the
  limit of pipes is reached, and are stopped only then unless a removed pipe's check of the limit is still to come.
\<close>

theorem stopped_iff_limit_reached:
  assumes "NewWithLimitAndOptions limit H a vs g = (Ok (), c0)" "crun (\<lambda>c. True) c0 c" "\<not> c_closed c"
    and "k \<in> set (c_dialers c)" "l \<in> set (c_listeners c)"
  shows "(exceed c \<longrightarrow> d_stopped (c_dobjs c ! k) \<and> cl_stopped (c_lobjs c ! l)) \<and>
    (c_limit c = -1 \<or> (\<forall>i. TCheck i \<notin> set (c_tasks c)) \<longrightarrow>
       (d_stopped (c_dobjs c ! k) \<longleftrightarrow> exceed c) \<and> (cl_stopped (c_lobjs c ! l) \<longleftrightarrow> exceed c))"
proof -
  have "settled c" using settled_run [OF assms(2) New_ok(1) [OF assms(1)]] .
  moreover have "d_stopped (c_dobjs c ! k) \<in> set (flags c)" "cl_stopped (c_lobjs c ! l) \<in> set (flags c)"
    using assms(4,5) by (auto simp: flags_def)
  ultimately show ?thesis using assms(3) by (auto simp: settled_def check_pending_def)
qed

text \<open>
  C18: While the limit is \<open>L\<close>, other than \<open>-1\<close>, the table never holds more than \<open>L\<close> pipes, in whatever order pipes are made, added and closed.\<close>

theorem pipes_within_limit:
  assumes "NewWithLimitAndOptions limit H a vs g = (Ok (), c0)" "crun (\<lambda>c. c_limit c = L) c0 c" "L \<noteq> -1"
  shows "int (len_pipes c) \<le> max 0 L"
  using limit_run [OF assms(2,3)] New_ok(4) [OF assms(1)] by simp

text \<open>
  C16: In every run the pipe that \<open>GetPipe\<close> finds has the identifier asked for, was added, still holds its identifier, and is
  open unless its removal is on the way; and no two pipes that hold their identifiers have the same one.
\<close>

theorem pipe_table_sound:
  assumes "NewWithLimitAndOptions limit H a vs g = (Ok (), c0)" "crun (\<lambda>c. True) c0 c"
  shows "(GetPipe pid c = Some i \<longrightarrow> i < length (c_pobjs c) \<and> cq_id (c_pobjs c ! i) = pid \<and> cq_fate (c_pobjs c ! i) = PAdded \<and>
      pid \<in> ids (c_ids c) \<and> (cq_closed (c_pobjs c ! i) \<longrightarrow> TRem i \<in> set (c_tasks c))) \<and>
    (j < length (c_pobjs c) \<and> k < length (c_pobjs c) \<and> \<not> cq_recycled (c_pobjs c ! j) \<and> \<not> cq_recycled (c_pobjs c ! k) \<and>
      cq_id (c_pobjs c ! j) = cq_id (c_pobjs c ! k) \<longrightarrow> j = k)"
proof -
  note ok = tableD [OF table_run [OF assms(2) New_ok(2) [OF assms(1)]]]
  have "entry_ok c (pid, i)" if "GetPipe pid c = Some i"
    using that ok(4) by (auto simp: GetPipe_def entries_ok_def dest: map_of_SomeD split: option.splits)
  with ok(3) show ?thesis by (auto simp: entry_ok_def ids_ok_def)
qed

text \<open>
  C15: Once nothing is pending, every pipe that was added or dropped is either open and found under its identifier, or closed
  with its identifier given back; and it is closed if the connector is.
\<close>

theorem no_pipe_lost:
  assumes "NewWithLimitAndOptions limit H a vs g = (Ok (), c0)" "crun (\<lambda>c. True) c0 c" "c_tasks c = []"
    and "i < length (c_pobjs c)" "cq_fate (c_pobjs c ! i) = PAdded \<or> cq_fate (c_pobjs c ! i) = PDropped"
  shows "(GetPipe (cq_id (c_pobjs c ! i)) c = Some i \<longleftrightarrow> \<not> cq_closed (c_pobjs c ! i)) \<and>
    (cq_recycled (c_pobjs c ! i) \<longleftrightarrow> cq_closed (c_pobjs c ! i)) \<and> (c_closed c \<longrightarrow> cq_closed (c_pobjs c ! i))"
proof -
  note ok = tableD [OF table_run [OF assms(2) New_ok(2) [OF assms(1)]]]
  have op: "all_open_ok c" using open_run [OF assms(2) New_ok(2) [OF assms(1)] New_ok(3) [OF assms(1)]] .
  have "entry_ok c (pid, i)" if "GetPipe pid c = Some i" for pid
    using that ok(4) by (auto simp: GetPipe_def entries_ok_def dest: map_of_SomeD split: option.splits)
  then have "\<not> cq_closed (c_pobjs c ! i)" if "GetPipe (cq_id (c_pobjs c ! i)) c = Some i" using that assms(3) by (fastforce simp: entry_ok_def)
  moreover have "GetPipe (cq_id (c_pobjs c ! i)) c = Some i" if "\<not> cq_closed (c_pobjs c ! i)"
    using open_okD(2) [OF op assms(4)] that assms(3,5) by (auto simp: open_ok_def)
  moreover have "cq_recycled (c_pobjs c ! i) \<longleftrightarrow> cq_closed (c_pobjs c ! i)"
    using pipe_okD [OF ok(1) assms(4)] assms(3) by (auto simp: pipe_ok_def split: if_splits)
  moreover have "\<not> (c_closed c \<and> GetPipe (cq_id (c_pobjs c ! i)) c = Some i)" using open_okD(1) [OF op] by (auto simp: GetPipe_def)
  ultimately show ?thesis by blast
qed

text \<open>
  A connection that was dialled or accepted and waits to be added when the connector is closed makes \<open>addPipe\<close>
  assign into the nil table: the process panics, unless a negotiator refuses the pipe or the limit allows none.
\<close>

theorem addPipe_after_Close_panics:
  assumes "t < length (c_tasks c)" "c_tasks c ! t = TAdd i w" "\<not> c_closed c" "c_limit c = -1 \<or> 0 < c_limit c" "\<not> c_negotiator c"
  shows "fst (task_step neg t (connector_Close c)) = Panic"
  using assms by (auto simp: task_step_def connector_addPipe_def connector_Close_def Let_def task_drop_def len_pipes_def nth_append)

theorem stopped_iff_limit_reached_witness:
  "crun (\<lambda>c. True) demo_new demo_full \<and> exceed demo_full \<and> d_stopped (c_dobjs demo_full ! 0) \<and> cl_stopped (c_lobjs demo_full ! 0)"
  using stopped_iff_limit_reached [OF demo_New demo_run, of 0 0] demo_run [of "\<lambda>c. True"]
  by (simp add: demo_full_state exceed_def len_pipes_def)

theorem pipes_within_limit_witness: "crun (\<lambda>c. c_limit c = 1) demo_new demo_full \<and> len_pipes demo_full = 1 \<and> int (len_pipes demo_full) \<le> max 0 1"
  using pipes_within_limit [OF demo_New demo_run, of 1] demo_run [of "\<lambda>c. c_limit c = 1"] by (simp add: demo_full_state len_pipes_def)

theorem pipe_table_sound_witness: "GetPipe 1 demo_full = Some 0 \<and> cq_id (c_pobjs demo_full ! 0) = 1 \<and> 1 \<in> ids (c_ids demo_full)"
proof -
  have "GetPipe 1 demo_full = Some 0" by (simp add: GetPipe_def demo_full_state)
  with pipe_table_sound [OF demo_New demo_run, of 1 0] show ?thesis by simp
qed

theorem no_pipe_lost_witness: "c_tasks demo_full = [] \<and> GetPipe 1 demo_full = Some 0 \<and> \<not> cq_recycled (c_pobjs demo_full ! 0)"
  using no_pipe_lost [OF demo_New demo_run, of 0] by (simp add: demo_full_state)

theorem addPipe_after_Close_panics_witness: "c_tasks demo_accepted ! 0 = TAdd 0 None \<and> fst (task_step None 0 (connector_Close demo_accepted)) = Panic"
  using addPipe_after_Close_panics [of 0 demo_accepted 0 None None] by (simp add: demo_accepted_state)

end
