(* ===== verification/Inproc.thy ===== *)
theory Inproc
  imports Transports "HOL-Library.Multiset"
begin

text \<open>
  The in-process transport of \<open>transport/inproc/inproc.go\<close>: the table of listeners and the
  hand-over between \<open>Dial\<close> and \<open>Accept\<close>. Every call in progress is a record with a program
  counter, so that any interleaving of dials, accepts, listens and closes is a sequence of steps;
  \<open>None\<close> means that the step is not enabled. The transport's \<open>newPipe\<close> is an argument.
\<close>

section \<open>State\<close>

record listener =
  l_addr :: string
  acceptedCount :: u64
  accepts :: "nat chan option"
  l_closedq :: bool

text \<open>
  A dial is known by its position; that is the identity of its channel \<open>ac\<close>. \<open>DSelect l nil\<close> has
  entered the first \<open>select\<close>, which reads \<open>l.accepts\<close> once: \<open>nil\<close> says that it was not made yet.
  The results name the accept, and the dial, at the other end.
\<close>

datatype 'c dpc = DStart | DFound nat | DSelect nat bool | DWait nat | DRefused | DConn nat "(unit, 'c) connection"
datatype 'c apc = AStart | ASelect bool | ADeliver nat "'c net_conn" "'c net_conn" | AErr err | APanic
  | AConn nat "(unit, 'c) connection"
datatype lpc = LStart | LChecked | LAdded | LDone "err option"
datatype kpc = KStart | KRemove | KDone "err option"

record 'c Tran =
  t_name :: string
  byAddr :: "string \<Rightarrow> nat option"
  t_listeners :: "listener list"
  t_dials :: "(string \<times> 'c dpc) list"
  t_accepts :: "(nat \<times> 'c apc) list"
  t_listens :: "(nat \<times> lpc) list"
  t_closes :: "(nat \<times> kpc) list"

type_synonym ('c, 'o) NewPipeFunc = "Address \<Rightarrow> Address \<Rightarrow> 'o \<Rightarrow> ('c net_conn \<times> 'c net_conn) outcome"

definition defaultAcceptQueueSize :: nat where
  "defaultAcceptQueueSize = 8"

definition NewTransport :: "string \<Rightarrow> 'c Tran" where
  "NewTransport nm =
     \<lparr>t_name = nm, byAddr = Map.empty, t_listeners = [], t_dials = [], t_accepts = [], t_listens = [], t_closes = []\<rparr>"

abbreviation lis :: "'c Tran \<Rightarrow> nat \<Rightarrow> listener" where
  "lis t l \<equiv> t_listeners t ! l"

definition as_transport :: "'c Tran \<Rightarrow> unit transport" where
  "as_transport t = \<lparr>Scheme = t_name t, impl = ()\<rparr>"

section \<open>The table of listeners\<close>

definition getListenerByAddr :: "string \<Rightarrow> 'c Tran \<Rightarrow> nat option" where
  "getListenerByAddr ad t = byAddr t ad"

definition isListening :: "nat \<Rightarrow> 'c Tran \<Rightarrow> bool" where
  "isListening l t \<longleftrightarrow> byAddr t (l_addr (lis t l)) = Some l"

definition addListener :: "nat \<Rightarrow> 'c Tran \<Rightarrow> bool \<times> err option \<times> 'c Tran" where
  "addListener l t =
     (case byAddr t (l_addr (lis t l)) of
        Some xl \<Rightarrow> if xl \<noteq> l then (False, Some ErrAddrInUse, t) else (False, None, t)
      | None \<Rightarrow> (True, None, t\<lparr>byAddr := (byAddr t)(l_addr (lis t l) \<mapsto> l)\<rparr>))"

definition removeListener :: "nat \<Rightarrow> 'c Tran \<Rightarrow> 'c Tran" where
  "removeListener l t =
     (if byAddr t (l_addr (lis t l)) = Some l then t\<lparr>byAddr := (byAddr t)(l_addr (lis t l) := None)\<rparr> else t)"

text \<open>A new dialer is the address it dials, a new listener its position.\<close>

definition NewDialer :: "string \<Rightarrow> string outcome" where
  "NewDialer ad = StripScheme ad"

definition NewListener :: "string \<Rightarrow> 'c Tran \<Rightarrow> nat outcome \<times> 'c Tran" where
  "NewListener ad t =
     (case StripScheme ad of
        Ok a \<Rightarrow> (Ok (length (t_listeners t)),
                  t\<lparr>t_listeners := t_listeners t @ [\<lparr>l_addr = a, acceptedCount = 0, accepts = None, l_closedq = False\<rparr>]\<rparr>)
      | Error e \<Rightarrow> (Error e, t)
      | Panic \<Rightarrow> (Panic, t))"

section \<open>Dial\<close>

datatype sel = SelClosed | SelChan

definition set_dial :: "nat \<Rightarrow> 'c dpc \<Rightarrow> 'c Tran \<Rightarrow> 'c Tran" where
  "set_dial i pc t = t\<lparr>t_dials := (t_dials t)[i := (fst (t_dials t ! i), pc)]\<rparr>"

definition set_lis :: "nat \<Rightarrow> listener \<Rightarrow> 'c Tran \<Rightarrow> 'c Tran" where
  "set_lis l x t = t\<lparr>t_listeners := (t_listeners t)[l := x]\<rparr>"

definition dial_step :: "sel \<Rightarrow> nat \<Rightarrow> 'c Tran \<Rightarrow> 'c Tran option" where
  "dial_step ch i t =
     (case snd (t_dials t ! i) of
        DStart \<Rightarrow>
          (case getListenerByAddr (fst (t_dials t ! i)) t of
             None \<Rightarrow> Some (set_dial i DRefused t)
           | Some l \<Rightarrow> Some (set_dial i (DFound l) t))
      | DFound l \<Rightarrow> Some (set_dial i (DSelect l (accepts (lis t l) = None)) t)
      | DSelect l nilq \<Rightarrow>
          (case ch of
             SelClosed \<Rightarrow> if l_closedq (lis t l) then Some (set_dial i DRefused t) else None
           | SelChan \<Rightarrow>
               (case accepts (lis t l) of
                  Some q \<Rightarrow>
                    if \<not> nilq \<and> can_send q
                    then Some (set_dial i (DWait l) (set_lis l ((lis t l)\<lparr>accepts := Some (chan_send i q)\<rparr>) t)) else None
                | None \<Rightarrow> None))
      | DWait l \<Rightarrow>
          (case ch of
             SelClosed \<Rightarrow> if l_closedq (lis t l) then Some (set_dial i DRefused t) else None
           | SelChan \<Rightarrow> None)
      | _ \<Rightarrow> None)"

section \<open>Accept\<close>

text \<open>\<open>fmt.Sprintf\<close> of a number with the verb d.\<close>

fun show_nat :: "nat \<Rightarrow> string" where
  "show_nat n = (if n < 10 then [char_of (48 + n)] else show_nat (n div 10) @ [char_of (48 + n mod 10)])"

declare show_nat.simps [simp del]

definition dialer_addr :: "listener \<Rightarrow> string" where
  "dialer_addr x = l_addr x @ ''.dialer#'' @ show_nat (unat (acceptedCount x))"

definition set_acc :: "nat \<Rightarrow> 'c apc \<Rightarrow> 'c Tran \<Rightarrow> 'c Tran" where
  "set_acc k pc t = t\<lparr>t_accepts := (t_accepts t)[k := (fst (t_accepts t ! k), pc)]\<rparr>"

fun waiting :: "'c dpc \<Rightarrow> bool" where
  "waiting (DWait l) = True"
| "waiting _ = False"

text \<open>
  In \<open>ADeliver\<close> the channel of the dial has no buffer: the hand-over is one step of both sides and needs
  the dial to wait in its second \<open>select\<close>.
\<close>

definition accept_step :: "('c, 'o) NewPipeFunc \<Rightarrow> 'o \<Rightarrow> sel \<Rightarrow> nat \<Rightarrow> 'c Tran \<Rightarrow> 'c Tran option" where
  "accept_step newPipe opts ch k t =
     (let l = fst (t_accepts t ! k)
      in case snd (t_accepts t ! k) of
        AStart \<Rightarrow>
          if \<not> isListening l t then Some (set_acc k (AErr ErrNotListening) t)
          else Some (set_acc k (ASelect (accepts (lis t l) = None)) t)
      | ASelect nilq \<Rightarrow>
          (case ch of
             SelClosed \<Rightarrow> if l_closedq (lis t l) then Some (set_acc k (AErr ErrClosed) t) else None
           | SelChan \<Rightarrow>
               if nilq then None
               else (case accepts (lis t l) of
                  None \<Rightarrow> None
                | Some q \<Rightarrow>
                    (case chan_recv q of
                       None \<Rightarrow> None
                     | Some (ac, q') \<Rightarrow>
                         (let x = (lis t l)\<lparr>accepts := Some q', acceptedCount := acceptedCount (lis t l) + 1\<rparr>;
                              la = NewAddress (t_name t) (l_addr x); ra = NewAddress (t_name t) (dialer_addr x)
                          in case newPipe la ra opts of
                               Ok (lc, rc) \<Rightarrow> Some (set_acc k (ADeliver ac lc rc) (set_lis l x t))
                             | _ \<Rightarrow> Some (set_acc k APanic (set_lis l x t))))))
      | ADeliver ac lc rc \<Rightarrow>
          (case ch of
             SelClosed \<Rightarrow> if l_closedq (lis t l) then Some (set_acc k (AErr ErrClosed) t) else None
           | SelChan \<Rightarrow>
               if ac < length (t_dials t) \<and> waiting (snd (t_dials t ! ac))
               then Some (set_acc k (AConn ac (NewConnection (as_transport t) lc True))
                      (set_dial ac (DConn k (NewConnection (as_transport t) rc False)) t))
               else None)
      | _ \<Rightarrow> None)"

section \<open>Listen and Close\<close>

definition set_listen :: "nat \<Rightarrow> lpc \<Rightarrow> 'c Tran \<Rightarrow> 'c Tran" where
  "set_listen k pc t = t\<lparr>t_listens := (t_listens t)[k := (fst (t_listens t ! k), pc)]\<rparr>"

definition listen_step :: "nat \<Rightarrow> 'c Tran \<Rightarrow> 'c Tran option" where
  "listen_step k t =
     (let l = fst (t_listens t ! k)
      in case snd (t_listens t ! k) of
        LStart \<Rightarrow> Some (set_listen k (if l_closedq (lis t l) then LDone (Some ErrClosed) else LChecked) t)
      | LChecked \<Rightarrow>
          (case addListener l t of
             (ok, e, t') \<Rightarrow> Some (set_listen k (if ok then LAdded else LDone e) t'))
      | LAdded \<Rightarrow>
          Some (set_listen k (LDone None) (set_lis l ((lis t l)\<lparr>accepts := Some (make_chan defaultAcceptQueueSize)\<rparr>) t))
      | LDone _ \<Rightarrow> None)"

definition set_close :: "nat \<Rightarrow> kpc \<Rightarrow> 'c Tran \<Rightarrow> 'c Tran" where
  "set_close k pc t = t\<lparr>t_closes := (t_closes t)[k := (fst (t_closes t ! k), pc)]\<rparr>"

definition tran_close_step :: "nat \<Rightarrow> 'c Tran \<Rightarrow> 'c Tran option" where
  "tran_close_step k t =
     (let l = fst (t_closes t ! k)
      in case snd (t_closes t ! k) of
        KStart \<Rightarrow>
          if l_closedq (lis t l) then Some (set_close k (KDone (Some ErrClosed)) t)
          else Some (set_close k KRemove (set_lis l ((lis t l)\<lparr>l_closedq := True\<rparr>) t))
      | KRemove \<Rightarrow> Some (set_close k (KDone None) (removeListener l t))
      | KDone _ \<Rightarrow> None)"

section \<open>Runs\<close>

inductive tran_step :: "('c, 'o) NewPipeFunc \<Rightarrow> 'c Tran \<Rightarrow> 'c Tran \<Rightarrow> bool" for np where
  ts_NewListener: "NewListener ad t = (Ok l, t') \<Longrightarrow> tran_step np t t'"
| ts_Dial: "tran_step np t (t\<lparr>t_dials := t_dials t @ [(ad, DStart)]\<rparr>)"
| ts_Accept: "l < length (t_listeners t) \<Longrightarrow> tran_step np t (t\<lparr>t_accepts := t_accepts t @ [(l, AStart)]\<rparr>)"
| ts_Listen: "l < length (t_listeners t) \<Longrightarrow> tran_step np t (t\<lparr>t_listens := t_listens t @ [(l, LStart)]\<rparr>)"
| ts_Close: "l < length (t_listeners t) \<Longrightarrow> tran_step np t (t\<lparr>t_closes := t_closes t @ [(l, KStart)]\<rparr>)"
| ts_dial: "i < length (t_dials t) \<Longrightarrow> dial_step ch i t = Some t' \<Longrightarrow> tran_step np t t'"
| ts_accept: "k < length (t_accepts t) \<Longrightarrow> accept_step np opts ch k t = Some t' \<Longrightarrow> tran_step np t t'"
| ts_listen: "k < length (t_listens t) \<Longrightarrow> listen_step k t = Some t' \<Longrightarrow> tran_step np t t'"
| ts_close: "k < length (t_closes t) \<Longrightarrow> tran_close_step k t = Some t' \<Longrightarrow> tran_step np t t'"

inductive tran_run :: "('c, 'o) NewPipeFunc \<Rightarrow> 'c Tran \<Rightarrow> 'c Tran \<Rightarrow> bool" for np t0 where
  tr_refl: "tran_run np t0 t0"
| tr_step: "tran_run np t0 t \<Longrightarrow> tran_step np t t' \<Longrightarrow> tran_run np t0 t'"

end
