(* ===== verification/Inproc_Properties.thy ===== *)
theory Inproc_Properties
  imports Inproc
begin

text \<open>
  What the in-process transport guarantees in every interleaving of dials, accepts, listens and closes: a connection
  has exactly two ends, made by one call of \<open>newPipe\<close>, one with the dial and one with the accept of the same address;
  an accept that has taken a dial is never stuck. And what a close in the middle of a \<open>Listen\<close> leaves behind.
\<close>

section \<open>The hand-over\<close>

definition queued :: "listener \<Rightarrow> nat list" where
  "queued x = (case accepts x of None \<Rightarrow> [] | Some q \<Rightarrow> chan_buf q)"

text \<open>A dial that was queued waits, or has given up because the listener was closed.\<close>

definition handed :: "'c Tran \<Rightarrow> nat \<Rightarrow> nat \<Rightarrow> bool" where
  "handed t i l \<longleftrightarrow> i < length (t_dials t) \<and> l < length (t_listeners t) \<and> l_addr (lis t l) = fst (t_dials t ! i) \<and>
     (snd (t_dials t ! i) = DWait l \<or> snd (t_dials t ! i) = DRefused \<and> l_closedq (lis t l))"

text \<open>The two ends that \<open>newPipe\<close> made for listener \<open>l\<close>.\<close>

definition ends :: "('c, 'o) NewPipeFunc \<Rightarrow> 'c Tran \<Rightarrow> nat \<Rightarrow> 'c net_conn \<Rightarrow> 'c net_conn \<Rightarrow> bool" where
  "ends np t l lc rc \<longleftrightarrow>
     (\<exists>ra opts. np (NewAddress (t_name t) (l_addr (lis t l))) (NewAddress (t_name t) ra) opts = Ok (lc, rc))"

definition paired :: "('c, 'o) NewPipeFunc \<Rightarrow> 'c Tran \<Rightarrow> nat \<Rightarrow> nat \<Rightarrow> bool" where
  "paired np t i k \<longleftrightarrow> i < length (t_dials t) \<and> k < length (t_accepts t) \<and> l_addr (lis t (fst (t_accepts t ! k))) = fst (t_dials t ! i) \<and>
     (\<exists>lc rc. ends np t (fst (t_accepts t ! k)) lc rc \<and>
        snd (t_accepts t ! k) = AConn i (NewConnection (as_transport t) lc True) \<and>
        snd (t_dials t ! i) = DConn k (NewConnection (as_transport t) rc False))"

definition dial_ok :: "('c, 'o) NewPipeFunc \<Rightarrow> 'c Tran \<Rightarrow> nat \<Rightarrow> bool" where
  "dial_ok np t i \<longleftrightarrow>
     (case snd (t_dials t ! i) of
        DFound l \<Rightarrow> l < length (t_listeners t) \<and> l_addr (lis t l) = fst (t_dials t ! i)
      | DSelect l b \<Rightarrow> l < length (t_listeners t) \<and> l_addr (lis t l) = fst (t_dials t ! i)
      | DWait l \<Rightarrow> l < length (t_listeners t) \<and> l_addr (lis t l) = fst (t_dials t ! i)
      | DConn k c \<Rightarrow> paired np t i k
      | _ \<Rightarrow> True)"

definition acc_ok :: "('c, 'o) NewPipeFunc \<Rightarrow> 'c Tran \<Rightarrow> nat \<Rightarrow> bool" where
  "acc_ok np t k \<longleftrightarrow> fst (t_accepts t ! k) < length (t_listeners t) \<and>
     (case snd (t_accepts t ! k) of
        ADeliver i lc rc \<Rightarrow> handed t i (fst (t_accepts t ! k)) \<and> ends np t (fst (t_accepts t ! k)) lc rc
      | AConn i c \<Rightarrow> paired np t i k
      | _ \<Rightarrow> True)"

fun delivers :: "nat \<Rightarrow> 'c apc \<Rightarrow> bool" where
  "delivers i (ADeliver j lc rc) = (i = j)"
| "delivers i _ = False"

text \<open>How many times dial \<open>i\<close> is queued or held by an accept.\<close>

definition tok :: "'c Tran \<Rightarrow> nat \<Rightarrow> nat" where
  "tok t i = sum_list (map (\<lambda>x. count_list (queued x) i) (t_listeners t)) + length (filter (\<lambda>a. delivers i (snd a)) (t_accepts t))"

definition tran_inv :: "('c, 'o) NewPipeFunc \<Rightarrow> 'c Tran \<Rightarrow> bool" where
  "tran_inv np t \<longleftrightarrow> (\<forall>i < length (t_dials t). dial_ok np t i) \<and> (\<forall>k < length (t_accepts t). acc_ok np t k) \<and>
     (\<forall>l < length (t_listeners t). \<forall>i \<in> set (queued (lis t l)). handed t i l) \<and> (\<forall>i. tok t i \<le> 1) \<and>
     (\<forall>a l. byAddr t a = Some l \<longrightarrow> l < length (t_listeners t) \<and> l_addr (lis t l) = a)"

lemma tran_invD:
  assumes "tran_inv np t"
  shows "i < length (t_dials t) \<Longrightarrow> dial_ok np t i" "k < length (t_accepts t) \<Longrightarrow> acc_ok np t k"
    "l < length (t_listeners t) \<Longrightarrow> i \<in> set (queued (lis t l)) \<Longrightarrow> handed t i l" "tok t i \<le> 1"
    "byAddr t a = Some l \<Longrightarrow> l < length (t_listeners t) \<and> l_addr (lis t l) = a"
  using assms by (auto simp: tran_inv_def)

text \<open>Who holds a dial was handed it.\<close>

lemma tok_pos:
  assumes "tran_inv np t" "0 < tok t i"
  shows "\<exists>l. handed t i l"
proof (cases "\<exists>l < length (t_listeners t). i \<in> set (queued (lis t l))")
  case True
  then show ?thesis using tran_invD(3) [OF assms(1)] by blast
next
  case False
  then have "\<forall>x \<in> set (t_listeners t). i \<notin> set (queued x)" by (metis in_set_conv_nth)
  then have "sum_list (map (\<lambda>x. count_list (queued x) i) (t_listeners t)) = 0" by (simp add: sum_list_eq_0_iff count_list_0_iff)
  with assms(2) obtain a where "a \<in> set (t_accepts t)" "delivers i (snd a)" by (auto simp: tok_def filter_empty_conv simp flip: length_greater_0_conv)
  then obtain k lc rc where "k < length (t_accepts t)" "snd (t_accepts t ! k) = ADeliver i lc rc"
    by (cases "snd a") (auto simp: in_set_conv_nth)
  then show ?thesis using tran_invD(2) [OF assms(1), of k] by (auto simp: acc_ok_def)
qed

lemma tok_queue: "l < length (t_listeners t) \<Longrightarrow> count_list (queued (lis t l)) i \<le> tok t i"
  unfolding tok_def by (rule trans_le_add1) (rule member_le_sum_list, simp_all)

text \<open>A step that leaves addresses alone, closes listeners at most, and changes no dial that was handed over to another state.\<close>

definition grows :: "'c Tran \<Rightarrow> 'c Tran \<Rightarrow> bool" where
  "grows t t' \<longleftrightarrow> t_name t' = t_name t \<and> length (t_dials t) \<le> length (t_dials t') \<and> length (t_accepts t) \<le> length (t_accepts t') \<and>
     length (t_listeners t) \<le> length (t_listeners t') \<and>
     (\<forall>i < length (t_dials t). fst (t_dials t' ! i) = fst (t_dials t ! i)) \<and>
     (\<forall>k < length (t_accepts t). fst (t_accepts t' ! k) = fst (t_accepts t ! k)) \<and>
     (\<forall>l < length (t_listeners t). l_addr (lis t' l) = l_addr (lis t l) \<and> (l_closedq (lis t l) \<longrightarrow> l_closedq (lis t' l)))"

lemma grows_ends: "grows t t' \<Longrightarrow> l < length (t_listeners t) \<Longrightarrow> ends np t l lc rc \<Longrightarrow> ends np t' l lc rc"
  by (simp add: grows_def ends_def)

lemma grows_handed: "grows t t' \<Longrightarrow> handed t i l \<Longrightarrow> snd (t_dials t' ! i) = snd (t_dials t ! i) \<Longrightarrow> handed t' i l"
  by (auto simp: grows_def handed_def)

lemma grows_paired:
  assumes "grows t t'" "acc_ok np t k" "paired np t i k" "snd (t_dials t' ! i) = snd (t_dials t ! i)" "snd (t_accepts t' ! k) = snd (t_accepts t ! k)"
  shows "paired np t' i k"
  using assms grows_ends [OF assms(1)] by (fastforce simp: paired_def acc_ok_def grows_def as_transport_def)

lemma tok_acc:
  assumes "k < length (t_accepts t)" "delivers i (snd (t_accepts t ! k))"
  shows "0 < tok t i"
proof -
  have "t_accepts t ! k \<in> set (filter (\<lambda>a. delivers i (snd a)) (t_accepts t))" using assms by simp
  then have "filter (\<lambda>a. delivers i (snd a)) (t_accepts t) \<noteq> []" by (metis empty_iff empty_set)
  then show ?thesis by (simp add: tok_def)
qed

lemma tran_frame:
  assumes inv: "tran_inv np t" and g: "grows t t'"
    and d: "\<And>j. j < length (t_dials t') \<Longrightarrow> j < length (t_dials t) \<and> snd (t_dials t' ! j) = snd (t_dials t ! j) \<or> dial_ok np t' j"
    and a: "\<And>k. k < length (t_accepts t') \<Longrightarrow> k < length (t_accepts t) \<and> snd (t_accepts t' ! k) = snd (t_accepts t ! k) \<or> acc_ok np t' k"
    and p: "\<And>i k. paired np t i k \<Longrightarrow> snd (t_dials t' ! i) = snd (t_dials t ! i) \<and> snd (t_accepts t' ! k) = snd (t_accepts t ! k)"
    and h: "\<And>i l. handed t i l \<Longrightarrow> 0 < tok t' i \<Longrightarrow> handed t' i l"
    and q: "\<And>i l. l < length (t_listeners t') \<Longrightarrow> i \<in> set (queued (lis t' l)) \<Longrightarrow>
       l < length (t_listeners t) \<and> i \<in> set (queued (lis t l)) \<or> handed t' i l"
    and n: "\<And>i. tok t' i \<le> 1" and b: "\<And>x l. byAddr t' x = Some l \<Longrightarrow> l < length (t_listeners t') \<and> l_addr (lis t' l) = x"
  shows "tran_inv np t'"
proof -
  have pr: "paired np t' i k" if "paired np t i k" for i k
    using grows_paired [OF g tran_invD(2) [OF inv] that] p [OF that] that by (simp add: paired_def)
  have "dial_ok np t' j" if "j < length (t_dials t')" for j
    using d [OF that]
  proof
    assume s: "j < length (t_dials t) \<and> snd (t_dials t' ! j) = snd (t_dials t ! j)"
    with tran_invD(1) [OF inv, of j] g pr [of j] show ?thesis by (auto simp: dial_ok_def grows_def split: dpc.splits)
  qed
  moreover have "acc_ok np t' k" if k: "k < length (t_accepts t')" for k
    using a [OF k]
  proof
    assume s: "k < length (t_accepts t) \<and> snd (t_accepts t' ! k) = snd (t_accepts t ! k)"
    have "handed t' i (fst (t_accepts t ! k))" if "snd (t_accepts t ! k) = ADeliver i lc rc" "handed t i (fst (t_accepts t ! k))" for i lc rc
      using h [OF that(2)] tok_acc [OF k, of i] s that(1) by simp
    with s tran_invD(2) [OF inv, of k] g pr [of _ k] grows_ends [OF g] show ?thesis
      by (auto simp: acc_ok_def grows_def split: apc.splits)
  qed
  moreover have "handed t' i l" if "l < length (t_listeners t')" "i \<in> set (queued (lis t' l))" for i l
    using q [OF that]
  proof
    assume "l < length (t_listeners t) \<and> i \<in> set (queued (lis t l))"
    moreover have "count_list (queued (lis t' l)) i \<noteq> 0" using that(2) by (simp add: count_list_0_iff)
    then have "0 < tok t' i" using tok_queue [OF that(1), of i] by simp
    ultimately show ?thesis using h tran_invD(3) [OF inv] by blast
  qed
  ultimately show ?thesis using n b by (simp add: tran_inv_def)
qed

section \<open>The steps\<close>

lemma nth_set_dial [simp]:
  "i < length (t_dials t) \<Longrightarrow> t_dials (set_dial i pc t) ! j = (if j = i then (fst (t_dials t ! i), pc) else t_dials t ! j)"
  "length (t_dials (set_dial i pc t)) = length (t_dials t)" "t_accepts (set_dial i pc t) = t_accepts t" "t_listeners (set_dial i pc t) = t_listeners t"
  "byAddr (set_dial i pc t) = byAddr t" "t_name (set_dial i pc t) = t_name t" "tok (set_dial i pc t) j = tok t j"
  by (simp_all add: set_dial_def nth_list_update tok_def)

lemma nth_set_acc [simp]:
  "k < length (t_accepts t) \<Longrightarrow> t_accepts (set_acc k pc t) ! j = (if j = k then (fst (t_accepts t ! k), pc) else t_accepts t ! j)"
  "length (t_accepts (set_acc k pc t)) = length (t_accepts t)" "t_dials (set_acc k pc t) = t_dials t" "t_listeners (set_acc k pc t) = t_listeners t"
  "byAddr (set_acc k pc t) = byAddr t" "t_name (set_acc k pc t) = t_name t"
  by (simp_all add: set_acc_def nth_list_update)

lemma nth_set_lis [simp]:
  "l < length (t_listeners t) \<Longrightarrow> lis (set_lis l x t) j = (if j = l then x else lis t j)"
  "length (t_listeners (set_lis l x t)) = length (t_listeners t)" "t_dials (set_lis l x t) = t_dials t" "t_accepts (set_lis l x t) = t_accepts t"
  "byAddr (set_lis l x t) = byAddr t" "t_name (set_lis l x t) = t_name t"
  by (simp_all add: set_lis_def nth_list_update)

lemma tok_set_acc:
  assumes "k < length (t_accepts t)"
  shows "tok (set_acc k pc t) i + (if delivers i (snd (t_accepts t ! k)) then 1 else 0) = tok t i + (if delivers i pc then 1 else 0)"
  using length_filter_update [OF assms, of "\<lambda>a. delivers i (snd a)" "(fst (t_accepts t ! k), pc)"] by (simp add: tok_def set_acc_def)

lemma tok_set_lis:
  assumes "l < length (t_listeners t)"
  shows "tok (set_lis l x t) i + count_list (queued (lis t l)) i = tok t i + count_list (queued x) i"
  using sum_list_update [OF assms, of "\<lambda>x. count_list (queued x) i" x] by (simp add: tok_def set_lis_def)

lemma grows_refl [simp]: "grows t t" by (simp add: grows_def)

text \<open>Listeners are added, closed or get a queue with nothing new in it.\<close>

lemma inv_listeners:
  assumes inv: "tran_inv np t" and g: "grows t t'" and same: "t_dials t' = t_dials t" "t_accepts t' = t_accepts t"
    and q: "\<And>l i. l < length (t_listeners t') \<Longrightarrow> i \<in> set (queued (lis t' l)) \<Longrightarrow> l < length (t_listeners t) \<and> i \<in> set (queued (lis t l))"
    and n: "\<And>i. tok t' i \<le> tok t i" and b: "\<And>x l. byAddr t' x = Some l \<Longrightarrow> l < length (t_listeners t') \<and> l_addr (lis t' l) = x"
  shows "tran_inv np t'"
proof (rule tran_frame [OF inv g])
  show "handed t' i l" if "handed t i l" for i l using grows_handed [OF g that] same by simp
  show "tok t' i \<le> 1" for i using n [of i] tran_invD(4) [OF inv, of i] by simp
qed (use same q b in auto)

lemma inv_set_lis:
  assumes inv: "tran_inv np t" and l: "l < length (t_listeners t)" and x: "l_addr x = l_addr (lis t l)" "l_closedq (lis t l) \<longrightarrow> l_closedq x"
    and q: "queued x = [] \<or> queued x = queued (lis t l)"
  shows "tran_inv np (set_lis l x t)"
proof (rule inv_listeners [OF inv])
  show "grows t (set_lis l x t)" using l x by (auto simp: grows_def)
  show "tok (set_lis l x t) i \<le> tok t i" for i using tok_set_lis [OF l, of x i] q by auto
  show "\<And>a k. byAddr (set_lis l x t) a = Some k \<Longrightarrow> k < length (t_listeners (set_lis l x t)) \<and> l_addr (lis (set_lis l x t) k) = a"
    using tran_invD(5) [OF inv] l x by auto
qed (use l q in \<open>auto split: if_splits\<close>)

text \<open>A dial moves on without being queued or connected.\<close>

lemma inv_set_dial:
  assumes inv: "tran_inv np t" and i: "i < length (t_dials t)" and ok: "dial_ok np (set_dial i pc t) i"
    and old: "\<And>k c. snd (t_dials t ! i) \<noteq> DConn k c" and h: "\<And>l. handed t i l \<Longrightarrow> handed (set_dial i pc t) i l"
  shows "tran_inv np (set_dial i pc t)"
proof (rule tran_frame [OF inv])
  show g: "grows t (set_dial i pc t)" using i by (auto simp: grows_def)
  show "handed (set_dial i pc t) j l" if "handed t j l" for j l
    using grows_handed [OF g that] h [of l] that i by (cases "j = i") auto
  show "snd (t_dials (set_dial i pc t) ! j) = snd (t_dials t ! j) \<and> snd (t_accepts (set_dial i pc t) ! k) = snd (t_accepts t ! k)"
    if "paired np t j k" for j k using that old i by (auto simp: paired_def)
  show "tok (set_dial i pc t) j \<le> 1" for j using tran_invD(4) [OF inv] by simp
qed (use ok i tran_invD(5) [OF inv] in auto)

lemma not_handed: "\<not> waiting (snd (t_dials t ! i)) \<Longrightarrow> snd (t_dials t ! i) \<noteq> DRefused \<Longrightarrow> \<not> handed t i l"
  by (auto simp: handed_def)

lemma handed_refuse:
  assumes "handed t i l" "l_closedq (lis t l)" "i < length (t_dials t)"
  shows "handed (set_dial i DRefused t) i l"
  using assms by (auto simp: handed_def)

text \<open>An accept moves on without taking or delivering.\<close>

lemma inv_set_acc:
  assumes inv: "tran_inv np t" and k: "k < length (t_accepts t)" and ok: "acc_ok np (set_acc k pc t) k"
    and old: "\<And>i c. snd (t_accepts t ! k) \<noteq> AConn i c" and new: "\<And>i. \<not> delivers i pc"
  shows "tran_inv np (set_acc k pc t)"
proof (rule tran_frame [OF inv])
  show g: "grows t (set_acc k pc t)" using k by (auto simp: grows_def)
  show "handed (set_acc k pc t) j l" if "handed t j l" for j l using grows_handed [OF g that] by simp
  show "snd (t_dials (set_acc k pc t) ! j) = snd (t_dials t ! j) \<and> snd (t_accepts (set_acc k pc t) ! m) = snd (t_accepts t ! m)"
    if "paired np t j m" for j m using that old k by (auto simp: paired_def)
  show "tok (set_acc k pc t) i \<le> 1" for i using tran_invD(4) [OF inv, of i] tok_set_acc [OF k, of pc i] new by simp
qed (use ok k tran_invD(5) [OF inv] in auto)

text \<open>A dial is queued.\<close>

lemma inv_send:
  assumes inv: "tran_inv np t" and i: "i < length (t_dials t)" and pc: "snd (t_dials t ! i) = DSelect l b" and q: "accepts (lis t l) = Some c"
  shows "tran_inv np (set_dial i (DWait l) (set_lis l ((lis t l)\<lparr>accepts := Some (chan_send i c)\<rparr>) t))" (is "tran_inv np ?t")
proof -
  have l: "l < length (t_listeners t)" "l_addr (lis t l) = fst (t_dials t ! i)" using tran_invD(1) [OF inv i] pc by (simp_all add: dial_ok_def)
  have nh: "\<not> handed t i k" for k using not_handed [of t i k] pc by simp
  then have z: "tok t i = 0" using tok_pos [OF inv, of i] by fastforce
  have qs: "queued ((lis t l)\<lparr>accepts := Some (chan_send i c)\<rparr>) = queued (lis t l) @ [i]" using q by (simp add: queued_def chan_send_def)
  have tk: "tok ?t j = tok t j + (if j = i then 1 else 0)" for j
    using tok_set_lis [OF l(1), of "(lis t l)\<lparr>accepts := Some (chan_send i c)\<rparr>" j] by (simp add: qs)
  have g: "grows t ?t" using i l by (auto simp: grows_def)
  have hi: "handed ?t i l" using i l by (simp add: handed_def)
  show ?thesis
  proof (rule tran_frame [OF inv g])
    show "handed ?t j k" if "handed t j k" for j k using grows_handed [OF g that] nh [of k] that i by (cases "j = i") auto
    show "snd (t_dials ?t ! j) = snd (t_dials t ! j) \<and> snd (t_accepts ?t ! k) = snd (t_accepts t ! k)" if "paired np t j k" for j k
      using that pc i by (auto simp: paired_def)
    show "tok ?t j \<le> 1" for j using tran_invD(4) [OF inv, of j] z unfolding tk by simp
    show "k < length (t_listeners t) \<and> j \<in> set (queued (lis t k)) \<or> handed ?t j k"
      if "k < length (t_listeners ?t)" "j \<in> set (queued (lis ?t k))" for j k
      using that hi qs l by (auto split: if_splits)
    show "j < length (t_dials t) \<and> snd (t_dials ?t ! j) = snd (t_dials t ! j) \<or> dial_ok np ?t j" if "j < length (t_dials ?t)" for j
      using that i l by (auto simp: dial_ok_def)
  qed (use tran_invD(5) [OF inv] l in \<open>auto split: if_splits\<close>)
qed

text \<open>An accept takes the oldest dial from the queue.\<close>

lemma inv_take:
  assumes inv: "tran_inv np t" and k: "k < length (t_accepts t)" and pc: "snd (t_accepts t ! k) = ASelect b" and l: "l = fst (t_accepts t ! k)"
    and q: "queued (lis t l) = ac # rest" "queued x = rest" and x: "l_addr x = l_addr (lis t l)" "l_closedq x = l_closedq (lis t l)"
    and pc': "pc' = APanic \<or> (\<exists>lc rc. pc' = ADeliver ac lc rc \<and> ends np t l lc rc)"
  shows "tran_inv np (set_acc k pc' (set_lis l x t))" (is "tran_inv np ?t")
proof -
  have ll: "l < length (t_listeners t)" using tran_invD(2) [OF inv k] l by (simp add: acc_ok_def)
  have g: "grows t ?t" using k ll x by (auto simp: grows_def)
  have ha: "handed t ac l" using tran_invD(3) [OF inv ll, of ac] q(1) by simp
  have tk: "tok ?t j \<le> tok t j" for j
    using tok_set_lis [OF ll, of x j] tok_set_acc [of k "set_lis l x t" pc' j] k pc pc' q by (auto split: if_splits)
  show ?thesis
  proof (rule tran_frame [OF inv g])
    show hh: "handed ?t j m" if "handed t j m" for j m using grows_handed [OF g that] by simp
    show "j < length (t_accepts t) \<and> snd (t_accepts ?t ! j) = snd (t_accepts t ! j) \<or> acc_ok np ?t j" if "j < length (t_accepts ?t)" for j
      using that k ll pc' hh [OF ha] grows_ends [OF g ll, of np] l by (cases "j = k") (auto simp: acc_ok_def)
    show "snd (t_dials ?t ! j) = snd (t_dials t ! j) \<and> snd (t_accepts ?t ! m) = snd (t_accepts t ! m)" if "paired np t j m" for j m
      using that pc k by (auto simp: paired_def)
    show "tok ?t j \<le> 1" for j using order.trans [OF tk tran_invD(4) [OF inv]] .
    show "m < length (t_listeners t) \<and> j \<in> set (queued (lis t m)) \<or> handed ?t j m"
      if "m < length (t_listeners ?t)" "j \<in> set (queued (lis ?t m))" for j m
      using that q ll by (auto split: if_splits)
  qed (use tran_invD(5) [OF inv] ll x in \<open>auto split: if_splits\<close>)
qed

text \<open>Both sides get their end.\<close>

lemma inv_deliver:
  assumes inv: "tran_inv np t" and k: "k < length (t_accepts t)" and pc: "snd (t_accepts t ! k) = ADeliver i lc rc"
    and w: "waiting (snd (t_dials t ! i))"
  shows "tran_inv np (set_acc k (AConn i (NewConnection (as_transport t) lc True)) (set_dial i (DConn k (NewConnection (as_transport t) rc False)) t))"
    (is "tran_inv np ?t")
proof -
  let ?l = "fst (t_accepts t ! k)"
  have h: "handed t i ?l" "ends np t ?l lc rc" "?l < length (t_listeners t)" using tran_invD(2) [OF inv k] pc by (simp_all add: acc_ok_def)
  then have i: "i < length (t_dials t)" "l_addr (lis t ?l) = fst (t_dials t ! i)" by (simp_all add: handed_def)
  have g: "grows t ?t" using k i by (auto simp: grows_def)
  have tk: "tok ?t j + (if j = i then 1 else 0) = tok t j" for j
    using tok_set_acc [of k "set_dial i (DConn k (NewConnection (as_transport t) rc False)) t" "AConn i (NewConnection (as_transport t) lc True)" j] k pc
    by simp
  have z: "tok ?t i = 0" using tran_invD(4) [OF inv, of i] tk [of i] by simp
  have pr: "paired np ?t i k"
    using i k h(2) grows_ends [OF g h(3,2)] unfolding paired_def by (simp add: as_transport_def) blast
  show ?thesis
  proof (rule tran_frame [OF inv g])
    show "handed ?t j l" if "handed t j l" "0 < tok ?t j" for j l
      using grows_handed [OF g that(1)] that(2) z i by (cases "j = i") auto
    show "snd (t_dials ?t ! j) = snd (t_dials t ! j) \<and> snd (t_accepts ?t ! m) = snd (t_accepts t ! m)" if "paired np t j m" for j m
      using that pc w k i by (auto simp: paired_def)
    show "tok ?t j \<le> 1" for j using tk [of j] tran_invD(4) [OF inv, of j] by linarith
    show "j < length (t_dials t) \<and> snd (t_dials ?t ! j) = snd (t_dials t ! j) \<or> dial_ok np ?t j" if "j < length (t_dials ?t)" for j
      using that pr i by (auto simp: dial_ok_def)
    show "j < length (t_accepts t) \<and> snd (t_accepts ?t ! j) = snd (t_accepts t ! j) \<or> acc_ok np ?t j" if "j < length (t_accepts ?t)" for j
      using that pr k h(3) by (auto simp: acc_ok_def)
  qed (use tran_invD(5) [OF inv] in auto)
qed

lemma inv_dial_step:
  assumes inv: "tran_inv np t" and i: "i < length (t_dials t)" and st: "dial_step ch i t = Some t'"
  shows "tran_inv np t'"
proof (cases "snd (t_dials t ! i)")
  case DStart
  have nh: "\<not> handed t i l" for l using not_handed [of t i l] DStart by simp
  show ?thesis
  proof (cases "byAddr t (fst (t_dials t ! i))")
    case None
    then have "t' = set_dial i DRefused t" using st DStart by (simp add: dial_step_def getListenerByAddr_def)
    then show ?thesis using DStart nh i by (auto intro!: inv_set_dial [OF inv i] simp: dial_ok_def)
  next
    case (Some l)
    then have "t' = set_dial i (DFound l) t" using st DStart by (simp add: dial_step_def getListenerByAddr_def)
    then show ?thesis using DStart nh i tran_invD(5) [OF inv Some] by (auto intro!: inv_set_dial [OF inv i] simp: dial_ok_def)
  qed
next
  case (DFound l)
  have nh: "\<not> handed t i l" for l using not_handed [of t i l] DFound by simp
  have "t' = set_dial i (DSelect l (accepts (lis t l) = None)) t" using st DFound by (simp add: dial_step_def)
  then show ?thesis using DFound nh i tran_invD(1) [OF inv i] by (auto intro!: inv_set_dial [OF inv i] simp: dial_ok_def)
next
  case (DSelect l b)
  have nh: "\<not> handed t i l" for l using not_handed [of t i l] DSelect by simp
  show ?thesis
  proof (cases ch)
    case SelClosed
    then have "t' = set_dial i DRefused t" using st DSelect by (simp add: dial_step_def split: if_splits)
    then show ?thesis using DSelect nh i by (auto intro!: inv_set_dial [OF inv i] simp: dial_ok_def)
  next
    case SelChan
    then obtain c where "accepts (lis t l) = Some c" "t' = set_dial i (DWait l) (set_lis l ((lis t l)\<lparr>accepts := Some (chan_send i c)\<rparr>) t)"
      using st DSelect by (auto simp: dial_step_def split: if_splits option.splits)
    then show ?thesis using inv_send [OF inv i DSelect] by simp
  qed
next
  case (DWait l)
  have "t' = set_dial i DRefused t" "l_closedq (lis t l)" using st DWait by (auto simp: dial_step_def split: sel.splits if_splits)
  moreover from this have "handed (set_dial i DRefused t) i m" if "handed t i m" for m
    using that handed_refuse [OF that _ i] DWait by (auto simp: handed_def)
  ultimately show ?thesis using DWait i by (auto intro!: inv_set_dial [OF inv i] simp: dial_ok_def)
qed (use st in \<open>simp_all add: dial_step_def\<close>)

lemma inv_accept_step:
  assumes inv: "tran_inv np t" and k: "k < length (t_accepts t)" and st: "accept_step np opts ch k t = Some t'"
  shows "tran_inv np t'"
proof (cases "snd (t_accepts t ! k)")
  case AStart
  have l: "fst (t_accepts t ! k) < length (t_listeners t)" using tran_invD(2) [OF inv k] by (simp add: acc_ok_def)
  have "t' = set_acc k (AErr ErrNotListening) t \<or> (\<exists>b. t' = set_acc k (ASelect b) t)"
    using st AStart by (auto simp: accept_step_def Let_def split: if_splits)
  then show ?thesis using AStart k l by (auto intro!: inv_set_acc [OF inv k] simp: acc_ok_def)
next
  case (ASelect b)
  let ?l = "fst (t_accepts t ! k)"
  have l: "?l < length (t_listeners t)" using tran_invD(2) [OF inv k] by (simp add: acc_ok_def)
  show ?thesis
  proof (cases ch)
    case SelClosed
    then have "t' = set_acc k (AErr ErrClosed) t" using st ASelect by (simp add: accept_step_def Let_def split: if_splits)
    then show ?thesis using ASelect k l by (auto intro!: inv_set_acc [OF inv k] simp: acc_ok_def)
  next
    case SelChan
    then obtain c ac q' where c: "accepts (lis t ?l) = Some c" "chan_recv c = Some (ac, q')"
      using st ASelect by (auto simp: accept_step_def Let_def split: if_splits option.splits prod.splits)
    define x where "x = (lis t ?l)\<lparr>accepts := Some q', acceptedCount := acceptedCount (lis t ?l) + 1\<rparr>"
    have qs: "queued (lis t ?l) = ac # queued x" using c by (auto simp: queued_def x_def split: list.splits)
    have x: "l_addr x = l_addr (lis t ?l)" "l_closedq x = l_closedq (lis t ?l)" by (simp_all add: x_def)
    let ?r = "np (NewAddress (t_name t) (l_addr x)) (NewAddress (t_name t) (dialer_addr x)) opts"
    have t': "(case ?r of Ok (lc, rc) \<Rightarrow> Some (set_acc k (ADeliver ac lc rc) (set_lis ?l x t)) | _ \<Rightarrow> Some (set_acc k APanic (set_lis ?l x t))) = Some t'"
      unfolding x_def using st ASelect SelChan c by (simp add: accept_step_def Let_def split: if_splits del: chan_recv.simps)
    show ?thesis
    proof (cases ?r)
      case (Ok p)
      obtain lc rc where p: "p = (lc, rc)" by (cases p)
      then have "ends np t ?l lc rc" using Ok x(1) unfolding ends_def by metis
      then show ?thesis using t' Ok p inv_take [OF inv k ASelect refl qs refl x, of "ADeliver ac lc rc"] by simp
    qed (use t' inv_take [OF inv k ASelect refl qs refl x, of APanic] in simp_all)
  qed
next
  case (ADeliver i lc rc)
  have l: "fst (t_accepts t ! k) < length (t_listeners t)" using tran_invD(2) [OF inv k] by (simp add: acc_ok_def)
  show ?thesis
  proof (cases ch)
    case SelClosed
    then have "t' = set_acc k (AErr ErrClosed) t" using st ADeliver by (simp add: accept_step_def Let_def split: if_splits)
    then show ?thesis using ADeliver k l by (auto intro!: inv_set_acc [OF inv k] simp: acc_ok_def)
  next
    case SelChan
    then show ?thesis using st ADeliver inv_deliver [OF inv k ADeliver] by (simp add: accept_step_def Let_def split: if_splits)
  qed
qed (use st in \<open>simp_all add: accept_step_def Let_def\<close>)

lemma other_calls [simp]:
  "t_dials (set_listen k pc t) = t_dials t" "t_accepts (set_listen k pc t) = t_accepts t" "t_listeners (set_listen k pc t) = t_listeners t"
  "byAddr (set_listen k pc t) = byAddr t" "t_name (set_listen k pc t) = t_name t"
  "t_dials (set_close k cc t) = t_dials t" "t_accepts (set_close k cc t) = t_accepts t" "t_listeners (set_close k cc t) = t_listeners t"
  "byAddr (set_close k cc t) = byAddr t" "t_name (set_close k cc t) = t_name t"
  by (simp_all add: set_listen_def set_close_def)

lemma inv_table:
  assumes "tran_inv np t" "t_dials t' = t_dials t" "t_accepts t' = t_accepts t" "t_listeners t' = t_listeners t" "t_name t' = t_name t"
    "\<And>a l. byAddr t' a = Some l \<Longrightarrow> l < length (t_listeners t) \<and> l_addr (lis t l) = a"
  shows "tran_inv np t'"
  by (rule inv_listeners [OF assms(1)]) (use assms in \<open>auto simp: grows_def tok_def\<close>)

lemma inv_listen_step:
  assumes inv: "tran_inv np t" and l: "fst (t_listens t ! k) < length (t_listeners t)" and st: "listen_step k t = Some t'"
  shows "tran_inv np t'"
proof (cases "snd (t_listens t ! k)")
  case LStart
  then show ?thesis using st tran_invD(5) [OF inv] by (intro inv_table [OF inv]) (auto simp: listen_step_def Let_def)
next
  case LChecked
  then show ?thesis using st l tran_invD(5) [OF inv]
    by (intro inv_table [OF inv]) (auto simp: listen_step_def Let_def addListener_def split: option.splits if_splits)
next
  case LAdded
  let ?x = "(lis t (fst (t_listens t ! k)))\<lparr>accepts := Some (make_chan defaultAcceptQueueSize)\<rparr>"
  have "tran_inv np (set_lis (fst (t_listens t ! k)) ?x t)" by (rule inv_set_lis [OF inv l]) (simp_all add: queued_def make_chan_def)
  note s = this
  have "tran_inv np (set_listen k pc (set_lis (fst (t_listens t ! k)) ?x t))" for pc
    by (rule inv_table [OF s _ _ _ _ tran_invD(5) [OF s]]) simp_all
  then show ?thesis using st LAdded by (auto simp: listen_step_def Let_def)
qed (use st in \<open>simp add: listen_step_def Let_def\<close>)

lemma inv_close_step:
  assumes inv: "tran_inv np t" and l: "fst (t_closes t ! k) < length (t_listeners t)" and st: "tran_close_step k t = Some t'"
  shows "tran_inv np t'"
proof (cases "snd (t_closes t ! k)")
  case KStart
  let ?s = "set_lis (fst (t_closes t ! k)) ((lis t (fst (t_closes t ! k)))\<lparr>l_closedq := True\<rparr>) t"
  have s: "tran_inv np ?s" by (rule inv_set_lis [OF inv l]) (simp_all add: queued_def)
  have "tran_inv np (set_close k pc ?s)" for pc by (rule inv_table [OF s _ _ _ _ tran_invD(5) [OF s]]) simp_all
  moreover have "tran_inv np (set_close k pc t)" for pc by (rule inv_table [OF inv _ _ _ _ tran_invD(5) [OF inv]]) simp_all
  ultimately show ?thesis using st KStart by (auto simp: tran_close_step_def Let_def split: if_splits)
next
  case KRemove
  then have t': "t' = set_close k (KDone None) (removeListener (fst (t_closes t ! k)) t)" using st by (simp add: tran_close_step_def Let_def)
  have "byAddr t a = Some m" if "byAddr t' a = Some m" for a m using that by (simp add: t' removeListener_def split: if_splits)
  then have "m < length (t_listeners t) \<and> l_addr (lis t m) = a" if "byAddr t' a = Some m" for a m using that tran_invD(5) [OF inv] by blast
  then show ?thesis by (rule inv_table [OF inv, rotated 4]) (simp_all add: t' removeListener_def)
qed (use st in \<open>simp add: tran_close_step_def Let_def\<close>)

text \<open>Listens and closes are calls on listeners that exist.\<close>

definition called :: "'c Tran \<Rightarrow> nat list" where
  "called t = map fst (t_listens t) @ map fst (t_closes t)"

definition calls_ok :: "'c Tran \<Rightarrow> bool" where
  "calls_ok t \<longleftrightarrow> (\<forall>l \<in> set (called t). l < length (t_listeners t))"

lemma map_fst_update: "map fst (xs[k := (fst (xs ! k), y)]) = map fst xs"
  by (simp add: map_update) (metis list_update_beyond list_update_id length_map linorder_not_less nth_map)

lemma called_simps [simp]:
  "called (set_dial i pc t) = called t" "called (set_acc k a t) = called t" "called (set_lis l x t) = called t"
  "called (set_listen k b t) = called t" "called (set_close k c t) = called t" "called (removeListener l t) = called t"
  "called (t\<lparr>byAddr := f\<rparr>) = called t"
  by (simp_all add: called_def set_dial_def set_acc_def set_lis_def set_listen_def set_close_def removeListener_def map_fst_update)

lemma length_removeListener [simp]: "length (t_listeners (removeListener l t)) = length (t_listeners t)"
  by (simp add: removeListener_def)

lemma inv_append:
  assumes inv: "tran_inv np t" and g: "grows t t'" and a: "\<And>k. k < length (t_accepts t') \<Longrightarrow> k < length (t_accepts t) \<or> acc_ok np t' k"
    and d: "\<And>i. i < length (t_dials t') \<Longrightarrow> i < length (t_dials t) \<or> dial_ok np t' i"
    and s: "\<And>k. k < length (t_accepts t) \<Longrightarrow> t_accepts t' ! k = t_accepts t ! k" "\<And>i. i < length (t_dials t) \<Longrightarrow> t_dials t' ! i = t_dials t ! i"
    and q: "\<And>l i. l < length (t_listeners t') \<Longrightarrow> i \<in> set (queued (lis t' l)) \<Longrightarrow> l < length (t_listeners t) \<and> i \<in> set (queued (lis t l))"
    and n: "\<And>i. tok t' i = tok t i" and b: "byAddr t' = byAddr t"
  shows "tran_inv np t'"
proof (rule tran_frame [OF inv g])
  show "handed t' i l" if "handed t i l" for i l
  proof -
    have "i < length (t_dials t)" using that by (simp add: handed_def)
    then show ?thesis using grows_handed [OF g that] s(2) by simp
  qed
  show "snd (t_dials t' ! i) = snd (t_dials t ! i) \<and> snd (t_accepts t' ! k) = snd (t_accepts t ! k)" if "paired np t i k" for i k
    using that s by (simp add: paired_def)
  show "tok t' i \<le> 1" for i using tran_invD(4) [OF inv, of i] n by simp
  show "l < length (t_listeners t') \<and> l_addr (lis t' l) = x" if "byAddr t' x = Some l" for x l
    using tran_invD(5) [OF inv, of x l] that b g by (auto simp: grows_def)
  show "j < length (t_dials t) \<and> snd (t_dials t' ! j) = snd (t_dials t ! j) \<or> dial_ok np t' j" if "j < length (t_dials t')" for j
    using d [OF that] s(2) by auto
  show "k < length (t_accepts t) \<and> snd (t_accepts t' ! k) = snd (t_accepts t ! k) \<or> acc_ok np t' k" if "k < length (t_accepts t')" for k
    using a [OF that] s(1) by auto
qed (use q in blast)

lemma calls_step:
  assumes "calls_ok t" "tran_step np t t'"
  shows "calls_ok t'"
  using assms(2)
proof cases
  case (ts_NewListener ad l)
  then have "called t' = called t \<and> length (t_listeners t') = Suc (length (t_listeners t))"
    by (auto simp: NewListener_def called_def split: outcome.splits)
  with assms(1) show ?thesis by (simp add: calls_ok_def less_SucI)
next
  case (ts_dial i ch)
  then have "called t' = called t \<and> length (t_listeners t') = length (t_listeners t)"
    by (auto simp: dial_step_def split: dpc.splits option.splits sel.splits if_splits)
  with assms(1) show ?thesis by (simp add: calls_ok_def)
next
  case (ts_accept k opts ch)
  then have "called t' = called t \<and> length (t_listeners t') = length (t_listeners t)"
    by (auto simp: accept_step_def Let_def split: apc.splits option.splits sel.splits if_splits outcome.splits prod.splits)
  with assms(1) show ?thesis by (simp add: calls_ok_def)
next
  case (ts_listen k)
  then have "called t' = called t \<and> length (t_listeners t') = length (t_listeners t)"
    by (auto simp: listen_step_def addListener_def Let_def split: lpc.splits option.splits if_splits)
  with assms(1) show ?thesis by (simp add: calls_ok_def)
next
  case (ts_close k)
  then have "called t' = called t \<and> length (t_listeners t') = length (t_listeners t)"
    by (auto simp: tran_close_step_def Let_def split: kpc.splits if_splits)
  with assms(1) show ?thesis by (simp add: calls_ok_def)
qed (use assms(1) in \<open>auto simp: calls_ok_def called_def\<close>)

lemma inv_step:
  assumes inv: "tran_inv np t" and c: "calls_ok t" and st: "tran_step np t t'"
  shows "tran_inv np t'"
  using st
proof cases
  case (ts_NewListener ad l)
  then obtain a where t': "t' = t\<lparr>t_listeners := t_listeners t @ [\<lparr>l_addr = a, acceptedCount = 0, accepts = None, l_closedq = False\<rparr>]\<rparr>"
    by (auto simp: NewListener_def split: outcome.splits)
  show ?thesis
    by (rule inv_append [OF inv])
      (auto simp: t' grows_def nth_append queued_def tok_def split: if_splits)
next
  case (ts_Dial ad)
  then show ?thesis by (intro inv_append [OF inv]) (auto simp: grows_def nth_append tok_def dial_ok_def less_Suc_eq)
next
  case (ts_Accept l)
  then show ?thesis by (intro inv_append [OF inv]) (auto simp: grows_def nth_append tok_def acc_ok_def less_Suc_eq)
next
  case (ts_Listen l)
  then show ?thesis by (intro inv_table [OF inv _ _ _ _ tran_invD(5) [OF inv]]) simp_all
next
  case (ts_Close l)
  then show ?thesis by (intro inv_table [OF inv _ _ _ _ tran_invD(5) [OF inv]]) simp_all
next
  case (ts_listen k)
  then show ?thesis using inv_listen_step [OF inv, of k] c by (simp add: calls_ok_def called_def)
next
  case (ts_close k)
  then show ?thesis using inv_close_step [OF inv, of k] c by (simp add: calls_ok_def called_def)
qed (use inv_dial_step [OF inv] inv_accept_step [OF inv] in blast)+

lemma inv_run:
  assumes "tran_run np t0 t" "tran_inv np t0" "calls_ok t0"
  shows "tran_inv np t \<and> calls_ok t"
  using assms by induction (auto intro: inv_step calls_step)

lemma new_transport: "tran_inv np (NewTransport nm)" "calls_ok (NewTransport nm)"
  by (simp_all add: tran_inv_def NewTransport_def tok_def calls_ok_def called_def)

section \<open>A close in the middle of a listen\<close>

definition squatting :: "string \<Rightarrow> nat \<Rightarrow> 'c Tran \<Rightarrow> bool" where
  "squatting a l t \<longleftrightarrow> l < length (t_listeners t) \<and> l_addr (lis t l) = a \<and> byAddr t a = Some l \<and> l_closedq (lis t l) \<and>
     (l, KRemove) \<notin> set (t_closes t)"

lemma squatting_same:
  assumes "squatting a l t" "l_addr (lis t' l) = l_addr (lis t l)" "l_closedq (lis t' l) = l_closedq (lis t l)"
    "length (t_listeners t') = length (t_listeners t)" "byAddr t' a = byAddr t a" "t_closes t' = t_closes t"
  shows "squatting a l t'"
  using assms by (simp add: squatting_def)

lemma lis_set_lis:
  "lis (set_lis m x t) l = (if m = l \<and> l < length (t_listeners t) then x else lis t l)" "t_closes (set_lis m x t) = t_closes t"
  by (cases "m = l"; simp add: set_lis_def list_update_beyond)+

lemma closes_simps [simp]:
  "t_closes (set_dial i pc t) = t_closes t" "t_closes (set_acc k a t) = t_closes t" "t_closes (set_listen k b t) = t_closes t"
  "t_closes (removeListener m t) = t_closes t" "t_listeners (removeListener m t) = t_listeners t"
  by (simp_all add: set_dial_def set_acc_def set_listen_def removeListener_def)

lemma squatting_close:
  assumes s: "squatting a l t" and k: "k < length (t_closes t)" and st: "tran_close_step k t = Some t'"
  shows "squatting a l t'"
proof -
  let ?m = "fst (t_closes t ! k)"
  have up: "(l, KRemove) \<notin> set (t_closes (set_close k pc t0))" if "?m \<noteq> l \<or> pc \<noteq> KRemove" "t_closes t0 = t_closes t" for pc t0
    using that s set_update_subset_insert [of "t_closes t" k "(?m, pc)"] by (auto simp: squatting_def set_close_def)
  show ?thesis
  proof (cases "snd (t_closes t ! k)")
    case KStart
    show ?thesis
    proof (cases "l_closedq (lis t ?m)")
      case True
      then have "t' = set_close k (KDone (Some ErrClosed)) t" using st KStart by (simp add: tran_close_step_def Let_def)
      then show ?thesis using s up [of "KDone (Some ErrClosed)" t] by (simp add: squatting_def)
    next
      case False
      then have t': "t' = set_close k KRemove (set_lis ?m ((lis t ?m)\<lparr>l_closedq := True\<rparr>) t)" using st KStart by (simp add: tran_close_step_def Let_def)
      have "?m \<noteq> l" using False s by (auto simp: squatting_def)
      then show ?thesis using s up [of KRemove "set_lis ?m ((lis t ?m)\<lparr>l_closedq := True\<rparr>) t"]
        by (simp add: squatting_def t' lis_set_lis)
    qed
  next
    case KRemove
    then have t': "t' = set_close k (KDone None) (removeListener ?m t)" using st by (simp add: tran_close_step_def Let_def)
    have "t_closes t ! k \<in> set (t_closes t)" using k by simp
    then have "?m \<noteq> l" using KRemove s by (metis prod.collapse squatting_def)
    then have "byAddr (removeListener ?m t) a = Some l" using s by (auto simp: squatting_def removeListener_def)
    then show ?thesis using s up [of "KDone None" "removeListener ?m t"] by (simp add: squatting_def t')
  qed (use st in \<open>simp add: tran_close_step_def Let_def\<close>)
qed

lemma squatting_step:
  assumes s: "squatting a l t" and st: "tran_step np t t'"
  shows "squatting a l t'"
  using st
proof cases
  case (ts_NewListener ad m)
  with s show ?thesis by (auto simp: squatting_def NewListener_def nth_append split: outcome.splits)
next
  case (ts_dial i ch)
  then show ?thesis
    by (intro squatting_same [OF s])
      (auto simp: dial_step_def lis_set_lis split: dpc.splits option.splits sel.splits if_splits)
next
  case (ts_accept k opts ch)
  then show ?thesis
    by (intro squatting_same [OF s])
      (auto simp: accept_step_def Let_def lis_set_lis split: apc.splits option.splits sel.splits if_splits outcome.splits prod.splits)
next
  case (ts_listen k)
  have "byAddr t a = Some l" using s by (simp add: squatting_def)
  with ts_listen show ?thesis
    by (intro squatting_same [OF s])
      (auto simp: listen_step_def Let_def lis_set_lis addListener_def split: lpc.splits option.splits if_splits)
next
  case (ts_close k)
  with squatting_close [OF s] show ?thesis by blast
qed (use s in \<open>auto simp: squatting_def\<close>)

lemma squatting_run: "tran_run np t t' \<Longrightarrow> squatting a l t \<Longrightarrow> squatting a l t'"
  by (induction rule: tran_run.induct) (auto intro: squatting_step)

section \<open>Two runs\<close>

definition demo_np :: "(unit, unit) NewPipeFunc" where
  "demo_np la ra o1 = Ok (\<lparr>LocalAddr = la, RemoteAddr = ra, raw_conn = ()\<rparr>, \<lparr>LocalAddr = ra, RemoteAddr = la, raw_conn = ()\<rparr>)"

definition demo_lis :: "nat chan option \<Rightarrow> bool \<Rightarrow> listener" where
  "demo_lis q c = \<lparr>l_addr = ''a'', acceptedCount = 0, accepts = q, l_closedq = c\<rparr>"

definition demo_at :: "bool \<Rightarrow> listener \<Rightarrow> unit dpc list \<Rightarrow> unit apc list \<Rightarrow> lpc \<Rightarrow> kpc list \<Rightarrow> unit Tran" where
  "demo_at reg x ds as lp ks =
     \<lparr>t_name = ''inproc'', byAddr = (if reg then [''a'' \<mapsto> 0] else Map.empty), t_listeners = [x],
      t_dials = map (Pair ''a'') ds, t_accepts = map (Pair 0) as, t_listens = [(0, lp)], t_closes = map (Pair 0) ks\<rparr>"

lemmas demo_defs = demo_at_def demo_lis_def set_listen_def set_lis_def set_dial_def set_acc_def set_close_def

lemma run_calls:
  "tran_run np t0 t \<Longrightarrow> t' = t\<lparr>t_dials := t_dials t @ [(ad, DStart)]\<rparr> \<Longrightarrow> tran_run np t0 t'"
  "tran_run np t0 t \<Longrightarrow> l < length (t_listeners t) \<Longrightarrow> t' = t\<lparr>t_accepts := t_accepts t @ [(l, AStart)]\<rparr> \<Longrightarrow> tran_run np t0 t'"
  "tran_run np t0 t \<Longrightarrow> l < length (t_listeners t) \<Longrightarrow> t' = t\<lparr>t_listens := t_listens t @ [(l, LStart)]\<rparr> \<Longrightarrow> tran_run np t0 t'"
  "tran_run np t0 t \<Longrightarrow> l < length (t_listeners t) \<Longrightarrow> t' = t\<lparr>t_closes := t_closes t @ [(l, KStart)]\<rparr> \<Longrightarrow> tran_run np t0 t'"
  by (auto intro: tr_step ts_Dial ts_Accept ts_Listen ts_Close)

lemma demo_checked: "tran_run demo_np (NewTransport ''inproc'') (demo_at False (demo_lis None False) [] [] LChecked [])"
proof -
  let ?n = "NewTransport ''inproc'' :: unit Tran"
  have "tran_run demo_np ?n (?n\<lparr>t_listeners := [demo_lis None False]\<rparr>)"
    by (rule tr_step [OF tr_refl ts_NewListener [of "''inproc://a''" _ 0]])
      (simp add: NewListener_def StripScheme_def demo_lis_def NewTransport_def)
  then have "tran_run demo_np ?n (demo_at False (demo_lis None False) [] [] LStart [])"
    by (rule run_calls(3) [of _ _ _ 0]) (simp_all add: NewTransport_def demo_at_def)
  then show ?thesis by (rule tr_step [OF _ ts_listen [of 0]]) (simp_all add: listen_step_def demo_defs)
qed

lemma tran_listening: "tran_run demo_np (NewTransport ''inproc'') (demo_at True (demo_lis (Some (make_chan 8)) False) [] [] (LDone None) [])"
proof -
  have "tran_run demo_np (NewTransport ''inproc'') (demo_at True (demo_lis None False) [] [] LAdded [])"
    by (rule tr_step [OF demo_checked ts_listen [of 0]]) (simp_all add: listen_step_def addListener_def demo_defs)
  then show ?thesis by (rule tr_step [OF _ ts_listen [of 0]]) (simp_all add: listen_step_def demo_defs defaultAcceptQueueSize_def)
qed

definition demo_dialled :: "unit Tran" where
  "demo_dialled = demo_at True (demo_lis (Some (chan_send 0 (make_chan 8))) False) [DWait 0] [] (LDone None) []"

lemma demo_dialled: "tran_run demo_np (NewTransport ''inproc'') demo_dialled"
proof -
  let ?l = "demo_lis (Some (make_chan 8)) False"
  have "tran_run demo_np (NewTransport ''inproc'') (demo_at True ?l [DStart] [] (LDone None) [])"
    by (rule run_calls(1) [OF tran_listening, of _ "''a''"]) (simp add: demo_defs)
  then have "tran_run demo_np (NewTransport ''inproc'') (demo_at True ?l [DFound 0] [] (LDone None) [])"
    by (rule tr_step [OF _ ts_dial [of 0]]) (simp_all add: dial_step_def getListenerByAddr_def demo_defs)
  then have "tran_run demo_np (NewTransport ''inproc'') (demo_at True ?l [DSelect 0 False] [] (LDone None) [])"
    by (rule tr_step [OF _ ts_dial [of 0]]) (simp_all add: dial_step_def demo_defs)
  then show ?thesis
    by (rule tr_step [OF _ ts_dial [of 0 _ SelChan]]) (simp_all add: dial_step_def demo_defs demo_dialled_def chan_simps)
qed

definition demo_delivering :: "unit Tran" where
  "demo_delivering = the (accept_step demo_np () SelChan 0 (demo_dialled\<lparr>t_accepts := [(0, ASelect False)]\<rparr>))"

lemma demo_delivering: "tran_run demo_np (NewTransport ''inproc'') demo_delivering" "t_accepts demo_delivering \<noteq> []"
  "\<exists>lc rc. snd (t_accepts demo_delivering ! 0) = ADeliver 0 lc rc" "t_dials demo_delivering = [(''a'', DWait 0)]"
proof -
  have "tran_run demo_np (NewTransport ''inproc'') (demo_dialled\<lparr>t_accepts := [(0, AStart)]\<rparr>)"
    by (rule run_calls(2) [OF demo_dialled, of 0]) (simp_all add: demo_dialled_def demo_defs)
  then have "tran_run demo_np (NewTransport ''inproc'') (demo_dialled\<lparr>t_accepts := [(0, ASelect False)]\<rparr>)"
    by (rule tr_step [OF _ ts_accept [of 0 _ _ "()"]]) (simp_all add: accept_step_def isListening_def demo_dialled_def demo_defs)
  then show "tran_run demo_np (NewTransport ''inproc'') demo_delivering"
    by (rule tr_step [OF _ ts_accept [of 0 _ _ "()" SelChan]])
      (simp_all add: demo_delivering_def accept_step_def demo_dialled_def demo_defs chan_simps demo_np_def Let_def)
qed (simp_all add: demo_delivering_def accept_step_def demo_dialled_def demo_defs chan_simps demo_np_def Let_def)

definition demo_connected :: "unit Tran" where
  "demo_connected = the (accept_step demo_np () SelChan 0 demo_delivering)"

lemma demo_connected: "tran_run demo_np (NewTransport ''inproc'') demo_connected" "\<exists>c. t_dials demo_connected = [(''a'', DConn 0 c)]"
proof -
  obtain lc rc where d: "snd (t_accepts demo_delivering ! 0) = ADeliver 0 lc rc" using demo_delivering(3) by blast
  then have c: "accept_step demo_np () SelChan 0 demo_delivering = Some demo_connected"
    by (simp add: demo_connected_def accept_step_def demo_delivering(4) Let_def)
  then show "tran_run demo_np (NewTransport ''inproc'') demo_connected"
    using demo_delivering(2) by (intro tr_step [OF demo_delivering(1) ts_accept [of 0]]) simp_all
  show "\<exists>c. t_dials demo_connected = [(''a'', DConn 0 c)]"
    using d by (simp add: demo_connected_def accept_step_def demo_delivering(4) Let_def set_acc_def set_dial_def)
qed

text \<open>The race: the listener is closed after \<open>Listen\<close> has looked at it and before it is entered in the table.\<close>

definition demo_squat :: "unit Tran" where
  "demo_squat = demo_at True (demo_lis (Some (make_chan 8)) True) [] [] (LDone None) [KDone None]"

lemma demo_squat: "tran_run demo_np (NewTransport ''inproc'') demo_squat" "squatting ''a'' 0 demo_squat"
proof -
  have "tran_run demo_np (NewTransport ''inproc'') (demo_at False (demo_lis None False) [] [] LChecked [KStart])"
    by (rule run_calls(4) [OF demo_checked, of 0]) (simp_all add: demo_defs)
  then have "tran_run demo_np (NewTransport ''inproc'') (demo_at False (demo_lis None True) [] [] LChecked [KRemove])"
    by (rule tr_step [OF _ ts_close [of 0]]) (simp_all add: tran_close_step_def demo_defs)
  then have "tran_run demo_np (NewTransport ''inproc'') (demo_at False (demo_lis None True) [] [] LChecked [KDone None])"
    by (rule tr_step [OF _ ts_close [of 0]]) (simp_all add: tran_close_step_def removeListener_def demo_defs)
  then have "tran_run demo_np (NewTransport ''inproc'') (demo_at True (demo_lis None True) [] [] LAdded [KDone None])"
    by (rule tr_step [OF _ ts_listen [of 0]]) (simp_all add: listen_step_def addListener_def demo_defs)
  then show "tran_run demo_np (NewTransport ''inproc'') demo_squat"
    by (rule tr_step [OF _ ts_listen [of 0]]) (simp_all add: listen_step_def demo_defs demo_squat_def defaultAcceptQueueSize_def)
qed (simp add: squatting_def demo_squat_def demo_defs)

section \<open>Properties\<close>

text \<open>
  C21: In every interleaving the connections of the in-process transport come in pairs: a dial that returned a connection names an
  accept that returned one and the other way round, the two ends come from one call of \<open>newPipe\<close> with the
  listener's address, and that is the address that was dialled. So no connection is given out twice and
  none crosses addresses.
\<close>

theorem connections_paired:
  assumes "tran_run np (NewTransport nm) t"
  shows "(i < length (t_dials t) \<and> snd (t_dials t ! i) = DConn k c \<longrightarrow> paired np t i k) \<and>
    (k < length (t_accepts t) \<and> snd (t_accepts t ! k) = AConn i c' \<longrightarrow> paired np t i k)"
proof -
  have "tran_inv np t" using inv_run [OF assms new_transport] by simp
  then show ?thesis using tran_invD(1) [of np t i] tran_invD(2) [of np t k] by (auto simp: dial_ok_def acc_ok_def)
qed

text \<open>
  An accept that has taken a dial from the queue always has a next step: the dial waits for its end of the connection, or
  has given up because the listener was closed, and then so does the accept.
\<close>

theorem accept_never_stuck:
  assumes "tran_run np (NewTransport nm) t" "k < length (t_accepts t)" "snd (t_accepts t ! k) = ADeliver i lc rc"
  shows "\<exists>ch. accept_step np opts ch k t \<noteq> None"
proof -
  have inv: "tran_inv np t" using inv_run [OF assms(1) new_transport] by simp
  have h: "handed t i (fst (t_accepts t ! k))" using tran_invD(2) [OF inv assms(2)] assms(3) by (simp add: acc_ok_def)
  show ?thesis
  proof (cases "waiting (snd (t_dials t ! i))")
    case True
    with h assms(3) have "accept_step np opts SelChan k t \<noteq> None" by (simp add: accept_step_def handed_def)
    then show ?thesis by blast
  next
    case False
    with h have "l_closedq (lis t (fst (t_accepts t ! k)))" by (auto simp: handed_def)
    with assms(3) have "accept_step np opts SelClosed k t \<noteq> None" by (simp add: accept_step_def)
    then show ?thesis by blast
  qed
qed

theorem connections_paired_witness: "\<exists>c. snd (t_dials demo_connected ! 0) = DConn 0 c \<and> paired demo_np demo_connected 0 0"
proof -
  obtain c where c: "t_dials demo_connected = [(''a'', DConn 0 c)]" using demo_connected(2) by blast
  with connections_paired [OF demo_connected(1), of 0 0 c] show ?thesis by simp
qed

theorem accept_never_stuck_witness: "\<exists>ch. accept_step demo_np () ch 0 demo_delivering \<noteq> None"
proof -
  obtain lc rc where "snd (t_accepts demo_delivering ! 0) = ADeliver 0 lc rc" using demo_delivering(3) by blast
  with accept_never_stuck [OF demo_delivering(1), of 0 0 lc rc "()"] demo_delivering(2) show ?thesis by simp
qed

text \<open>
  A \<open>Close\<close> between the two halves of a \<open>Listen\<close> leaves the address taken for ever: after both calls have returned without an
  error the closed listener is in the table, and in every later state it still is, so that every other
  listener for the address is refused.
\<close>

theorem Listen_Close_race:
  "t_listens demo_squat = [(0, LDone None)] \<and> t_closes demo_squat = [(0, KDone None)] \<and>
   tran_run demo_np (NewTransport ''inproc'') demo_squat \<and>
   (\<forall>t m. tran_run demo_np demo_squat t \<longrightarrow> byAddr t ''a'' = Some 0 \<and> l_closedq (lis t 0) \<and>
     (m \<noteq> 0 \<and> l_addr (lis t m) = ''a'' \<longrightarrow> addListener m t = (False, Some ErrAddrInUse, t)))"
proof -
  have "byAddr t ''a'' = Some 0 \<and> l_closedq (lis t 0)" if "tran_run demo_np demo_squat t" for t
    using squatting_run [OF that demo_squat(2)] by (simp add: squatting_def)
  then show ?thesis using demo_squat(1) by (auto simp: addListener_def demo_squat_def demo_at_def)
qed

theorem Listen_Close_race_witness: "byAddr demo_squat ''a'' = Some 0 \<and> l_closedq (lis demo_squat 0)"
  using Listen_Close_race tr_refl by blast

end
