(* ===== verification/Pairs.thy ===== *)
theory Pairs
  imports Sockets Channels "HOL-Library.Multiset"
begin

text \<open>
  The pair of sockets of \<open>pair.go\<close>: two sockets in one process joined by two channels without buffers. A send and a
  receive meet in one step; every call that waits is an entry of a list, so that calls of any number of
  goroutines interleave.
\<close>

section \<open>State\<close>

record pairSocket =
  ps_opts :: nat
  ps_noSend :: bool
  ps_ttl :: u8
  ps_bestEffort :: bool

text \<open>
  The two sockets by their side. A call waits to hand over a message, waits for one, or has ended: \<open>CSent\<close> and
  \<open>CRecvd\<close> with the message that passed, \<open>CDropped\<close> for a send that \<open>noSend\<close> turned into nothing.
\<close>

datatype call = CSend side message | CRecv side | CSent side message | CRecvd side message | CDropped side | CFailed side err

record pair =
  pr_heap :: oheap
  pr_sock :: "side \<Rightarrow> pairSocket"
  pr_closedq :: bool
  pr_mem :: mem
  pr_calls :: "call list"

section \<open>Options\<close>

abbreviation set_sock :: "side \<Rightarrow> (pairSocket \<Rightarrow> pairSocket) \<Rightarrow> pair \<Rightarrow> pair" where
  "set_sock x f p \<equiv> p\<lparr>pr_sock := (pr_sock p)(x := f (pr_sock p x))\<rparr>"

definition either :: "bool outcome \<Rightarrow> bool outcome \<Rightarrow> bool outcome" where
  "either a b = (case a of Ok True \<Rightarrow> Ok True | Ok False \<Rightarrow> b | r \<Rightarrow> r)"

text \<open>
  The cases in the order of the source. The one that computes \<open>noSend\<close> repeats \<open>Options.NoRecv\<close>, so the call for the peer's
  \<open>NoSend\<close> finds no case; that is also why it can be made before the peer is set.
\<close>

function pair_onOptionChange :: "side \<Rightarrow> opt \<Rightarrow> oheap \<Rightarrow> pair \<Rightarrow> unit outcome \<times> pair" where
  "pair_onOptionChange x o1 H p =
     (if o1 = Opt_NoRecv then (case pair_onOptionChange (peer_of x) Opt_NoSend H p of (Panic, p') \<Rightarrow> (Panic, p') | (_, p') \<Rightarrow> (Ok (), p'))
      else if o1 = Opt_NoRecv
      then upd (either (opt_bool H (ps_opts (pr_sock p x)) Opt_NoSend) (opt_bool H (ps_opts (pr_sock p (peer_of x))) Opt_NoRecv))
             (\<lambda>b. set_sock x (\<lambda>s. s\<lparr>ps_noSend := b\<rparr>)) p
      else if o1 = Opt_SendTTL
      then upd (opt_uint8 H (ps_opts (pr_sock p x)) Opt_SendTTL) (\<lambda>n. set_sock x (\<lambda>s. s\<lparr>ps_ttl := n\<rparr>)) p
      else if o1 = Opt_SendBestEffort
      then upd (opt_bool H (ps_opts (pr_sock p x)) Opt_SendBestEffort) (\<lambda>b. set_sock x (\<lambda>s. s\<lparr>ps_bestEffort := b\<rparr>)) p
      else (Ok (), p))"
  by pat_completeness auto
termination
  by (relation "measure (\<lambda>(x, o1, H, p). if o1 = Opt_NoRecv then 1 else 0)") (simp_all add: Opt_NoRecv_def Opt_NoSend_def NewBoolOption_def)

declare pair_onOptionChange.simps [simp del]

definition pair_hook :: "side \<Rightarrow> nat" where
  "pair_hook x = (case x of Dialled \<Rightarrow> 2 | Accepted \<Rightarrow> 3)"

definition pair_hooks :: "pair hook_env" where
  "pair_hooks k o1 old v H p =
     (if k = pair_hook Dialled then pair_onOptionChange Dialled o1 H p
      else if k = pair_hook Accepted then pair_onOptionChange Accepted o1 H p else (Ok (), p))"

section \<open>Construction\<close>

fun init_pair :: "side \<Rightarrow> opt list \<Rightarrow> pair \<Rightarrow> unit outcome \<times> pair" where
  "init_pair x [] p = (Ok (), p)"
| "init_pair x (o1 # os) p =
     (case pair_onOptionChange x o1 (pr_heap p) p of (Panic, p') \<Rightarrow> (Panic, p') | (_, p') \<Rightarrow> init_pair x os p')"

definition newPairSocket :: "side \<Rightarrow> pair \<Rightarrow> unit outcome \<times> pair" where
  "newPairSocket x p =
     (let (a, H) = NewOptions (pr_heap p);
          p1 = set_sock x (\<lambda>_. \<lparr>ps_opts = a, ps_noSend = False, ps_ttl = 0, ps_bestEffort = False\<rparr>) (p\<lparr>pr_heap := H\<rparr>)
      in case init_pair x [Opt_NoRecv, Opt_NoSend, Opt_SendTTL, Opt_SendBestEffort] p1 of
           (Panic, p2) \<Rightarrow> (Panic, p2)
         | (_, p2) \<Rightarrow> (Ok (), p2\<lparr>pr_heap := AddOptionChangeHook a (pair_hook x) (pr_heap p2)\<rparr>))"

definition NewPair :: "oheap \<Rightarrow> mem \<Rightarrow> unit outcome \<times> pair" where
  "NewPair H h =
     (let z = \<lparr>ps_opts = 0, ps_noSend = False, ps_ttl = 0, ps_bestEffort = False\<rparr>;
          p0 = \<lparr>pr_heap = H, pr_sock = (\<lambda>_. z), pr_closedq = False, pr_mem = h, pr_calls = []\<rparr>
      in case newPairSocket Dialled p0 of
           (Ok _, p1) \<Rightarrow> newPairSocket Accepted p1
         | (r, p1) \<Rightarrow> (r, p1))"

definition pair_SetOption :: "side \<Rightarrow> opt \<Rightarrow> optval \<Rightarrow> pair \<Rightarrow> (unit outcome \<times> pair) option" where
  "pair_SetOption x o1 v p =
     (let a = ps_opts (pr_sock p x)
      in case SetOption pair_hooks (Suc a) (pr_heap p) a o1 v p of
           None \<Rightarrow> None
         | Some (r, H', p') \<Rightarrow> Some (r, p'\<lparr>pr_heap := H'\<rparr>))"

section \<open>Calls\<close>

definition add_call :: "call \<Rightarrow> pair \<Rightarrow> pair" where
  "add_call c p = p\<lparr>pr_calls := pr_calls p @ [c]\<rparr>"

definition pair_RecvMsg :: "side \<Rightarrow> pair \<Rightarrow> pair" where
  "pair_RecvMsg x p = add_call (CRecv x) p"

definition pair_SendMsg :: "side \<Rightarrow> message \<Rightarrow> pair \<Rightarrow> pair" where
  "pair_SendMsg x m p =
     (if ps_noSend (pr_sock p x) then add_call (CDropped x) (p\<lparr>pr_mem := FreeAll m (pr_mem p)\<rparr>)
      else add_call (CSend x m) p)"

definition send_new :: "picks \<Rightarrow> u8 \<Rightarrow> side \<Rightarrow> MsgPath \<Rightarrow> bytes \<Rightarrow> pair \<Rightarrow> pair option" where
  "send_new pk sendType x dest content p =
     (if ps_noSend (pr_sock p x) then Some (add_call (CDropped x) p)
      else case NewSendMessage pk 0 sendType (ps_ttl (pr_sock p x)) [] dest content (pr_mem p) of
             (Ok m, h') \<Rightarrow> Some (pair_SendMsg x m (p\<lparr>pr_mem := h'\<rparr>))
           | _ \<Rightarrow> None)"

definition pair_Send :: "picks \<Rightarrow> side \<Rightarrow> bytes \<Rightarrow> pair \<Rightarrow> pair option" where
  "pair_Send pk x content p = send_new pk SendTypeToOne x [] content p"

definition pair_SendAll :: "picks \<Rightarrow> side \<Rightarrow> bytes \<Rightarrow> pair \<Rightarrow> pair option" where
  "pair_SendAll pk x content p = send_new pk SendTypeToAll x [] content p"

definition pair_SendTo :: "picks \<Rightarrow> side \<Rightarrow> MsgPath \<Rightarrow> bytes \<Rightarrow> pair \<Rightarrow> pair option" where
  "pair_SendTo pk x dest content p = send_new pk SendTypeToDest x dest content p"

definition pair_Close :: "pair \<Rightarrow> err option \<times> pair" where
  "pair_Close p = (if pr_closedq p then (Some ErrClosed, p) else (None, p\<lparr>pr_closedq := True\<rparr>))"

text \<open>The two ways in which a waiting call goes on: it meets a call of the other side, or sees that the pair is closed.\<close>

definition meet :: "nat \<Rightarrow> nat \<Rightarrow> pair \<Rightarrow> pair option" where
  "meet i j p =
     (case (pr_calls p ! i, pr_calls p ! j) of
        (CSend x m, CRecv y) \<Rightarrow>
          if y = peer_of x then Some (p\<lparr>pr_calls := (pr_calls p)[i := CSent x m, j := CRecvd y m]\<rparr>) else None
      | _ \<Rightarrow> None)"

definition give_up :: "nat \<Rightarrow> pair \<Rightarrow> pair option" where
  "give_up i p =
     (if \<not> pr_closedq p then None
      else case pr_calls p ! i of
             CSend x m \<Rightarrow> Some (p\<lparr>pr_calls := (pr_calls p)[i := CFailed x ErrClosed]\<rparr>)
           | CRecv x \<Rightarrow> Some (p\<lparr>pr_calls := (pr_calls p)[i := CFailed x ErrClosed]\<rparr>)
           | _ \<Rightarrow> None)"

inductive pair_step :: "pair \<Rightarrow> pair \<Rightarrow> bool" where
  pt_RecvMsg: "pair_step p (pair_RecvMsg x p)"
| pt_SendMsg: "pair_step p (pair_SendMsg x m p)"
| pt_Send: "pair_Send pk x content p = Some p' \<Longrightarrow> pair_step p p'"
| pt_SendAll: "pair_SendAll pk x content p = Some p' \<Longrightarrow> pair_step p p'"
| pt_SendTo: "pair_SendTo pk x dest content p = Some p' \<Longrightarrow> pair_step p p'"
| pt_meet: "i < length (pr_calls p) \<Longrightarrow> j < length (pr_calls p) \<Longrightarrow> meet i j p = Some p' \<Longrightarrow> pair_step p p'"
| pt_give_up: "i < length (pr_calls p) \<Longrightarrow> give_up i p = Some p' \<Longrightarrow> pair_step p p'"
| pt_SetOption: "pair_SetOption x o1 v p = Some (r, p') \<Longrightarrow> pair_step p p'"
| pt_Close: "pair_Close p = (e, p') \<Longrightarrow> pair_step p p'"

inductive pair_run :: "pair \<Rightarrow> pair \<Rightarrow> bool" for p0 where
  pn_refl: "pair_run p0 p0"
| pn_step: "pair_run p0 p \<Longrightarrow> pair_step p p' \<Longrightarrow> pair_run p0 p'"

section \<open>Messages that passed\<close>

fun out_of :: "side \<Rightarrow> call \<Rightarrow> message multiset" where
  "out_of x (CSent y m) = (if y = x then {#m#} else {#})"
| "out_of x _ = {#}"

fun in_to :: "side \<Rightarrow> call \<Rightarrow> message multiset" where
  "in_to x (CRecvd y m) = (if y = x then {#m#} else {#})"
| "in_to x _ = {#}"

definition sent :: "side \<Rightarrow> pair \<Rightarrow> message multiset" where
  "sent x p = sum_list (map (out_of x) (pr_calls p))"

definition recvd :: "side \<Rightarrow> pair \<Rightarrow> message multiset" where
  "recvd x p = sum_list (map (in_to x) (pr_calls p))"

lemma peer_peer [simp]: "peer_of (peer_of x) = x"
  by (cases x) simp_all

text \<open>The options and the memory do not touch the calls, and \<open>noSend\<close> is assigned nowhere.\<close>

definition same_calls :: "pair \<Rightarrow> pair \<Rightarrow> bool" where
  "same_calls p q \<longleftrightarrow> pr_calls q = pr_calls p \<and> (\<forall>x. ps_noSend (pr_sock q x) = ps_noSend (pr_sock p x)) \<and> pr_closedq q = pr_closedq p"

lemma same_calls_refl [simp]: "same_calls p p"
  by (simp add: same_calls_def)

lemma same_calls_trans: "same_calls p q \<Longrightarrow> same_calls q r \<Longrightarrow> same_calls p r"
  by (simp add: same_calls_def)

lemma onOptionChange_same: "same_calls p (snd (pair_onOptionChange x o1 H p))"
proof (cases "o1 = Opt_NoRecv")
  case True
  have "Opt_NoSend \<noteq> Opt_NoRecv" "Opt_NoSend \<noteq> Opt_SendTTL" "Opt_NoSend \<noteq> Opt_SendBestEffort"
    by (simp_all add: program_options_defs NewBoolOption_def NewUint8Option_def)
  then show ?thesis using True by (simp add: pair_onOptionChange.simps)
next
  case False
  then show ?thesis by (auto simp: pair_onOptionChange.simps upd_def same_calls_def split: outcome.splits)
qed

lemma SetOption_same:
  assumes "pair_SetOption x o1 v p = Some (r, p')"
  shows "same_calls p p'"
proof -
  obtain H q where q: "SetOption pair_hooks (Suc (ps_opts (pr_sock p x))) (pr_heap p) (ps_opts (pr_sock p x)) o1 v p = Some (r, H, q)"
    "p' = q\<lparr>pr_heap := H\<rparr>"
    using assms by (auto simp: pair_SetOption_def Let_def split: option.splits)
  have "same_calls p q"
    by (rule SetOption_keeps [where P = same_calls and env = pair_hooks, OF _ _ _ q(1)])
      (auto simp: pair_hooks_def onOptionChange_same intro: same_calls_trans)
  then show ?thesis by (simp add: q(2) same_calls_def)
qed

lemma init_same: "same_calls p (snd (init_pair x os p))"
proof (induction os arbitrary: p)
  case (Cons o1 os)
  obtain r q where "pair_onOptionChange x o1 (pr_heap p) p = (r, q)" by (cases "pair_onOptionChange x o1 (pr_heap p) p")
  with Cons.IH [of q] onOptionChange_same [of p x o1 "pr_heap p"] show ?case
    by (cases r) (auto intro: same_calls_trans)
qed simp

definition new_pair :: "pair \<Rightarrow> bool" where
  "new_pair p \<longleftrightarrow> pr_calls p = [] \<and> (\<forall>x. \<not> ps_noSend (pr_sock p x)) \<and> \<not> pr_closedq p"

lemma newPairSocket_new: "new_pair p \<Longrightarrow> newPairSocket x p = (r, p') \<Longrightarrow> new_pair p'"
proof -
  assume p: "new_pair p" and r: "newPairSocket x p = (r, p')"
  let ?p1 = "set_sock x (\<lambda>_. \<lparr>ps_opts = fst (NewOptions (pr_heap p)), ps_noSend = False, ps_ttl = 0, ps_bestEffort = False\<rparr>)
    (p\<lparr>pr_heap := snd (NewOptions (pr_heap p))\<rparr>)"
  let ?os = "[Opt_NoRecv, Opt_NoSend, Opt_SendTTL, Opt_SendBestEffort]"
  have "same_calls ?p1 (snd (init_pair x ?os ?p1))" by (rule init_same)
  moreover have "new_pair ?p1" using p by (simp add: new_pair_def)
  ultimately have n: "new_pair (snd (init_pair x ?os ?p1))" by (simp add: new_pair_def same_calls_def)
  obtain r2 p2 where i: "init_pair x ?os ?p1 = (r2, p2)" by (cases "init_pair x ?os ?p1")
  have "p' = p2 \<or> (\<exists>H. p' = p2\<lparr>pr_heap := H\<rparr>)"
    using r unfolding newPairSocket_def Let_def split_def i by (cases r2) auto
  with n i show ?thesis by (auto simp: new_pair_def)
qed

lemma NewPair_new: "NewPair H h = (r, p) \<Longrightarrow> new_pair p"
proof -
  let ?z = "\<lparr>ps_opts = 0, ps_noSend = False, ps_ttl = 0, ps_bestEffort = False\<rparr>"
  let ?p0 = "\<lparr>pr_heap = H, pr_sock = (\<lambda>_. ?z), pr_closedq = False, pr_mem = h, pr_calls = []\<rparr>"
  assume a: "NewPair H h = (r, p)"
  obtain r1 p1 where 1: "newPairSocket Dialled ?p0 = (r1, p1)" by (cases "newPairSocket Dialled ?p0")
  have n: "new_pair p1" by (rule newPairSocket_new [OF _ 1]) (simp add: new_pair_def)
  show ?thesis
  proof (cases r1)
    case (Ok u)
    then have "newPairSocket Accepted p1 = (r, p)" using a 1 by (simp add: NewPair_def Let_def)
    with newPairSocket_new [OF n] show ?thesis by blast
  qed (use a 1 n in \<open>simp_all add: NewPair_def Let_def\<close>)
qed

section \<open>Runs\<close>

definition pair_ok :: "pair \<Rightarrow> bool" where
  "pair_ok p \<longleftrightarrow> (\<forall>x. sent x p = recvd (peer_of x) p \<and> \<not> ps_noSend (pr_sock p x))"

lemma pair_ok_new: "new_pair p \<Longrightarrow> pair_ok p"
  by (simp add: new_pair_def pair_ok_def sent_def recvd_def)

lemma pair_ok_same: "pair_ok p \<Longrightarrow> same_calls p q \<Longrightarrow> pair_ok q"
  by (simp add: pair_ok_def same_calls_def sent_def recvd_def)

lemma pair_ok_add:
  assumes "pair_ok p" "pr_sock q = pr_sock p" "pr_calls q = pr_calls p @ [c]" "\<And>x. out_of x c = {#}" "\<And>x. in_to x c = {#}"
  shows "pair_ok q"
  using assms by (simp add: pair_ok_def sent_def recvd_def)

lemma pair_ok_SendMsg: "pair_ok p \<Longrightarrow> pair_ok (pair_SendMsg x m p)"
  by (rule pair_ok_add [of p]) (auto simp: pair_ok_def pair_SendMsg_def add_call_def)

lemma pair_ok_mem [simp]: "pair_ok (p\<lparr>pr_mem := h\<rparr>) = pair_ok p"
  by (simp add: pair_ok_def sent_def recvd_def)

lemma pair_ok_send_new: "pair_ok p \<Longrightarrow> send_new pk st x dest content p = Some p' \<Longrightarrow> pair_ok p'"
  by (auto simp: send_new_def pair_ok_SendMsg split: if_splits prod.splits outcome.splits) (simp add: pair_ok_def)

text \<open>An update of two calls, seen from the sums over all of them.\<close>

lemma sum_update2:
  assumes "i < length xs" "j < length xs" "i \<noteq> j"
  shows "sum_list (map f (xs[i := a, j := b])) + f (xs ! i) + f (xs ! j) = sum_list (map f xs) + f a + (f b :: 'b multiset)"
proof -
  have "sum_list (map f (xs[i := a, j := b])) + f (xs ! j) = sum_list (map f (xs[i := a])) + f b"
    using sum_list_update [of j "xs[i := a]" f b] assms by simp
  moreover have "sum_list (map f (xs[i := a])) + f (xs ! i) = sum_list (map f xs) + f a" by (rule sum_list_update [OF assms(1)])
  ultimately show ?thesis by (metis add.assoc add.commute)
qed

lemma pair_ok_meet:
  assumes "pair_ok p" "i < length (pr_calls p)" "j < length (pr_calls p)" "meet i j p = Some p'"
  shows "pair_ok p'"
proof -
  obtain x m where c: "pr_calls p ! i = CSend x m" "pr_calls p ! j = CRecv (peer_of x)"
    and p': "p' = p\<lparr>pr_calls := (pr_calls p)[i := CSent x m, j := CRecvd (peer_of x) m]\<rparr>"
    using assms(4) by (auto simp: meet_def split: call.splits if_splits)
  have ij: "i \<noteq> j" using c by auto
  have "sent y p' = sent y p + (if y = x then {#m#} else {#})" for y
    using sum_update2 [OF assms(2,3) ij, of "out_of y" "CSent x m" "CRecvd (peer_of x) m"] by (simp add: sent_def p' c)
  moreover have "recvd y p' = recvd y p + (if y = peer_of x then {#m#} else {#})" for y
    using sum_update2 [OF assms(2,3) ij, of "in_to y" "CSent x m" "CRecvd (peer_of x) m"] by (simp add: recvd_def p' c)
  moreover have "peer_of y = peer_of x \<longleftrightarrow> y = x" for y by (metis peer_peer)
  ultimately show ?thesis using assms(1) by (simp add: pair_ok_def) (simp add: p')
qed

lemma pair_ok_give_up:
  assumes "pair_ok p" "i < length (pr_calls p)" "give_up i p = Some p'"
  shows "pair_ok p'"
proof -
  obtain c x e where c: "pr_calls p ! i = c" "out_of y c = {#}" "in_to y c = {#}" "p' = p\<lparr>pr_calls := (pr_calls p)[i := CFailed x e]\<rparr>" for y
    using assms(3) by (auto simp: give_up_def split: call.splits if_splits)
  have "sent y p' = sent y p" "recvd y p' = recvd y p" for y
    using sum_list_update [OF assms(2), of "out_of y" "CFailed x e"] sum_list_update [OF assms(2), of "in_to y" "CFailed x e"] c
    by (simp_all add: sent_def recvd_def)
  then show ?thesis using assms(1) c by (simp add: pair_ok_def)
qed

lemma pair_ok_step:
  assumes "pair_ok p" "pair_step p p'"
  shows "pair_ok p'"
  using assms(2)
proof cases
  case (pt_RecvMsg x)
  then show ?thesis by (intro pair_ok_add [OF assms(1), of _ "CRecv x"]) (simp_all add: pair_RecvMsg_def add_call_def)
next
  case (pt_SetOption x o1 v r)
  with pair_ok_same [OF assms(1) SetOption_same] show ?thesis by blast
next
  case (pt_Close e)
  with assms(1) show ?thesis by (auto simp: pair_Close_def pair_ok_def sent_def recvd_def split: if_splits)
qed (use assms(1) in \<open>auto intro: pair_ok_SendMsg pair_ok_send_new pair_ok_meet pair_ok_give_up simp: pair_Send_def pair_SendAll_def pair_SendTo_def\<close>)

lemma pair_ok_run: "pair_run p0 p \<Longrightarrow> pair_ok p0 \<Longrightarrow> pair_ok p"
  by (induction rule: pair_run.induct) (auto intro: pair_ok_step)

section \<open>Properties\<close>


text \<open>
  A content that is sent while the other side waits to receive arrives there unchanged, in a message without source and with
  the time to live of the sending socket.
\<close>

theorem pair_send_arrives:
  assumes "mem_inv live (pr_mem p)" "length content < 2 ^ 32" "\<not> ps_noSend (pr_sock p x)"
    and "j < length (pr_calls p)" "pr_calls p ! j = CRecv (peer_of x)"
  shows "\<exists>m p1 p2. pair_Send pk x content p = Some p1 \<and> meet (length (pr_calls p)) j p1 = Some p2 \<and>
    pr_calls p2 ! j = CRecvd (peer_of x) m \<and> Content m = content \<and> Source m = [] \<and> Destination m = [] \<and>
    SendType (meta m) = SendTypeToOne \<and> TTL (meta m) = (if ps_ttl (pr_sock p x) = 0 then DefaultMsgTTL else ps_ttl (pr_sock p x))"
proof -
  have "path_ok []" by (simp add: path_ok_def)
  then obtain m h' where m: "NewSendMessage pk 0 SendTypeToOne (ps_ttl (pr_sock p x)) [] [] content (pr_mem p) = (Ok m, h')"
    "meta m = send_meta 0 SendTypeToOne (ps_ttl (pr_sock p x)) [] [] content" "Source m = []" "Destination m = []" "Content m = content"
    using NewSendMessage_ok [OF assms(1) _ _ assms(2), of "[]" "[]" pk 0 SendTypeToOne "ps_ttl (pr_sock p x)"] by metis
  let ?p1 = "add_call (CSend x m) (p\<lparr>pr_mem := h'\<rparr>)"
  have "pair_Send pk x content p = Some ?p1" using m(1) assms(3) by (simp add: pair_Send_def send_new_def pair_SendMsg_def)
  moreover have "meet (length (pr_calls p)) j ?p1 =
      Some (?p1\<lparr>pr_calls := (pr_calls ?p1)[length (pr_calls p) := CSent x m, j := CRecvd (peer_of x) m]\<rparr>)"
    using assms(4,5) by (simp add: meet_def add_call_def nth_append)
  moreover have "SendType (send_meta 0 SendTypeToOne t [] [] content) = SendTypeToOne" for t
    by (simp add: SendType_def send_meta_def SendTypeToOne_def sendTypeMask_def)
  ultimately show ?thesis using m(2-5) assms(4) by (auto simp: add_call_def send_meta_def)
qed

text \<open>\<open>noSend\<close> of a socket of a pair is never set: the case that would do so repeats the label of the one before.\<close>

theorem pair_noSend_never:
  assumes "NewPair H h = (r, p0)" "pair_run p0 p"
  shows "\<not> ps_noSend (pr_sock p x)"
  using pair_ok_run [OF assms(2) pair_ok_new [OF NewPair_new [OF assms(1)]]] by (simp add: pair_ok_def)

definition demo_pair :: pair where
  "demo_pair = snd (NewPair [] init_mem)"

lemma demo_pair: "NewPair [] init_mem = (fst (NewPair [] init_mem), demo_pair)"
  by (simp add: demo_pair_def)

lemma demo_pair_new: "new_pair demo_pair"
  by (rule NewPair_new [OF demo_pair])

definition demo_meeting :: pair where
  "demo_meeting = the (meet 1 0 (pair_SendMsg Dialled newMessage (pair_RecvMsg Accepted demo_pair)))"

lemma demo_meeting: "pair_run demo_pair demo_meeting" "pr_calls demo_meeting = [CRecvd Accepted newMessage, CSent Dialled newMessage]"
proof -
  let ?p = "pair_SendMsg Dialled newMessage (pair_RecvMsg Accepted demo_pair)"
  have c: "pr_calls ?p = [CRecv Accepted, CSend Dialled newMessage]" using demo_pair_new
    by (simp add: pair_SendMsg_def pair_RecvMsg_def add_call_def new_pair_def)
  have "meet 1 0 ?p = Some demo_meeting" by (simp add: demo_meeting_def meet_def c)
  moreover have "pair_run demo_pair ?p" by (rule pn_step [OF pn_step [OF pn_refl pt_RecvMsg] pt_SendMsg])
  ultimately show "pair_run demo_pair demo_meeting" using pn_step [OF _ pt_meet [of 1 ?p 0]] c by simp
  show "pr_calls demo_meeting = [CRecvd Accepted newMessage, CSent Dialled newMessage]" by (simp add: demo_meeting_def meet_def c)
qed


theorem pair_noSend_never_witness: "\<not> ps_noSend (pr_sock demo_meeting Accepted)"
  using pair_noSend_never [OF demo_pair demo_meeting(1)] .

theorem pair_send_arrives_witness:
  "\<exists>m p1 p2. pair_Send fresh_picks Dialled [1, 2] ((pair_RecvMsg Accepted demo_pair)\<lparr>pr_mem := init_mem\<rparr>) = Some p1 \<and>
     meet 1 0 p1 = Some p2 \<and> pr_calls p2 ! 0 = CRecvd Accepted m \<and> Content m = [1, 2]"
proof -
  let ?p = "(pair_RecvMsg Accepted demo_pair)\<lparr>pr_mem := init_mem\<rparr>"
  have c: "pr_calls ?p = [CRecv Accepted]" "\<not> ps_noSend (pr_sock ?p Dialled)" using demo_pair_new
    by (simp_all add: pair_RecvMsg_def add_call_def new_pair_def)
  have "\<exists>m p1 p2. pair_Send fresh_picks Dialled [1, 2] ?p = Some p1 \<and> meet (length (pr_calls ?p)) 0 p1 = Some p2 \<and>
    pr_calls p2 ! 0 = CRecvd (peer_of Dialled) m \<and> Content m = [1, 2] \<and> Source m = [] \<and> Destination m = [] \<and>
    SendType (meta m) = SendTypeToOne \<and> TTL (meta m) = (if ps_ttl (pr_sock ?p Dialled) = 0 then DefaultMsgTTL else ps_ttl (pr_sock ?p Dialled))"
    by (rule pair_send_arrives [of "{}"]) (use c mem_inv_init in simp_all)
  then show ?thesis unfolding c(1) peer_of.simps list.size by (elim exE conjE) (intro exI conjI, simp_all)
qed

end
