(* ===== verification/Switches.thy ===== *)
theory Switches
  imports Sockets
begin

text \<open>
  The switch of \<open>switch.go\<close>: two goroutines that forward messages between two sockets, one for each direction. The sockets are
  those of \<open>Sockets\<close>; they belong to one process, so their pools are the same and are kept equal. A goroutine holds the
  message it has received until \<open>SendMsg\<close> returns. A call of \<open>sendToAll\<close> that has begun counts as returned, its remaining
  steps belong to the socket.
\<close>

section \<open>State\<close>

datatype fpc = FRecv | FSend message | FNil | FDone err

text \<open>Direction \<open>True\<close> is from the back to the front socket. \<open>FNil\<close> is about to send the nil message of a middleware.\<close>

record switch =
  w_back :: socket
  w_front :: socket
  w_pc :: "bool \<Rightarrow> fpc"

type_synonym SwitchMiddlewareFunc = "message \<Rightarrow> mem \<Rightarrow> message option \<times> mem"

definition StartSwitch :: "socket \<Rightarrow> socket \<Rightarrow> switch" where
  "StartSwitch backSock frontSock = \<lparr>w_back = backSock, w_front = frontSock, w_pc = (\<lambda>_. FRecv)\<rparr>"

definition from_sock :: "bool \<Rightarrow> switch \<Rightarrow> socket" where
  "from_sock d w = (if d then w_back w else w_front w)"

definition to_sock :: "bool \<Rightarrow> switch \<Rightarrow> socket" where
  "to_sock d w = (if d then w_front w else w_back w)"

text \<open>Both sockets and the pools after a step.\<close>

definition put_socks :: "bool \<Rightarrow> socket \<Rightarrow> socket \<Rightarrow> mem \<Rightarrow> switch \<Rightarrow> switch" where
  "put_socks d f t h w =
     w\<lparr>w_back := (if d then f else t)\<lparr>s_mem := h\<rparr>, w_front := (if d then t else f)\<lparr>s_mem := h\<rparr>\<rparr>"

definition set_pc :: "bool \<Rightarrow> fpc \<Rightarrow> switch \<Rightarrow> switch" where
  "set_pc d pc w = w\<lparr>w_pc := (w_pc w)(d := pc)\<rparr>"

section \<open>Forwarding\<close>

text \<open>One call of the loop in \<open>forward\<close>; \<open>mid\<close> is \<open>None\<close> for a nil middleware. Sending a nil message panics, which is no step.\<close>

definition forward_step :: "SwitchMiddlewareFunc option \<Rightarrow> choice \<Rightarrow> nat list \<Rightarrow> bool \<Rightarrow> switch \<Rightarrow> switch option" where
  "forward_step mid ch as d w =
     (case w_pc w d of
        FRecv \<Rightarrow>
          (case socket_RecvMsg ch (from_sock d w) of
             None \<Rightarrow> None
           | Some (Ok m, f) \<Rightarrow>
               (let f' = f\<lparr>s_user := s_user (from_sock d w)\<rparr>;
                    (r, h) = (case mid of None \<Rightarrow> (Some m, s_mem f) | Some g \<Rightarrow> g m (s_mem f))
                in Some (set_pc d (case r of Some m' \<Rightarrow> FSend m' | None \<Rightarrow> FNil) (put_socks d f' (to_sock d w) h w)))
           | Some (Error e, f) \<Rightarrow> Some (set_pc d (FDone e) (put_socks d f (to_sock d w) (s_mem f) w))
           | Some (Panic, f) \<Rightarrow> None)
      | FSend m \<Rightarrow>
          (case socket_SendMsg ch as m (to_sock d w) of
             None \<Rightarrow> None
           | Some (None, t) \<Rightarrow> Some (set_pc d FRecv (put_socks d (from_sock d w) t (s_mem t) w))
           | Some (Some e, t) \<Rightarrow> Some (set_pc d (FDone e) (put_socks d (from_sock d w) t (s_mem t) w)))
      | _ \<Rightarrow> None)"


inductive switch_step :: "SwitchMiddlewareFunc option \<Rightarrow> switch \<Rightarrow> switch \<Rightarrow> bool" for mid where
  sw_forward: "forward_step mid ch as d w = Some w' \<Longrightarrow> switch_step mid w w'"
| sw_socket: "step (from_sock d w) f \<Longrightarrow> switch_step mid w (put_socks d f (to_sock d w) (s_mem f) w)"

inductive switch_run :: "SwitchMiddlewareFunc option \<Rightarrow> switch \<Rightarrow> switch \<Rightarrow> bool" for mid w0 where
  sr_refl: "switch_run mid w0 w0"
| sr_step: "switch_run mid w0 w \<Longrightarrow> switch_step mid w w' \<Longrightarrow> switch_run mid w0 w'"

section \<open>Lemmas\<close>

lemma socks_simps [simp]:
  "from_sock d (set_pc e pc w) = from_sock d w" "to_sock d (set_pc e pc w) = to_sock d w"
  "from_sock d (put_socks d f t h w) = f\<lparr>s_mem := h\<rparr>" "to_sock d (put_socks d f t h w) = t\<lparr>s_mem := h\<rparr>"
  "w_pc (set_pc d pc w) = (w_pc w)(d := pc)" "w_pc (put_socks e f t h w) = w_pc w"
  by (simp_all add: from_sock_def to_sock_def set_pc_def put_socks_def)

text \<open>What a goroutine has ended with it stays ended with.\<close>

lemma done_step:
  assumes "w_pc w d = FDone e" "switch_step mid w w'"
  shows "w_pc w' d = FDone e"
  using assms(2)
proof cases
  case (sw_forward ch as k)
  show ?thesis
  proof (cases "k = d")
    case False
    then show ?thesis using sw_forward assms(1)
      by (auto simp: forward_step_def Let_def split: fpc.splits option.splits prod.splits outcome.splits)
  qed (use sw_forward assms(1) in \<open>simp add: forward_step_def\<close>)
qed (use assms(1) in simp)

lemma done_run: "switch_run mid w w' \<Longrightarrow> w_pc w d = FDone e \<Longrightarrow> w_pc w' d = FDone e"
  by (induction rule: switch_run.induct) (auto intro: done_step)

section \<open>Properties\<close>

text \<open>
  A broken path ends the switch: when the next message to forward is addressed to a pipe that the other socket no longer
  has, the goroutine returns. Whatever happens afterwards it never forwards anything again in that direction, and the message
  is given back to no pool.
\<close>

theorem broken_path_ends_switch:
  assumes "w_pc w d = FSend m" "SendType (meta m) = SendTypeToDest" "TTL (meta m) \<noteq> 0" "Distance (meta m) \<noteq> 0"
    and "CurID (Destination m) = Ok i" "s_pipes (to_sock d w) i = None" "\<not> s_noSend (to_sock d w)"
    and "forward_step mid ch as d w = Some w1" "switch_run mid w1 w2"
  shows "w_pc w2 d = FDone ErrBrokenPath \<and> forward_step mid ch2 as2 d w2 = None \<and> s_mem (to_sock d w1) = s_mem (to_sock d w)"
proof -
  have "socket_SendMsg ch as m (to_sock d w) = Some (Some ErrBrokenPath, to_sock d w)"
    using assms(2-7) by (simp add: socket_SendMsg_def sendTo_def)
  then have w1: "w1 = set_pc d (FDone ErrBrokenPath) (put_socks d (from_sock d w) (to_sock d w) (s_mem (to_sock d w)) w)"
    using assms(1,8) by (simp add: forward_step_def)
  have "w_pc w2 d = FDone ErrBrokenPath" by (rule done_run [OF assms(9)]) (simp add: w1)
  then show ?thesis by (simp add: forward_step_def w1)
qed





text \<open>A socket with one queue in each direction.\<close>

definition demo_sock :: "message list \<Rightarrow> bool \<Rightarrow> socket" where
  "demo_sock ms closed = (blank_socket 0 [empty_options] init_mem)\<lparr>s_closedq := closed, s_recvqs := [\<lparr>chan_cap = 4, chan_buf = ms\<rparr>],
     s_sendqs := [make_chan 4]\<rparr>"

lemma demo_message: "\<exists>m. SendType (meta m) = t \<and> TTL (meta m) = 16 \<and> Distance (meta m) = 1 \<and> Destination m = be32 5"
  if "t = SendTypeToOne \<or> t = SendTypeToDest"
proof -
  have p: "path_ok []" "path_ok (be32 5)" by (simp_all add: path_ok_def be32_def)
  obtain m h where "NewSendMessage fresh_picks 0 t 16 [] (be32 5) [] init_mem = (Ok m, h)"
    "meta m = send_meta 0 t 16 [] (be32 5) []" "Destination m = be32 5"
    using NewSendMessage_ok [OF mem_inv_init p, of "[]" fresh_picks 0 t 16] by (metis list.size(3) zero_less_numeral zero_less_power)
  moreover have "SendType (send_meta 0 t 16 [] (be32 5) []) = t" "TTL (send_meta 0 t 16 [] (be32 5) []) = 16"
    "Distance (send_meta 0 t 16 [] (be32 5) []) = 1"
    using that by (auto simp: send_meta_def SendType_def sendTypeMask_def SendTypeToOne_def SendTypeToDest_def path_Length_def be32_def)
  ultimately show ?thesis by (intro exI [of _ m]) simp
qed

theorem broken_path_ends_switch_witness:
  "\<exists>m w1. SendType (meta m) = SendTypeToDest \<and>
     forward_step None ChSendq [] True (set_pc True (FSend m) (StartSwitch (demo_sock [] False) (demo_sock [] False))) = Some w1 \<and>
     w_pc w1 True = FDone ErrBrokenPath"
proof -
  obtain m where m: "SendType (meta m) = SendTypeToDest" "TTL (meta m) = 16" "Distance (meta m) = 1" "Destination m = be32 5"
    using demo_message by blast
  let ?w = "set_pc True (FSend m) (StartSwitch (demo_sock [] False) (demo_sock [] False))"
  have c: "CurID (Destination m) = Ok 5" by (simp add: m(4) CurID_def be32_def)
  have t: "s_pipes (to_sock True ?w) 5 = None" "\<not> s_noSend (to_sock True ?w)"
    by (simp_all, simp_all add: to_sock_def StartSwitch_def demo_sock_def blank_socket_def)
  obtain w1 where w1: "forward_step None ChSendq [] True ?w = Some w1"
    using m c t by (simp add: forward_step_def socket_SendMsg_def sendTo_def)
  have pc: "w_pc ?w True = FSend m" by (simp add: set_pc_def)
  have nz: "TTL (meta m) \<noteq> 0" "Distance (meta m) \<noteq> 0" by (simp_all add: m)
  have "w_pc w1 True = FDone ErrBrokenPath"
    by (rule conjunct1 [OF broken_path_ends_switch [OF pc m(1) nz c t w1 sr_refl]])
  with m(1) w1 show ?thesis by (intro exI conjI)
qed


end
