(* ===== verification/Net_Listeners.thy ===== *)
theory Net_Listeners
  imports Transports Option_Registry Option_Sets
begin

text \<open>
  The transports over TCP (\<open>transport/tcp\<close>) and over Unix sockets (\<open>transport/ipc\<close>): their options, dialers and
  listeners. What the operating system does is a record of functions on its state; \<open>None\<close> is an accept that
  waits. \<open>Listen\<close> and \<open>Close\<close> do not exclude each other, so their sections are operations of their own.
\<close>

section \<open>Options\<close>

definition Opt_NoDelay :: opt where "Opt_NoDelay = NewBoolOption 19 True"
definition Opt_KeepAlive :: opt where "Opt_KeepAlive = NewBoolOption 20 True"
definition Opt_KeepAlivePeriod :: opt where "Opt_KeepAlivePeriod = NewTimeDurationOption 21 0"
definition Opt_tcp_ReadBuffer :: opt where "Opt_tcp_ReadBuffer = NewIntOption 22 0"
definition Opt_tcp_WriteBuffer :: opt where "Opt_tcp_WriteBuffer = NewIntOption 23 0"

definition tcpOptions :: soptions where
  "tcpOptions = SStruct
     [(''NoDelay'', SOpt Opt_NoDelay), (''KeepAlive'', SOpt Opt_KeepAlive), (''KeepAlivePeriod'', SOpt Opt_KeepAlivePeriod),
      (''ReadBuffer'', SOpt Opt_tcp_ReadBuffer), (''WriteBuffer'', SOpt Opt_tcp_WriteBuffer)]"

lemmas tcp_option_defs = Opt_NoDelay_def Opt_KeepAlive_def Opt_KeepAlivePeriod_def Opt_tcp_ReadBuffer_def Opt_tcp_WriteBuffer_def

section \<open>The operating system\<close>

text \<open>The setters of \<open>net.TCPConn\<close>; numbers are Go's \<open>int\<close> and \<open>time.Duration\<close>.\<close>

datatype setting = SetNoDelay bool | SetKeepAlive bool | SetKeepAlivePeriod u64 | SetReadBuffer u64 | SetWriteBuffer u64

record ('a, 'h, 'c, 'o) netlib =
  n_Dial :: "'a \<Rightarrow> 'o \<Rightarrow> (err + 'c net_conn) \<times> 'o"
  n_Listen :: "'a \<Rightarrow> 'o \<Rightarrow> (err + 'h) \<times> 'o"
  n_Addr :: "'h \<Rightarrow> string"
  n_Accept :: "'h \<Rightarrow> 'o \<Rightarrow> ((err + 'c net_conn) \<times> 'o) option"
  n_CloseL :: "'h \<Rightarrow> 'o \<Rightarrow> err option \<times> 'o"
  n_CloseC :: "'c \<Rightarrow> 'o \<Rightarrow> 'o"
  n_Set :: "setting \<Rightarrow> 'c \<Rightarrow> 'o \<Rightarrow> err option \<times> 'o"

section \<open>configTCP\<close>

definition and_then :: "unit outcome \<times> 'o \<Rightarrow> ('o \<Rightarrow> unit outcome \<times> 'o) \<Rightarrow> unit outcome \<times> 'o" where
  "and_then r k = (case r of (Ok _, w) \<Rightarrow> k w | (Error e, w) \<Rightarrow> (Error e, w) | (Panic, w) \<Rightarrow> (Panic, w))"

definition set_conn_opt :: "('a, 'h, 'c, 'o) netlib \<Rightarrow> 'c \<Rightarrow> setting \<Rightarrow> 'o \<Rightarrow> unit outcome \<times> 'o" where
  "set_conn_opt lib c s w = (case n_Set lib s c w of (None, w') \<Rightarrow> (Ok (), w') | (Some e, w') \<Rightarrow> (Error e, w'))"

text \<open>\<open>if val, ok := opts.GetOption(o1); ok\<close>, and the type assertions of \<open>Value\<close>.\<close>

definition if_option :: "oheap \<Rightarrow> nat \<Rightarrow> opt \<Rightarrow> (optval \<Rightarrow> 'o \<Rightarrow> unit outcome \<times> 'o) \<Rightarrow> 'o \<Rightarrow> unit outcome \<times> 'o" where
  "if_option H a o1 f w =
     (case GetOption (Suc a) H a o1 of Some (Some v) \<Rightarrow> f v w | Some None \<Rightarrow> (Ok (), w) | None \<Rightarrow> (Panic, w))"

fun with_bool :: "(bool \<Rightarrow> 'o \<Rightarrow> unit outcome \<times> 'o) \<Rightarrow> optval \<Rightarrow> 'o \<Rightarrow> unit outcome \<times> 'o" where
  "with_bool f (VBool b) w = f b w"
| "with_bool f _ w = (Panic, w)"

fun with_int :: "(u64 \<Rightarrow> 'o \<Rightarrow> unit outcome \<times> 'o) \<Rightarrow> optval \<Rightarrow> 'o \<Rightarrow> unit outcome \<times> 'o" where
  "with_int f (VInt n) w = f n w"
| "with_int f _ w = (Panic, w)"

fun with_duration :: "(u64 \<Rightarrow> 'o \<Rightarrow> unit outcome \<times> 'o) \<Rightarrow> optval \<Rightarrow> 'o \<Rightarrow> unit outcome \<times> 'o" where
  "with_duration f (VDuration n) w = f n w"
| "with_duration f _ w = (Panic, w)"

definition configTCP :: "('a, 'h, 'c, 'o) netlib \<Rightarrow> 'c \<Rightarrow> oheap \<Rightarrow> nat \<Rightarrow> 'o \<Rightarrow> unit outcome \<times> 'o" where
  "configTCP lib c H a w0 =
     and_then (if_option H a Opt_NoDelay (with_bool (\<lambda>b. set_conn_opt lib c (SetNoDelay b))) w0) (\<lambda>w1.
     and_then (if_option H a Opt_KeepAlive (with_bool (\<lambda>keepAlive w.
         and_then (set_conn_opt lib c (SetKeepAlive keepAlive) w) (\<lambda>w'.
           if keepAlive
           then if_option H a Opt_KeepAlivePeriod (with_duration (\<lambda>n. set_conn_opt lib c (SetKeepAlivePeriod n))) w'
           else (Ok (), w')))) w1) (\<lambda>w2.
     and_then (if_option H a Opt_tcp_ReadBuffer (with_int (\<lambda>n. set_conn_opt lib c (SetWriteBuffer n))) w2) (\<lambda>w3.
     if_option H a Opt_tcp_WriteBuffer (with_int (\<lambda>n. set_conn_opt lib c (SetWriteBuffer n))) w3)))"

section \<open>TCP dialers and listeners\<close>

definition tcpTran :: "unit transport" where
  "tcpTran = \<lparr>Scheme = ''tcp'', impl = ()\<rparr>"

text \<open>The end of \<open>Dial\<close> and \<open>Accept\<close>: a connection that cannot be configured is closed.\<close>

definition configured ::
    "('a, 'h, 'c, 'o) netlib \<Rightarrow> 'c net_conn \<Rightarrow> bool \<Rightarrow> oheap \<Rightarrow> nat \<Rightarrow> 'o \<Rightarrow> (unit, 'c) connection outcome \<times> 'o" where
  "configured lib nc accepted H a w =
     (case configTCP lib (raw_conn nc) H a w of
        (Ok _, w') \<Rightarrow> (Ok (NewConnection tcpTran nc accepted), w')
      | (Error e, w') \<Rightarrow> (Error e, n_CloseC lib (raw_conn nc) w')
      | (Panic, w') \<Rightarrow> (Panic, w'))"

definition tcp_Dial :: "('a, 'h, 'c, 'o) netlib \<Rightarrow> 'a \<Rightarrow> oheap \<Rightarrow> nat \<Rightarrow> 'o \<Rightarrow> (unit, 'c) connection outcome \<times> 'o" where
  "tcp_Dial lib ad H a w =
     (case n_Dial lib ad w of
        (Inr nc, w') \<Rightarrow> configured lib nc False H a w'
      | (Inl e, w') \<Rightarrow> (Error e, w'))"

record ('a, 'h, 'o) tcpListener =
  tl_addr :: 'a
  tl_bound :: "string option"
  tl_listener :: "'h option"
  tl_closedq :: bool
  tl_os :: 'o

definition tcp_Listen_check :: "('a, 'h, 'o) tcpListener \<Rightarrow> err option" where
  "tcp_Listen_check l = (if tl_closedq l then Some ErrClosed else None)"

text \<open>The rest of \<open>Listen\<close>: a failure sets \<open>l.listener\<close> to nil.\<close>

definition tcp_Listen_bind :: "('a, 'h, 'c, 'o) netlib \<Rightarrow> ('a, 'h, 'o) tcpListener \<Rightarrow> err option \<times> ('a, 'h, 'o) tcpListener" where
  "tcp_Listen_bind lib l =
     (case n_Listen lib (tl_addr l) (tl_os l) of
        (Inr h, w) \<Rightarrow> (None, l\<lparr>tl_listener := Some h, tl_bound := Some (n_Addr lib h), tl_os := w\<rparr>)
      | (Inl e, w) \<Rightarrow> (Some e, l\<lparr>tl_listener := None, tl_os := w\<rparr>))"

definition tcp_Listen :: "('a, 'h, 'c, 'o) netlib \<Rightarrow> ('a, 'h, 'o) tcpListener \<Rightarrow> err option \<times> ('a, 'h, 'o) tcpListener" where
  "tcp_Listen lib l = (case tcp_Listen_check l of Some e \<Rightarrow> (Some e, l) | None \<Rightarrow> tcp_Listen_bind lib l)"

definition tcp_Accept ::
    "('a, 'h, 'c, 'o) netlib \<Rightarrow> oheap \<Rightarrow> nat \<Rightarrow> ('a, 'h, 'o) tcpListener \<Rightarrow>
       ((unit, 'c) connection outcome \<times> ('a, 'h, 'o) tcpListener) option" where
  "tcp_Accept lib H a l =
     (if tl_closedq l then Some (Error ErrClosed, l)
      else case tl_listener l of
             None \<Rightarrow> Some (Error ErrBadOperateState, l)
           | Some h \<Rightarrow>
               (case n_Accept lib h (tl_os l) of
                  None \<Rightarrow> None
                | Some (Inr nc, w) \<Rightarrow> (case configured lib nc True H a w of (r, w') \<Rightarrow> Some (r, l\<lparr>tl_os := w'\<rparr>))
                | Some (Inl e, w) \<Rightarrow> Some (Error e, l\<lparr>tl_os := w\<rparr>)))"

definition tcp_Address :: "('a \<Rightarrow> string) \<Rightarrow> ('a, 'h, 'o) tcpListener \<Rightarrow> string" where
  "tcp_Address show_a l =
     (case tl_bound l of Some b \<Rightarrow> Scheme tcpTran @ ''://'' @ b | None \<Rightarrow> Scheme tcpTran @ ''://'' @ show_a (tl_addr l))"

definition tcp_Close_mark :: "('a, 'h, 'o) tcpListener \<Rightarrow> err option \<times> ('a, 'h, 'o) tcpListener" where
  "tcp_Close_mark l = (if tl_closedq l then (Some ErrClosed, l) else (None, l\<lparr>tl_closedq := True\<rparr>))"

definition tcp_Close_release :: "('a, 'h, 'c, 'o) netlib \<Rightarrow> ('a, 'h, 'o) tcpListener \<Rightarrow> err option \<times> ('a, 'h, 'o) tcpListener" where
  "tcp_Close_release lib l =
     (case tl_listener l of
        None \<Rightarrow> (None, l)
      | Some h \<Rightarrow> (case n_CloseL lib h (tl_os l) of (e, w) \<Rightarrow> (e, l\<lparr>tl_os := w\<rparr>)))"

definition tcp_Close :: "('a, 'h, 'c, 'o) netlib \<Rightarrow> ('a, 'h, 'o) tcpListener \<Rightarrow> err option \<times> ('a, 'h, 'o) tcpListener" where
  "tcp_Close lib l =
     (case tcp_Close_mark l of (Some e, l') \<Rightarrow> (Some e, l') | (None, l') \<Rightarrow> tcp_Close_release lib l')"

definition tcp_NewDialer :: "(string \<Rightarrow> 'a outcome) \<Rightarrow> string \<Rightarrow> 'a outcome" where
  "tcp_NewDialer resolve address =
     (case StripScheme address of Ok s \<Rightarrow> ResolveTCPAddr resolve s | Error e \<Rightarrow> Error e | Panic \<Rightarrow> Panic)"

definition tcp_NewListener :: "(string \<Rightarrow> 'a outcome) \<Rightarrow> string \<Rightarrow> 'o \<Rightarrow> ('a, 'h, 'o) tcpListener outcome" where
  "tcp_NewListener resolve address w =
     (case StripScheme address of
        Ok s \<Rightarrow>
          (case ResolveTCPAddr resolve s of
             Ok ad \<Rightarrow> Ok \<lparr>tl_addr = ad, tl_bound = None, tl_listener = None, tl_closedq = False, tl_os = w\<rparr>
           | Error e \<Rightarrow> Error e
           | Panic \<Rightarrow> Panic)
      | Error e \<Rightarrow> Error e
      | Panic \<Rightarrow> Panic)"

section \<open>Unix sockets\<close>

text \<open>\<open>os.Stat\<close> reports whether the file is a socket; \<open>os.IsNotExist\<close> of an error is an argument.\<close>

record ('a, 'h, 'c, 'o) unixlib = "('a, 'h, 'c, 'o) netlib" +
  u_String :: "'a \<Rightarrow> string"
  u_Stat :: "string \<Rightarrow> 'o \<Rightarrow> err + bool"
  u_IsNotExist :: "err \<Rightarrow> bool"
  u_Remove :: "string \<Rightarrow> 'o \<Rightarrow> err option \<times> 'o"

definition ipcTran :: "unit transport" where
  "ipcTran = \<lparr>Scheme = ''ipc'', impl = ()\<rparr>"

record ('a, 'h, 'o) ipcListener =
  il_addr :: 'a
  il_listener :: "'h option"
  il_closedq :: bool
  il_os :: 'o

definition ipc_Dial :: "('a, 'h, 'c, 'o) unixlib \<Rightarrow> 'a \<Rightarrow> 'o \<Rightarrow> (unit, 'c) connection outcome \<times> 'o" where
  "ipc_Dial lib ad w =
     (case n_Dial lib ad w of
        (Inr nc, w') \<Rightarrow> (Ok (NewConnection ipcTran nc False), w')
      | (Inl e, w') \<Rightarrow> (Error e, w'))"

definition ipc_Listen_check :: "('a, 'h, 'o) ipcListener \<Rightarrow> err option" where
  "ipc_Listen_check l = (if il_closedq l then Some ErrClosed else None)"

text \<open>Clearing the path: an old socket file is removed, any other file is an error.\<close>

definition ipc_clear_path :: "('a, 'h, 'c, 'o) unixlib \<Rightarrow> string \<Rightarrow> 'o \<Rightarrow> err option \<times> 'o" where
  "ipc_clear_path lib path w =
     (case u_Stat lib path w of
        Inr isSocket \<Rightarrow>
          if isSocket then (case u_Remove lib path w of (Some _, w') \<Rightarrow> (Some ErrAddrInUse, w') | (None, w') \<Rightarrow> (None, w'))
          else (Some ErrBadAddr, w)
      | Inl e \<Rightarrow> if \<not> u_IsNotExist lib e then (Some e, w) else (None, w))"

definition ipc_Listen_bind :: "('a, 'h, 'c, 'o) unixlib \<Rightarrow> ('a, 'h, 'o) ipcListener \<Rightarrow> err option \<times> ('a, 'h, 'o) ipcListener" where
  "ipc_Listen_bind lib l =
     (case ipc_clear_path lib (u_String lib (il_addr l)) (il_os l) of
        (Some e, w) \<Rightarrow> (Some e, l\<lparr>il_os := w\<rparr>)
      | (None, w) \<Rightarrow>
          (case n_Listen lib (il_addr l) w of
             (Inl e, w') \<Rightarrow> (Some e, l\<lparr>il_os := w'\<rparr>)
           | (Inr h, w') \<Rightarrow> (None, l\<lparr>il_listener := Some h, il_os := w'\<rparr>)))"

definition ipc_Listen :: "('a, 'h, 'c, 'o) unixlib \<Rightarrow> ('a, 'h, 'o) ipcListener \<Rightarrow> err option \<times> ('a, 'h, 'o) ipcListener" where
  "ipc_Listen lib l = (case ipc_Listen_check l of Some e \<Rightarrow> (Some e, l) | None \<Rightarrow> ipc_Listen_bind lib l)"

definition ipc_Accept ::
    "('a, 'h, 'c, 'o) unixlib \<Rightarrow> ('a, 'h, 'o) ipcListener \<Rightarrow> ((unit, 'c) connection outcome \<times> ('a, 'h, 'o) ipcListener) option" where
  "ipc_Accept lib l =
     (if il_closedq l then Some (Error ErrClosed, l)
      else case il_listener l of
             None \<Rightarrow> Some (Error ErrBadOperateState, l)
           | Some h \<Rightarrow>
               (case n_Accept lib h (il_os l) of
                  None \<Rightarrow> None
                | Some (Inr nc, w) \<Rightarrow> Some (Ok (NewConnection ipcTran nc True), l\<lparr>il_os := w\<rparr>)
                | Some (Inl e, w) \<Rightarrow> Some (Error e, l\<lparr>il_os := w\<rparr>)))"

definition ipc_Close_mark :: "('a, 'h, 'o) ipcListener \<Rightarrow> err option \<times> ('a, 'h, 'o) ipcListener" where
  "ipc_Close_mark l = (if il_closedq l then (Some ErrClosed, l) else (None, l\<lparr>il_closedq := True\<rparr>))"

definition ipc_Close_release :: "('a, 'h, 'c, 'o) unixlib \<Rightarrow> ('a, 'h, 'o) ipcListener \<Rightarrow> err option \<times> ('a, 'h, 'o) ipcListener" where
  "ipc_Close_release lib l =
     (case il_listener l of
        None \<Rightarrow> (None, l)
      | Some h \<Rightarrow> (case n_CloseL lib h (il_os l) of (e, w) \<Rightarrow> (e, l\<lparr>il_os := w\<rparr>)))"

definition ipc_Close :: "('a, 'h, 'c, 'o) unixlib \<Rightarrow> ('a, 'h, 'o) ipcListener \<Rightarrow> err option \<times> ('a, 'h, 'o) ipcListener" where
  "ipc_Close lib l =
     (case ipc_Close_mark l of (Some e, l') \<Rightarrow> (Some e, l') | (None, l') \<Rightarrow> ipc_Close_release lib l')"

definition ipc_NewDialer :: "(string \<Rightarrow> 'a outcome) \<Rightarrow> string \<Rightarrow> 'a outcome" where
  "ipc_NewDialer resolve address =
     (case StripScheme address of Ok s \<Rightarrow> resolve s | Error e \<Rightarrow> Error e | Panic \<Rightarrow> Panic)"

definition ipc_NewListener :: "(string \<Rightarrow> 'a outcome) \<Rightarrow> string \<Rightarrow> 'o \<Rightarrow> ('a, 'h, 'o) ipcListener outcome" where
  "ipc_NewListener resolve address w =
     (case StripScheme address of
        Ok s \<Rightarrow>
          (case resolve s of
             Ok ad \<Rightarrow> Ok \<lparr>il_addr = ad, il_listener = None, il_closedq = False, il_os = w\<rparr>
           | Error e \<Rightarrow> Error e
           | Panic \<Rightarrow> Panic)
      | Error e \<Rightarrow> Error e
      | Panic \<Rightarrow> Panic)"

section \<open>The configuration of a TCP connection\<close>

text \<open>What the options ask for, in the order of the calls, and a run of calls that stops at the first error.\<close>

definition opt_value :: "oheap \<Rightarrow> nat \<Rightarrow> opt \<Rightarrow> optval option" where
  "opt_value H a o1 = (case GetOption (Suc a) H a o1 of Some r \<Rightarrow> r | None \<Rightarrow> None)"

definition tcp_settings :: "oheap \<Rightarrow> nat \<Rightarrow> setting list" where
  "tcp_settings H a =
     (case opt_value H a Opt_NoDelay of Some (VBool b) \<Rightarrow> [SetNoDelay b] | _ \<Rightarrow> []) @
     (case opt_value H a Opt_KeepAlive of
        Some (VBool b) \<Rightarrow>
          SetKeepAlive b # (case opt_value H a Opt_KeepAlivePeriod of Some (VDuration n) \<Rightarrow> if b then [SetKeepAlivePeriod n] else [] | _ \<Rightarrow> [])
      | _ \<Rightarrow> []) @
     (case opt_value H a Opt_tcp_ReadBuffer of Some (VInt n) \<Rightarrow> [SetWriteBuffer n] | _ \<Rightarrow> []) @
     (case opt_value H a Opt_tcp_WriteBuffer of Some (VInt n) \<Rightarrow> [SetWriteBuffer n] | _ \<Rightarrow> [])"

fun run_settings :: "('a, 'h, 'c, 'o) netlib \<Rightarrow> 'c \<Rightarrow> setting list \<Rightarrow> 'o \<Rightarrow> unit outcome \<times> 'o" where
  "run_settings lib c [] w = (Ok (), w)"
| "run_settings lib c (s # ss) w = and_then (set_conn_opt lib c s w) (run_settings lib c ss)"

lemma and_then_Ok [simp]: "and_then (Ok (), w) k = k w"
  by (simp add: and_then_def)

lemma and_then_assoc: "and_then (and_then r f) g = and_then r (\<lambda>w. and_then (f w) g)"
  by (cases r; cases "fst r") (auto simp: and_then_def)

lemma and_then_unit [simp]: "and_then r (\<lambda>w. (Ok (), w)) = r"
  by (cases r; cases "fst r") (auto simp: and_then_def)

lemma run_settings_append: "run_settings lib c (ss @ ts) = (\<lambda>w. and_then (run_settings lib c ss w) (run_settings lib c ts))"
proof (induction ss)
  case (Cons s ss)
  show ?case unfolding append_Cons by (intro ext) (simp add: Cons.IH and_then_assoc)
qed (simp add: fun_eq_iff)

lemma run_none [simp]: "run_settings lib c [] = (\<lambda>w. (Ok (), w))"
  by (simp add: fun_eq_iff)

lemma opt_value_cases:
  assumes "heap_ok H" "a < length H"
  obtains (unset) "opt_value H a o1 = None" "\<And>(f :: optval \<Rightarrow> 'o \<Rightarrow> unit outcome \<times> 'o) w. if_option H a o1 f w = (Ok (), w)"
    | (set) v where "opt_value H a o1 = Some v" "has_kind (okind o1) v"
        "\<And>(f :: optval \<Rightarrow> 'o \<Rightarrow> unit outcome \<times> 'o) w. if_option H a o1 f w = f v w"
proof -
  obtain r where r: "GetOption (Suc a) H a o1 = Some r" using GetOption_returns [OF assms lessI] by auto
  show thesis
  proof (cases r)
    case None
    with r show thesis by (intro unset) (simp_all add: opt_value_def if_option_def del: GetOption.simps)
  next
    case (Some v)
    with r have "has_kind (okind o1) v" using GetOption_typed [OF assms(1)] by blast
    with r Some show thesis by (intro set [of v]) (simp_all add: opt_value_def if_option_def del: GetOption.simps)
  qed
qed

lemma set_kinds:
  "has_kind (okind Opt_NoDelay) v \<Longrightarrow> \<exists>b. v = VBool b" "has_kind (okind Opt_KeepAlive) v \<Longrightarrow> \<exists>b. v = VBool b"
  "has_kind (okind Opt_KeepAlivePeriod) v \<Longrightarrow> \<exists>n. v = VDuration n"
  "has_kind (okind Opt_tcp_ReadBuffer) v \<Longrightarrow> \<exists>n. v = VInt n" "has_kind (okind Opt_tcp_WriteBuffer) v \<Longrightarrow> \<exists>n. v = VInt n"
  by (cases v; simp add: tcp_option_defs option_constructors)+

lemma config_parts:
  fixes lib :: "('a, 'h, 'c, 'o) netlib"
  assumes "heap_ok H" "a < length H"
  shows "if_option H a Opt_NoDelay (with_bool (\<lambda>b. set_conn_opt lib c (SetNoDelay b))) w =
      run_settings lib c (case opt_value H a Opt_NoDelay of Some (VBool b) \<Rightarrow> [SetNoDelay b] | _ \<Rightarrow> []) w"
    and "if_option H a Opt_KeepAlivePeriod (with_duration (\<lambda>n. set_conn_opt lib c (SetKeepAlivePeriod n))) w =
      run_settings lib c (case opt_value H a Opt_KeepAlivePeriod of Some (VDuration n) \<Rightarrow> [SetKeepAlivePeriod n] | _ \<Rightarrow> []) w"
    and "if_option H a Opt_tcp_ReadBuffer (with_int (\<lambda>n. set_conn_opt lib c (SetWriteBuffer n))) w =
      run_settings lib c (case opt_value H a Opt_tcp_ReadBuffer of Some (VInt n) \<Rightarrow> [SetWriteBuffer n] | _ \<Rightarrow> []) w"
    and "if_option H a Opt_tcp_WriteBuffer (with_int (\<lambda>n. set_conn_opt lib c (SetWriteBuffer n))) w =
      run_settings lib c (case opt_value H a Opt_tcp_WriteBuffer of Some (VInt n) \<Rightarrow> [SetWriteBuffer n] | _ \<Rightarrow> []) w"
proof -
  note c = opt_value_cases [where 'o = 'o, OF assms]
  show "if_option H a Opt_NoDelay (with_bool (\<lambda>b. set_conn_opt lib c (SetNoDelay b))) w =
      run_settings lib c (case opt_value H a Opt_NoDelay of Some (VBool b) \<Rightarrow> [SetNoDelay b] | _ \<Rightarrow> []) w"
    by (rule c [of Opt_NoDelay]) (auto dest: set_kinds)
  show "if_option H a Opt_KeepAlivePeriod (with_duration (\<lambda>n. set_conn_opt lib c (SetKeepAlivePeriod n))) w =
      run_settings lib c (case opt_value H a Opt_KeepAlivePeriod of Some (VDuration n) \<Rightarrow> [SetKeepAlivePeriod n] | _ \<Rightarrow> []) w"
    by (rule c [of Opt_KeepAlivePeriod]) (auto dest: set_kinds)
  show "if_option H a Opt_tcp_ReadBuffer (with_int (\<lambda>n. set_conn_opt lib c (SetWriteBuffer n))) w =
      run_settings lib c (case opt_value H a Opt_tcp_ReadBuffer of Some (VInt n) \<Rightarrow> [SetWriteBuffer n] | _ \<Rightarrow> []) w"
    by (rule c [of Opt_tcp_ReadBuffer]) (auto dest: set_kinds)
  show "if_option H a Opt_tcp_WriteBuffer (with_int (\<lambda>n. set_conn_opt lib c (SetWriteBuffer n))) w =
      run_settings lib c (case opt_value H a Opt_tcp_WriteBuffer of Some (VInt n) \<Rightarrow> [SetWriteBuffer n] | _ \<Rightarrow> []) w"
    by (rule c [of Opt_tcp_WriteBuffer]) (auto dest: set_kinds)
qed

text \<open>
  \<open>configTCP\<close> makes exactly the calls that the options that are set ask for, in the order of the code, up to the first that
  fails; an option that is not set leaves the system's value alone. In particular no option ever sets the read buffer: the value
  of \<open>ReadBuffer\<close> is given to \<open>SetWriteBuffer\<close>, and stays there unless \<open>WriteBuffer\<close> is set too.
\<close>

theorem configTCP_settings:
  fixes lib :: "('a, 'h, 'c, 'o) netlib"
  assumes "heap_ok H" "a < length H"
  shows "configTCP lib c H a w = run_settings lib c (tcp_settings H a) w \<and> SetReadBuffer n \<notin> set (tcp_settings H a)"
proof -
  let ?period = "if_option H a Opt_KeepAlivePeriod (with_duration (\<lambda>n. set_conn_opt lib c (SetKeepAlivePeriod n)))"
  let ?ss = "\<lambda>b. case opt_value H a Opt_KeepAlivePeriod of Some (VDuration n) \<Rightarrow> if b then [SetKeepAlivePeriod n] else [] | _ \<Rightarrow> []"
  have period: "(if b then ?period w else (Ok (), w)) = run_settings lib c (?ss b) w" for b w
    by (cases b) (simp_all add: config_parts [OF assms] split: option.split optval.split)
  have alive: "if_option H a Opt_KeepAlive (with_bool (\<lambda>b w. and_then (set_conn_opt lib c (SetKeepAlive b) w)
        (\<lambda>w'. if b then ?period w' else (Ok (), w')))) w =
      run_settings lib c (case opt_value H a Opt_KeepAlive of Some (VBool b) \<Rightarrow> SetKeepAlive b # ?ss b | _ \<Rightarrow> []) w" for w
    unfolding period by (rule opt_value_cases [where 'o = 'o, OF assms, of Opt_KeepAlive]) (auto dest: set_kinds)
  have "configTCP lib c H a w = run_settings lib c (tcp_settings H a) w"
    unfolding configTCP_def tcp_settings_def run_settings_append alive config_parts(1,3,4) [OF assms] by (rule refl)
  moreover have "SetReadBuffer n \<notin> set (tcp_settings H a)" by (auto simp: tcp_settings_def split: option.splits optval.splits if_splits)
  ultimately show ?thesis ..
qed

section \<open>The contract of the listeners\<close>

text \<open>What the state is after a call of a listener; one that waits changes nothing yet.\<close>

datatype lcall = CallListen | CallAccept | CallClose

fun net_call :: "('l \<Rightarrow> err option \<times> 'l) \<Rightarrow> ('l \<Rightarrow> ('x \<times> 'l) option) \<Rightarrow> ('l \<Rightarrow> err option \<times> 'l) \<Rightarrow> lcall \<Rightarrow> 'l \<Rightarrow> 'l" where
  "net_call li ac cl CallListen l = snd (li l)"
| "net_call li ac cl CallAccept l = (case ac l of None \<Rightarrow> l | Some (_, l') \<Rightarrow> l')"
| "net_call li ac cl CallClose l = snd (cl l)"

text \<open>
  \<open>Listen\<close> looks at \<open>closedq\<close> and then binds; \<open>Close\<close> closes \<open>closedq\<close> and then what is bound. A closed listener refuses
  every call.
\<close>

locale net_listener =
  fixes closedq :: "'l \<Rightarrow> bool"
    and handle :: "'l \<Rightarrow> 'h option"
    and check :: "'l \<Rightarrow> err option"
    and bind :: "'l \<Rightarrow> err option \<times> 'l"
    and Listen :: "'l \<Rightarrow> err option \<times> 'l"
    and Accept :: "'l \<Rightarrow> ('x outcome \<times> 'l) option"
    and mark :: "'l \<Rightarrow> err option \<times> 'l"
    and release :: "'l \<Rightarrow> err option \<times> 'l"
    and Close :: "'l \<Rightarrow> err option \<times> 'l"
  assumes Listen_sections: "Listen l = (case check l of Some e \<Rightarrow> (Some e, l) | None \<Rightarrow> bind l)"
    and Close_sections: "Close l = (case mark l of (Some e, l') \<Rightarrow> (Some e, l') | (None, l') \<Rightarrow> release l')"
    and check_closed: "check l = (if closedq l then Some ErrClosed else None)"
    and mark_closed: "closedq l \<Longrightarrow> mark l = (Some ErrClosed, l)"
    and mark_open: "\<not> closedq l \<Longrightarrow> \<exists>l'. mark l = (None, l') \<and> closedq l' \<and> handle l' = handle l"
    and bind_closedq: "closedq (snd (bind l)) = closedq l"
    and Accept_closed: "closedq l \<Longrightarrow> Accept l = Some (Error ErrClosed, l)"
    and release_unbound: "handle l = None \<Longrightarrow> release l = (None, l)"
begin

lemma closed_call: "closedq l \<Longrightarrow> net_call Listen Accept Close c l = l"
  by (cases c) (simp_all add: Listen_sections Close_sections check_closed mark_closed Accept_closed)

lemma closed_calls: "closedq l \<Longrightarrow> fold (net_call Listen Accept Close) cs l = l"
  by (induction cs) (simp_all add: closed_call)

text \<open>A \<open>Close\<close> between the two halves of \<open>Listen\<close> finds nothing to close, and what is bound then stays.\<close>

lemma close_inside_listen:
  assumes "\<not> closedq l" "handle l = None"
  obtains l1 where "check l = None" "Close l = (None, l1)" "mark l = (None, l1)" "closedq l1"
    "\<forall>cs. fold (net_call Listen Accept Close) cs (snd (bind l1)) = snd (bind l1)"
proof -
  obtain l1 where l1: "mark l = (None, l1)" "closedq l1" "handle l1 = None" using mark_open [OF assms(1)] assms(2) by auto
  have "closedq (snd (bind l1))" by (simp add: bind_closedq l1(2))
  with closed_calls have "\<forall>cs. fold (net_call Listen Accept Close) cs (snd (bind l1)) = snd (bind l1)" by blast
  from that [OF _ _ l1(1,2) this] assms l1 show thesis by (simp add: check_closed Close_sections release_unbound)
qed

end

interpretation tl: net_listener tl_closedq tl_listener tcp_Listen_check "tcp_Listen_bind lib" "tcp_Listen lib" "tcp_Accept lib H a"
  tcp_Close_mark "tcp_Close_release lib" "tcp_Close lib"
  for lib :: "('a, 'h, 'c, 'o) netlib" and H a
  by unfold_locales (auto simp: tcp_Listen_def tcp_Close_def tcp_Listen_check_def tcp_Close_mark_def tcp_Listen_bind_def
    tcp_Accept_def tcp_Close_release_def split: prod.split sum.split)

interpretation il: net_listener il_closedq il_listener ipc_Listen_check "ipc_Listen_bind lib" "ipc_Listen lib" "ipc_Accept lib"
  ipc_Close_mark "ipc_Close_release lib" "ipc_Close lib"
  for lib :: "('a, 'h, 'c, 'o) unixlib"
  by unfold_locales (auto simp: ipc_Listen_def ipc_Close_def ipc_Listen_check_def ipc_Close_mark_def ipc_Listen_bind_def
    ipc_Accept_def ipc_Close_release_def split: prod.split sum.split option.split)

section \<open>Properties\<close>

text \<open>
  A \<open>Close\<close> that runs while \<open>Listen\<close> is between its look at \<open>closedq\<close> and the binding leaves the port bound for ever: \<open>Close\<close>
  returns without an error and closes nothing, \<open>Listen\<close> binds, and no later call on the listener changes anything.
\<close>

theorem tcp_Listen_Close_race:
  assumes "\<not> tl_closedq l" "tl_listener l = None" "n_Listen lib (tl_addr l) (tl_os l) = (Inr h, w)"
  shows "\<exists>l1 l2. tcp_Listen_check l = None \<and> tcp_Close lib l = (None, l1) \<and> tcp_Listen_bind lib l1 = (None, l2) \<and>
    tl_listener l2 = Some h \<and> tl_os l2 = w \<and>
    (\<forall>cs. fold (net_call (tcp_Listen lib) (tcp_Accept lib H a) (tcp_Close lib)) cs l2 = l2)"
proof -
  obtain l1 where l1: "tcp_Listen_check l = None" "tcp_Close lib l = (None, l1)" "tcp_Close_mark l = (None, l1)" "tl_closedq l1"
    "\<forall>cs. fold (net_call (tcp_Listen lib) (tcp_Accept lib H a) (tcp_Close lib)) cs (snd (tcp_Listen_bind lib l1)) = snd (tcp_Listen_bind lib l1)"
    by (rule tl.close_inside_listen [OF assms(1,2), of lib H a])
  let ?l2 = "l1\<lparr>tl_listener := Some h, tl_bound := Some (n_Addr lib h), tl_os := w\<rparr>"
  have "l1 = l\<lparr>tl_closedq := True\<rparr>" using l1(3) assms(1) by (simp add: tcp_Close_mark_def)
  then have b: "tcp_Listen_bind lib l1 = (None, ?l2)" using assms(3) by (simp add: tcp_Listen_bind_def)
  show ?thesis by (rule exI [of _ l1], rule exI [of _ ?l2]) (use l1 b in simp)
qed

text \<open>The same for a Unix socket.\<close>

theorem ipc_Listen_Close_race:
  assumes "\<not> il_closedq l" "il_listener l = None" "ipc_clear_path lib (u_String lib (il_addr l)) (il_os l) = (None, w1)"
    "n_Listen lib (il_addr l) w1 = (Inr h, w)"
  shows "\<exists>l1 l2. ipc_Listen_check l = None \<and> ipc_Close lib l = (None, l1) \<and> ipc_Listen_bind lib l1 = (None, l2) \<and>
    il_listener l2 = Some h \<and> il_os l2 = w \<and> (\<forall>cs. fold (net_call (ipc_Listen lib) (ipc_Accept lib) (ipc_Close lib)) cs l2 = l2)"
proof -
  obtain l1 where l1: "ipc_Listen_check l = None" "ipc_Close lib l = (None, l1)" "ipc_Close_mark l = (None, l1)" "il_closedq l1"
    "\<forall>cs. fold (net_call (ipc_Listen lib) (ipc_Accept lib) (ipc_Close lib)) cs (snd (ipc_Listen_bind lib l1)) = snd (ipc_Listen_bind lib l1)"
    by (rule il.close_inside_listen [OF assms(1,2), of lib])
  let ?l2 = "l1\<lparr>il_listener := Some h, il_os := w\<rparr>"
  have "l1 = l\<lparr>il_closedq := True\<rparr>" using l1(3) assms(1) by (simp add: ipc_Close_mark_def)
  then have b: "ipc_Listen_bind lib l1 = (None, ?l2)" using assms(3,4) by (simp add: ipc_Listen_bind_def)
  show ?thesis by (rule exI [of _ l1], rule exI [of _ ?l2]) (use l1 b in simp)
qed

text \<open>
  A second \<open>Listen\<close> that fails, because the port is taken by the first, loses the listener: the pointer is overwritten with nil, so
  \<open>Accept\<close> reports a bad state and \<open>Close\<close> returns without closing the port.
\<close>

theorem second_Listen_loses_listener:
  assumes "\<not> tl_closedq l" "tl_listener l = Some h" "n_Listen lib (tl_addr l) (tl_os l) = (Inl e, tl_os l)" "tcp_Listen lib l = (r, l')"
  shows "r = Some e \<and> tl_listener l' = None \<and> tcp_Accept lib H a l' = Some (Error ErrBadOperateState, l') \<and>
    tcp_Close lib l' = (None, l'\<lparr>tl_closedq := True\<rparr>) \<and> tl_os l' = tl_os l"
proof -
  have r: "r = Some e" and l': "l' = l\<lparr>tl_listener := None\<rparr>"
    using assms by (auto simp: tcp_Listen_def tcp_Listen_check_def tcp_Listen_bind_def)
  have "\<not> tl_closedq l'" "tl_listener l' = None" using assms(1) l' by simp_all
  then have "tcp_Accept lib H a l' = Some (Error ErrBadOperateState, l')" "tcp_Close lib l' = (None, l'\<lparr>tl_closedq := True\<rparr>)"
    by (simp_all add: tcp_Accept_def tcp_Close_def tcp_Close_mark_def tcp_Close_release_def)
  with r l' show ?thesis by simp
qed

text \<open>
  C26: \<open>Listen\<close> on a Unix address clears the way but deletes nothing else: if \<open>os.Stat\<close> tells sockets from other files, \<open>os.Remove\<close>
  removes only its argument and binding never replaces a file, then every file that is not a socket at the very path
  of the listener is still there afterwards, on every branch.
\<close>

theorem ipc_Listen_spares_files:
  assumes stat: "\<And>p w b. u_Stat lib p w = Inr b \<Longrightarrow> \<exists>k. kind w p = Some k \<and> is_socket k = b"
    and remove: "\<And>p w q. q \<noteq> p \<Longrightarrow> kind (snd (u_Remove lib p w)) q = kind w q"
    and listen: "\<And>ad w q. kind w q \<noteq> None \<Longrightarrow> kind (snd (n_Listen lib ad w)) q = kind w q"
    and there: "kind (il_os l) q = Some k" "q \<noteq> u_String lib (il_addr l) \<or> \<not> is_socket k"
  shows "kind (il_os (snd (ipc_Listen lib l))) q = Some k"
proof -
  let ?p = "u_String lib (il_addr l)" and ?w = "il_os l"
  have clear: "kind (snd (ipc_clear_path lib ?p ?w)) q = Some k"
  proof (cases "u_Stat lib ?p ?w")
    case (Inr b)
    show ?thesis
    proof (cases b)
      case True
      with stat [OF Inr] there have "q \<noteq> ?p" by auto
      from remove [OF this, of ?w] there(1) True Inr show ?thesis by (auto simp: ipc_clear_path_def split: prod.splits option.splits)
    qed (use Inr there(1) in \<open>simp add: ipc_clear_path_def\<close>)
  qed (use there(1) in \<open>simp add: ipc_clear_path_def\<close>)
  obtain r w where c: "ipc_clear_path lib ?p ?w = (r, w)" by fastforce
  obtain x w' where n: "n_Listen lib (il_addr l) w = (x, w')" by fastforce
  have "kind w q = Some k" "kind w' q = Some k" using clear c n listen [of w q "il_addr l"] by auto
  with c n there(1) show ?thesis by (auto simp: ipc_Listen_def ipc_Listen_bind_def split: option.split sum.split)
qed

section \<open>Witnesses\<close>

text \<open>A system whose state is its files, \<open>True\<close> for a socket; a listener is known by its path.\<close>

definition demo_unix :: "(string, string, unit, string \<Rightarrow> bool option) unixlib" where
  "demo_unix =
     \<lparr>n_Dial = (\<lambda>_ w. (Inl ErrConnRefused, w)),
      n_Listen = (\<lambda>p w. if w p = None then (Inr p, w(p \<mapsto> True)) else (Inl ErrAddrInUse, w)),
      n_Addr = (\<lambda>p. p), n_Accept = (\<lambda>_ _. None), n_CloseL = (\<lambda>p w. (None, w(p := None))), n_CloseC = (\<lambda>_ w. w),
      n_Set = (\<lambda>_ _ w. (None, w)), u_String = (\<lambda>p. p),
      u_Stat = (\<lambda>p w. case w p of None \<Rightarrow> Inl ErrNotListening | Some b \<Rightarrow> Inr b), u_IsNotExist = (\<lambda>e. e = ErrNotListening),
      u_Remove = (\<lambda>p w. (None, w(p := None)))\<rparr>"

abbreviation demo_net :: "(string, string, unit, string \<Rightarrow> bool option) netlib" where
  "demo_net \<equiv> netlib.truncate demo_unix"

definition demo_ipc :: "(string \<Rightarrow> bool option) \<Rightarrow> (string, string, string \<Rightarrow> bool option) ipcListener" where
  "demo_ipc w = \<lparr>il_addr = ''a'', il_listener = None, il_closedq = False, il_os = w\<rparr>"

definition demo_tcp :: "string option \<Rightarrow> (string \<Rightarrow> bool option) \<Rightarrow> (string, string, string \<Rightarrow> bool option) tcpListener" where
  "demo_tcp h w = \<lparr>tl_addr = ''a'', tl_bound = None, tl_listener = h, tl_closedq = False, tl_os = w\<rparr>"

lemma demo_net_simps [simp]:
  "n_Listen demo_net p w = (if w p = None then (Inr p, w(p \<mapsto> True)) else (Inl ErrAddrInUse, w))"
  by (simp add: netlib.truncate_def demo_unix_def)

theorem configTCP_settings_witness:
  "configTCP demo_net () [empty_options] 0 Map.empty = run_settings demo_net () (tcp_settings [empty_options] 0) Map.empty"
proof -
  have "heap_ok [empty_options]" by (simp add: heap_ok_def refs_ok_def typed_def empty_options_def)
  from configTCP_settings [OF this, of 0 demo_net "()" Map.empty] show ?thesis by simp
qed

theorem tcp_Listen_Close_race_witness:
  "\<exists>l1 l2. tcp_Close demo_net (demo_tcp None Map.empty) = (None, l1) \<and> tcp_Listen_bind demo_net l1 = (None, l2) \<and>
    tl_os l2 ''a'' = Some True \<and> tl_os (snd (tcp_Close demo_net l2)) ''a'' = Some True"
proof -
  obtain l1 l2 where l: "tcp_Close demo_net (demo_tcp None Map.empty) = (None, l1)" "tcp_Listen_bind demo_net l1 = (None, l2)"
    "tl_os l2 = [''a'' \<mapsto> True]" "\<forall>cs. fold (net_call (tcp_Listen demo_net) (tcp_Accept demo_net [] 0) (tcp_Close demo_net)) cs l2 = l2"
    using tcp_Listen_Close_race [of "demo_tcp None Map.empty" demo_net "''a''" "[''a'' \<mapsto> True]" "[]" 0]
    by (auto simp: demo_tcp_def)
  from spec [OF l(4), of "[CallClose]"] have "snd (tcp_Close demo_net l2) = l2" by simp
  with l show ?thesis by simp
qed

theorem ipc_Listen_Close_race_witness:
  "\<exists>l1 l2. ipc_Close demo_unix (demo_ipc Map.empty) = (None, l1) \<and> ipc_Listen_bind demo_unix l1 = (None, l2) \<and> il_os l2 ''a'' = Some True"
  using ipc_Listen_Close_race [of "demo_ipc Map.empty" demo_unix Map.empty "''a''" "[''a'' \<mapsto> True]"]
  by (auto simp: demo_ipc_def demo_unix_def ipc_clear_path_def)

theorem second_Listen_loses_listener_witness:
  "\<exists>r l'. tcp_Listen demo_net (demo_tcp (Some ''a'') [''a'' \<mapsto> True]) = (r, l') \<and> r = Some ErrAddrInUse \<and> tl_listener l' = None"
proof -
  obtain r l' where "tcp_Listen demo_net (demo_tcp (Some ''a'') [''a'' \<mapsto> True]) = (r, l')" by fastforce
  moreover from second_Listen_loses_listener [OF _ _ _ this, of "''a''" ErrAddrInUse "[]" 0]
  have "r = Some ErrAddrInUse \<and> tl_listener l' = None" by (simp add: demo_tcp_def)
  ultimately show ?thesis by blast
qed

theorem ipc_Listen_spares_files_witness:
  "il_os (snd (ipc_Listen demo_unix (demo_ipc [''a'' \<mapsto> True, ''b'' \<mapsto> False]))) ''b'' = Some False"
  by (rule ipc_Listen_spares_files [where kind = "\<lambda>w. w" and is_socket = "\<lambda>b. b"]) (auto simp: demo_unix_def demo_ipc_def split: option.splits)

end
