(* ===== verification/Websockets.thy ===== *)
theory Websockets
  imports Pipe_Properties Transports
begin

text \<open>
  The connections of the websocket transport, \<open>transport/ws/ws.go\<close> and \<open>transport/ws/options.go\<close>: a websocket read as a byte
  stream or by whole packets, dialling and the addresses. The websocket itself is the package gorilla/websocket, here a
  record of its functions on its state; \<open>None\<close> means that a call waits. The listener is in \<open>Ws_Listeners\<close>.
\<close>

section \<open>Options\<close>

definition Opt_ReadBufferSize :: opt where "Opt_ReadBufferSize = NewIntOption 24 4096"
definition Opt_WriteBufferSize :: opt where "Opt_WriteBufferSize = NewIntOption 25 4096"
definition Opt_CheckOrigin :: opt where "Opt_CheckOrigin = NewBoolOption 26 False"
definition Opt_OriginChecker :: opt where "Opt_OriginChecker = NewAnyOption 27 (VOther 0)"
definition Opt_ExternalListen :: opt where "Opt_ExternalListen = NewBoolOption 28 False"
definition Opt_PendingSize :: opt where "Opt_PendingSize = NewIntOption 29 16"

definition wsListenerOptions :: soptions where
  "wsListenerOptions = SStruct
     [(''CheckOrigin'', SOpt Opt_CheckOrigin), (''OriginChecker'', SOpt Opt_OriginChecker),
      (''ExternalListen'', SOpt Opt_ExternalListen), (''PendingSize'', SOpt Opt_PendingSize)]"

definition wsOptions :: soptions where
  "wsOptions = SStruct
     [(''ReadBufferSize'', SOpt Opt_ReadBufferSize), (''WriteBufferSize'', SOpt Opt_WriteBufferSize), (''Listener'', wsListenerOptions)]"

lemmas ws_option_defs = Opt_ReadBufferSize_def Opt_WriteBufferSize_def Opt_CheckOrigin_def Opt_OriginChecker_def
  Opt_ExternalListen_def Opt_PendingSize_def

section \<open>Websockets\<close>

text \<open>
  \<open>NextReader\<close> skips what is left of the current message and waits for the next one; \<open>g_Read\<close> is \<open>Read\<close> on the reader it returned.
\<close>

record 'g wslib =
  g_NextReader :: "'g \<Rightarrow> (err option \<times> 'g) option"
  g_Read :: "nat \<Rightarrow> 'g \<Rightarrow> ((bytes \<times> err option) \<times> 'g) option"
  g_WriteMessage :: "nat \<Rightarrow> bytes \<Rightarrow> 'g \<Rightarrow> (err option \<times> 'g) option"
  g_Close :: "'g \<Rightarrow> 'g"
  g_Subprotocol :: "'g \<Rightarrow> string"
  g_LocalAddr :: "'g \<Rightarrow> Address"
  g_RemoteAddr :: "'g \<Rightarrow> Address"

text \<open>\<open>wc_r\<close> says whether the field \<open>r\<close> is set.\<close>

record 'g wsConn =
  wc_ws :: 'g
  wc_laddr :: Address
  wc_raddr :: Address
  wc_r :: bool
  wc_dtype :: nat

text \<open>\<open>if c.r == nil\<close>: the next message; an error leaves \<open>r\<close> nil.\<close>

definition ws_next :: "'g wslib \<Rightarrow> ('g, 'z) wsConn_scheme \<Rightarrow> (err option \<times> ('g, 'z) wsConn_scheme) option" where
  "ws_next lib c =
     (if wc_r c then Some (None, c)
      else case g_NextReader lib (wc_ws c) of
             None \<Rightarrow> None
           | Some (e, g) \<Rightarrow> Some (e, c\<lparr>wc_ws := g, wc_r := (e = None)\<rparr>))"

partial_function (option) ws_Read ::
    "'g wslib \<Rightarrow> nat \<Rightarrow> ('g, 'z) wsConn_scheme \<Rightarrow> ((bytes \<times> err option) \<times> ('g, 'z) wsConn_scheme) option" where
  "ws_Read lib n c =
     (case ws_next lib c of
        None \<Rightarrow> None
      | Some (Some e, c1) \<Rightarrow> Some (([], Some e), c1)
      | Some (None, c1) \<Rightarrow>
          (case g_Read lib n (wc_ws c1) of
             None \<Rightarrow> None
           | Some ((b, e), g) \<Rightarrow>
               if e = Some EOF
               then (if b = [] then ws_Read lib n (c1\<lparr>wc_ws := g, wc_r := False\<rparr>)
                     else Some ((b, None), c1\<lparr>wc_ws := g, wc_r := False\<rparr>))
               else Some ((b, e), c1\<lparr>wc_ws := g\<rparr>)))"

definition ws_Write :: "'g wslib \<Rightarrow> bytes \<Rightarrow> ('g, 'z) wsConn_scheme \<Rightarrow> ((nat \<times> err option) \<times> ('g, 'z) wsConn_scheme) option" where
  "ws_Write lib b c =
     (case g_WriteMessage lib (wc_dtype c) b (wc_ws c) of
        None \<Rightarrow> None
      | Some (e, g) \<Rightarrow> Some ((length b, e), c\<lparr>wc_ws := g\<rparr>))"

definition ws_close :: "'g wslib \<Rightarrow> ('g, 'z) wsConn_scheme \<Rightarrow> ('g, 'z) wsConn_scheme" where
  "ws_close lib c = c\<lparr>wc_ws := g_Close lib (wc_ws c)\<rparr>"

definition ws_LocalAddr :: "('g, 'z) wsConn_scheme \<Rightarrow> Address" where "ws_LocalAddr c = wc_laddr c"
definition ws_RemoteAddr :: "('g, 'z) wsConn_scheme \<Rightarrow> Address" where "ws_RemoteAddr c = wc_raddr c"

section \<open>Whole packets\<close>

text \<open>
  The buffer of the last packet and the pool of buffers, each as its content. A buffer is emptied when it goes back to the
  pool. \<open>pick\<close> is what \<open>sync.Pool\<close> returns: a buffer of the pool or, for any other number, a new one.
\<close>

record 'g srWsConn = "'g wsConn" +
  wc_lastBuf :: "bytes option"
  wc_bufPool :: "bytes list"

definition bufPool_Get :: "nat \<Rightarrow> bytes list \<Rightarrow> bytes \<times> bytes list" where
  "bufPool_Get pick p = (if pick < length p then (p ! pick, take pick p @ drop (Suc pick) p) else ([], p))"

definition put_lastBuf :: "'g srWsConn \<Rightarrow> 'g srWsConn" where
  "put_lastBuf c =
     (case wc_lastBuf c of None \<Rightarrow> c | Some _ \<Rightarrow> c\<lparr>wc_bufPool := [] # wc_bufPool c, wc_lastBuf := None\<rparr>)"

text \<open>\<open>io.Copy\<close> into a buffer, by reads of \<open>n\<close> bytes, with the error it returns.\<close>

partial_function (option) copy_all :: "'g wslib \<Rightarrow> nat \<Rightarrow> bytes \<Rightarrow> 'g \<Rightarrow> ((bytes \<times> err option) \<times> 'g) option" where
  "copy_all lib n acc g =
     (case g_Read lib n g of
        None \<Rightarrow> None
      | Some ((b, None), g') \<Rightarrow> copy_all lib n (acc @ b) g'
      | Some ((b, Some e), g') \<Rightarrow> Some ((acc @ b, if e = EOF then None else Some e), g'))"


text \<open>The result of \<open>io.Copy\<close> is dropped.\<close>

definition ws_Recv :: "'g wslib \<Rightarrow> nat \<Rightarrow> nat \<Rightarrow> 'g srWsConn \<Rightarrow> ((bytes \<times> err option) \<times> 'g srWsConn) option" where
  "ws_Recv lib n pick c0 =
     (let c = put_lastBuf c0
      in case g_NextReader lib (wc_ws c) of
           None \<Rightarrow> None
         | Some (Some e, g) \<Rightarrow> Some (([], Some e), c\<lparr>wc_ws := g, wc_r := False\<rparr>)
         | Some (None, g) \<Rightarrow>
             (case bufPool_Get pick (wc_bufPool c) of
                (lastBuf, bufs) \<Rightarrow>
                  (case copy_all lib n lastBuf g of
                     None \<Rightarrow> None
                   | Some ((b, _), g') \<Rightarrow>
                       Some ((b, None), c\<lparr>wc_ws := g', wc_r := True, wc_lastBuf := Some b, wc_bufPool := bufs\<rparr>))))"

section \<open>Dialling\<close>

record wsTran =
  wt_scheme :: string
  wt_isSr :: bool
  wt_isRw :: bool

definition RwTransport :: wsTran where "RwTransport = \<lparr>wt_scheme = ''ws.rw'', wt_isSr = False, wt_isRw = True\<rparr>"
definition SrTransport :: wsTran where "SrTransport = \<lparr>wt_scheme = ''ws.sr'', wt_isSr = True, wt_isRw = False\<rparr>"

definition ws_transport :: "wsTran \<Rightarrow> wsTran transport" where
  "ws_transport t = \<lparr>Scheme = wt_scheme t, impl = t\<rparr>"

definition ws_init :: "wsTran transports \<Rightarrow> wsTran transports" where
  "ws_init ts =
     RegisterTransportWithScheme (ws_transport SrTransport) ''ws''
       (RegisterTransport (ws_transport SrTransport) (RegisterTransport (ws_transport RwTransport) ts))"

text \<open>The parts of a \<open>url.URL\<close> the code reads; \<open>url.Parse\<close> is an argument.\<close>

record URL =
  url_Scheme :: string
  url_Host :: string
  url_Path :: string

definition TrimSuffix :: "string \<Rightarrow> string \<Rightarrow> string" where
  "TrimSuffix s suf = (if suffix suf s then take (length s - length suf) s else s)"

definition parseAddressToURL :: "(string \<Rightarrow> URL outcome) \<Rightarrow> string \<Rightarrow> (URL \<times> string) outcome" where
  "parseAddressToURL parse address =
     (case StripScheme address of
        Ok ad \<Rightarrow> (case parse address of Ok u \<Rightarrow> Ok (u, ad) | Error e \<Rightarrow> Error e | Panic \<Rightarrow> Panic)
      | Error e \<Rightarrow> Error e
      | Panic \<Rightarrow> Panic)"

definition ws_url_scheme :: "wsTran \<Rightarrow> URL \<Rightarrow> URL" where
  "ws_url_scheme t u =
     (if wt_isSr t then u\<lparr>url_Scheme := TrimSuffix (url_Scheme u) ''.sr''\<rparr>
      else if wt_isRw t then u\<lparr>url_Scheme := TrimSuffix (url_Scheme u) ''.rw''\<rparr> else u)"

record wsDialer =
  wd_t :: wsTran
  wd_addr :: string
  wd_url :: URL

definition ws_NewDialer :: "(string \<Rightarrow> URL outcome) \<Rightarrow> wsTran \<Rightarrow> string \<Rightarrow> wsDialer outcome" where
  "ws_NewDialer parse t address =
     (case parseAddressToURL parse address of
        Ok (u, ad) \<Rightarrow> Ok \<lparr>wd_t = t, wd_addr = ad, wd_url = ws_url_scheme t u\<rparr>
      | Error e \<Rightarrow> Error e
      | Panic \<Rightarrow> Panic)"

definition dataTypes :: "string \<Rightarrow> nat option" where
  "dataTypes = [''multisocket.binary'' \<mapsto> 2, ''multisocket.text'' \<mapsto> 1]"

text \<open>
  \<open>websocket.Dialer.Dial\<close> with the sizes of the buffers is an argument. A new connection; the buffers of \<open>srWsConn\<close> are
  used only when the transport is \<open>SrTransport\<close>. A server that chose no known subprotocol is left: the second component of \<open>ws_Dial\<close> is the websocket that was closed.
\<close>

definition new_wsConn :: "'g \<Rightarrow> Address \<Rightarrow> Address \<Rightarrow> nat \<Rightarrow> 'g srWsConn" where
  "new_wsConn g la ra dt = \<lparr>wc_ws = g, wc_laddr = la, wc_raddr = ra, wc_r = False, wc_dtype = dt, wc_lastBuf = None, wc_bufPool = []\<rparr>"

definition opt_size :: "oheap \<Rightarrow> nat \<Rightarrow> opt \<Rightarrow> int option outcome" where
  "opt_size H a o1 =
     (case GetOption (Suc a) H a o1 of Some None \<Rightarrow> Ok None | Some (Some (VInt n)) \<Rightarrow> Ok (Some (sint n)) | _ \<Rightarrow> Panic)"

definition ws_Dial ::
    "'g wslib \<Rightarrow> (int option \<Rightarrow> int option \<Rightarrow> URL \<Rightarrow> 'o \<Rightarrow> (err + 'g) \<times> 'o) \<Rightarrow> wsDialer \<Rightarrow> oheap \<Rightarrow> nat \<Rightarrow> 'o \<Rightarrow>
       (wsTran, 'g srWsConn) connection outcome \<times> 'g option \<times> 'o" where
  "ws_Dial lib dial d H a w =
     (case (opt_size H a Opt_ReadBufferSize, opt_size H a Opt_WriteBufferSize) of
        (Ok rb, Ok wb) \<Rightarrow>
          (case dial rb wb (wd_url d) w of
             (Inl e, w') \<Rightarrow> (Error e, None, w')
           | (Inr g, w') \<Rightarrow>
               (case dataTypes (g_Subprotocol lib g) of
                  None \<Rightarrow> (Error ErrBadProtocol, Some (g_Close lib g), w')
                | Some dt \<Rightarrow>
                    (let c = new_wsConn g (g_LocalAddr lib g) (NewAddress (wt_scheme (wd_t d)) (wd_addr d)) dt
                     in (Ok (NewConnection (ws_transport RwTransport) \<lparr>LocalAddr = wc_laddr c, RemoteAddr = wc_raddr c, raw_conn = c\<rparr> False),
                         None, w'))))
      | _ \<Rightarrow> (Panic, None, w))"

section \<open>A websocket is a stream\<close>

text \<open>
  What the package documents, for an abstraction of its state: \<open>cur\<close> is what is unread of the current message, \<open>later\<close> are the
  messages after it that arrive, \<open>ended\<close> says that nothing follows them and \<open>end_err\<close> is the error reported then. A read
  returns a piece of the current message, possibly with \<open>io.EOF\<close> when that ends it. After \<open>Close\<close> nothing new arrives.
\<close>

definition reads_messages :: "'g wslib \<Rightarrow> ('g \<Rightarrow> bytes) \<Rightarrow> ('g \<Rightarrow> bytes list) \<Rightarrow> ('g \<Rightarrow> bool) \<Rightarrow> ('g \<Rightarrow> err) \<Rightarrow> bool" where
  "reads_messages lib cur later ended end_err \<longleftrightarrow>
     (\<forall>g m ms. later g = m # ms \<longrightarrow> (\<exists>g'. g_NextReader lib g = Some (None, g') \<and> cur g' = m \<and> later g' = ms \<and>
        ended g' = ended g \<and> end_err g' = end_err g)) \<and>
     (\<forall>g. later g = [] \<and> ended g \<longrightarrow> (\<exists>g'. g_NextReader lib g = Some (Some (end_err g), g') \<and> later g' = [] \<and> ended g')) \<and>
     (\<forall>g. later g = [] \<and> \<not> ended g \<longrightarrow> g_NextReader lib g = None) \<and>
     (\<forall>g n. 0 < n \<and> cur g \<noteq> [] \<longrightarrow> (\<exists>k e g'. 0 < k \<and> k \<le> n \<and> k \<le> length (cur g) \<and>
        g_Read lib n g = Some ((take k (cur g), e), g') \<and> cur g' = drop k (cur g) \<and> (e = None \<or> e = Some EOF \<and> cur g' = []) \<and>
        later g' = later g \<and> ended g' = ended g \<and> end_err g' = end_err g)) \<and>
     (\<forall>g n. 0 < n \<and> cur g = [] \<longrightarrow> (\<exists>g'. g_Read lib n g = Some (([], Some EOF), g') \<and> cur g' = [] \<and>
        later g' = later g \<and> ended g' = ended g \<and> end_err g' = end_err g)) \<and>
     (\<forall>g. ended (g_Close lib g) \<and> (cur g = [] \<longrightarrow> cur (g_Close lib g) = []) \<and>
        (concat (later g) = [] \<longrightarrow> concat (later (g_Close lib g)) = []))"

lemma reads_messagesD:
  assumes "reads_messages lib cur later ended end_err"
  shows "later g = m # ms \<Longrightarrow> \<exists>g'. g_NextReader lib g = Some (None, g') \<and> cur g' = m \<and> later g' = ms \<and>
        ended g' = ended g \<and> end_err g' = end_err g"
    and "later g = [] \<Longrightarrow> ended g \<Longrightarrow> \<exists>g'. g_NextReader lib g = Some (Some (end_err g), g') \<and> later g' = [] \<and> ended g'"
    and "later g = [] \<Longrightarrow> \<not> ended g \<Longrightarrow> g_NextReader lib g = None"
    and "0 < n \<Longrightarrow> cur g \<noteq> [] \<Longrightarrow> \<exists>k e g'. 0 < k \<and> k \<le> n \<and> k \<le> length (cur g) \<and>
        g_Read lib n g = Some ((take k (cur g), e), g') \<and> cur g' = drop k (cur g) \<and> (e = None \<or> e = Some EOF \<and> cur g' = []) \<and>
        later g' = later g \<and> ended g' = ended g \<and> end_err g' = end_err g"
    and "0 < n \<Longrightarrow> cur g = [] \<Longrightarrow> \<exists>g'. g_Read lib n g = Some (([], Some EOF), g') \<and> cur g' = [] \<and>
        later g' = later g \<and> ended g' = ended g \<and> end_err g' = end_err g"
    and "ended (g_Close lib g)" "cur g = [] \<Longrightarrow> cur (g_Close lib g) = []"
    and "concat (later g) = [] \<Longrightarrow> concat (later (g_Close lib g)) = []"
  using assms unfolding reads_messages_def by (safe; simp)+

definition ws_contents :: "('g \<Rightarrow> bytes) \<Rightarrow> ('g \<Rightarrow> bytes list) \<Rightarrow> ('g, 'z) wsConn_scheme \<Rightarrow> bytes" where
  "ws_contents cur later c = (if wc_r c then cur (wc_ws c) else []) @ concat (later (wc_ws c))"

text \<open>The result of a read, as the contract of a stream wants it.\<close>

definition ws_read_ok :: "'g wslib \<Rightarrow> ('g \<Rightarrow> bytes) \<Rightarrow> ('g \<Rightarrow> bytes list) \<Rightarrow> ('g \<Rightarrow> bool) \<Rightarrow> ('g \<Rightarrow> err) \<Rightarrow> nat \<Rightarrow> ('g, 'z) wsConn_scheme \<Rightarrow> bool" where
  "ws_read_ok lib cur later ended end_err n c \<longleftrightarrow>
     (let b = ws_contents cur later c
      in (b \<noteq> [] \<longrightarrow> (\<exists>k c'. 0 < k \<and> k \<le> n \<and> k \<le> length b \<and> ws_Read lib n c = Some ((take k b, None), c') \<and>
            ws_contents cur later c' = drop k b \<and> ended (wc_ws c') = ended (wc_ws c) \<and> end_err (wc_ws c') = end_err (wc_ws c))) \<and>
         (b = [] \<and> ended (wc_ws c) \<longrightarrow> (\<exists>c'. ws_Read lib n c = Some (([], Some (end_err (wc_ws c))), c') \<and>
            ws_contents cur later c' = [] \<and> ended (wc_ws c'))) \<and>
         (b = [] \<and> \<not> ended (wc_ws c) \<longrightarrow> ws_Read lib n c = None))"

lemma ws_read_ok_same:
  assumes "ws_read_ok lib cur later ended end_err n c1" "ws_Read lib n c = ws_Read lib n c1"
    "ws_contents cur later c = ws_contents cur later c1" "ended (wc_ws c) = ended (wc_ws c1)" "end_err (wc_ws c) = end_err (wc_ws c1)"
  shows "ws_read_ok lib cur later ended end_err n c"
  using assms by (simp add: ws_read_ok_def Let_def)

lemma ws_Read_some:
  assumes R: "reads_messages lib cur later ended end_err" and n: "0 < n" and r: "wc_r c" and b: "cur (wc_ws c) \<noteq> []"
  shows "ws_read_ok lib cur later ended end_err n c"
proof -
  let ?g = "wc_ws c"
  have nx: "ws_next lib c = Some (None, c)" using r by (simp add: ws_next_def)
  obtain k e g where g: "0 < k" "k \<le> n" "k \<le> length (cur ?g)" "g_Read lib n ?g = Some ((take k (cur ?g), e), g)"
    "cur g = drop k (cur ?g)" "e = None \<or> e = Some EOF \<and> cur g = []" "later g = later ?g" "ended g = ended ?g"
    "end_err g = end_err ?g" using reads_messagesD(4) [OF R n b] by blast
  let ?c1 = "c\<lparr>wc_ws := g, wc_r := (e = None)\<rparr>"
  have s: "ws_Read lib n c = Some ((take k (cur ?g), None), ?c1)"
    using g(1,3,6) b r by (subst ws_Read.simps) (auto simp: nx g(4))
  have "ws_contents cur later ?c1 = drop k (ws_contents cur later c)" "take k (cur ?g) = take k (ws_contents cur later c)"
    using g(3,5,6,7) r by (auto simp: ws_contents_def)
  moreover have l: "ws_contents cur later c \<noteq> []" "k \<le> length (ws_contents cur later c)"
    using b g(3) r by (simp_all add: ws_contents_def)
  ultimately have "\<exists>k c'. 0 < k \<and> k \<le> n \<and> k \<le> length (ws_contents cur later c) \<and>
      ws_Read lib n c = Some ((take k (ws_contents cur later c), None), c') \<and>
      ws_contents cur later c' = drop k (ws_contents cur later c) \<and> ended (wc_ws c') = ended (wc_ws c) \<and> end_err (wc_ws c') = end_err (wc_ws c)"
    using s g(1,2,8,9) by (intro exI [of _ k] exI [of _ ?c1]) simp
  with l(1) show ?thesis unfolding ws_read_ok_def Let_def by blast
qed

lemma ws_Read_end:
  assumes R: "reads_messages lib cur later ended end_err" and r: "\<not> wc_r c" and l: "later (wc_ws c) = []"
  shows "ws_read_ok lib cur later ended end_err n c"
proof -
  have c: "ws_contents cur later c = []" using r l by (simp add: ws_contents_def)
  show ?thesis
  proof (cases "ended (wc_ws c)")
    case True
    obtain g where g: "g_NextReader lib (wc_ws c) = Some (Some (end_err (wc_ws c)), g)" "later g = []" "ended g"
      using reads_messagesD(2) [OF R l True] by blast
    then have "ws_Read lib n c = Some (([], Some (end_err (wc_ws c))), c\<lparr>wc_ws := g, wc_r := False\<rparr>)"
      using r by (subst ws_Read.simps) (simp add: ws_next_def)
    with c True g show ?thesis by (simp add: ws_read_ok_def ws_contents_def)
  next
    case False
    have "ws_Read lib n c = None" using r reads_messagesD(3) [OF R l False] by (subst ws_Read.simps) (simp add: ws_next_def)
    with c False show ?thesis by (simp add: ws_read_ok_def)
  qed
qed

lemma ws_Read_ok:
  assumes R: "reads_messages lib cur later ended end_err" and n: "0 < n"
  shows "ws_read_ok lib cur later ended end_err n c"
proof (induction "2 * length (later (wc_ws c)) + (if wc_r c then 1 else 0)" arbitrary: c rule: less_induct)
  case less
  let ?g = "wc_ws c"
  note D = reads_messagesD [OF R]
  consider (used) "wc_r c" "cur ?g = []" | (some) "wc_r c" "cur ?g \<noteq> []"
    | (turn) m ms where "\<not> wc_r c" "later ?g = m # ms" | (ended_now) "\<not> wc_r c" "later ?g = []" by (cases "later ?g") auto
  then show ?case
  proof cases
    case used
    then have nx: "ws_next lib c = Some (None, c)" by (simp add: ws_next_def)
    obtain g where g: "g_Read lib n ?g = Some (([], Some EOF), g)" "cur g = []" "later g = later ?g" "ended g = ended ?g"
      "end_err g = end_err ?g" using D(5) [OF n used(2)] by blast
    let ?c1 = "c\<lparr>wc_ws := g, wc_r := False\<rparr>"
    have "ws_Read lib n c = ws_Read lib n ?c1" by (subst ws_Read.simps) (simp add: nx g(1))
    from ws_read_ok_same [OF less.hyps [of ?c1] this] used g show ?thesis by (simp add: ws_contents_def)
  next
    case (turn m ms)
    obtain g where g: "g_NextReader lib ?g = Some (None, g)" "cur g = m" "later g = ms" "ended g = ended ?g" "end_err g = end_err ?g"
      using D(1) [OF turn(2)] by blast
    let ?c1 = "c\<lparr>wc_ws := g, wc_r := True\<rparr>"
    have "ws_next lib c = ws_next lib ?c1" by (simp add: ws_next_def turn(1) g(1))
    then have "ws_Read lib n c = ws_Read lib n ?c1" by (subst (1 2) ws_Read.simps) simp
    from ws_read_ok_same [OF less.hyps [of ?c1] this] turn g show ?thesis by (simp add: ws_contents_def)
  qed (rule ws_Read_some [OF R n] ws_Read_end [OF R]; assumption)+
qed

text \<open>The connection of \<open>ws.rw\<close>, and the one of \<open>ws.sr\<close>, which is given to pipes under the same transport.\<close>

definition ws_rw_conn :: "'g wslib \<Rightarrow> 'g wsConn Connection" where
  "ws_rw_conn lib =
     \<lparr>cf_Scheme = wt_scheme RwTransport, cf_Read = ws_Read lib, cf_Write = (\<lambda>b. ws_Write lib (sdata b)),
      cf_Writev = writev_all (\<lambda>b. ws_Write lib (sdata b)), cf_Close = ws_close lib,
      cf_isSR = False, cf_Send = (\<lambda>_ _. None), cf_Recv = (\<lambda>_. None),
      cf_isMSR = False, cf_SendMsg = (\<lambda>_ _. None), cf_RecvMsg = (\<lambda>_. None)\<rparr>"


lemma ws_stream_conn:
  assumes R: "reads_messages lib cur later ended end_err"
  shows "stream_conn (ws_rw_conn lib) (ws_contents cur later) (\<lambda>c. ended (wc_ws c)) (\<lambda>c. end_err (wc_ws c)) (\<lambda>_. True)"
proof
  fix c :: "'a wsConn" and n :: nat
  assume n: "0 < n"
  note ok = ws_Read_ok [OF R n, of c, unfolded ws_read_ok_def Let_def]
  have rd: "cf_Read (ws_rw_conn lib) = ws_Read lib" by (simp add: ws_rw_conn_def)
  show "ws_contents cur later c \<noteq> [] \<Longrightarrow> \<exists>k c'. 0 < k \<and> k \<le> n \<and> k \<le> length (ws_contents cur later c) \<and>
      cf_Read (ws_rw_conn lib) n c = Some ((take k (ws_contents cur later c), None), c') \<and>
      ws_contents cur later c' = drop k (ws_contents cur later c) \<and>
      ended (wc_ws c') = ended (wc_ws c) \<and> end_err (wc_ws c') = end_err (wc_ws c) \<and> True"
    unfolding rd using ok by simp
  show "ws_contents cur later c = [] \<Longrightarrow> ended (wc_ws c) \<Longrightarrow>
      \<exists>c'. cf_Read (ws_rw_conn lib) n c = Some (([], Some (end_err (wc_ws c))), c') \<and> ws_contents cur later c' = [] \<and> ended (wc_ws c') \<and> True"
    unfolding rd using ok by simp
  show "ws_contents cur later c = [] \<Longrightarrow> \<not> ended (wc_ws c) \<Longrightarrow> cf_Read (ws_rw_conn lib) n c = None"
    unfolding rd using ok by simp
next
  fix c :: "'a wsConn"
  show "ws_contents cur later c = [] \<Longrightarrow> ws_contents cur later (cf_Close (ws_rw_conn lib) c) = [] \<and>
      ended (wc_ws (cf_Close (ws_rw_conn lib) c)) \<and> True"
    using reads_messagesD(6-8) [OF R, of "wc_ws c"] by (auto simp: ws_rw_conn_def ws_close_def ws_contents_def)
qed

section \<open>Sending and packets\<close>





definition bufs_empty :: "'g srWsConn \<Rightarrow> bool" where
  "bufs_empty c \<longleftrightarrow> (\<forall>b \<in> set (wc_bufPool c). b = [])"

lemma bufPool_Get_empty: "\<forall>b \<in> set p. b = [] \<Longrightarrow> bufPool_Get pick p = (b, p') \<Longrightarrow> b = [] \<and> (\<forall>b \<in> set p'. b = [])"
  by (auto simp: bufPool_Get_def split: if_splits) (metis in_set_takeD, metis in_set_dropD)




section \<open>Properties\<close>

text \<open>
  C13: A stream pipe over a websocket, whatever messages the other side cut its bytes into, empty ones included: once no more messages
  arrive, \<open>RecvMsg\<close> returns what \<open>NewMessageFromReader\<close> returns on the concatenation of what is left of them, and the call returns.
\<close>

theorem ws_pipe_refines:
  assumes "reads_messages lib cur later ended end_err" "pipe_ok (\<lambda>_. True) s" "pp_recvFunc (ps_pipe s) = FRecvStream"
    "ended (wc_ws (pp_conn (ps_pipe s)))"
  shows "\<exists>x s' rd' h'. pipe_RecvMsg (ws_rw_conn lib) remPipe pk s h = Some (msg_result x, s', h') \<and>
    NewMessageFromReader stream_rc pk (pp_id (ps_pipe s))
      (view (pipe_contents (ws_contents cur later)) (pipe_end (\<lambda>c. end_err (wc_ws c))) s) (pp_max (ps_pipe s)) h = Some (x, rd', h')"
  using stream_conn.recvMsg_ended [OF ws_stream_conn [OF assms(1)] assms(2,3)] assms(4) by (simp add: pipe_ended_def)


text \<open>
  A packet that breaks off is not noticed: when the reader fails in the middle of a message, \<open>Recv\<close> returns what came before as if
  it were the packet, without an error.
\<close>

theorem ws_Recv_hides_error:
  assumes "g_NextReader lib (wc_ws c) = Some (None, g)" "g_Read lib n g = Some ((b, Some e), g')" "bufs_empty c" "e \<noteq> EOF"
  shows "\<exists>c'. ws_Recv lib n pick c = Some ((b, None), c')"
proof -
  let ?c = "put_lastBuf c"
  have c: "wc_ws ?c = wc_ws c" "\<forall>b \<in> set (wc_bufPool ?c). b = []"
    using assms(3) by (auto simp: put_lastBuf_def bufs_empty_def split: option.split)
  obtain x p' where x: "bufPool_Get pick (wc_bufPool ?c) = (x, p')" by fastforce
  with bufPool_Get_empty [OF c(2)] have "x = []" by blast
  moreover have "copy_all lib n [] g = Some ((b, Some e), g')" using assms(2,4) by (subst copy_all.simps) simp
  ultimately show ?thesis using assms(1) x c(1) by (simp add: ws_Recv_def Let_def)
qed

text \<open>
  Addresses: for every address whose scheme the transport is registered under, the registry finds the right variant and the URL that is
  dialled has the plain scheme \<open>ws\<close>, provided \<open>url.Parse\<close> reports the scheme of what it parses.
\<close>

theorem ws_dials_plain_scheme:
  assumes "\<And>s u. parse s = Ok u \<Longrightarrow> url_Scheme u = ParseScheme s" and "ParseScheme address \<in> {''ws'', ''ws.sr'', ''ws.rw''}"
    and "GetTransportFromAddr address (ws_init ts) = Some t" "ws_NewDialer parse (impl t) address = Ok d"
  shows "wt_isSr (impl t) = (ParseScheme address \<noteq> ''ws.rw'') \<and> url_Scheme (wd_url d) = ''ws'' \<and> StripScheme address = Ok (wd_addr d)"
proof -
  have t: "impl t = (if ParseScheme address = ''ws.rw'' then RwTransport else SrTransport)"
    using assms(2,3) by (auto simp: GetTransportFromAddr_def GetTransport_def ws_init_def RegisterTransportWithScheme_def
      RegisterTransport_def ws_transport_def RwTransport_def SrTransport_def)
  from assms(4) obtain u where u: "parse address = Ok u" "wd_url d = ws_url_scheme (impl t) u" "StripScheme address = Ok (wd_addr d)"
    by (auto simp: ws_NewDialer_def parseAddressToURL_def split: outcome.splits)
  have "TrimSuffix ''ws'' ''.sr'' = ''ws''" "TrimSuffix ''ws.sr'' ''.sr'' = ''ws''" "TrimSuffix ''ws.rw'' ''.rw'' = ''ws''"
    by (simp_all add: TrimSuffix_def suffix_def Cons_eq_append_conv)
  with assms(1) [OF u(1)] assms(2) t u(2,3) show ?thesis by (auto simp: ws_url_scheme_def RwTransport_def SrTransport_def)
qed

section \<open>Witnesses\<close>

text \<open>A websocket as what has arrived and what was sent; a read returns as much of the message as asked for.\<close>

record demo_ws =
  dw_cur :: bytes
  dw_later :: "bytes list"
  dw_closed :: bool
  dw_sent :: "bytes list"

definition demo_lib :: "demo_ws wslib" where
  "demo_lib =
     \<lparr>g_NextReader = (\<lambda>g. case dw_later g of
          m # ms \<Rightarrow> Some (None, g\<lparr>dw_cur := m, dw_later := ms\<rparr>)
        | [] \<Rightarrow> if dw_closed g then Some (Some (OtherErr 0), g) else None),
      g_Read = (\<lambda>n g. if dw_cur g = [] then Some (([], Some EOF), g) else Some ((take n (dw_cur g), None), g\<lparr>dw_cur := drop n (dw_cur g)\<rparr>)),
      g_WriteMessage = (\<lambda>_ b g. Some (None, g\<lparr>dw_sent := dw_sent g @ [b]\<rparr>)), g_Close = (\<lambda>g. g\<lparr>dw_closed := True\<rparr>),
      g_Subprotocol = (\<lambda>_. ''multisocket.binary''), g_LocalAddr = (\<lambda>_. NewAddress [] []), g_RemoteAddr = (\<lambda>_. NewAddress [] [])\<rparr>"

lemma demo_lib_Read:
  assumes "0 < n" "dw_cur g \<noteq> []"
  shows "\<exists>k e g'. 0 < k \<and> k \<le> n \<and> k \<le> length (dw_cur g) \<and> g_Read demo_lib n g = Some ((take k (dw_cur g), e), g') \<and>
    dw_cur g' = drop k (dw_cur g) \<and> (e = None \<or> e = Some EOF \<and> dw_cur g' = []) \<and> dw_later g' = dw_later g \<and>
    dw_closed g' = dw_closed g \<and> OtherErr 0 = OtherErr 0"
proof (intro exI conjI)
  let ?k = "min n (length (dw_cur g))"
  show "0 < ?k" "?k \<le> n" "?k \<le> length (dw_cur g)" using assms by simp_all
  show "g_Read demo_lib n g = Some ((take ?k (dw_cur g), None), g\<lparr>dw_cur := drop n (dw_cur g)\<rparr>)" using assms by (simp add: demo_lib_def min_def)
qed (simp_all add: min_def)

lemma demo_lib_reads: "reads_messages demo_lib dw_cur dw_later dw_closed (\<lambda>_. OtherErr 0)"
  unfolding reads_messages_def by (intro conjI allI impI; (elim conjE)?; (rule demo_lib_Read, assumption, assumption)?) (simp_all add: demo_lib_def)


definition demo_wsConn :: "bytes list \<Rightarrow> bool \<Rightarrow> demo_ws srWsConn" where
  "demo_wsConn ms cl =
     new_wsConn \<lparr>dw_cur = [], dw_later = ms, dw_closed = cl, dw_sent = []\<rparr> (NewAddress [] []) (NewAddress [] []) 2"

definition demo_ws_pipe :: "'c \<Rightarrow> sendFunc \<Rightarrow> recvFunc \<Rightarrow> ('c, u32 list) pstate" where
  "demo_ws_pipe c sf rf =
     \<lparr>ps_pipe = (pipe_literal c True False 5 None None 0)\<lparr>pp_sendFunc := sf, pp_recvFunc := rf\<rparr>, ps_ids = NewRecyclableIDGenerator, ps_parent = []\<rparr>"

lemma demo_pipe_simps [simp]:
  "pp_sendFunc (ps_pipe (demo_ws_pipe c sf rf)) = sf" "pp_recvFunc (ps_pipe (demo_ws_pipe c sf rf)) = rf" "pp_conn (ps_pipe (demo_ws_pipe c sf rf)) = c"
  "pp_id (ps_pipe (demo_ws_pipe c sf rf)) = 5" "pp_max (ps_pipe (demo_ws_pipe c sf rf)) = 0" "pipe_ok (\<lambda>_. True) (demo_ws_pipe c sf rf)"
  "ahead (ps_pipe (demo_ws_pipe c sf rf)) = []"
  by (simp_all add: demo_ws_pipe_def pipe_literal_def pipe_ok_def ahead_def)

lemma demo_conn_simps [simp]:
  "dw_later (wc_ws (demo_wsConn ms cl)) = ms" "dw_closed (wc_ws (demo_wsConn ms cl)) = cl" "\<not> wc_r (demo_wsConn ms cl)" "bufs_empty (demo_wsConn ms cl)"
  "wc_ws (wsConn.truncate (demo_wsConn ms cl)) = wc_ws (demo_wsConn ms cl)" "\<not> wc_r (wsConn.truncate (demo_wsConn ms cl))"
  by (simp_all add: demo_wsConn_def new_wsConn_def bufs_empty_def wsConn.truncate_def)

theorem ws_pipe_refines_witness:
  "\<exists>x s' h'. pipe_RecvMsg (ws_rw_conn demo_lib) (\<lambda>i xs. i # xs) fresh_picks
     (demo_ws_pipe (wsConn.truncate (demo_wsConn [[1, 2], [], [3]] True)) FSendStream FRecvStream) init_mem = Some (msg_result x, s', h')"
  using ws_pipe_refines [OF demo_lib_reads, of "demo_ws_pipe (wsConn.truncate (demo_wsConn [[1, 2], [], [3]] True)) FSendStream FRecvStream"
      "\<lambda>i xs. i # xs" fresh_picks init_mem] by auto


text \<open>A reader that fails after two bytes.\<close>

theorem ws_Recv_hides_error_witness:
  "\<exists>c'. ws_Recv (demo_lib\<lparr>g_Read := (\<lambda>n g. Some (([1, 2], Some ErrUnexpectedEOF), g))\<rparr>) 512 0 (demo_wsConn [[1, 2, 3]] False) = Some (([1, 2], None), c')"
  by (rule ws_Recv_hides_error) (simp_all add: demo_lib_def, simp_all add: demo_wsConn_def new_wsConn_def)

theorem ws_dials_plain_scheme_witness:
  "\<exists>t d. GetTransportFromAddr ''ws.sr://h'' (ws_init Map.empty) = Some t \<and>
     ws_NewDialer (\<lambda>s. Ok \<lparr>url_Scheme = ParseScheme s, url_Host = [], url_Path = []\<rparr>) (impl t) ''ws.sr://h'' = Ok d \<and> url_Scheme (wd_url d) = ''ws''"
proof -
  let ?p = "\<lambda>s. Ok \<lparr>url_Scheme = ParseScheme s, url_Host = [], url_Path = []\<rparr>"
  have s: "ParseScheme ''ws.sr://h'' = ''ws.sr''" by (simp add: ParseScheme_def)
  then obtain t where t: "GetTransportFromAddr ''ws.sr://h'' (ws_init Map.empty) = Some t"
    by (auto simp: GetTransportFromAddr_def GetTransport_def ws_init_def RegisterTransportWithScheme_def RegisterTransport_def
      ws_transport_def RwTransport_def SrTransport_def)
  obtain d where d: "ws_NewDialer ?p (impl t) ''ws.sr://h'' = Ok d" by (simp add: ws_NewDialer_def parseAddressToURL_def StripScheme_def)
  from ws_dials_plain_scheme [OF _ _ t d] s t d show ?thesis by auto
qed

end
