(* ===== verification/Ws_Listeners.thy ===== *)
theory Ws_Listeners
  imports Websockets "HOL-Library.Multiset"
begin

text \<open>
  The listener of \<open>transport/ws/ws.go\<close>: requests that were upgraded to websockets are handed to \<open>Accept\<close> through the channel
  \<open>pending\<close>, while \<open>Listen\<close> and \<open>Close\<close> may run at any time. Every call in progress is an entry with a program counter, so that any
  interleaving is a sequence of steps; \<open>None\<close> means that the step is not enabled or panics. A websocket is known by the
  position of the request that made it.
\<close>

section \<open>State\<close>

datatype origin = OriginDefault | OriginAny | OriginChecker nat

record upgrader =
  up_ReadBufferSize :: "int option"
  up_WriteBufferSize :: "int option"
  up_CheckOrigin :: origin

text \<open>
  The calls. \<open>HUpgraded ok\<close> has a websocket, with a known subprotocol or not; \<open>HSend q\<close> sends on the channel that \<open>l.pending\<close> was, nil for
  \<open>None\<close>, and \<open>AcSelect q\<close> waits on it.
\<close>

datatype hpc = HUpgraded bool | HPush | HSend "nat option" | HEnd
datatype acpc = AcStart | AcSelect "nat option" | AcConn nat | AcErr err
datatype lspc = LsStart | LsChecked | LsMade | LsDone "err option"
datatype clpc = ClStart | ClListener | ClDrain | ClDone "err option"

text \<open>
  \<open>wl_chans\<close> are the channels made so far and \<open>wl_pending\<close> the current one; \<open>wl_listener\<close> says that the field \<open>listener\<close> is not
  the nil interface; \<open>wl_closed\<close> are the websockets that were closed here.
\<close>

record wsListener =
  wl_t :: wsTran
  wl_addr :: string
  wl_URL :: URL
  wl_upgrader :: upgrader
  wl_chans :: "nat chan list"
  wl_pending :: "nat option"
  wl_external :: bool
  wl_listener :: bool
  wl_closedq :: bool
  wl_handlers :: "hpc list"
  wl_accepts :: "acpc list"
  wl_listens :: "lspc list"
  wl_closes :: "clpc list"
  wl_closed :: "nat list"

definition ws_NewListener :: "(string \<Rightarrow> URL outcome) \<Rightarrow> wsTran \<Rightarrow> string \<Rightarrow> wsListener outcome" where
  "ws_NewListener parse t address =
     (case parseAddressToURL parse address of
        Ok (u, ad) \<Rightarrow>
          (let u' = ws_url_scheme t (if url_Path u = [] then u\<lparr>url_Path := ''/''\<rparr> else u)
           in Ok \<lparr>wl_t = t, wl_addr = ad, wl_URL = u', wl_upgrader = \<lparr>up_ReadBufferSize = None, up_WriteBufferSize = None, up_CheckOrigin = OriginDefault\<rparr>,
                  wl_chans = [], wl_pending = None, wl_external = False, wl_listener = False, wl_closedq = False,
                  wl_handlers = [], wl_accepts = [], wl_listens = [], wl_closes = [], wl_closed = []\<rparr>)
      | Error e \<Rightarrow> Error e
      | Panic \<Rightarrow> Panic)"

section \<open>Listen\<close>

text \<open>\<open>val.(CheckOriginFunc)\<close>; which values have that type is an argument.\<close>

definition set_checker :: "(nat \<Rightarrow> bool) \<Rightarrow> optval option option \<Rightarrow> upgrader \<Rightarrow> upgrader outcome" where
  "set_checker isChecker r u =
     (case r of
        Some None \<Rightarrow> Ok u
      | Some (Some (VOther k)) \<Rightarrow> if isChecker k then Ok (u\<lparr>up_CheckOrigin := OriginChecker k\<rparr>) else Panic
      | _ \<Rightarrow> Panic)"

definition config_origin :: "(nat \<Rightarrow> bool) \<Rightarrow> oheap \<Rightarrow> nat \<Rightarrow> upgrader \<Rightarrow> upgrader outcome" where
  "config_origin isChecker H a u =
     (case GetOption (Suc a) H a Opt_CheckOrigin of
        Some (Some (VBool checkOrigin)) \<Rightarrow>
          if checkOrigin
          then set_checker isChecker (GetOption (Suc a) H a Opt_OriginChecker) (u\<lparr>up_CheckOrigin := OriginDefault\<rparr>)
          else Ok (u\<lparr>up_CheckOrigin := OriginAny\<rparr>)
      | Some None \<Rightarrow> set_checker isChecker (GetOption (Suc a) H a Opt_OriginChecker) u
      | _ \<Rightarrow> Panic)"

definition config_upgrader :: "(nat \<Rightarrow> bool) \<Rightarrow> oheap \<Rightarrow> nat \<Rightarrow> upgrader \<Rightarrow> upgrader outcome" where
  "config_upgrader isChecker H a u =
     (case (opt_size H a Opt_ReadBufferSize, opt_size H a Opt_WriteBufferSize) of
        (Ok rb, Ok wb) \<Rightarrow>
          config_origin isChecker H a
            (u\<lparr>up_ReadBufferSize := (if rb = None then up_ReadBufferSize u else rb),
               up_WriteBufferSize := (if wb = None then up_WriteBufferSize u else wb)\<rparr>)
      | _ \<Rightarrow> Panic)"

text \<open>
  How resolving and binding the address ends. A failed \<open>net.ListenTCP\<close> stores a nil pointer in the interface \<open>listener\<close>, which is
  not nil then.
\<close>

datatype bind_result = Bound | NotResolved err | NotBound err

definition set_listen :: "nat \<Rightarrow> lspc \<Rightarrow> wsListener \<Rightarrow> wsListener" where
  "set_listen k pc l = l\<lparr>wl_listens := (wl_listens l)[k := pc]\<rparr>"

definition ws_listen_step :: "(nat \<Rightarrow> bool) \<Rightarrow> oheap \<Rightarrow> nat \<Rightarrow> bind_result \<Rightarrow> nat \<Rightarrow> wsListener \<Rightarrow> wsListener option" where
  "ws_listen_step isChecker H a bnd k l =
     (case wl_listens l ! k of
        LsStart \<Rightarrow> Some (set_listen k (if wl_closedq l then LsDone (Some ErrClosed) else LsChecked) l)
      | LsChecked \<Rightarrow>
          (case (value_int H a Opt_PendingSize, config_upgrader isChecker H a (wl_upgrader l)) of
             (Ok n, Ok u) \<Rightarrow>
               if n < 0 then None
               else Some (set_listen k LsMade
                 (l\<lparr>wl_chans := wl_chans l @ [make_chan (nat n)], wl_pending := Some (length (wl_chans l)), wl_upgrader := u\<rparr>))
           | _ \<Rightarrow> None)
      | LsMade \<Rightarrow>
          (case value_bool H a Opt_ExternalListen of
             Ok True \<Rightarrow> Some (set_listen k (LsDone None) (l\<lparr>wl_external := True\<rparr>))
           | Ok False \<Rightarrow>
               Some (case bnd of
                       NotResolved e \<Rightarrow> set_listen k (LsDone (Some e)) l
                     | NotBound e \<Rightarrow> set_listen k (LsDone (Some e)) (l\<lparr>wl_listener := True\<rparr>)
                     | Bound \<Rightarrow> set_listen k (LsDone None) (l\<lparr>wl_listener := True\<rparr>))
           | _ \<Rightarrow> None)
      | LsDone _ \<Rightarrow> None)"

section \<open>ServeHTTP, Accept and Close\<close>

definition set_handler :: "nat \<Rightarrow> hpc \<Rightarrow> wsListener \<Rightarrow> wsListener" where
  "set_handler i pc l = l\<lparr>wl_handlers := (wl_handlers l)[i := pc]\<rparr>"

definition close_conn :: "nat \<Rightarrow> wsListener \<Rightarrow> wsListener" where
  "close_conn i l = l\<lparr>wl_closed := i # wl_closed l\<rparr>"

definition ServeHTTP_step :: "nat \<Rightarrow> wsListener \<Rightarrow> wsListener option" where
  "ServeHTTP_step i l =
     (case wl_handlers l ! i of
        HUpgraded ok \<Rightarrow>
          Some (if wl_closedq l \<or> \<not> ok then set_handler i HEnd (close_conn i l) else set_handler i HPush l)
      | HPush \<Rightarrow> Some (set_handler i (HSend (wl_pending l)) l)
      | HSend (Some q) \<Rightarrow>
          if can_send (wl_chans l ! q)
          then Some (set_handler i HEnd (l\<lparr>wl_chans := (wl_chans l)[q := chan_send i (wl_chans l ! q)]\<rparr>))
          else None
      | _ \<Rightarrow> None)"

text \<open>
  A receive from channel \<open>q\<close>: the oldest websocket in the buffer or, when that is empty, the one of a handler that is sending.
\<close>

definition take_pending :: "nat option \<Rightarrow> nat option \<Rightarrow> wsListener \<Rightarrow> (nat \<times> wsListener) option" where
  "take_pending from q l =
     (case q of
        None \<Rightarrow> None
      | Some c \<Rightarrow>
          (case from of
             None \<Rightarrow>
               (case chan_recv (wl_chans l ! c) of
                  None \<Rightarrow> None
                | Some (i, ch) \<Rightarrow> Some (i, l\<lparr>wl_chans := (wl_chans l)[c := ch]\<rparr>))
           | Some i \<Rightarrow>
               if i < length (wl_handlers l) \<and> wl_handlers l ! i = HSend (Some c) \<and> chan_buf (wl_chans l ! c) = []
               then Some (i, set_handler i HEnd l) else None))"

datatype select = SelPending "nat option" | SelOther

definition set_accept :: "nat \<Rightarrow> acpc \<Rightarrow> wsListener \<Rightarrow> wsListener" where
  "set_accept k pc l = l\<lparr>wl_accepts := (wl_accepts l)[k := pc]\<rparr>"

definition ws_accept_step :: "select \<Rightarrow> nat \<Rightarrow> wsListener \<Rightarrow> wsListener option" where
  "ws_accept_step sel k l =
     (case wl_accepts l ! k of
        AcStart \<Rightarrow>
          Some (set_accept k (if \<not> wl_external l \<and> \<not> wl_listener l then AcErr ErrBadOperateState else AcSelect (wl_pending l)) l)
      | AcSelect q \<Rightarrow>
          (case sel of
             SelPending from \<Rightarrow> map_option (\<lambda>(i, l'). set_accept k (AcConn i) l') (take_pending from q l)
           | SelOther \<Rightarrow> if wl_closedq l then Some (set_accept k (AcErr ErrClosed) l) else None)
      | _ \<Rightarrow> None)"

definition set_close :: "nat \<Rightarrow> clpc \<Rightarrow> wsListener \<Rightarrow> wsListener" where
  "set_close k pc l = l\<lparr>wl_closes := (wl_closes l)[k := pc]\<rparr>"

text \<open>The \<open>default\<close> of the draining loop is taken when there is nothing in the buffer.\<close>

definition ws_close_step :: "select \<Rightarrow> nat \<Rightarrow> wsListener \<Rightarrow> wsListener option" where
  "ws_close_step sel k l =
     (case wl_closes l ! k of
        ClStart \<Rightarrow>
          Some (if wl_closedq l then set_close k (ClDone (Some ErrClosed)) l else set_close k ClListener (l\<lparr>wl_closedq := True\<rparr>))
      | ClListener \<Rightarrow> Some (set_close k ClDrain l)
      | ClDrain \<Rightarrow>
          (case sel of
             SelPending from \<Rightarrow> map_option (\<lambda>(i, l'). close_conn i l') (take_pending from (wl_pending l) l)
           | SelOther \<Rightarrow>
               (case wl_pending l of
                  None \<Rightarrow> Some (set_close k (ClDone None) l)
                | Some c \<Rightarrow> if chan_buf (wl_chans l ! c) = [] then Some (set_close k (ClDone None) l) else None))
      | ClDone _ \<Rightarrow> None)"

section \<open>Runs\<close>

inductive ws_step :: "(nat \<Rightarrow> bool) \<Rightarrow> wsListener \<Rightarrow> wsListener \<Rightarrow> bool" for isChecker where
  wt_upgrade: "ws_step isChecker l (l\<lparr>wl_handlers := wl_handlers l @ [HUpgraded ok]\<rparr>)"
| wt_Accept: "ws_step isChecker l (l\<lparr>wl_accepts := wl_accepts l @ [AcStart]\<rparr>)"
| wt_Listen: "ws_step isChecker l (l\<lparr>wl_listens := wl_listens l @ [LsStart]\<rparr>)"
| wt_Close: "ws_step isChecker l (l\<lparr>wl_closes := wl_closes l @ [ClStart]\<rparr>)"
| wt_handler: "i < length (wl_handlers l) \<Longrightarrow> ServeHTTP_step i l = Some l' \<Longrightarrow> ws_step isChecker l l'"
| wt_accept: "k < length (wl_accepts l) \<Longrightarrow> ws_accept_step sel k l = Some l' \<Longrightarrow> ws_step isChecker l l'"
| wt_listen: "k < length (wl_listens l) \<Longrightarrow> ws_listen_step isChecker H a bnd k l = Some l' \<Longrightarrow> ws_step isChecker l l'"
| wt_close: "k < length (wl_closes l) \<Longrightarrow> ws_close_step sel k l = Some l' \<Longrightarrow> ws_step isChecker l l'"

inductive ws_run :: "(nat \<Rightarrow> bool) \<Rightarrow> wsListener \<Rightarrow> wsListener \<Rightarrow> bool" for isChecker l0 where
  wr_refl: "ws_run isChecker l0 l0"
| wr_step: "ws_run isChecker l0 l \<Longrightarrow> ws_step isChecker l l' \<Longrightarrow> ws_run isChecker l0 l'"

section \<open>Where the websockets are\<close>

definition busy :: "hpc list \<Rightarrow> nat set" where
  "busy hs = {i. i < length hs \<and> hs ! i \<noteq> HEnd}"

fun taken :: "acpc \<Rightarrow> nat multiset" where
  "taken (AcConn i) = {#i#}"
| "taken _ = {#}"

definition in_handlers :: "wsListener \<Rightarrow> nat multiset" where "in_handlers l = mset_set (busy (wl_handlers l))"
definition in_chans :: "wsListener \<Rightarrow> nat multiset" where "in_chans l = sum_list (map (\<lambda>c. mset (chan_buf c)) (wl_chans l))"
definition accepted :: "wsListener \<Rightarrow> nat multiset" where "accepted l = sum_list (map taken (wl_accepts l))"

definition chan_refs :: "wsListener \<Rightarrow> bool" where
  "chan_refs l \<longleftrightarrow> (\<forall>q. wl_pending l = Some q \<or> HSend (Some q) \<in> set (wl_handlers l) \<or> AcSelect (Some q) \<in> set (wl_accepts l) \<longrightarrow>
     q < length (wl_chans l))"

definition ws_inv :: "wsListener \<Rightarrow> bool" where
  "ws_inv l \<longleftrightarrow> in_handlers l + in_chans l + accepted l + mset (wl_closed l) = mset_set {..<length (wl_handlers l)} \<and> chan_refs l"

lemma finite_busy [simp]: "finite (busy hs)"
  by (simp add: busy_def)

lemma busy_end:
  assumes "i < length hs" "hs ! i \<noteq> HEnd"
  shows "mset_set (busy hs) = add_mset i (mset_set (busy (hs[i := HEnd])))"
proof -
  have "busy (hs[i := HEnd]) = busy hs - {i}" using assms(1) by (auto simp: busy_def nth_list_update split: if_splits)
  moreover have "i \<in> busy hs" using assms by (simp add: busy_def)
  ultimately show ?thesis by (simp add: mset_set.remove)
qed

lemma busy_move: "i < length hs \<Longrightarrow> hs ! i \<noteq> HEnd \<Longrightarrow> pc \<noteq> HEnd \<Longrightarrow> busy (hs[i := pc]) = busy hs"
  by (auto simp: busy_def nth_list_update)

lemma busy_new: "mset_set (busy (hs @ [HUpgraded ok])) = add_mset (length hs) (mset_set (busy hs))"
proof -
  have "busy (hs @ [HUpgraded ok]) = insert (length hs) (busy hs)" "length hs \<notin> busy hs"
    by (auto simp: busy_def nth_append less_Suc_eq)
  then show ?thesis by simp
qed

lemma chans_update:
  assumes "q < length (wl_chans l)"
  shows "in_chans (l\<lparr>wl_chans := (wl_chans l)[q := c]\<rparr>) + mset (chan_buf (wl_chans l ! q)) = in_chans l + mset (chan_buf c)"
  using sum_list_update [OF assms, of "\<lambda>c. mset (chan_buf c)" c] by (simp add: in_chans_def)

lemma accepted_update:
  assumes "k < length (wl_accepts l)" "taken (wl_accepts l ! k) = {#}"
  shows "accepted (l\<lparr>wl_accepts := (wl_accepts l)[k := pc]\<rparr>) = accepted l + taken pc"
  using sum_list_update [OF assms(1), of taken pc] assms(2) by (simp add: accepted_def)

lemma chan_refsD:
  "chan_refs l \<Longrightarrow> wl_pending l = Some q \<Longrightarrow> q < length (wl_chans l)"
  "chan_refs l \<Longrightarrow> i < length (wl_handlers l) \<Longrightarrow> wl_handlers l ! i = HSend (Some q) \<Longrightarrow> q < length (wl_chans l)"
  "chan_refs l \<Longrightarrow> k < length (wl_accepts l) \<Longrightarrow> wl_accepts l ! k = AcSelect (Some q) \<Longrightarrow> q < length (wl_chans l)"
  unfolding chan_refs_def by (metis nth_mem)+

text \<open>Changes of program counters that keep the references: the new one refers to nothing, or to the current channel.\<close>

lemma refs_handler: "chan_refs l \<Longrightarrow> (\<And>q. pc = HSend (Some q) \<Longrightarrow> wl_pending l = Some q) \<Longrightarrow> chan_refs (set_handler i pc l)"
  unfolding chan_refs_def set_handler_def using set_update_subset_insert [of "wl_handlers l" i pc] by fastforce

lemma refs_accept: "chan_refs l \<Longrightarrow> (\<And>q. pc = AcSelect (Some q) \<Longrightarrow> wl_pending l = Some q) \<Longrightarrow> chan_refs (set_accept k pc l)"
  unfolding chan_refs_def set_accept_def using set_update_subset_insert [of "wl_accepts l" k pc] by fastforce

lemma refs_chan: "chan_refs l \<Longrightarrow> length cs = length (wl_chans l) \<Longrightarrow> chan_refs (l\<lparr>wl_chans := cs\<rparr>)"
  by (simp add: chan_refs_def)

lemma ws_inv_same:
  assumes "ws_inv l" "wl_handlers l' = wl_handlers l" "wl_chans l' = wl_chans l" "wl_accepts l' = wl_accepts l"
    "wl_closed l' = wl_closed l" "wl_pending l' = wl_pending l"
  shows "ws_inv l'"
  using assms by (simp add: ws_inv_def in_handlers_def in_chans_def accepted_def chan_refs_def)

lemma take_pending_inv:
  assumes "chan_refs l" "\<And>c. q = Some c \<Longrightarrow> c < length (wl_chans l)" "take_pending from q l = Some (i, l')"
  shows "in_handlers l + in_chans l = add_mset i (in_handlers l' + in_chans l')" "chan_refs l'"
    "accepted l' = accepted l" "wl_closed l' = wl_closed l" "length (wl_handlers l') = length (wl_handlers l)"
    "wl_accepts l' = wl_accepts l" "wl_closes l' = wl_closes l" "wl_closedq l' = wl_closedq l"
    "j < length (wl_handlers l) \<Longrightarrow> wl_handlers l ! j = HEnd \<Longrightarrow> wl_handlers l' ! j = HEnd"
proof -
  from assms(3) obtain c where c: "q = Some c" "c < length (wl_chans l)" using assms(2) by (auto simp: take_pending_def split: option.splits)
  have "(in_handlers l + in_chans l = add_mset i (in_handlers l' + in_chans l') \<and> chan_refs l') \<and>
    accepted l' = accepted l \<and> wl_closed l' = wl_closed l \<and> length (wl_handlers l') = length (wl_handlers l) \<and>
    wl_accepts l' = wl_accepts l \<and> wl_closes l' = wl_closes l \<and> wl_closedq l' = wl_closedq l \<and>
    (j < length (wl_handlers l) \<and> wl_handlers l ! j = HEnd \<longrightarrow> wl_handlers l' ! j = HEnd)"
  proof (cases "from")
    case None
    with assms(3) c obtain ch where r: "chan_recv (wl_chans l ! c) = Some (i, ch)" and l': "l' = l\<lparr>wl_chans := (wl_chans l)[c := ch]\<rparr>"
      by (auto simp: take_pending_def simp del: chan_recv.simps split: option.splits)
    have ch: "chan_buf (wl_chans l ! c) = i # chan_buf ch" by (rule ch.rcv_Some [OF r])
    note ch = ch l'
    from chans_update [OF c(2), of ch] ch have "in_chans l = add_mset i (in_chans l')" by simp
    moreover have "in_handlers l' = in_handlers l" "accepted l' = accepted l" "chan_refs l'"
      using ch(2) assms(1) by (simp_all add: in_handlers_def accepted_def refs_chan)
    ultimately show ?thesis using ch(2) by simp
  next
    case (Some k)
    with assms(3) c have k: "i < length (wl_handlers l)" "wl_handlers l ! i = HSend (Some c)" "l' = set_handler i HEnd l"
      by (auto simp: take_pending_def split: if_splits)
    have "in_handlers l = add_mset i (in_handlers l')" using busy_end [OF k(1)] k(2,3) by (simp add: in_handlers_def set_handler_def)
    moreover have "chan_refs l'" unfolding k(3) by (rule refs_handler [OF assms(1)]) simp
    moreover have "in_chans l' = in_chans l" "accepted l' = accepted l" by (simp_all add: k(3) in_chans_def accepted_def set_handler_def)
    ultimately show ?thesis using k(1) by (simp add: k(3) set_handler_def nth_list_update)
  qed
  then show "in_handlers l + in_chans l = add_mset i (in_handlers l' + in_chans l')" "chan_refs l'"
    "accepted l' = accepted l" "wl_closed l' = wl_closed l" "length (wl_handlers l') = length (wl_handlers l)"
    "wl_accepts l' = wl_accepts l" "wl_closes l' = wl_closes l" "wl_closedq l' = wl_closedq l"
    "j < length (wl_handlers l) \<Longrightarrow> wl_handlers l ! j = HEnd \<Longrightarrow> wl_handlers l' ! j = HEnd" by blast+
qed

lemma ws_inv_handler:
  assumes "ws_inv l" "i < length (wl_handlers l)" "ServeHTTP_step i l = Some l'"
  shows "ws_inv l'"
proof -
  have inv: "in_handlers l + in_chans l + accepted l + mset (wl_closed l) = mset_set {..<length (wl_handlers l)}" and refs: "chan_refs l"
    using assms(1) by (simp_all add: ws_inv_def)
  have move: "ws_inv (set_handler i pc l)" if "wl_handlers l ! i \<noteq> HEnd" "pc \<noteq> HEnd" "\<And>q. pc = HSend (Some q) \<Longrightarrow> wl_pending l = Some q" for pc
    using inv refs_handler [OF refs that(3)] busy_move [OF assms(2) that(1,2)]
    by (simp add: ws_inv_def in_handlers_def in_chans_def accepted_def set_handler_def)
  have leave: "in_handlers l = add_mset i (in_handlers (set_handler i HEnd l))" if "wl_handlers l ! i \<noteq> HEnd"
    using busy_end [OF assms(2) that] by (simp add: in_handlers_def set_handler_def)
  have gone: "chan_refs (set_handler i HEnd l)" by (rule refs_handler [OF refs]) simp
  show ?thesis
  proof (cases "wl_handlers l ! i")
    case (HUpgraded ok)
    show ?thesis
    proof (cases "wl_closedq l \<or> \<not> ok")
      case True
      with assms(3) HUpgraded have l': "l' = set_handler i HEnd (close_conn i l)" by (simp add: ServeHTTP_step_def)
      have "in_handlers l' = in_handlers (set_handler i HEnd l)" "in_chans l' = in_chans l" "accepted l' = accepted l"
        "wl_closed l' = i # wl_closed l" "length (wl_handlers l') = length (wl_handlers l)" "chan_refs l'"
        using gone by (simp_all add: l' in_handlers_def in_chans_def accepted_def set_handler_def close_conn_def chan_refs_def)
      with inv leave HUpgraded show ?thesis by (simp add: ws_inv_def)
    next
      case False
      with assms(3) HUpgraded move [of HPush] show ?thesis by (simp add: ServeHTTP_step_def)
    qed
  next
    case HPush
    with assms(3) move [of "HSend (wl_pending l)"] show ?thesis by (simp add: ServeHTTP_step_def)
  next
    case (HSend q)
    with assms(3) obtain c where c: "q = Some c" by (cases q) (simp_all add: ServeHTTP_step_def)
    let ?ch = "chan_send i (wl_chans l ! c)" and ?l = "set_handler i HEnd l"
    from c HSend assms(3) have l': "l' = set_handler i HEnd (l\<lparr>wl_chans := (wl_chans l)[c := ?ch]\<rparr>)" by (simp add: ServeHTTP_step_def split: if_splits)
    have "c < length (wl_chans l)" using chan_refsD(2) [OF refs assms(2)] HSend c by simp
    from chans_update [OF this, of ?ch] have "in_chans l' = add_mset i (in_chans l)"
      by (simp add: l' in_chans_def set_handler_def chan_send_def)
    moreover have "in_handlers l' = in_handlers ?l" "accepted l' = accepted l" "wl_closed l' = wl_closed l"
      "length (wl_handlers l') = length (wl_handlers l)" "chan_refs l'"
      using gone by (simp_all add: l' in_handlers_def accepted_def set_handler_def chan_refs_def)
    ultimately show ?thesis using inv leave HSend by (simp add: ws_inv_def)
  qed (use assms(3) in \<open>simp add: ServeHTTP_step_def\<close>)
qed

lemma ws_inv_accept:
  assumes "ws_inv l" "k < length (wl_accepts l)" "ws_accept_step sel k l = Some l'"
  shows "ws_inv l'"
proof -
  have inv: "in_handlers l + in_chans l + accepted l + mset (wl_closed l) = mset_set {..<length (wl_handlers l)}" and refs: "chan_refs l"
    using assms(1) by (simp_all add: ws_inv_def)
  have move: "ws_inv (set_accept k pc l)"
    if "taken (wl_accepts l ! k) = {#}" "taken pc = {#}" "\<And>q. pc = AcSelect (Some q) \<Longrightarrow> wl_pending l = Some q" for pc
    using inv refs_accept [OF refs that(3)] accepted_update [OF assms(2) that(1), of pc] that(2)
    by (simp add: ws_inv_def in_handlers_def in_chans_def set_accept_def)
  show ?thesis
  proof (cases "wl_accepts l ! k")
    case AcStart
    with assms(3) move [of "if \<not> wl_external l \<and> \<not> wl_listener l then AcErr ErrBadOperateState else AcSelect (wl_pending l)"] show ?thesis
      by (simp add: ws_accept_step_def split: if_splits)
  next
    case (AcSelect q)
    show ?thesis
    proof (cases sel)
      case (SelPending "from")
      with assms(3) AcSelect obtain i l1 where l1: "take_pending from q l = Some (i, l1)" "l' = set_accept k (AcConn i) l1"
        by (auto simp: ws_accept_step_def)
      note t = take_pending_inv [OF refs _ l1(1)]
      have q: "\<And>c. q = Some c \<Longrightarrow> c < length (wl_chans l)" using chan_refsD(3) [OF refs assms(2)] AcSelect by simp
      have a: "k < length (wl_accepts l1)" "taken (wl_accepts l1 ! k) = {#}" using t(6) [OF q] assms(2) AcSelect by simp_all
      have "chan_refs l'" unfolding l1(2) by (rule refs_accept [OF t(2) [OF q]]) simp_all
      moreover have "accepted l' = add_mset i (accepted l)" using accepted_update [OF a, of "AcConn i"] t(3) [OF q] by (simp add: l1(2) set_accept_def)
      moreover have "in_handlers l' = in_handlers l1" "in_chans l' = in_chans l1" "wl_closed l' = wl_closed l1" "wl_handlers l' = wl_handlers l1"
        by (simp_all add: l1(2) in_handlers_def in_chans_def set_accept_def)
      ultimately show ?thesis using inv t(1,4,5) [OF q] by (simp add: ws_inv_def)
    next
      case SelOther
      with assms(3) AcSelect move [of "AcErr ErrClosed"] show ?thesis by (simp add: ws_accept_step_def split: if_splits)
    qed
  qed (use assms(3) in \<open>simp_all add: ws_accept_step_def\<close>)
qed

lemma ws_inv_close:
  assumes "ws_inv l" "ws_close_step sel k l = Some l'"
  shows "ws_inv l'"
proof (cases "\<exists>from. wl_closes l ! k = ClDrain \<and> sel = SelPending from")
  case True
  then obtain "from" i l1 where l1: "take_pending from (wl_pending l) l = Some (i, l1)" "l' = close_conn i l1"
    using assms(2) by (auto simp: ws_close_step_def)
  have refs: "chan_refs l" using assms(1) by (simp add: ws_inv_def)
  note t = take_pending_inv [OF refs chan_refsD(1) [OF refs] l1(1)]
  have "chan_refs l'" using t(2) by (simp add: l1(2) chan_refs_def close_conn_def)
  moreover have "in_handlers l' = in_handlers l1" "in_chans l' = in_chans l1" "accepted l' = accepted l1" "wl_closed l' = i # wl_closed l1"
    "wl_handlers l' = wl_handlers l1" by (simp_all add: l1(2) in_handlers_def in_chans_def accepted_def close_conn_def)
  ultimately show ?thesis using assms(1) t(1,3,4,5) by (simp add: ws_inv_def)
next
  case False
  with assms(2) show ?thesis
    by (intro ws_inv_same [OF assms(1)]) (auto simp: ws_close_step_def set_close_def split: clpc.splits select.splits option.splits if_splits)
qed

lemma ws_inv_listen:
  assumes "ws_inv l" "ws_listen_step isChecker H a bnd k l = Some l'"
  shows "ws_inv l'"
proof (cases "wl_listens l ! k")
  case LsChecked
  with assms(2) obtain n u where l': "l' = set_listen k LsMade
      (l\<lparr>wl_chans := wl_chans l @ [make_chan (nat n)], wl_pending := Some (length (wl_chans l)), wl_upgrader := u\<rparr>)"
    by (auto simp: ws_listen_step_def split: outcome.splits if_splits)
  have "chan_refs l'" using assms(1) by (auto simp: ws_inv_def chan_refs_def l' set_listen_def)
  then show ?thesis using assms(1) by (simp add: ws_inv_def l' set_listen_def in_handlers_def in_chans_def accepted_def make_chan_def)
qed (use assms(2) in \<open>auto simp: ws_listen_step_def set_listen_def split: outcome.splits bind_result.splits bool.splits
  intro!: ws_inv_same [OF assms(1)]\<close>)

lemma ws_inv_step: "ws_inv l \<Longrightarrow> ws_step isChecker l l' \<Longrightarrow> ws_inv l'"
proof (erule ws_step.cases)
  fix l0 ok
  assume "ws_inv l" "l = l0" "l' = l0\<lparr>wl_handlers := wl_handlers l0 @ [HUpgraded ok]\<rparr>"
  moreover have "{..<Suc (length (wl_handlers l))} = insert (length (wl_handlers l)) {..<length (wl_handlers l)}" by auto
  ultimately show "ws_inv l'" by (simp add: ws_inv_def in_handlers_def in_chans_def accepted_def busy_new chan_refs_def)
next
  fix l0
  assume "ws_inv l" "l = l0" "l' = l0\<lparr>wl_accepts := wl_accepts l0 @ [AcStart]\<rparr>"
  then show "ws_inv l'" by (simp add: ws_inv_def in_handlers_def in_chans_def accepted_def chan_refs_def)
qed (auto intro: ws_inv_same ws_inv_handler ws_inv_accept ws_inv_listen ws_inv_close)

lemma ws_inv_run: "ws_run isChecker l l' \<Longrightarrow> ws_inv l \<Longrightarrow> ws_inv l'"
  by (induction rule: ws_run.induct) (auto intro: ws_inv_step)

lemma ws_inv_new: "ws_NewListener parse t address = Ok l \<Longrightarrow> ws_inv l"
  by (auto simp: ws_NewListener_def Let_def ws_inv_def in_handlers_def in_chans_def accepted_def chan_refs_def busy_def split: outcome.splits)

section \<open>Websockets nobody closes\<close>

text \<open>Closed for good, and websocket \<open>i\<close> is with no handler and not closed.\<close>

definition left_over :: "nat \<Rightarrow> wsListener \<Rightarrow> bool" where
  "left_over i l \<longleftrightarrow> wl_closedq l \<and> (\<forall>pc \<in> set (wl_closes l). pc = ClStart \<or> (\<exists>e. pc = ClDone e)) \<and>
     i < length (wl_handlers l) \<and> wl_handlers l ! i = HEnd \<and> i \<notin> set (wl_closed l)"

lemma left_over_same:
  assumes "left_over i l" "wl_closedq l' = wl_closedq l" "wl_closes l' = wl_closes l" "wl_handlers l' = wl_handlers l" "wl_closed l' = wl_closed l"
  shows "left_over i l'"
  using assms by (simp add: left_over_def)

lemma left_over_close:
  assumes "left_over i l" "k < length (wl_closes l)" "ws_close_step sel k l = Some l'"
  shows "left_over i l'"
proof -
  have "wl_closes l ! k = ClStart" using assms by (force simp: left_over_def ws_close_step_def dest: nth_mem)
  with assms(1,3) have l': "l' = set_close k (ClDone (Some ErrClosed)) l" by (simp add: ws_close_step_def left_over_def)
  have "\<forall>pc \<in> set ((wl_closes l)[k := ClDone (Some ErrClosed)]). pc = ClStart \<or> (\<exists>e. pc = ClDone e)"
    using assms(1) set_update_subset_insert [of "wl_closes l" k] unfolding left_over_def by blast
  with assms(1) show ?thesis by (simp add: left_over_def l' set_close_def)
qed

lemma left_over_handler:
  assumes "left_over i l" "j < length (wl_handlers l)" "ServeHTTP_step j l = Some l'"
  shows "left_over i l'"
proof -
  have "j \<noteq> i" using assms by (auto simp: left_over_def ServeHTTP_step_def)
  with assms show ?thesis
    by (auto simp: left_over_def ServeHTTP_step_def set_handler_def close_conn_def split: hpc.splits option.splits if_splits)
qed

lemma left_over_accept:
  assumes "left_over i l" "chan_refs l" "k < length (wl_accepts l)" "ws_accept_step sel k l = Some l'"
  shows "left_over i l'"
proof (cases "\<exists>q from. wl_accepts l ! k = AcSelect q \<and> sel = SelPending from")
  case True
  then obtain q "from" j l1 where q: "wl_accepts l ! k = AcSelect q" and l1: "take_pending from q l = Some (j, l1)" "l' = set_accept k (AcConn j) l1"
    using assms(4) by (auto simp: ws_accept_step_def)
  have "\<And>c. q = Some c \<Longrightarrow> c < length (wl_chans l)" using chan_refsD(3) [OF assms(2,3)] q by simp
  note t = take_pending_inv [OF assms(2) this l1(1)]
  show ?thesis using assms(1) t(4,5,7,8) t(9) [of i] by (simp add: left_over_def l1(2) set_accept_def)
next
  case False
  with assms(4) show ?thesis
    by (intro left_over_same [OF assms(1)]) (auto simp: ws_accept_step_def set_accept_def split: acpc.splits select.splits if_splits)
qed

lemma left_over_listen:
  assumes "left_over i l" "ws_listen_step isChecker H a bnd k l = Some l'"
  shows "left_over i l'"
  using assms(2) by (intro left_over_same [OF assms(1)])
    (auto simp: ws_listen_step_def set_listen_def split: lspc.splits outcome.splits if_splits bind_result.splits bool.splits)

lemma left_over_step:
  assumes "left_over i l" "ws_inv l" "ws_step isChecker l l'"
  shows "left_over i l'"
  using assms(3)
proof cases
  case (wt_upgrade ok)
  with assms(1) show ?thesis by (simp add: left_over_def nth_append)
next
  case wt_Close
  with assms(1) show ?thesis by (auto simp: left_over_def)
next
  case (wt_handler j)
  with assms(1) show ?thesis by (blast intro: left_over_handler)
next
  case (wt_accept k sel)
  moreover have "chan_refs l" using assms(2) by (simp add: ws_inv_def)
  ultimately show ?thesis using assms(1) by (blast intro: left_over_accept)
next
  case (wt_listen k H a bnd)
  with assms(1) show ?thesis by (blast intro: left_over_listen)
next
  case (wt_close k sel)
  with assms(1) show ?thesis by (blast intro: left_over_close)
qed (use left_over_same [OF assms(1)] in simp_all)

lemma left_over_run: "ws_run isChecker l l' \<Longrightarrow> left_over i l \<Longrightarrow> ws_inv l \<Longrightarrow> left_over i l' \<and> ws_inv l'"
  by (induction rule: ws_run.induct) (auto intro: left_over_step ws_inv_step)

section \<open>Properties\<close>

text \<open>
  C25: No websocket is lost track of or given out twice: in every interleaving of requests, \<open>Listen\<close>, \<open>Accept\<close> and \<open>Close\<close>, each request that
  was upgraded is in exactly one place: with its handler, in a channel, returned by one \<open>Accept\<close>, or closed once.
\<close>

theorem ws_conns_accounted:
  assumes "ws_NewListener parse t address = Ok l0" "ws_run isChecker l0 l"
  shows "in_handlers l + in_chans l + accepted l + mset (wl_closed l) = mset_set {..<length (wl_handlers l)}"
  using ws_inv_run [OF assms(2) ws_inv_new [OF assms(1)]] by (simp add: ws_inv_def)

text \<open>The run of the next theorem: the handler has seen the listener open, \<open>Close\<close> drains the channel, the handler sends.\<close>

definition ws_listening :: "wsListener \<Rightarrow> wsListener" where
  "ws_listening l = l\<lparr>wl_listens := [LsDone None], wl_chans := [make_chan 16], wl_pending := Some 0, wl_listener := True\<rparr>"

lemma ws_new_fields:
  assumes "ws_NewListener parse t address = Ok l"
  shows "wl_chans l = []" "wl_pending l = None" "wl_closedq l = False" "wl_listens l = []" "wl_handlers l = []" "wl_closes l = []"
    "wl_closed l = []" "wl_accepts l = []" "up_CheckOrigin (wl_upgrader l) = OriginDefault"
  using assms by (auto simp: ws_NewListener_def Let_def split: outcome.splits)

lemma demo_config: "config_upgrader isChecker [empty_options] 0 u = Ok u"
  by (cases u) (simp add: config_upgrader_def config_origin_def set_checker_def opt_size_def empty_options_def acceptOption_def)

lemma ws_listening_run:
  assumes "ws_NewListener parse t address = Ok l"
  shows "ws_run isChecker l (ws_listening l)"
proof -
  note f = ws_new_fields [OF assms]
  let ?l1 = "l\<lparr>wl_listens := [LsStart]\<rparr>" and ?l2 = "l\<lparr>wl_listens := [LsChecked]\<rparr>"
    and ?l3 = "l\<lparr>wl_listens := [LsMade], wl_chans := [make_chan 16], wl_pending := Some 0\<rparr>"
  have v: "value_int [empty_options] 0 Opt_PendingSize = Ok 16" "value_bool [empty_options] 0 Opt_ExternalListen = Ok False"
    by (simp_all add: value_int_def value_bool_def empty_options_def acceptOption_def ws_option_defs option_constructors)
  have "ws_step isChecker l ?l1" using wt_Listen [of isChecker l] f(4) by simp
  moreover have "ws_step isChecker ?l1 ?l2"
    by (rule wt_listen [of 0 _ _ "[empty_options]" 0 Bound]) (simp_all add: ws_listen_step_def set_listen_def f(3))
  moreover have "ws_step isChecker ?l2 ?l3"
    by (rule wt_listen [of 0 _ _ "[empty_options]" 0 Bound]) (simp_all add: ws_listen_step_def set_listen_def f(1) v demo_config)
  moreover have "ws_step isChecker ?l3 (ws_listening l)"
    by (rule wt_listen [of 0 _ _ "[empty_options]" 0 Bound]) (simp_all add: ws_listen_step_def set_listen_def v ws_listening_def)
  ultimately show ?thesis by (meson wr_refl wr_step)
qed

text \<open>
  C40: A request that was upgraded while the listener was open can slip past \<open>Close\<close>: all calls have returned, \<open>Close\<close> without an error, and
  the websocket sits in the channel. Nothing but a further \<open>Accept\<close> could take it, and no later call on the listener ever closes it.
\<close>

theorem ws_Close_leaks:
  assumes "ws_NewListener parse t address = Ok l0"
  shows "\<exists>l. ws_run isChecker l0 l \<and> wl_closes l = [ClDone None] \<and> wl_handlers l = [HEnd] \<and> in_chans l = {#0#} \<and>
    (\<forall>l'. ws_run isChecker l l' \<longrightarrow> 0 \<notin> set (wl_closed l'))"
proof -
  note f = ws_new_fields [OF assms]
  let ?l = "ws_listening l0"
  let ?at = "\<lambda>h c b q. ?l\<lparr>wl_handlers := [h], wl_closes := c, wl_closedq := b, wl_chans := [\<lparr>chan_cap = 16, chan_buf = q\<rparr>]\<rparr>"
  have d: "wl_handlers ?l = []" "wl_closes ?l = []" "wl_closedq ?l = False" "wl_chans ?l = [make_chan 16]" "wl_pending ?l = Some 0" "wl_closed ?l = []"
    by (simp_all add: ws_listening_def f)
  let ?fin = "?at HEnd [ClDone None] True [0]"
  have "ws_step isChecker ?l (?l\<lparr>wl_handlers := wl_handlers ?l @ [HUpgraded True]\<rparr>)" by (rule wt_upgrade)
  then have "ws_step isChecker ?l (?l\<lparr>wl_handlers := [HUpgraded True]\<rparr>)" by (simp only: d append_Nil)
  moreover have "?l\<lparr>wl_handlers := [HUpgraded True]\<rparr> = ?at (HUpgraded True) [] False []" by (simp add: ws_listening_def make_chan_def f)
  ultimately have "ws_step isChecker ?l (?at (HUpgraded True) [] False [])" by metis
  moreover have "ws_step isChecker (?at (HUpgraded True) [] False []) (?at HPush [] False [])"
    by (rule wt_handler [of 0]) (simp_all add: ServeHTTP_step_def set_handler_def)
  moreover have "ws_step isChecker (?at HPush [] False []) (?at (HSend (Some 0)) [] False [])"
    by (rule wt_handler [of 0]) (simp_all add: ServeHTTP_step_def set_handler_def d)
  moreover have "ws_step isChecker (?at (HSend (Some 0)) [] False []) (?at (HSend (Some 0)) [ClStart] False [])"
  proof -
    let ?x = "?at (HSend (Some 0)) [] False []"
    have "ws_step isChecker ?x (?x\<lparr>wl_closes := wl_closes ?x @ [ClStart]\<rparr>)" by (rule wt_Close)
    moreover have "?x\<lparr>wl_closes := wl_closes ?x @ [ClStart]\<rparr> = ?at (HSend (Some 0)) [ClStart] False []" by simp
    ultimately show ?thesis by metis
  qed
  moreover have "ws_step isChecker (?at (HSend (Some 0)) [ClStart] False []) (?at (HSend (Some 0)) [ClListener] True [])"
    by (rule wt_close [of 0 _ SelOther]) (simp_all add: ws_close_step_def set_close_def)
  moreover have "ws_step isChecker (?at (HSend (Some 0)) [ClListener] True []) (?at (HSend (Some 0)) [ClDrain] True [])"
    by (rule wt_close [of 0 _ SelOther]) (simp_all add: ws_close_step_def set_close_def)
  moreover have "ws_step isChecker (?at (HSend (Some 0)) [ClDrain] True []) (?at (HSend (Some 0)) [ClDone None] True [])"
    by (rule wt_close [of 0 _ SelOther]) (simp_all add: ws_close_step_def set_close_def d)
  moreover have "ws_step isChecker (?at (HSend (Some 0)) [ClDone None] True []) ?fin"
    by (rule wt_handler [of 0]) (simp_all add: ServeHTTP_step_def set_handler_def can_send_def chan_send_def)
  ultimately have run: "ws_run isChecker l0 ?fin" using ws_listening_run [OF assms, of isChecker] by (meson wr_step)
  have "left_over 0 ?fin" by (simp add: left_over_def d)
  with left_over_run [OF _ this ws_inv_run [OF run ws_inv_new [OF assms]], of isChecker]
  have "\<forall>l'. ws_run isChecker ?fin l' \<longrightarrow> 0 \<notin> set (wl_closed l')" by (auto simp: left_over_def)
  with run show ?thesis by (intro exI [of _ ?fin]) (simp add: in_chans_def)
qed

text \<open>
  A listener that could not bind its address does not know it: \<open>Accept\<close> goes on to wait, where it reports a bad state when not even the
  address could be resolved.
\<close>

theorem failed_Listen_not_noticed:
  assumes "wl_listens l ! k = LsMade" "value_bool H a Opt_ExternalListen = Ok False" "\<not> wl_external l" "\<not> wl_listener l"
    "j < length (wl_accepts l)" "wl_accepts l ! j = AcStart"
    "ws_listen_step isChecker H a (NotBound e) k l = Some l1" "ws_listen_step isChecker H a (NotResolved e) k l = Some l2"
    "ws_accept_step sel j l1 = Some l1'" "ws_accept_step sel j l2 = Some l2'"
  shows "wl_accepts l1' ! j = AcSelect (wl_pending l) \<and> wl_accepts l2' ! j = AcErr ErrBadOperateState"
proof -
  have l1: "l1 = set_listen k (LsDone (Some e)) (l\<lparr>wl_listener := True\<rparr>)" and l2: "l2 = set_listen k (LsDone (Some e)) l"
    using assms(1,2,7,8) by (simp_all add: ws_listen_step_def)
  have "l1' = set_accept j (AcSelect (wl_pending l)) l1" "l2' = set_accept j (AcErr ErrBadOperateState) l2"
    using assms(3,4,6,9,10) by (simp_all add: l1 l2 ws_accept_step_def set_listen_def)
  then show ?thesis using assms(5) by (simp add: l1 l2 set_accept_def set_listen_def)
qed

text \<open>
  Setting \<open>CheckOrigin\<close> to its default value changes what the listener does: left out, requests from other origins are refused
  by the default check of the upgrader; set to the default, every origin is let in.
\<close>

theorem CheckOrigin_default_differs:
  assumes "ws_NewListener parse t address = Ok l"
  shows "(\<exists>u. config_upgrader isChecker [empty_options] 0 (wl_upgrader l) = Ok u \<and> up_CheckOrigin u = OriginDefault) \<and>
    (\<exists>u. config_upgrader isChecker [set_values [(Opt_CheckOrigin, defaultValue Opt_CheckOrigin)] empty_options] 0 (wl_upgrader l) = Ok u \<and>
      up_CheckOrigin u = OriginAny)"
proof -
  have "Opt_CheckOrigin \<noteq> Opt_ReadBufferSize" "Opt_CheckOrigin \<noteq> Opt_WriteBufferSize"
    by (simp_all add: ws_option_defs option_constructors)
  moreover have "Validate Opt_CheckOrigin (defaultValue Opt_CheckOrigin) = Ok (VBool False)"
    by (simp add: Opt_CheckOrigin_def NewBoolOption_def Validate_def)
  ultimately show ?thesis using ws_new_fields(9) [OF assms]
    by (simp add: demo_config) (simp add: config_upgrader_def config_origin_def opt_size_def empty_options_def acceptOption_def)
qed

section \<open>Witnesses\<close>

definition demo_url :: "string \<Rightarrow> URL outcome" where
  "demo_url s = Ok \<lparr>url_Scheme = ParseScheme s, url_Host = [], url_Path = []\<rparr>"

lemma demo_ws_listener: "\<exists>l. ws_NewListener demo_url SrTransport ''ws://h'' = Ok l"
  by (simp add: ws_NewListener_def parseAddressToURL_def StripScheme_def demo_url_def Let_def)

theorem ws_conns_accounted_witness:
  "\<exists>l0 l. ws_run (\<lambda>_. True) l0 l \<and> wl_handlers l = [HUpgraded True] \<and> in_handlers l + in_chans l + accepted l + mset (wl_closed l) = {#0#}"
proof -
  obtain l0 where l0: "ws_NewListener demo_url SrTransport ''ws://h'' = Ok l0" using demo_ws_listener ..
  let ?l = "l0\<lparr>wl_handlers := wl_handlers l0 @ [HUpgraded True]\<rparr>"
  have run: "ws_run (\<lambda>_. True) l0 ?l" by (rule wr_step [OF wr_refl wt_upgrade])
  have h: "wl_handlers ?l = [HUpgraded True]" by (simp add: ws_new_fields [OF l0])
  from ws_conns_accounted [OF l0 run] have "in_handlers ?l + in_chans ?l + accepted ?l + mset (wl_closed ?l) = {#0#}"
    unfolding h by (simp add: lessThan_Suc)
  with run h show ?thesis by blast
qed

theorem ws_Close_leaks_witness:
  "\<exists>l0 l. ws_run (\<lambda>_. True) l0 l \<and> wl_closes l = [ClDone None] \<and> in_chans l = {#0#}"
proof -
  obtain l0 where "ws_NewListener demo_url SrTransport ''ws://h'' = Ok l0" using demo_ws_listener ..
  from ws_Close_leaks [OF this, of "\<lambda>_. True"] show ?thesis by blast
qed

theorem failed_Listen_not_noticed_witness:
  "\<exists>l l1 l1'. ws_listen_step (\<lambda>_. True) [empty_options] 0 (NotBound ErrAddrInUse) 0 l = Some l1 \<and>
     ws_accept_step SelOther 0 l1 = Some l1' \<and> wl_accepts l1' ! 0 = AcSelect (Some 0)"
proof -
  obtain l0 where l0: "ws_NewListener demo_url SrTransport ''ws://h'' = Ok l0" using demo_ws_listener ..
  have "\<not> wl_external l0" "\<not> wl_listener l0" using l0 by (auto simp: ws_NewListener_def Let_def split: outcome.splits)
  moreover have v: "value_bool [empty_options] 0 Opt_ExternalListen = Ok False"
    by (simp add: value_bool_def empty_options_def acceptOption_def ws_option_defs option_constructors)
  let ?l = "l0\<lparr>wl_listens := [LsMade], wl_accepts := [AcStart], wl_pending := Some 0\<rparr>"
  obtain l1 l2 where 1: "ws_listen_step (\<lambda>_. True) [empty_options] 0 (NotBound ErrAddrInUse) 0 ?l = Some l1"
    "ws_listen_step (\<lambda>_. True) [empty_options] 0 (NotResolved ErrAddrInUse) 0 ?l = Some l2" by (simp add: ws_listen_step_def v)
  then have "wl_accepts l1 ! 0 = AcStart" "wl_accepts l2 ! 0 = AcStart" by (auto simp: ws_listen_step_def v set_listen_def)
  then obtain l1' l2' where 2: "ws_accept_step SelOther 0 l1 = Some l1'" "ws_accept_step SelOther 0 l2 = Some l2'" by (simp add: ws_accept_step_def)
  ultimately have "wl_accepts l1' ! 0 = AcSelect (wl_pending ?l)"
    using failed_Listen_not_noticed [OF _ v _ _ _ _ 1 2] by simp
  with 1 2 show ?thesis by auto
qed

theorem CheckOrigin_default_differs_witness:
  "\<exists>(l :: wsListener) u. config_upgrader (\<lambda>_. True) [set_values [(Opt_CheckOrigin, defaultValue Opt_CheckOrigin)] empty_options] 0 (wl_upgrader l) = Ok u \<and>
     up_CheckOrigin u = OriginAny"
proof -
  obtain l0 where "ws_NewListener demo_url SrTransport ''ws://h'' = Ok l0" using demo_ws_listener ..
  from CheckOrigin_default_differs [OF this, of "\<lambda>_. True"] show ?thesis by blast
qed

end
