(* ===== verification/Sync_Pipes.thy ===== *)
theory Sync_Pipes
  imports Pipe_Properties
begin

text \<open>
  The in-process pipes of \<open>transport/inproc/iopipe\<close> and \<open>transport/inproc/netpipe\<close>, on top of \<open>io.Pipe\<close> and \<open>net.Pipe\<close> of the
  standard library. Those have no buffer: a write offers its slice until reads have taken all of it or the pipe is
  closed, and writes take turns. One direction of such a pipe is a state with an entry for each call of \<open>Write\<close>.
\<close>

section \<open>One direction\<close>

text \<open>\<open>io.ErrClosedPipe\<close>.\<close>

definition ErrClosedPipe :: err where "ErrClosedPipe = OtherErr 1"

text \<open>
  A write looks whether the pipe is closed, waits for the lock of the writers, and offers what is left of its slice, \<open>WOffer rest n\<close>
  after \<open>n\<close> bytes. \<open>sp_got\<close> is all that was read and \<open>sp_turns\<close> the writes in the order of their turns.
\<close>

datatype wpc = WStart | WLock | WOffer bytes nat | WDone nat "err option"

record sync_pipe =
  sp_writes :: "(bytes \<times> wpc) list"
  sp_turn :: "nat option"
  sp_rdone :: bool
  sp_wdone :: bool
  sp_got :: bytes
  sp_turns :: "nat list"

definition new_sync :: sync_pipe where
  "new_sync = \<lparr>sp_writes = [], sp_turn = None, sp_rdone = False, sp_wdone = False, sp_got = [], sp_turns = []\<rparr>"

definition sp_done :: "sync_pipe \<Rightarrow> bool" where
  "sp_done p \<longleftrightarrow> sp_rdone p \<or> sp_wdone p"

definition readCloseError :: "sync_pipe \<Rightarrow> err" where
  "readCloseError p = (if sp_rdone p then ErrClosedPipe else EOF)"

definition set_write :: "nat \<Rightarrow> wpc \<Rightarrow> sync_pipe \<Rightarrow> sync_pipe" where
  "set_write i pc p = p\<lparr>sp_writes := (sp_writes p)[i := (fst (sp_writes p ! i), pc)]\<rparr>"

text \<open>A read of at most \<open>n\<close> bytes takes them from the write whose turn it is, which returns when nothing is left.\<close>

definition hand_over :: "sync_pipe read_op" where
  "hand_over n p =
     (case sp_turn p of
        None \<Rightarrow> None
      | Some i \<Rightarrow>
          (case snd (sp_writes p ! i) of
             WOffer r k \<Rightarrow>
               (let c = take n r; r' = drop n r
                in Some ((c, None),
                     if r' = [] then (set_write i (WDone (k + length c) None) p)\<lparr>sp_turn := None, sp_got := sp_got p @ c\<rparr>
                     else (set_write i (WOffer r' (k + length c)) p)\<lparr>sp_turn := Some i, sp_got := sp_got p @ c\<rparr>))
           | _ \<Rightarrow> None))"

definition sync_Read :: "sync_pipe read_op" where
  "sync_Read n p = (if sp_done p then Some (([], Some (readCloseError p)), p) else hand_over n p)"

definition sync_write_step :: "nat \<Rightarrow> sync_pipe \<Rightarrow> sync_pipe option" where
  "sync_write_step i p =
     (case snd (sp_writes p ! i) of
        WStart \<Rightarrow> Some (set_write i (if sp_done p then WDone 0 (Some ErrClosedPipe) else WLock) p)
      | WLock \<Rightarrow>
          if sp_turn p = None
          then Some ((set_write i (WOffer (fst (sp_writes p ! i)) 0) p)\<lparr>sp_turn := Some i, sp_turns := sp_turns p @ [i]\<rparr>) else None
      | WOffer r k \<Rightarrow>
          if sp_done p then Some ((set_write i (WDone k (Some ErrClosedPipe)) p)\<lparr>sp_turn := None\<rparr>) else None
      | WDone _ _ \<Rightarrow> None)"

text \<open>A read that waited already when the pipe was closed may still take something: \<open>sy_read\<close> does not look.\<close>

inductive sync_step :: "sync_pipe \<Rightarrow> sync_pipe \<Rightarrow> bool" where
  sy_Write: "sync_step p (p\<lparr>sp_writes := sp_writes p @ [(b, WStart)]\<rparr>)"
| sy_write: "i < length (sp_writes p) \<Longrightarrow> sync_write_step i p = Some p' \<Longrightarrow> sync_step p p'"
| sy_read: "hand_over n p = Some (r, p') \<Longrightarrow> sync_step p p'"
| sy_closeRead: "sync_step p (p\<lparr>sp_rdone := True\<rparr>)"
| sy_closeWrite: "sync_step p (p\<lparr>sp_wdone := True\<rparr>)"

inductive sync_run :: "sync_pipe \<Rightarrow> sync_pipe \<Rightarrow> bool" for p0 where
  sn_refl: "sync_run p0 p0"
| sn_step: "sync_run p0 p \<Longrightarrow> sync_step p p' \<Longrightarrow> sync_run p0 p'"

section \<open>The two transports\<close>

definition Opt_inproc_ReadBuffer :: opt where "Opt_inproc_ReadBuffer = NewIntOption 30 8192"

definition inprocOptions :: soptions where
  "inprocOptions = SStruct [(''ReadBuffer'', SOpt Opt_inproc_ReadBuffer)]"

text \<open>Both ends of a pipe; \<open>io_r x\<close> is the direction that end \<open>x\<close> reads and its peer writes.\<close>

record iopipe =
  io_r :: "side \<Rightarrow> sync_pipe"
  io_buf :: "side \<Rightarrow> bufReader"
  io_addr :: "side \<Rightarrow> Address"

definition newIoPipe :: "Address \<Rightarrow> Address \<Rightarrow> oheap \<Rightarrow> nat \<Rightarrow> iopipe outcome" where
  "newIoPipe la ra H a =
     (case default_int H a Opt_inproc_ReadBuffer of
        Ok readBufSize \<Rightarrow>
          Ok \<lparr>io_r = (\<lambda>_. new_sync), io_buf = (\<lambda>_. NewReaderSize (nat readBufSize)),
              io_addr = (\<lambda>x. case x of Accepted \<Rightarrow> la | Dialled \<Rightarrow> ra)\<rparr>
      | Error e \<Rightarrow> Error e
      | Panic \<Rightarrow> Panic)"

definition io_Read :: "side \<Rightarrow> iopipe read_op" where
  "io_Read x n p =
     (case bufio_Read sync_Read n (io_buf p x, io_r p x) of
        None \<Rightarrow> None
      | Some (r, br, q) \<Rightarrow> Some (r, p\<lparr>io_buf := (io_buf p)(x := br), io_r := (io_r p)(x := q)\<rparr>))"

definition io_Close :: "side \<Rightarrow> iopipe \<Rightarrow> iopipe" where
  "io_Close x p =
     p\<lparr>io_r := (io_r p)(x := (io_r p x)\<lparr>sp_rdone := True\<rparr>, peer_of x := (io_r p (peer_of x))\<lparr>sp_wdone := True\<rparr>)\<rparr>"

definition io_LocalAddr :: "side \<Rightarrow> iopipe \<Rightarrow> Address" where "io_LocalAddr x p = io_addr p x"
definition io_RemoteAddr :: "side \<Rightarrow> iopipe \<Rightarrow> Address" where "io_RemoteAddr x p = io_addr p (peer_of x)"

text \<open>\<open>net.Pipe\<close> is closed by end: what is closed here is closed for reading on this side and for writing on the other.\<close>

record netpipe =
  ne_r :: "side \<Rightarrow> sync_pipe"
  ne_addr :: "side \<Rightarrow> Address"

definition newNetPipe :: "Address \<Rightarrow> Address \<Rightarrow> netpipe" where
  "newNetPipe la ra = \<lparr>ne_r = (\<lambda>_. new_sync), ne_addr = (\<lambda>x. case x of Accepted \<Rightarrow> la | Dialled \<Rightarrow> ra)\<rparr>"

definition ne_Read :: "side \<Rightarrow> netpipe read_op" where
  "ne_Read x n p = (case sync_Read n (ne_r p x) of None \<Rightarrow> None | Some (r, q) \<Rightarrow> Some (r, p\<lparr>ne_r := (ne_r p)(x := q)\<rparr>))"

definition ne_Close :: "side \<Rightarrow> netpipe \<Rightarrow> netpipe" where
  "ne_Close x p =
     p\<lparr>ne_r := (ne_r p)(x := (ne_r p x)\<lparr>sp_rdone := True\<rparr>, peer_of x := (ne_r p (peer_of x))\<lparr>sp_wdone := True\<rparr>)\<rparr>"

definition ne_LocalAddr :: "side \<Rightarrow> netpipe \<Rightarrow> Address" where "ne_LocalAddr x p = ne_addr p x"
definition ne_RemoteAddr :: "side \<Rightarrow> netpipe \<Rightarrow> Address" where "ne_RemoteAddr x p = ne_addr p (peer_of x)"

section \<open>Invariant of a direction\<close>

fun written :: "wpc \<Rightarrow> nat" where
  "written (WOffer r k) = k"
| "written (WDone k e) = k"
| "written _ = 0"

definition delivered :: "(bytes \<times> wpc) list \<Rightarrow> nat list \<Rightarrow> bytes" where
  "delivered ws ts = concat (map (\<lambda>i. take (written (snd (ws ! i))) (fst (ws ! i))) ts)"

fun write_ok :: "bool \<Rightarrow> bool \<Rightarrow> bytes \<Rightarrow> wpc \<Rightarrow> bool" where
  "write_ok taken current b WStart = (\<not> taken)"
| "write_ok taken current b WLock = (\<not> taken)"
| "write_ok taken current b (WOffer r k) = (taken \<and> current \<and> k \<le> length b \<and> r = drop k b)"
| "write_ok taken current b (WDone k e) = (\<not> current \<and> k \<le> length b \<and> (e = None \<longrightarrow> taken \<and> k = length b) \<and> (\<not> taken \<longrightarrow> k = 0))"

definition sync_inv :: "sync_pipe \<Rightarrow> bool" where
  "sync_inv p \<longleftrightarrow>
     distinct (sp_turns p) \<and> set (sp_turns p) \<subseteq> {..<length (sp_writes p)} \<and>
     (\<forall>i. sp_turn p = Some i \<longrightarrow> (\<exists>ts. sp_turns p = ts @ [i]) \<and> (\<exists>r k. snd (sp_writes p ! i) = WOffer r k)) \<and>
     (\<forall>i < length (sp_writes p). write_ok (i \<in> set (sp_turns p)) (sp_turn p = Some i) (fst (sp_writes p ! i)) (snd (sp_writes p ! i))) \<and>
     sp_got p = delivered (sp_writes p) (sp_turns p)"

lemma sync_invD:
  assumes "sync_inv p"
  shows "distinct (sp_turns p)" "set (sp_turns p) \<subseteq> {..<length (sp_writes p)}"
    "sp_turn p = Some i \<Longrightarrow> \<exists>ts. sp_turns p = ts @ [i]" "sp_turn p = Some i \<Longrightarrow> \<exists>r k. snd (sp_writes p ! i) = WOffer r k"
    "i < length (sp_writes p) \<Longrightarrow> write_ok (i \<in> set (sp_turns p)) (sp_turn p = Some i) (fst (sp_writes p ! i)) (snd (sp_writes p ! i))"
    "sp_got p = delivered (sp_writes p) (sp_turns p)"
  using assms by (auto simp: sync_inv_def)

lemma delivered_snoc: "delivered ws (ts @ [i]) = delivered ws ts @ take (written (snd (ws ! i))) (fst (ws ! i))"
  by (simp add: delivered_def)

lemma delivered_other: "i \<notin> set ts \<Longrightarrow> delivered (ws[i := x]) ts = delivered ws ts"
  unfolding delivered_def by (rule arg_cong [where f = concat], rule map_cong [OF refl]) (metis nth_list_update_neq)

text \<open>A change of one write that keeps what it has delivered, and of whose turn it is.\<close>

lemma sync_inv_set_write:
  assumes "sync_inv p" "i < length (sp_writes p)" "written pc = written (snd (sp_writes p ! i))" "sp_turn p = None \<or> sp_turn p = Some i"
    and "write_ok (i \<in> set (sp_turns p)) False (fst (sp_writes p ! i)) pc"
  shows "sync_inv ((set_write i pc p)\<lparr>sp_turn := None\<rparr>)"
proof -
  note D = sync_invD [OF assms(1)]
  have "delivered ((sp_writes p)[i := (fst (sp_writes p ! i), pc)]) (sp_turns p) = delivered (sp_writes p) (sp_turns p)"
    unfolding delivered_def by (rule arg_cong [where f = concat], rule map_cong) (auto simp: nth_list_update assms(2,3))
  moreover have "write_ok (j \<in> set (sp_turns p)) False (fst ((sp_writes p)[i := (fst (sp_writes p ! i), pc)] ! j)) (snd ((sp_writes p)[i := (fst (sp_writes p ! i), pc)] ! j))"
    if "j < length (sp_writes p)" for j
    using that assms(2,4,5) D(5) [OF that] by (cases "j = i") auto
  ultimately show ?thesis using D(1,2,6) by (simp add: sync_inv_def set_write_def)
qed

lemma sync_inv_hand_over:
  assumes "sync_inv p" "hand_over n p = Some (x, p')"
  shows "sync_inv p'"
proof -
  note D = sync_invD [OF assms(1)]
  from assms(2) obtain i r k where t: "sp_turn p = Some i" and w: "snd (sp_writes p ! i) = WOffer r k"
    by (auto simp: hand_over_def split: option.splits wpc.splits)
  from D(3) [OF t] obtain ts where ts: "sp_turns p = ts @ [i]" ..
  have i: "i < length (sp_writes p)" "i \<notin> set ts" using D(1,2) ts by auto
  let ?b = "fst (sp_writes p ! i)" and ?c = "take n r"
  let ?pc = "if drop n r = [] then WDone (k + length ?c) None else WOffer (drop n r) (k + length ?c)"
  have r: "r = drop k ?b" "k \<le> length ?b" using D(5) [OF i(1)] w by simp_all
  have p': "p' = (set_write i ?pc p)\<lparr>sp_turn := (if drop n r = [] then None else Some i), sp_got := sp_got p @ ?c\<rparr>"
    using assms(2) t w by (auto simp: hand_over_def Let_def set_write_def)
  have c: "take (k + length ?c) ?b = take k ?b @ ?c" "drop (k + length ?c) ?b = drop n r" "k + length ?c \<le> length ?b"
    using r by (auto simp: take_add min_def drop_drop add.commute)
  have "written ?pc = k + length ?c" by simp
  then have g: "delivered ((sp_writes p)[i := (?b, ?pc)]) (ts @ [i]) = delivered (sp_writes p) (ts @ [i]) @ ?c"
    using i c(1) w by (simp add: delivered_snoc delivered_other)
  have "write_ok True (drop n r \<noteq> []) ?b ?pc" using c(2,3) r by auto
  moreover have "write_ok (j \<in> set (ts @ [i])) False (fst (sp_writes p ! j)) (snd (sp_writes p ! j))" if "j < length (sp_writes p)" "j \<noteq> i" for j
    using D(5) [OF that(1)] t ts that(2) by simp
  ultimately have "\<forall>j < length (sp_writes p). write_ok (j \<in> set (ts @ [i])) ((if drop n r = [] then None else Some i) = Some j)
      (fst ((sp_writes p)[i := (?b, ?pc)] ! j)) (snd ((sp_writes p)[i := (?b, ?pc)] ! j))"
    using i(1) by (auto simp: nth_list_update)
  then show ?thesis using D(1,2,6) ts g i(1) by (simp add: sync_inv_def p' set_write_def)
qed

lemma sync_inv_write:
  assumes "sync_inv p" "i < length (sp_writes p)" "sync_write_step i p = Some p'"
  shows "sync_inv p'"
proof -
  note D = sync_invD [OF assms(1)]
  note w = D(5) [OF assms(2)]
  show ?thesis
  proof (cases "snd (sp_writes p ! i)")
    case WStart
    with w D(4) [of i] have n: "i \<notin> set (sp_turns p)" "sp_turn p \<noteq> Some i" by auto
    let ?pc = "if sp_done p then WDone 0 (Some ErrClosedPipe) else WLock"
    have p': "p' = set_write i ?pc p" using assms(3) WStart by (simp add: sync_write_step_def)
    have "delivered ((sp_writes p)[i := (fst (sp_writes p ! i), ?pc)]) (sp_turns p) = delivered (sp_writes p) (sp_turns p)"
      by (rule delivered_other [OF n(1)])
    moreover have "write_ok (j \<in> set (sp_turns p)) (sp_turn p = Some j) (fst ((sp_writes p)[i := (fst (sp_writes p ! i), ?pc)] ! j))
        (snd ((sp_writes p)[i := (fst (sp_writes p ! i), ?pc)] ! j))" if "j < length (sp_writes p)" for j
      using that D(5) [OF that] n by (cases "j = i") auto
    moreover have "\<exists>r k. snd ((sp_writes p)[i := (fst (sp_writes p ! i), ?pc)] ! j) = WOffer r k" if "sp_turn p = Some j" for j
      using D(4) [OF that] that n(2) by (cases "j = i") auto
    ultimately show ?thesis using D(1,2,3,6) by (simp add: sync_inv_def p' set_write_def)
  next
    case WLock
    with assms(3) have t: "sp_turn p = None" and p': "p' = (set_write i (WOffer (fst (sp_writes p ! i)) 0) p)\<lparr>sp_turn := Some i, sp_turns := sp_turns p @ [i]\<rparr>"
      by (simp_all add: sync_write_step_def split: if_splits)
    have n: "i \<notin> set (sp_turns p)" using w WLock by simp
    have "write_ok (j \<in> set (sp_turns p @ [i])) (Some i = Some j) (fst ((sp_writes p)[i := (fst (sp_writes p ! i), WOffer (fst (sp_writes p ! i)) 0)] ! j))
        (snd ((sp_writes p)[i := (fst (sp_writes p ! i), WOffer (fst (sp_writes p ! i)) 0)] ! j))" if "j < length (sp_writes p)" for j
      using that D(5) [OF that] t assms(2) by (cases "j = i") auto
    then show ?thesis using D(1,2,6) n assms(2) by (simp add: sync_inv_def p' set_write_def delivered_snoc delivered_other)
  next
    case (WOffer r k)
    with assms(3) have "p' = (set_write i (WDone k (Some ErrClosedPipe)) p)\<lparr>sp_turn := None\<rparr>" by (simp add: sync_write_step_def split: if_splits)
    moreover have "sync_inv ((set_write i (WDone k (Some ErrClosedPipe)) p)\<lparr>sp_turn := None\<rparr>)"
      by (rule sync_inv_set_write [OF assms(1,2)]) (use w WOffer in simp_all)
    ultimately show ?thesis by simp
  qed (use assms(3) in \<open>simp add: sync_write_step_def\<close>)
qed

lemma sync_inv_Write:
  assumes "sync_inv p"
  shows "sync_inv (p\<lparr>sp_writes := sp_writes p @ [(b, WStart)]\<rparr>)"
proof -
  note D = sync_invD [OF assms]
  have l: "i < length (sp_writes p)" if "i \<in> set (sp_turns p)" for i using D(2) that by auto
  have "delivered (sp_writes p @ [(b, WStart)]) (sp_turns p) = delivered (sp_writes p) (sp_turns p)"
    unfolding delivered_def by (rule arg_cong [where f = concat], rule map_cong) (auto simp: nth_append dest: l)
  moreover have "\<exists>r k. snd ((sp_writes p @ [(b, WStart)]) ! i) = WOffer r k" if "sp_turn p = Some i" for i
    using D(3,4) [OF that] l [of i] by (auto simp: nth_append)
  moreover have "sp_turn p \<noteq> Some (length (sp_writes p))" using D(3) [of "length (sp_writes p)"] l [of "length (sp_writes p)"] by auto
  ultimately show ?thesis using D l [of "length (sp_writes p)"] by (auto simp: sync_inv_def nth_append less_Suc_eq)
qed

lemma sync_inv_step: "sync_inv p \<Longrightarrow> sync_step p p' \<Longrightarrow> sync_inv p'"
  by (erule sync_step.cases) (auto intro: sync_inv_Write sync_inv_write sync_inv_hand_over, auto simp: sync_inv_def)

lemma sync_inv_run: "sync_run p p' \<Longrightarrow> sync_inv p \<Longrightarrow> sync_inv p'"
  by (induction rule: sync_run.induct) (auto intro: sync_inv_step)

lemma sync_inv_new: "sync_inv new_sync"
  by (simp add: sync_inv_def new_sync_def delivered_def)

section \<open>The pipes are streams\<close>

text \<open>What is on offer, unless the pipe is closed: the rest of that write is lost then. Empty writes are left out by \<open>sp_ok\<close>.\<close>

definition sp_contents :: "sync_pipe \<Rightarrow> bytes" where
  "sp_contents p =
     (if sp_done p then [] else case sp_turn p of None \<Rightarrow> [] | Some i \<Rightarrow> (case snd (sp_writes p ! i) of WOffer r k \<Rightarrow> r | _ \<Rightarrow> []))"

definition sp_ok :: "sync_pipe \<Rightarrow> bool" where
  "sp_ok p \<longleftrightarrow> (\<forall>i. sp_turn p = Some i \<longrightarrow> i < length (sp_writes p) \<and> (\<exists>r k. snd (sp_writes p ! i) = WOffer r k \<and> r \<noteq> []))"

interpretation sy: byte_pipe sync_Read sp_contents sp_done readCloseError sp_ok
proof
  fix p and n :: nat
  assume ok: "sp_ok p" and n: "0 < n"
  {
    assume c: "sp_contents p \<noteq> []"
    then have o: "\<not> sp_done p" by (auto simp: sp_contents_def)
    with c obtain i where t: "sp_turn p = Some i" by (auto simp: sp_contents_def split: option.splits)
    with ok obtain r k where w: "i < length (sp_writes p)" "snd (sp_writes p ! i) = WOffer r k" "r \<noteq> []" by (auto simp: sp_ok_def)
    have r: "sp_contents p = r" using o t w(2) by (simp add: sp_contents_def)
    let ?j = "min n (length r)"
    let ?p = "if drop n r = [] then (set_write i (WDone (k + length (take n r)) None) p)\<lparr>sp_turn := None, sp_got := sp_got p @ take n r\<rparr>
      else (set_write i (WOffer (drop n r) (k + length (take n r))) p)\<lparr>sp_turn := Some i, sp_got := sp_got p @ take n r\<rparr>"
    have rd: "sync_Read n p = Some ((take n r, None), ?p)" using o t w(2) by (simp add: sync_Read_def hand_over_def Let_def)
    have d: "sp_done ?p = sp_done p" "readCloseError ?p = readCloseError p" by (simp_all add: sp_done_def readCloseError_def set_write_def)
    have "sp_contents ?p = drop n r" "sp_ok ?p" using o w(1,2) by (auto simp: sp_contents_def sp_ok_def sp_done_def set_write_def)
    moreover have "take ?j r = take n r" "drop ?j r = drop n r" "0 < ?j" "?j \<le> n" "?j \<le> length r" using n w(3) by (auto simp: min_def)
    ultimately have "0 < ?j \<and> ?j \<le> n \<and> ?j \<le> length (sp_contents p) \<and> sync_Read n p = Some ((take ?j (sp_contents p), None), ?p) \<and>
        sp_contents ?p = drop ?j (sp_contents p) \<and> sp_done ?p = sp_done p \<and> readCloseError ?p = readCloseError p \<and> sp_ok ?p"
      unfolding r using rd d by presburger
    then show "\<exists>k p'. 0 < k \<and> k \<le> n \<and> k \<le> length (sp_contents p) \<and> sync_Read n p = Some ((take k (sp_contents p), None), p') \<and>
        sp_contents p' = drop k (sp_contents p) \<and> sp_done p' = sp_done p \<and> readCloseError p' = readCloseError p \<and> sp_ok p'" by blast
  next
    assume c: "sp_contents p = []"
    show "\<exists>p'. sync_Read n p = Some (([], Some (readCloseError p)), p') \<and> sp_contents p' = [] \<and> sp_done p' \<and> sp_ok p'" if "sp_done p"
      using that ok c by (simp add: sync_Read_def)
    show "sync_Read n p = None" if "\<not> sp_done p"
      using that ok c by (auto simp: sync_Read_def hand_over_def sp_contents_def sp_ok_def split: option.splits)
  }
qed

context byte_pipe
begin

lemma bufio_byte_pipe:
  "byte_pipe (bufio_Read rd) (\<lambda>(br, c). br_buf br @ contents c) (\<lambda>(br, c). ended c) (\<lambda>(br, c). end_err c) (\<lambda>(br, c). buf_ok br \<and> ok c)"
proof (unfold_locales, goal_cases)
  case (1 p n)
  obtain br c where p: "p = (br, c)" by (cases p)
  show ?case
  proof (cases "br_buf br = []")
    case True
    with 1 p have o: "buf_ok br" "ok c" "contents c \<noteq> []" by simp_all
    obtain k br' c' where k: "0 < k" "k \<le> n" "k \<le> length (contents c)"
      "bufio_Read rd n (br, c) = Some ((take k (contents c), None), (br', c'))" "br_buf br' @ contents c' = drop k (contents c)"
      "buf_ok br'" "ended c' = ended c" "end_err c' = end_err c" "ok c'" by (rule bufio_fetch [OF 1(2) True o])
    then show ?thesis using True by (intro exI [of _ k] exI [of _ "(br', c')"]) (simp add: p)
  next
    case False
    let ?k = "min n (length (br_buf br))" and ?br = "br\<lparr>br_buf := drop n (br_buf br)\<rparr>"
    have k: "0 < ?k" "?k \<le> n" "take ?k (br_buf br @ contents c) = take n (br_buf br)" "drop ?k (br_buf br @ contents c) = drop n (br_buf br) @ contents c"
      using False 1(2) by (auto simp: min_def)
    have "buf_ok ?br" "ok c" using 1(1) p by (simp_all add: buf_ok_def)
    with k bufio_ahead [OF 1(2) False, of c] p show ?thesis by (intro exI [of _ ?k] exI [of _ "(?br, c)"]) simp
  qed
next
  case (2 p n)
  then obtain br c where p: "p = (br, c)" "br_buf br = []" "buf_ok br" "ok c" "contents c = []" "ended c" by (cases p) auto
  from bufio_end [OF 2(2) p(2-5)] p(6) p show ?case by auto
next
  case (3 p n)
  then obtain br c where p: "p = (br, c)" "br_buf br = []" "buf_ok br" "ok c" "contents c = []" "\<not> ended c" by (cases p) auto
  from bufio_end [OF 3(2) p(2-5)] p(6) p(1) show ?case by auto
qed

end

text \<open>
  The ends as connections. A write returns only after the reads of the other end, so it always waits here; sending is the steps of the
  direction.
\<close>

definition io_conn :: "side \<Rightarrow> iopipe Connection" where
  "io_conn x =
     \<lparr>cf_Scheme = ''inproc.iopipe'', cf_Read = io_Read x, cf_Write = (\<lambda>_ _. None), cf_Writev = (\<lambda>_ _. None), cf_Close = io_Close x,
      cf_isSR = False, cf_Send = (\<lambda>_ _. None), cf_Recv = (\<lambda>_. None), cf_isMSR = False, cf_SendMsg = (\<lambda>_ _. None), cf_RecvMsg = (\<lambda>_. None)\<rparr>"

definition ne_conn :: "side \<Rightarrow> netpipe Connection" where
  "ne_conn x =
     \<lparr>cf_Scheme = ''inproc.netpipe'', cf_Read = ne_Read x, cf_Write = (\<lambda>_ _. None), cf_Writev = (\<lambda>_ _. None), cf_Close = ne_Close x,
      cf_isSR = False, cf_Send = (\<lambda>_ _. None), cf_Recv = (\<lambda>_. None), cf_isMSR = False, cf_SendMsg = (\<lambda>_ _. None), cf_RecvMsg = (\<lambda>_. None)\<rparr>"

definition io_contents :: "side \<Rightarrow> iopipe \<Rightarrow> bytes" where
  "io_contents x p = br_buf (io_buf p x) @ sp_contents (io_r p x)"

definition io_ok :: "side \<Rightarrow> iopipe \<Rightarrow> bool" where
  "io_ok x p \<longleftrightarrow> buf_ok (io_buf p x) \<and> sp_ok (io_r p x)"

interpretation bsy: byte_pipe "bufio_Read sync_Read" "\<lambda>(br, c). br_buf br @ sp_contents c" "\<lambda>(br, c). sp_done c" "\<lambda>(br, c). readCloseError c"
  "\<lambda>(br, c). buf_ok br \<and> sp_ok c"
  by (rule sy.bufio_byte_pipe)

lemma peer_neq [simp]: "peer_of x \<noteq> x" "x \<noteq> peer_of x"
  by (cases x; simp)+

interpretation ios: stream_conn "io_conn x" "io_contents x" "\<lambda>p. sp_done (io_r p x)" "\<lambda>p. readCloseError (io_r p x)" "io_ok x" for x
proof (unfold_locales, goal_cases)
  case (1 p n)
  with bsy.rd_some [of "(io_buf p x, io_r p x)" n] obtain k br q where k: "0 < k" "k \<le> n" "k \<le> length (io_contents x p)"
    "bufio_Read sync_Read n (io_buf p x, io_r p x) = Some ((take k (io_contents x p), None), (br, q))" "br_buf br @ sp_contents q = drop k (io_contents x p)"
    "sp_done q = sp_done (io_r p x)" "readCloseError q = readCloseError (io_r p x)" "buf_ok br" "sp_ok q"
    by (fastforce simp: io_ok_def io_contents_def)
  then show ?case
    by (intro exI [of _ k] exI [of _ "p\<lparr>io_buf := (io_buf p)(x := br), io_r := (io_r p)(x := q)\<rparr>"])
      (simp add: io_conn_def io_Read_def io_ok_def, simp add: io_contents_def)
next
  case (2 p n)
  with bsy.rd_fails [of "(io_buf p x, io_r p x)" n] obtain br q where
    "bufio_Read sync_Read n (io_buf p x, io_r p x) = Some (([], Some (readCloseError (io_r p x))), (br, q))" "br_buf br @ sp_contents q = []" "sp_done q" "buf_ok br" "sp_ok q"
    by (fastforce simp: io_ok_def io_contents_def)
  then show ?case by (simp add: io_conn_def io_Read_def io_ok_def io_contents_def)
next
  case (3 p n)
  with bsy.rd_waits [of "(io_buf p x, io_r p x)" n] show ?case by (simp add: io_conn_def io_Read_def io_ok_def io_contents_def)
next
  case (4 p)
  then show ?case by (simp add: io_conn_def io_Close_def io_contents_def io_ok_def sp_contents_def sp_done_def sp_ok_def)
qed

interpretation nes: stream_conn "ne_conn x" "\<lambda>p. sp_contents (ne_r p x)" "\<lambda>p. sp_done (ne_r p x)" "\<lambda>p. readCloseError (ne_r p x)" "\<lambda>p. sp_ok (ne_r p x)" for x
proof (unfold_locales, goal_cases)
  case (1 p n)
  with sy.rd_some [of "ne_r p x" n] obtain k q where "0 < k" "k \<le> n" "k \<le> length (sp_contents (ne_r p x))"
    "sync_Read n (ne_r p x) = Some ((take k (sp_contents (ne_r p x)), None), q)" "sp_contents q = drop k (sp_contents (ne_r p x))"
    "sp_done q = sp_done (ne_r p x)" "readCloseError q = readCloseError (ne_r p x)" "sp_ok q" by blast
  then show ?case by (intro exI [of _ k] exI [of _ "p\<lparr>ne_r := (ne_r p)(x := q)\<rparr>"]) (simp add: ne_conn_def ne_Read_def)
next
  case (2 p n)
  with sy.rd_fails [of "ne_r p x" n] obtain q where
    "sync_Read n (ne_r p x) = Some (([], Some (readCloseError (ne_r p x))), q)" "sp_contents q = []" "sp_done q" "sp_ok q" by blast
  then show ?case by (simp add: ne_conn_def ne_Read_def)
next
  case (3 p n)
  with sy.rd_waits [of "ne_r p x" n] show ?case by (simp add: ne_conn_def ne_Read_def)
next
  case (4 p)
  then show ?case by (simp add: ne_conn_def ne_Close_def sp_contents_def sp_done_def sp_ok_def)
qed

section \<open>Properties\<close>

text \<open>
  Whatever writes, reads and closes run at the same time, what was read from one direction is the concatenation of what the writes handed
  over, one after the other in the order of their turns: bytes of two writes never mix, none is read twice or skipped. A
  write that returns without an error has been read to the end, and one that fails reports exactly how many of its bytes were read.
\<close>

theorem sync_pipe_delivers:
  assumes "sync_run new_sync p"
  shows "distinct (sp_turns p) \<and> sp_got p = concat (map (\<lambda>i. take (written (snd (sp_writes p ! i))) (fst (sp_writes p ! i))) (sp_turns p)) \<and>
    (\<forall>i < length (sp_writes p). \<forall>k e. snd (sp_writes p ! i) = WDone k e \<longrightarrow>
       k \<le> length (fst (sp_writes p ! i)) \<and> (e = None \<longrightarrow> i \<in> set (sp_turns p) \<and> k = length (fst (sp_writes p ! i))) \<and>
       (i \<notin> set (sp_turns p) \<longrightarrow> k = 0))"
proof -
  note D = sync_invD [OF sync_inv_run [OF assms sync_inv_new]]
  have "k \<le> length (fst (sp_writes p ! i)) \<and> (e = None \<longrightarrow> i \<in> set (sp_turns p) \<and> k = length (fst (sp_writes p ! i))) \<and>
      (i \<notin> set (sp_turns p) \<longrightarrow> k = 0)" if "i < length (sp_writes p)" "snd (sp_writes p ! i) = WDone k e" for i k e
    using D(5) [OF that(1)] that(2) by auto
  then show ?thesis using D(1) D(6) [unfolded delivered_def] by blast
qed

text \<open>
  C22: A message through the pipes of \<open>inproc.iopipe\<close>, with its read buffer, and of \<open>inproc.netpipe\<close>: when the encoded message is on offer at an end,
  \<open>RecvMsg\<close> there returns it, with the identifier of the pipe in front of its source, and takes all of it.
\<close>

theorem sync_pipe_message:
  assumes "mem_good h" "pipe_ok (io_ok x) s" "pp_recvFunc (ps_pipe s) = FRecvStream" "pipe_contents (io_contents x) s = wire m"
    "sendable (pp_max (ps_pipe s)) m"
    and "pipe_ok (\<lambda>p. sp_ok (ne_r p x)) t" "pp_recvFunc (ps_pipe t) = FRecvStream" "pipe_contents (\<lambda>p. sp_contents (ne_r p x)) t = wire m"
    "sendable (pp_max (ps_pipe t)) m"
  shows "(\<exists>d s' h'. pipe_RecvMsg (io_conn x) remPipe pk s h = Some (Ok (Some d, None), s', h') \<and> delivers (pp_id (ps_pipe s)) m d \<and>
        pipe_contents (io_contents x) s' = []) \<and>
    (\<exists>d t' h'. pipe_RecvMsg (ne_conn x) remPipe pk t h = Some (Ok (Some d, None), t', h') \<and> delivers (pp_id (ps_pipe t)) m d \<and>
        pipe_contents (\<lambda>p. sp_contents (ne_r p x)) t' = [])"
proof
  have c: "pipe_contents (io_contents x) s = wire m @ []" "pipe_contents (\<lambda>p. sp_contents (ne_r p x)) t = wire m @ []" using assms(4,8) by simp_all
  obtain d s' h' where "pipe_RecvMsg (io_conn x) remPipe pk s h = Some (Ok (Some d, None), s', h')" "delivers (pp_id (ps_pipe s)) m d"
    "pipe_contents (io_contents x) s' = []" by (rule ios.recvMsg_frame [OF assms(2,3) c(1) assms(5,1), of remPipe pk])
  then show "\<exists>d s' h'. pipe_RecvMsg (io_conn x) remPipe pk s h = Some (Ok (Some d, None), s', h') \<and> delivers (pp_id (ps_pipe s)) m d \<and>
      pipe_contents (io_contents x) s' = []" by blast
  obtain d t' h' where "pipe_RecvMsg (ne_conn x) remPipe pk t h = Some (Ok (Some d, None), t', h')" "delivers (pp_id (ps_pipe t)) m d"
    "pipe_contents (\<lambda>p. sp_contents (ne_r p x)) t' = []" by (rule nes.recvMsg_frame [OF assms(6,7) c(2) assms(9,1), of remPipe pk])
  then show "\<exists>d t' h'. pipe_RecvMsg (ne_conn x) remPipe pk t h = Some (Ok (Some d, None), t', h') \<and> delivers (pp_id (ps_pipe t)) m d \<and>
      pipe_contents (\<lambda>p. sp_contents (ne_r p x)) t' = []" by blast
qed

text \<open>
  Closing one end: its own reads fail from then on, reads at the other end report the end of the stream, and writes at both ends that
  start afterwards fail without handing anything over.
\<close>

theorem sync_close_seen:
  "sync_Read n (ne_r (ne_Close x p) x) = Some (([], Some ErrClosedPipe), ne_r (ne_Close x p) x) \<and>
   (\<not> sp_rdone (ne_r p (peer_of x)) \<longrightarrow>
      sync_Read n (ne_r (ne_Close x p) (peer_of x)) = Some (([], Some EOF), ne_r (ne_Close x p) (peer_of x))) \<and>
   (\<forall>i y. snd (sp_writes (ne_r p y) ! i) = WStart \<longrightarrow>
      sync_write_step i (ne_r (ne_Close x p) y) = Some (set_write i (WDone 0 (Some ErrClosedPipe)) (ne_r (ne_Close x p) y)))"
proof -
  have d: "sp_rdone (ne_r (ne_Close x p) x)" "sp_wdone (ne_r (ne_Close x p) (peer_of x))" "sp_writes (ne_r (ne_Close x p) y) = sp_writes (ne_r p y)" for y
    by (simp_all add: ne_Close_def)
  have r: "sp_rdone (ne_r (ne_Close x p) (peer_of x)) = sp_rdone (ne_r p (peer_of x))" by (simp add: ne_Close_def)
  have "sp_done (ne_r (ne_Close x p) y)" for y using d(1,2) by (cases x; cases y) (auto simp: sp_done_def)
  then show ?thesis using d r by (simp add: sync_Read_def readCloseError_def sync_write_step_def)
qed

section \<open>Witnesses\<close>

definition demo_offer :: "bytes \<Rightarrow> sync_pipe" where
  "demo_offer b = new_sync\<lparr>sp_writes := [(b, WOffer b 0)], sp_turn := Some 0, sp_turns := [0]\<rparr>"

lemma demo_offer_run: "sync_run new_sync (demo_offer b)"
proof -
  let ?p = "new_sync\<lparr>sp_writes := [(b, WStart)]\<rparr>" and ?q = "new_sync\<lparr>sp_writes := [(b, WLock)]\<rparr>"
  have "sync_step new_sync ?p" using sy_Write [of new_sync b] by (simp add: new_sync_def)
  moreover have "sync_step ?p ?q" by (rule sy_write [of 0]) (simp_all add: sync_write_step_def set_write_def new_sync_def sp_done_def)
  moreover have "sync_step ?q (demo_offer b)"
    by (rule sy_write [of 0]) (simp_all add: sync_write_step_def set_write_def new_sync_def demo_offer_def)
  ultimately show ?thesis by (meson sn_refl sn_step)
qed

theorem sync_pipe_delivers_witness: "\<exists>p. sync_run new_sync p \<and> sp_writes p = [([1, 2, 3], WOffer [3] 2)] \<and> sp_got p = [1, 2]"
proof -
  obtain r p where p: "hand_over 2 (demo_offer [1, 2, 3]) = Some (r, p)" "sp_writes p = [([1, 2, 3], WOffer [3] 2)]" "sp_turns p = [0]"
    by (simp add: hand_over_def demo_offer_def set_write_def Let_def)
  have run: "sync_run new_sync p" by (rule sn_step [OF demo_offer_run sy_read [OF p(1)]])
  with sync_pipe_delivers [OF run] p(2,3) show ?thesis by (intro exI [of _ p]) simp
qed

definition demo_end :: "'c \<Rightarrow> ('c, u32 list) pstate" where
  "demo_end c = \<lparr>ps_pipe = pipe_literal c True False 5 None None 0, ps_ids = NewRecyclableIDGenerator, ps_parent = []\<rparr>"

lemma demo_end_fields:
  "pp_recvFunc (ps_pipe (demo_end c)) = FRecvStream" "pp_max (ps_pipe (demo_end c)) = 0" "pp_id (ps_pipe (demo_end c)) = 5"
  by (simp_all add: demo_end_def pipe_literal_def)

theorem sync_pipe_message_witness:
  "\<exists>m h d s' h'. sendable 0 m \<and> pipe_RecvMsg (ne_conn Dialled) (\<lambda>i xs. i # xs) fresh_picks
     (demo_end \<lparr>ne_r = (\<lambda>_. demo_offer (wire m)), ne_addr = (\<lambda>_. NewAddress [] [])\<rparr>) h = Some (Ok (Some d, None), s', h') \<and> delivers 5 m d"
proof -
  obtain m h where m: "sendable 0 m" "mem_good h" using example_msg by blast
  let ?p = "\<lparr>ne_r = (\<lambda>_. demo_offer (wire m)), ne_addr = (\<lambda>_. NewAddress [] [])\<rparr>"
  let ?q = "\<lparr>io_r = (\<lambda>_. demo_offer (wire m)), io_buf = (\<lambda>_. NewReaderSize 8192), io_addr = (\<lambda>_. NewAddress [] [])\<rparr>"
  have "length (encodeTo (meta m) (replicate MetaSize 0)) \<noteq> 0" by (simp add: MetaSize_def)
  then have "encodeTo (meta m) (replicate MetaSize 0) \<noteq> []" by (metis list.size(3))
  then have "wire m \<noteq> []" by (simp add: wire_def)
  then have o: "sp_ok (demo_offer (wire m))" "sp_contents (demo_offer (wire m)) = wire m"
    by (simp_all add: sp_ok_def sp_contents_def demo_offer_def new_sync_def sp_done_def)
  have s: "pipe_ok (io_ok Dialled) (demo_end ?q)" "pipe_contents (io_contents Dialled) (demo_end ?q) = wire m"
    "pipe_ok (\<lambda>p. sp_ok (ne_r p Dialled)) (demo_end ?p)" "pipe_contents (\<lambda>p. sp_contents (ne_r p Dialled)) (demo_end ?p) = wire m"
    using o by (simp_all add: demo_end_def pipe_literal_def pipe_ok_def pipe_contents_def ahead_def io_ok_def io_contents_def buf_ok_def NewReaderSize_def)
  note f = demo_end_fields
  have "\<exists>d s' h'. pipe_RecvMsg (ne_conn Dialled) (\<lambda>i xs. i # xs) fresh_picks (demo_end ?p) h = Some (Ok (Some d, None), s', h') \<and> delivers 5 m d"
    using sync_pipe_message [OF m(2) s(1) f(1) s(2) _ s(3) f(1) s(4), of "\<lambda>i xs. i # xs" fresh_picks] m(1) unfolding f by blast
  with m(1) show ?thesis by blast
qed

theorem sync_close_seen_witness:
  "sync_Read 3 (ne_r (ne_Close Dialled (newNetPipe (NewAddress [] []) (NewAddress [] []))) Accepted) =
     Some (([], Some EOF), ne_r (ne_Close Dialled (newNetPipe (NewAddress [] []) (NewAddress [] []))) Accepted)"
  using sync_close_seen [of 3 Dialled "newNetPipe (NewAddress [] []) (NewAddress [] [])"] by (simp add: newNetPipe_def new_sync_def)

end
