(* ===== verification/Timers.thy ===== *)
theory Timers
  imports Prelude
begin

text \<open>
  The timer of \<open>utils/time.go\<close> on top of \<open>time.Timer\<close>, which is modelled as the runtime of the Go version the module names has it:
  when a timer expires it becomes inactive, and then its tick is put into the channel of capacity one unless there is one already.
  Every start of the timer has a number, and a tick has the number of the start it belongs to.
\<close>

section \<open>The timer of the standard library\<close>

record gotimer =
  gt_active :: bool
  gt_start :: nat
  gt_firing :: "nat list"
  gt_chan :: "nat option"

definition time_NewTimer :: gotimer where
  "time_NewTimer = \<lparr>gt_active = True, gt_start = 0, gt_firing = [], gt_chan = None\<rparr>"

definition gt_Stop :: "gotimer \<Rightarrow> bool \<times> gotimer" where
  "gt_Stop g = (gt_active g, g\<lparr>gt_active := False\<rparr>)"

definition gt_Reset :: "gotimer \<Rightarrow> gotimer" where
  "gt_Reset g = g\<lparr>gt_active := True, gt_start := Suc (gt_start g)\<rparr>"

definition expire :: "gotimer \<Rightarrow> gotimer option" where
  "expire g = (if gt_active g then Some (g\<lparr>gt_active := False, gt_firing := gt_firing g @ [gt_start g]\<rparr>) else None)"

definition deliver :: "gotimer \<Rightarrow> gotimer option" where
  "deliver g =
     (case gt_firing g of
        [] \<Rightarrow> None
      | k # ks \<Rightarrow> Some (g\<lparr>gt_firing := ks, gt_chan := (case gt_chan g of None \<Rightarrow> Some k | Some j \<Rightarrow> Some j)\<rparr>))"

section \<open>Timer\<close>

text \<open>\<open>tm_C\<close> says that the field \<open>C\<close> is the channel of the timer and not nil.\<close>

record Timer =
  tm_C :: bool
  tm_tm :: "gotimer option"

definition NewTimer :: Timer where
  "NewTimer = \<lparr>tm_C = False, tm_tm = None\<rparr>"

definition timer_stop :: "gotimer \<Rightarrow> gotimer" where
  "timer_stop g = (case gt_Stop g of (ok, g') \<Rightarrow> if \<not> ok then g'\<lparr>gt_chan := None\<rparr> else g')"

definition Timer_Stop :: "Timer \<Rightarrow> Timer" where
  "Timer_Stop t = (case tm_tm t of None \<Rightarrow> t | Some g \<Rightarrow> t\<lparr>tm_tm := Some (timer_stop g), tm_C := False\<rparr>)"

definition Timer_Reset :: "Timer \<Rightarrow> Timer" where
  "Timer_Reset t =
     (case tm_tm t of
        None \<Rightarrow> t\<lparr>tm_tm := Some time_NewTimer, tm_C := True\<rparr>
      | Some g \<Rightarrow> t\<lparr>tm_tm := Some (gt_Reset (timer_stop g)), tm_C := True\<rparr>)"

definition NewTimerWithDuration :: Timer where
  "NewTimerWithDuration = Timer_Reset NewTimer"

text \<open>A receive from \<open>t.C\<close>: the number of the start whose tick it was.\<close>

definition Timer_recv :: "Timer \<Rightarrow> (nat \<times> Timer) option" where
  "Timer_recv t =
     (case tm_tm t of
        Some g \<Rightarrow> (case gt_chan g of Some k \<Rightarrow> if tm_C t then Some (k, t\<lparr>tm_tm := Some (g\<lparr>gt_chan := None\<rparr>)\<rparr>) else None | None \<Rightarrow> None)
      | None \<Rightarrow> None)"

section \<open>Runs\<close>

datatype tick_event = TStop | TReset | TRecv | TExpire | TDeliver

fun timer_step :: "tick_event \<Rightarrow> Timer \<Rightarrow> Timer option" where
  "timer_step TStop t = Some (Timer_Stop t)"
| "timer_step TReset t = Some (Timer_Reset t)"
| "timer_step TRecv t = map_option snd (Timer_recv t)"
| "timer_step TExpire t = (case tm_tm t of None \<Rightarrow> None | Some g \<Rightarrow> map_option (\<lambda>g'. t\<lparr>tm_tm := Some g'\<rparr>) (expire g))"
| "timer_step TDeliver t = (case tm_tm t of None \<Rightarrow> None | Some g \<Rightarrow> map_option (\<lambda>g'. t\<lparr>tm_tm := Some g'\<rparr>) (deliver g))"

fun timer_run :: "tick_event list \<Rightarrow> Timer \<Rightarrow> Timer option" where
  "timer_run [] t = Some t"
| "timer_run (e # es) t = (case timer_step e t of None \<Rightarrow> None | Some t' \<Rightarrow> timer_run es t')"

text \<open>Runs in which nothing happens between the expiry of a timer and its tick.\<close>

fun prompt :: "bool \<Rightarrow> tick_event list \<Rightarrow> bool" where
  "prompt w [] = (\<not> w)"
| "prompt w (e # es) = (if w then e = TDeliver \<and> prompt False es else e \<noteq> TDeliver \<and> prompt (e = TExpire) es)"

definition fresh_tick :: "Timer \<Rightarrow> bool" where
  "fresh_tick t \<longleftrightarrow> (\<forall>g. tm_tm t = Some g \<longrightarrow> gt_firing g = [] \<and> (\<forall>k. gt_chan g = Some k \<longrightarrow> k = gt_start g \<and> \<not> gt_active g))"

definition ticking :: "Timer \<Rightarrow> bool" where
  "ticking t \<longleftrightarrow> (\<exists>g. tm_tm t = Some g \<and> gt_firing g = [gt_start g] \<and> gt_chan g = None \<and> \<not> gt_active g)"

lemma fresh_Stop: "fresh_tick t \<Longrightarrow> fresh_tick (Timer_Stop t)"
  by (cases "tm_tm t") (simp_all add: fresh_tick_def Timer_Stop_def timer_stop_def gt_Stop_def)

lemma fresh_Reset: "fresh_tick t \<Longrightarrow> fresh_tick (Timer_Reset t)"
  by (cases "tm_tm t") (auto simp: fresh_tick_def Timer_Reset_def timer_stop_def gt_Stop_def gt_Reset_def time_NewTimer_def)

lemma Timer_recv_Some:
  assumes "Timer_recv t = Some (k, t')"
  obtains g where "tm_tm t = Some g" "gt_chan g = Some k" "t' = t\<lparr>tm_tm := Some (g\<lparr>gt_chan := None\<rparr>)\<rparr>"
proof (cases "tm_tm t")
  case (Some g)
  with assms that [of g] show thesis by (cases "gt_chan g"; cases "tm_C t") (simp_all add: Timer_recv_def)
qed (use assms in \<open>simp add: Timer_recv_def\<close>)

lemma fresh_recv: "fresh_tick t \<Longrightarrow> Timer_recv t = Some (k, t') \<Longrightarrow> fresh_tick t'"
  by (erule Timer_recv_Some) (simp add: fresh_tick_def)

lemma fresh_expire:
  assumes "fresh_tick t" "timer_step TExpire t = Some t1"
  shows "ticking t1"
proof (cases "tm_tm t")
  case (Some g)
  with assms(2) have a: "gt_active g" and t1: "t1 = t\<lparr>tm_tm := Some (g\<lparr>gt_active := False, gt_firing := gt_firing g @ [gt_start g]\<rparr>)\<rparr>"
    by (cases "gt_active g"; simp add: expire_def)+
  have "gt_firing g = []" "gt_chan g = None" using assms(1) Some a by (cases "gt_chan g"; simp add: fresh_tick_def)+
  then show ?thesis by (simp add: ticking_def t1)
qed (use assms(2) in simp)

lemma fresh_deliver: "ticking t \<Longrightarrow> timer_step TDeliver t = Some t' \<Longrightarrow> fresh_tick t'"
  by (auto simp: ticking_def fresh_tick_def deliver_def)

lemma fresh_run:
  "prompt w es \<Longrightarrow> (if w then ticking t else fresh_tick t) \<Longrightarrow> timer_run es t = Some t' \<Longrightarrow> fresh_tick t'"
proof (induction es arbitrary: w t)
  case (Cons e es)
  then obtain t1 where t1: "timer_step e t = Some t1" "timer_run es t1 = Some t'" by (auto split: option.splits)
  show ?case
  proof (cases w)
    case True
    with Cons.prems have "e = TDeliver" "prompt False es" "ticking t" by simp_all
    with Cons.IH [of False t1] t1 fresh_deliver show ?thesis by simp
  next
    case False
    with Cons.prems have p: "e \<noteq> TDeliver" "prompt (e = TExpire) es" "fresh_tick t" by simp_all
    have "if e = TExpire then ticking t1 else fresh_tick t1"
    proof (cases e)
      case TRecv
      with t1(1) obtain k where "Timer_recv t = Some (k, t1)" by auto
      with p(3) TRecv show ?thesis by (simp add: fresh_recv)
    qed (use p t1(1) fresh_expire [OF p(3), of t1] in \<open>auto simp: fresh_Stop fresh_Reset\<close>)
    from Cons.IH [OF p(2) this t1(2)] show ?thesis .
  qed
qed (simp split: if_splits)

section \<open>Properties\<close>

text \<open>
  As long as ticks are delivered at once, a timer that is reused never reports an old tick: whatever sequence of starts, stops,
  expiries and receives came before, a tick that is received belongs to the last start, and that has expired.
\<close>

theorem timer_reports_last_start:
  assumes "prompt False es" "timer_run es NewTimer = Some t" "Timer_recv t = Some (k, t')" "tm_tm t = Some g"
  shows "k = gt_start g \<and> \<not> gt_active g"
proof -
  have "fresh_tick t" by (rule fresh_run [OF assms(1) _ assms(2)]) (simp add: fresh_tick_def NewTimer_def)
  moreover have "gt_chan g = Some k" using Timer_recv_Some [OF assms(3)] assms(4) by (metis option.inject)
  ultimately show ?thesis using assms(4) by (simp add: fresh_tick_def)
qed

text \<open>
  In general it can: \<open>Reset\<close> may come between the expiry and the tick, find the channel empty and go on, and the old tick then
  ends the new wait at once.
\<close>

theorem timer_stale_tick:
  "\<exists>t t' g. timer_run [TReset, TExpire, TReset, TDeliver] NewTimer = Some t \<and> Timer_recv t = Some (0, t') \<and> tm_tm t = Some g \<and>
     gt_start g = 1 \<and> gt_active g"
  by (simp add: NewTimer_def Timer_Reset_def time_NewTimer_def timer_stop_def gt_Stop_def gt_Reset_def expire_def deliver_def Timer_recv_def)

theorem timer_reports_last_start_witness:
  "\<exists>t t' g. timer_run [TReset, TExpire, TDeliver, TReset, TExpire, TDeliver] NewTimer = Some t \<and> Timer_recv t = Some (gt_start g, t') \<and> tm_tm t = Some g"
proof -
  let ?g = "\<lparr>gt_active = False, gt_start = 1, gt_firing = [], gt_chan = Some 1\<rparr>"
  let ?t = "\<lparr>tm_C = True, tm_tm = Some ?g\<rparr>"
  have t: "timer_run [TReset, TExpire, TDeliver, TReset, TExpire, TDeliver] NewTimer = Some ?t" "Timer_recv ?t = Some (1, ?t\<lparr>tm_tm := Some (?g\<lparr>gt_chan := None\<rparr>)\<rparr>)"
    by (simp_all add: NewTimer_def Timer_Reset_def time_NewTimer_def timer_stop_def gt_Stop_def gt_Reset_def expire_def deliver_def Timer_recv_def)
  from timer_reports_last_start [OF _ t, of ?g] t show ?thesis by (intro exI [of _ ?t] exI [of _ "?t\<lparr>tm_tm := Some (?g\<lparr>gt_chan := None\<rparr>)\<rparr>"] exI [of _ ?g]) simp
qed

end
