(* ===== verification/Option_Access.thy ===== *)
theory Option_Access
  imports Sockets Pipes
begin

text \<open>
  Reading options in \<open>options/options.go\<close>: the \<open>Value\<close> and \<open>ValueFrom\<close> methods of the typed options, \<open>DefaultValue\<close> and
  \<open>OptionValues\<close>. The methods assert the type of what they find, and a failed assertion panics; on
  option sets that only the constructors and setters of the package have worked on it never fails.
\<close>

section \<open>Type assertions\<close>

fun boolOption_Value :: "optval \<Rightarrow> bool outcome" where
  "boolOption_Value (VBool b) = Ok b" | "boolOption_Value _ = Panic"

fun stringOption_Value :: "optval \<Rightarrow> string outcome" where
  "stringOption_Value (VString s) = Ok s" | "stringOption_Value _ = Panic"

fun timeDurationOption_Value :: "optval \<Rightarrow> u64 outcome" where
  "timeDurationOption_Value (VDuration d) = Ok d" | "timeDurationOption_Value _ = Panic"

fun intOption_Value :: "optval \<Rightarrow> u64 outcome" where
  "intOption_Value (VInt n) = Ok n" | "intOption_Value _ = Panic"

fun uint8Option_Value :: "optval \<Rightarrow> u8 outcome" where
  "uint8Option_Value (VUint8 n) = Ok n" | "uint8Option_Value _ = Panic"

fun uint16Option_Value :: "optval \<Rightarrow> u16 outcome" where
  "uint16Option_Value (VUint16 n) = Ok n" | "uint16Option_Value _ = Panic"

fun uint32Option_Value :: "optval \<Rightarrow> u32 outcome" where
  "uint32Option_Value (VUint32 n) = Ok n" | "uint32Option_Value _ = Panic"

fun int32Option_Value :: "optval \<Rightarrow> u32 outcome" where
  "int32Option_Value (VInt32 n) = Ok n" | "int32Option_Value _ = Panic"

section \<open>Reading from option sets\<close>

text \<open>\<open>None\<close> is a lookup that ran out of fuel, as for \<open>valueFrom\<close>.\<close>

definition DefaultValue :: "opt \<Rightarrow> optval" where
  "DefaultValue o1 = defaultValue o1"

definition anyOption_ValueFrom :: "nat \<Rightarrow> oheap \<Rightarrow> opt \<Rightarrow> nat list \<Rightarrow> optval option" where
  "anyOption_ValueFrom n H o1 as = valueFrom n H o1 as"

definition boolOption_ValueFrom :: "nat \<Rightarrow> oheap \<Rightarrow> opt \<Rightarrow> nat list \<Rightarrow> bool outcome option" where
  "boolOption_ValueFrom n H o1 as = map_option boolOption_Value (valueFrom n H o1 as)"

definition stringOption_ValueFrom :: "nat \<Rightarrow> oheap \<Rightarrow> opt \<Rightarrow> nat list \<Rightarrow> string outcome option" where
  "stringOption_ValueFrom n H o1 as = map_option stringOption_Value (valueFrom n H o1 as)"

definition timeDurationOption_ValueFrom :: "nat \<Rightarrow> oheap \<Rightarrow> opt \<Rightarrow> nat list \<Rightarrow> u64 outcome option" where
  "timeDurationOption_ValueFrom n H o1 as = map_option timeDurationOption_Value (valueFrom n H o1 as)"

definition intOption_ValueFrom :: "nat \<Rightarrow> oheap \<Rightarrow> opt \<Rightarrow> nat list \<Rightarrow> u64 outcome option" where
  "intOption_ValueFrom n H o1 as = map_option intOption_Value (valueFrom n H o1 as)"

definition uint8Option_ValueFrom :: "nat \<Rightarrow> oheap \<Rightarrow> opt \<Rightarrow> nat list \<Rightarrow> u8 outcome option" where
  "uint8Option_ValueFrom n H o1 as = map_option uint8Option_Value (valueFrom n H o1 as)"

definition uint16Option_ValueFrom :: "nat \<Rightarrow> oheap \<Rightarrow> opt \<Rightarrow> nat list \<Rightarrow> u16 outcome option" where
  "uint16Option_ValueFrom n H o1 as = map_option uint16Option_Value (valueFrom n H o1 as)"

definition uint32Option_ValueFrom :: "nat \<Rightarrow> oheap \<Rightarrow> opt \<Rightarrow> nat list \<Rightarrow> u32 outcome option" where
  "uint32Option_ValueFrom n H o1 as = map_option uint32Option_Value (valueFrom n H o1 as)"

definition int32Option_ValueFrom :: "nat \<Rightarrow> oheap \<Rightarrow> opt \<Rightarrow> nat list \<Rightarrow> u32 outcome option" where
  "int32Option_ValueFrom n H o1 as = map_option int32Option_Value (valueFrom n H o1 as)"

lemmas ValueFrom_defs = boolOption_ValueFrom_def stringOption_ValueFrom_def timeDurationOption_ValueFrom_def intOption_ValueFrom_def
  uint8Option_ValueFrom_def uint16Option_ValueFrom_def uint32Option_ValueFrom_def int32Option_ValueFrom_def

text \<open>A copy of the values of one set; those of its sub sets are not in it.\<close>

definition options_OptionValues :: "oheap \<Rightarrow> nat \<Rightarrow> (opt \<Rightarrow> optval option) option" where
  "options_OptionValues H a = (if a < length H then Some (opts (H ! a)) else None)"

section \<open>The readers of the pipe and the socket\<close>

lemma value_readers:
  "value_bool H a o1 = (case boolOption_ValueFrom (Suc a) H o1 [a] of Some r \<Rightarrow> r | None \<Rightarrow> Panic)"
  "value_uint32 H a o1 = (case uint32Option_ValueFrom (Suc a) H o1 [a] of Some r \<Rightarrow> r | None \<Rightarrow> Panic)"
  by (simp_all add: value_bool_def value_uint32_def ValueFrom_defs del: valueFrom.simps split: option.splits optval.splits)

lemma default_readers:
  "opt_bool H a o1 = (case GetOptionDefault (Suc a) H a o1 of Some v \<Rightarrow> boolOption_Value v | None \<Rightarrow> Panic)"
  "opt_uint16 H a o1 = (case GetOptionDefault (Suc a) H a o1 of Some v \<Rightarrow> uint16Option_Value v | None \<Rightarrow> Panic)"
  "opt_uint8 H a o1 = (case GetOptionDefault (Suc a) H a o1 of Some v \<Rightarrow> uint8Option_Value v | None \<Rightarrow> Panic)"
  by (simp_all add: opt_bool_def opt_uint16_def opt_uint8_def split: option.splits optval.splits)

section \<open>Option sets of a program\<close>

text \<open>What the constructors and setters make, from nothing; sub sets and downstream sets exist already.\<close>

inductive option_heap :: "'s hook_env \<Rightarrow> oheap \<Rightarrow> bool" for env where
  oh_none: "option_heap env []"
| oh_values: "option_heap env H \<Longrightarrow> option_heap env (snd (NewOptionsWithValues ovs H))"
| oh_subs: "option_heap env H \<Longrightarrow> list_all (\<lambda>s. s < length H) subs \<Longrightarrow> option_heap env (snd (NewOptionsWithValuesAndSubs ovs subs H))"
| oh_accepts: "option_heap env H \<Longrightarrow> pred_option (\<lambda>d. d < length H) ds \<Longrightarrow>
    option_heap env (snd (NewOptionsWithDownStreamsAndAccepts ds acc H))"
| oh_hook: "option_heap env H \<Longrightarrow> option_heap env (AddOptionChangeHook a k H)"
| oh_set: "option_heap env H \<Longrightarrow> SetOption env n H a o1 v st = Some (r, H', st') \<Longrightarrow> option_heap env H'"
| oh_set_new: "option_heap env H \<Longrightarrow> SetOptionIfNotExists env n H a o1 v st = Some (r, H', st') \<Longrightarrow> option_heap env H'"

lemma SetOption_heap:
  "SetOption env n H a o1 v st = Some (r, H', st') \<Longrightarrow> H' = H \<or> (\<exists>b w. has_kind (okind o1) w \<and> H' = put b o1 w H)"
proof (induction n arbitrary: a v)
  case (Suc n)
  then show ?case
    using Validate_has_kind by (fastforce split: if_splits outcome.splits option.splits dest: doSetOption_heap)
qed simp

lemma SetOptionIfNotExists_heap:
  "SetOptionIfNotExists env n H a o1 v st = Some (r, H', st') \<Longrightarrow> H' = H \<or> (\<exists>b w. has_kind (okind o1) w \<and> H' = put b o1 w H)"
proof (induction n arbitrary: a v)
  case (Suc n)
  then show ?case
    using Validate_has_kind by (fastforce split: if_splits outcome.splits option.splits dest: doSetOption_heap)
qed simp

lemma option_heap_ok: "option_heap env H \<Longrightarrow> heap_ok H"
proof (induction rule: option_heap.induct)
  case (oh_values H ovs)
  have "refs_ok (length H) (set_values ovs empty_options)" by (simp add: refs_ok_def empty_options_def)
  with heap_ok_snoc [OF oh_values.IH _ typed_set_values [OF typed_empty(1)]] show ?case by (simp add: NewOptionsWithValues_def)
next
  case (oh_subs H subs ovs)
  then have "refs_ok (length H) (set_values ovs (empty_options\<lparr>subOptions := subs\<rparr>))"
    by (auto simp: refs_ok_def empty_options_def list_all_iff)
  with heap_ok_snoc [OF oh_subs.IH _ typed_set_values [OF typed_empty(2)]] show ?case by (simp add: NewOptionsWithValuesAndSubs_def)
next
  case (oh_accepts H ds acc)
  then have "refs_ok (length H) (empty_options\<lparr>downstream := ds, accepts := Some (set acc)\<rparr>)"
    by (cases ds) (auto simp: refs_ok_def empty_options_def)
  with heap_ok_snoc [OF oh_accepts.IH _ typed_empty(3)] show ?case by (simp add: NewOptionsWithDownStreamsAndAccepts_def)
next
  case (oh_hook H a k)
  then show ?case by (auto simp: AddOptionChangeHook_def heap_ok_def refs_ok_def typed_def nth_list_update)
next
  case (oh_set H n a o1 v st r H' st')
  then show ?case using SetOption_heap [OF oh_set.hyps(2)] heap_ok_put by blast
next
  case (oh_set_new H n a o1 v st r H' st')
  then show ?case using SetOptionIfNotExists_heap [OF oh_set_new.hyps(2)] heap_ok_put by blast
qed (simp add: heap_ok_def)

lemma valueFrom_typed:
  assumes "heap_ok H" "has_kind (okind o1) (defaultValue o1)"
  shows "list_all (\<lambda>a. a < length H) as \<Longrightarrow> \<exists>v. valueFrom (length H) H o1 as = Some v \<and> has_kind (okind o1) v"
proof (induction as)
  case (Cons a as)
  then have "GetOption (length H) H a o1 \<noteq> None" by (intro GetOption_returns [OF assms(1)]) simp_all
  with Cons GetOption_typed [OF assms(1), of "length H" a o1] show ?case by (auto split: option.splits)
qed (use assms in simp)

lemma set_values_valid:
  "list_all (\<lambda>(o1, v). Validate o1 v = Ok v) ovs \<Longrightarrow> distinct (map fst ovs) \<Longrightarrow> opts (set_values ovs ob) = opts ob ++ map_of ovs"
proof (induction ovs ob rule: set_values.induct)
  case (2 o1 v ovs ob)
  then have "map_of ovs o1 = None" by (simp add: map_of_eq_None_iff)
  with 2 show ?case by (auto simp: map_add_def fun_eq_iff split: option.splits)
qed simp

text \<open>
  \<open>OptionValues\<close> and \<open>NewOptionsWithValues\<close>: a set made from the values of another, in whatever order the map is
  iterated, holds the same values.
\<close>

lemma OptionValues_copies:
  assumes "option_heap env H" and "options_OptionValues H a = Some (map_of ovs)" and "distinct (map fst ovs)"
    and "NewOptionsWithValues ovs H = (b, H')"
  shows "options_OptionValues H' b = options_OptionValues H a"
proof -
  have "typed (H ! a)" using option_heap_ok [OF assms(1)] assms(2) by (auto simp: heap_ok_def options_OptionValues_def split: if_splits)
  with assms(2) have "has_kind (okind o1) v" if "map_of ovs o1 = Some v" for o1 v
    using that by (auto simp: typed_def options_OptionValues_def split: if_splits)
  with assms(3) have "list_all (\<lambda>(o1, v). Validate o1 v = Ok v) ovs"
    using Validate_typed by (auto simp: list_all_iff)
  from set_values_valid [OF this assms(3)] assms(2,4) show ?thesis
    by (auto simp: NewOptionsWithValues_def options_OptionValues_def empty_options_def)
qed

section \<open>Properties\<close>

text \<open>
  C37: In option sets made by the constructors and setters, whatever the arguments and the hooks, \<open>ValueFrom\<close> of an
  option of each type returns a value of this type: no assertion in \<open>Value\<close> or \<open>ValueFrom\<close> panics. The default
  has to have the type, as the constructors of options make it.
\<close>

theorem ValueFrom_never_panics:
  assumes "option_heap env H" and "has_kind (okind o1) (DefaultValue o1)" and "list_all (\<lambda>a. a < length H) as"
  shows "anyOption_ValueFrom (length H) H o1 as \<noteq> None \<and>
    (okind o1 = KBool \<longrightarrow> (\<exists>x. boolOption_ValueFrom (length H) H o1 as = Some (Ok x))) \<and>
    (okind o1 = KString \<longrightarrow> (\<exists>x. stringOption_ValueFrom (length H) H o1 as = Some (Ok x))) \<and>
    (okind o1 = KTimeDuration \<longrightarrow> (\<exists>x. timeDurationOption_ValueFrom (length H) H o1 as = Some (Ok x))) \<and>
    (okind o1 = KInt \<longrightarrow> (\<exists>x. intOption_ValueFrom (length H) H o1 as = Some (Ok x))) \<and>
    (okind o1 = KUint8 \<longrightarrow> (\<exists>x. uint8Option_ValueFrom (length H) H o1 as = Some (Ok x))) \<and>
    (okind o1 = KUint16 \<longrightarrow> (\<exists>x. uint16Option_ValueFrom (length H) H o1 as = Some (Ok x))) \<and>
    (okind o1 = KUint32 \<longrightarrow> (\<exists>x. uint32Option_ValueFrom (length H) H o1 as = Some (Ok x))) \<and>
    (okind o1 = KInt32 \<longrightarrow> (\<exists>x. int32Option_ValueFrom (length H) H o1 as = Some (Ok x)))"
proof -
  obtain v where "valueFrom (length H) H o1 as = Some v" "has_kind (okind o1) v"
    using valueFrom_typed [OF option_heap_ok [OF assms(1)] _ assms(3)] assms(2) unfolding DefaultValue_def by blast
  then show ?thesis
    by (cases v) (auto simp: ValueFrom_defs anyOption_ValueFrom_def simp del: valueFrom.simps)
qed

theorem ValueFrom_never_panics_witness:
  "\<exists>x. boolOption_ValueFrom 2 (snd (NewOptionsWithValues [(Opt_NoRecv, VBool True)] (snd (NewOptionsWithValues [(Opt_NoRecv, VInt 3)] []))))
    Opt_NoRecv [0, 1] = Some (Ok x)"
proof -
  let ?env = "(\<lambda>_ _ _ _ _ s. (Ok (), s)) :: unit hook_env"
  let ?H = "snd (NewOptionsWithValues [(Opt_NoRecv, VBool True)] (snd (NewOptionsWithValues [(Opt_NoRecv, VInt 3)] [])))"
  have "option_heap ?env ?H" by (intro oh_values oh_none)
  moreover have "length ?H = 2" by (simp add: NewOptionsWithValues_def)
  moreover have "okind Opt_NoRecv = KBool" "has_kind (okind Opt_NoRecv) (DefaultValue Opt_NoRecv)"
    by (simp_all add: Opt_NoRecv_def NewBoolOption_def DefaultValue_def)
  ultimately show ?thesis using ValueFrom_never_panics [of ?env ?H Opt_NoRecv "[0, 1]"] by simp
qed

end
