(* ===== verification/Links.thy ===== *)
theory Links
  imports Pipe_Properties Socket_Properties
begin

text \<open>
  Two sockets of one process joined by an in-process channel: the connections of \<open>channel_sr.go\<close> and
  \<open>channel_msr.go\<close> under the pipes of \<open>connector/pipe.go\<close>, and the step relation of the whole. Buffers are handed
  over by the channel, so the sockets, the channel and the pools share one memory, the one in the
  channel's state. The interface \<open>handover\<close> is what the sockets rely on: who owns a buffer while it travels.
\<close>

section \<open>The two connections\<close>

text \<open>\<open>w\<close> is the case that a \<open>select\<close> between \<open>closedq\<close> and the channel takes.\<close>

definition sr_conn :: "wchoice \<Rightarrow> side \<Rightarrow> srPipe Connection" where
  "sr_conn w x =
     \<lparr>cf_Scheme = ''inproc.channel.sr'', cf_Read = (\<lambda>n. ch_Read n x), cf_Write = ch_Write w x, cf_Writev = writev_all (ch_Write w x),
      cf_Close = (\<lambda>p. snd (ch_Close p)), cf_isSR = True, cf_Send = sr_Send w x,
      cf_Recv = (\<lambda>p. case sr_Recv x p of
                        Some (Ok b, p') \<Rightarrow> Some ((sdata b, None), p')
                      | Some (Error e, p') \<Rightarrow> Some (([], Some e), p')
                      | _ \<Rightarrow> None),
      cf_isMSR = False, cf_SendMsg = (\<lambda>_ _. None), cf_RecvMsg = (\<lambda>_. None)\<rparr>"

definition msr_conn :: "wchoice \<Rightarrow> side \<Rightarrow> msrPipe Connection" where
  "msr_conn w x =
     \<lparr>cf_Scheme = ''inproc.channel.msr'', cf_Read = (\<lambda>n. ch_Read n x), cf_Write = ch_Write w x, cf_Writev = writev_all (ch_Write w x),
      cf_Close = (\<lambda>p. snd (ch_Close p)), cf_isSR = False, cf_Send = (\<lambda>_ _. None), cf_Recv = (\<lambda>_. None),
      cf_isMSR = True, cf_SendMsg = msr_SendMsg w x,
      cf_RecvMsg = (\<lambda>p. case msr_RecvMsg x p of
                           Some (Ok m, p') \<Rightarrow> Some ((m, None), p')
                         | Some (Error e, p') \<Rightarrow> Some ((newMessage, Some e), p')
                         | _ \<Rightarrow> None)\<rparr>"

section \<open>The network\<close>

text \<open>
  Both sockets, the object of the pipe in each, the two pipes, the connection under them with the memory of
  the process, the generator of identifiers, and for each side what its pipe has told its connector
  about closing and the socket has not been told yet. \<open>n_serr\<close> and \<open>n_terr\<close> are errors that \<open>SendMsg\<close> has returned to the sender
  and to \<open>stopPipe\<close>, which have not gone on yet.
\<close>

record 'a net =
  n_sock :: "side \<Rightarrow> socket"
  n_obj :: "side \<Rightarrow> nat"
  n_pipe :: "side \<Rightarrow> 'a chpipe_scheme pipe"
  n_conn :: "'a chpipe_scheme"
  n_ids :: id_gen
  n_gone :: "side \<Rightarrow> u32 list"
  n_serr :: "side \<Rightarrow> err option"
  n_terr :: "side \<Rightarrow> err option"

definition net_sock :: "side \<Rightarrow> 'a net \<Rightarrow> socket" where
  "net_sock x n = (n_sock n x)\<lparr>s_mem := cp_mem (n_conn n)\<rparr>"

definition put_sock :: "side \<Rightarrow> socket \<Rightarrow> 'a net \<Rightarrow> 'a net" where
  "put_sock x s n = n\<lparr>n_sock := (n_sock n)(x := s), n_conn := (n_conn n)\<lparr>cp_mem := s_mem s\<rparr>\<rparr>"

definition net_end :: "side \<Rightarrow> 'a net \<Rightarrow> ('a chpipe_scheme, u32 list) pstate" where
  "net_end x n = \<lparr>ps_pipe = (n_pipe n x)\<lparr>pp_conn := n_conn n\<rparr>, ps_ids = n_ids n, ps_parent = n_gone n x\<rparr>"

definition put_end :: "side \<Rightarrow> ('a chpipe_scheme, u32 list) pstate \<Rightarrow> 'a net \<Rightarrow> 'a net" where
  "put_end x e n =
     n\<lparr>n_pipe := (n_pipe n)(x := ps_pipe e), n_conn := pp_conn (ps_pipe e), n_ids := ps_ids e, n_gone := (n_gone n)(x := ps_parent e)\<rparr>"

definition tell :: "u32 \<Rightarrow> u32 list \<Rightarrow> u32 list" where
  "tell i is = is @ [i]"

abbreviation net_obj :: "side \<Rightarrow> 'a net \<Rightarrow> spipe" where
  "net_obj x n \<equiv> obj (n_obj n x) (n_sock n x)"

text \<open>
  \<open>RecvMsg\<close> of the pipe at \<open>x\<close>. The connection first releases what its last call returned; the message is built in
  the memory after that.
\<close>

definition net_RecvMsg ::
    "(side \<Rightarrow> 'a chpipe_scheme Connection) \<Rightarrow> (side \<Rightarrow> 'a chpipe_scheme \<Rightarrow> 'a chpipe_scheme) \<Rightarrow> picks \<Rightarrow> side \<Rightarrow> 'a net \<Rightarrow>
       ((message option \<times> err option) outcome \<times> 'a net) option" where
  "net_RecvMsg cf rel pk x n =
     (let n1 = n\<lparr>n_conn := rel x (n_conn n)\<rparr>
      in map_option (\<lambda>(r, e, h). (r, let n2 = put_end x e n1 in n2\<lparr>n_conn := (n_conn n2)\<lparr>cp_mem := h\<rparr>\<rparr>))
           (pipe_RecvMsg (cf x) tell pk (net_end x n1) (cp_mem (n_conn n1))))"

text \<open>No goroutine of the pipe \<open>a\<close> that is inside a call of the pipe comes back from it.\<close>

definition unanswered :: "nat \<Rightarrow> socket \<Rightarrow> socket \<Rightarrow> bool" where
  "unanswered a s s' \<longleftrightarrow>
     (\<forall>m. p_spc (obj a s) \<in> {SSend m, SRemSend m} \<longrightarrow> p_spc (obj a s') = p_spc (obj a s)) \<and>
     (p_rpc (obj a s) = RLoop \<longrightarrow> p_rpc (obj a s') = RLoop) \<and>
     (\<forall>m. p_tpc (obj a s) = TSend m \<longrightarrow> p_tpc (obj a s') = TSend m)"

text \<open>
  Steps of the network: any step of a socket but for the calls into the joined pipe, which the pipe answers; the
  release at the begin of a \<open>Recv\<close> that then waits; \<open>Close\<close> of a pipe by its connector; and the news of a
  closed pipe reaching the socket. A sender whose call succeeded has no more than the struct of the message to release.
\<close>

inductive net_step ::
    "(wchoice \<Rightarrow> side \<Rightarrow> 'a chpipe_scheme Connection) \<Rightarrow> (side \<Rightarrow> 'a chpipe_scheme \<Rightarrow> 'a chpipe_scheme) \<Rightarrow> 'a net \<Rightarrow> 'a net \<Rightarrow> bool"
  for cf rel where
  ns_local: "step (net_sock x n) s \<Longrightarrow> unanswered (n_obj n x) (net_sock x n) s \<Longrightarrow> net_step cf rel n (put_sock x s n)"
| ns_sent: "p_spc (net_obj x n) \<in> {SSend m, SRemSend m} \<Longrightarrow> n_serr n x = None \<Longrightarrow>
    pipe_SendMsg (cf w x) tell m (net_end x n) = Some (Ok None, e) \<Longrightarrow>
    sender_step (ChResult None ChDefault) (n_obj n x) (net_sock x (put_end x e n)) = Some s \<Longrightarrow>
    net_step cf rel n (put_sock x s (put_end x e n))"
| ns_send_fails: "p_spc (net_obj x n) \<in> {SSend m, SRemSend m} \<Longrightarrow> n_serr n x = None \<Longrightarrow>
    pipe_SendMsg (cf w x) tell m (net_end x n) = Some (Ok (Some err), e) \<Longrightarrow>
    net_step cf rel n ((put_end x e n)\<lparr>n_serr := (n_serr n)(x := Some err)\<rparr>)"
| ns_send_back: "n_serr n x = Some err \<Longrightarrow> p_spc (net_obj x n) \<in> {SSend m, SRemSend m} \<Longrightarrow>
    sender_step (ChResult (Some err) ch) (n_obj n x) (net_sock x n) = Some s \<Longrightarrow>
    net_step cf rel n ((put_sock x s n)\<lparr>n_serr := (n_serr n)(x := None)\<rparr>)"
| ns_stop_sent: "p_tpc (net_obj x n) = TSend m \<Longrightarrow> n_terr n x = None \<Longrightarrow>
    pipe_SendMsg (cf w x) tell m (net_end x n) = Some (Ok None, e) \<Longrightarrow>
    stopPipe_step (ChResult None ChDefault) (n_obj n x) (net_sock x (put_end x e n)) = Some s \<Longrightarrow>
    net_step cf rel n (put_sock x s (put_end x e n))"
| ns_stop_fails: "p_tpc (net_obj x n) = TSend m \<Longrightarrow> n_terr n x = None \<Longrightarrow>
    pipe_SendMsg (cf w x) tell m (net_end x n) = Some (Ok (Some err), e) \<Longrightarrow>
    net_step cf rel n ((put_end x e n)\<lparr>n_terr := (n_terr n)(x := Some err)\<rparr>)"
| ns_stop_back: "n_terr n x = Some err \<Longrightarrow> p_tpc (net_obj x n) = TSend m \<Longrightarrow>
    stopPipe_step (ChResult (Some err) ch) (n_obj n x) (net_sock x n) = Some s \<Longrightarrow>
    net_step cf rel n ((put_sock x s n)\<lparr>n_terr := (n_terr n)(x := None)\<rparr>)"
| ns_recv: "p_rpc (net_obj x n) = RLoop \<Longrightarrow> net_RecvMsg (cf WSend) rel pk x n = Some (r, n1) \<Longrightarrow>
    recv_return r (n_obj n x) (net_sock x n1) = Some s \<Longrightarrow> net_step cf rel n (put_sock x s n1)"
| ns_release: "p_rpc (net_obj x n) = RLoop \<Longrightarrow> net_step cf rel n (n\<lparr>n_conn := rel x (n_conn n)\<rparr>)"
| ns_Close: "net_step cf rel n (put_end x (snd (pipe_Close (cf WSend x) tell (net_end x n))) n)"
| ns_event: "n_gone n x = i # is \<Longrightarrow> s_handler (n_sock n x) \<Longrightarrow> HandlePipeEvent PipeEventRemove i (net_sock x n) = Some s \<Longrightarrow>
    net_step cf rel n (put_sock x s (n\<lparr>n_gone := (n_gone n)(x := is)\<rparr>))"
| ns_unheard: "n_gone n x = i # is \<Longrightarrow> \<not> s_handler (n_sock n x) \<Longrightarrow> net_step cf rel n (n\<lparr>n_gone := (n_gone n)(x := is)\<rparr>)"

inductive net_run for cf rel where
  nr_start: "net_run cf rel n n"
| nr_step: "net_run cf rel n n' \<Longrightarrow> net_step cf rel n' n'' \<Longrightarrow> net_run cf rel n n''"

section \<open>What the steps of a socket keep\<close>

text \<open>The identity of a pipe object never changes, and objects are only added.\<close>

definition idents :: "socket \<Rightarrow> (u32 \<times> bool \<times> FreeLevel) list" where
  "idents s = map (\<lambda>p. (p_id p, p_raw p, p_freeLevel p)) (s_objs s)"

lemma idents_fields [simp]:
  "idents (s\<lparr>s_mem := h\<rparr>) = idents s" "idents (s\<lparr>s_user := us\<rparr>) = idents s" "idents (s\<lparr>s_all := al\<rparr>) = idents s"
  "idents (s\<lparr>s_heap := H\<rparr>) = idents s" "idents (s\<lparr>s_sendqs := qs\<rparr>) = idents s" "idents (s\<lparr>s_recvqs := qs\<rparr>) = idents s"
  "idents (s\<lparr>s_pipes := ps\<rparr>) = idents s" "idents (s\<lparr>s_closer := c\<rparr>) = idents s" "idents (s\<lparr>s_closedq := b\<rparr>) = idents s"
  "idents (s\<lparr>s_handler := b\<rparr>) = idents s" "idents (s\<lparr>s_senderStoppedq := b\<rparr>) = idents s" "idents (s\<lparr>s_senderWg := k\<rparr>) = idents s"
  by (simp_all add: idents_def)

lemma idents_set_obj:
  "p_id p = p_id (obj a s) \<Longrightarrow> p_raw p = p_raw (obj a s) \<Longrightarrow> p_freeLevel p = p_freeLevel (obj a s) \<Longrightarrow> idents (set_obj a p s) = idents s"
  by (cases "a < length (s_objs s)") (auto simp: idents_def set_obj_def map_update list_update_same_conv list_update_beyond)

lemma idents_set_pc [simp]:
  "idents (set_spc a pc s) = idents s" "idents (set_rpc a rc s) = idents s" "idents (set_tpc a tc s) = idents s"
  "idents (sender_done a s) = idents s"
  by (simp_all add: set_spc_def set_rpc_def set_tpc_def sender_done_def idents_set_obj)

lemma idents_pieces:
  "push_sendq ch m s = Some (e, t) \<Longrightarrow> idents t = idents s"
  "push_pipe ch m a s = Some (e, t) \<Longrightarrow> idents t = idents s"
  "take_pipeq a s = Some (m, t) \<Longrightarrow> idents t = idents s"
  "take_sendq k s = Some (m, t) \<Longrightarrow> idents t = idents s"
  "push_recvq m s = Some t \<Longrightarrow> idents t = idents s"
proof -
  show "push_pipe ch m a s = Some (e, t) \<Longrightarrow> idents t = idents s"
    by (auto simp: push_pipe_def set_obj_def [symmetric] split: if_splits intro!: idents_set_obj)
  show "take_pipeq a s = Some (m, t) \<Longrightarrow> idents t = idents s"
    by (auto simp: take_pipeq_def intro!: idents_set_obj)
qed (auto simp: push_sendq_def take_sendq_def push_recvq_def split: if_splits option.splits)

lemma idents_doSendMsg: "doSendMsg lvl r ch m s = Some (e, t) \<Longrightarrow> idents t = idents s"
  by (erule doSendMsg_cases) (auto dest: idents_pieces(1))

lemma idents_remPipe: "remPipe pid s = Some (r, t) \<Longrightarrow> idents t = idents s"
  by (auto simp: remPipe_def Let_def idents_set_obj split: if_splits option.splits)

lemma idents_sender: "sender_step ch a s = Some t \<Longrightarrow> idents t = idents s"
  by (cases "p_spc (obj a s)")
    (auto simp: sender_step_def idents_set_obj split: choice.splits if_splits option.splits outcome.splits
      dest!: idents_pieces(3,4) idents_doSendMsg idents_remPipe)

lemma idents_receiver: "receiver_step ch y a s = Some t \<Longrightarrow> idents t = idents s"
  by (cases "p_rpc (obj a s)")
    (auto simp: receiver_step_def recv_return_def Let_def split: choice.splits if_splits option.splits outcome.splits prod.splits
      dest!: idents_pieces(5) idents_remPipe)

lemma idents_stopper: "stopPipe_step ch a s = Some t \<Longrightarrow> idents t = idents s"
  by (cases "p_tpc (obj a s)")
    (auto simp: stopPipe_step_def split: choice.splits if_splits option.splits dest!: idents_pieces(3) idents_doSendMsg)

lemma idents_sends:
  "sendTo ch m s = Some (e, t) \<Longrightarrow> idents t = idents s"
  "sendToAll_begin as m s = Some t \<Longrightarrow> idents t = idents s"
  "socket_SendMsg ch as m s = Some (e, t) \<Longrightarrow> idents t = idents s"
proof -
  show st: "sendTo ch m s = Some (e, t) \<Longrightarrow> idents t = idents s" for e t
    by (auto simp: sendTo_def split: if_splits outcome.splits option.splits dest: idents_pieces(2))
  show sa: "sendToAll_begin as m s = Some t \<Longrightarrow> idents t = idents s" for t
    by (auto simp: sendToAll_begin_def split: if_splits)
  show "socket_SendMsg ch as m s = Some (e, t) \<Longrightarrow> idents t = idents s"
    using st [of e t] sa [of t] idents_pieces(1) [of ch m s e t] unfolding socket_SendMsg_def
    by (auto split: if_splits)
qed

lemma idents_SetOption:
  assumes "socket_SetOption o1 v s = Some (r, s')"
  shows "idents s' = idents s"
proof -
  have o: "idents (snd (onOptionChange o1 H s)) = idents s" for o1 H s
    by (auto simp: onOptionChange_def upd_def idents_def split: outcome.splits)
  from assms obtain H t where t: "SetOption socket_hooks (Suc (s_opts s)) (s_heap s) (s_opts s) o1 v s = Some (r, H, t)"
      "s' = t\<lparr>s_heap := H\<rparr>"
    by (auto simp: socket_SetOption_def split: option.splits)
  have "idents t = idents s"
    by (rule SetOption_rel [where P = "\<lambda>s t. idents t = idents s", OF _ _ _ t(1)]) (auto simp: o)
  with t(2) show ?thesis by simp
qed

lemma idents_event: "HandlePipeEvent e pid s = Some t \<Longrightarrow> prefix (idents s) (idents t)"
proof (cases e)
  case (PipeEventAdd raw lvl)
  assume "HandlePipeEvent e pid s = Some t"
  with PipeEventAdd show ?thesis
    by (auto simp: HandlePipeEvent_def addPipe_def idents_def split: if_splits outcome.splits)
next
  case PipeEventRemove
  assume "HandlePipeEvent e pid s = Some t"
  with PipeEventRemove show ?thesis
    by (auto simp: HandlePipeEvent_def split: option.splits outcome.splits dest!: idents_remPipe)
qed

lemma idents_step: "step s s' \<Longrightarrow> prefix (idents s) (idents s')"
proof (induction rule: step.induct)
  case (step_Send content pk ch s r s')
  then show ?case by (auto simp: socket_Send_def split: if_splits prod.splits outcome.splits dest: idents_pieces(1))
next
  case (step_SendTo dest content pk ch s r s')
  then show ?case by (auto simp: socket_SendTo_def split: if_splits prod.splits outcome.splits dest: idents_sends(1))
next
  case (step_SendAll content pk as s r s')
  then show ?case by (auto simp: socket_SendAll_def split: if_splits prod.splits outcome.splits dest: idents_sends(2))
next
  case (step_all k s pk ch s')
  then show ?case by (auto simp: sendToAll_step_def split: prod.splits list.splits outcome.splits dest: idents_pieces(2))
next
  case (step_forward k s ch as r s')
  then show ?case by (auto simp: app_forward_def Let_def split: option.splits dest!: idents_sends(3))
next
  case (step_close ch s s')
  then show ?case
    by (auto simp: close_step_def split: cpc.splits choice.splits if_splits option.splits dest: idents_pieces(4))
qed (auto simp: socket_RecvMsg_def socket_Close_def app_release_def Let_def split: choice.splits if_splits option.splits
    dest: idents_event idents_sender idents_receiver idents_stopper idents_SetOption)

lemma idents_obj:
  assumes "prefix (idents s) (idents t)" "a < length (s_objs s)"
  shows "a < length (s_objs t)" "p_id (obj a t) = p_id (obj a s)" "p_freeLevel (obj a t) = p_freeLevel (obj a s)"
proof -
  have l: "a < length (idents s)" using assms(2) by (simp add: idents_def)
  with prefix_length_le [OF assms(1)] show a: "a < length (s_objs t)" by (simp add: idents_def)
  from assms(1) l have "idents t ! a = idents s ! a" by (auto simp: prefix_def nth_append)
  with a assms(2) show "p_id (obj a t) = p_id (obj a s)" "p_freeLevel (obj a t) = p_freeLevel (obj a s)"
    by (simp_all add: idents_def)
qed

text \<open>A call of \<open>SendMsg\<close> that succeeded: the message leaves the socket.\<close>

lemma sender_sent:
  assumes "p_spc (obj a s) \<in> {SSend m, SRemSend m}" "a < length (s_objs s)" "sender_step (ChResult None ch) a s = Some s'"
  shows "held s = add_mset m (held s')" "s_mem s' = FreeByLevel m (p_freeLevel (obj a s)) (s_mem s)"
proof -
  let ?s = "s\<lparr>s_mem := FreeByLevel m (p_freeLevel (obj a s)) (s_mem s)\<rparr>"
  have "s' = set_spc a SLoop ?s \<or> s' = set_spc a SRemain ?s"
    using assms(1,3) by (auto simp: sender_step_def doSendMsg_def)
  then obtain pc where s': "s' = set_spc a pc ?s" "spc_msgs pc = {#}" by auto
  have "spc_msgs (p_spc (obj a s)) = {#m#}" using assms(1) by auto
  with held_set_spc [of a ?s pc] assms(2) s' show "held s = add_mset m (held s')" by simp
  show "s_mem s' = FreeByLevel m (p_freeLevel (obj a s)) (s_mem s)" by (simp add: s')
qed

lemma stopper_sent:
  assumes "p_tpc (obj a s) = TSend m" "a < length (s_objs s)" "stopPipe_step (ChResult None ch) a s = Some s'"
  shows "held s = add_mset m (held s')" "s_mem s' = FreeByLevel m (p_freeLevel (obj a s)) (s_mem s)"
proof -
  let ?s = "s\<lparr>s_mem := FreeByLevel m (p_freeLevel (obj a s)) (s_mem s)\<rparr>"
  have s': "s' = set_tpc a TDrain ?s"
    using assms(1,3) by (auto simp: stopPipe_step_def doSendMsg_def)
  with held_set_tpc [of a ?s TDrain] assms(1,2) show "held s = add_mset m (held s')" by simp
  show "s_mem s' = FreeByLevel m (p_freeLevel (obj a s)) (s_mem s)" by (simp add: s')
qed

lemma recv_return_step:
  assumes "p_rpc (obj a s) = RLoop" "arrival_RecvMsg y (p_id (obj a s)) (s_mem s) = (r, h)"
  shows "receiver_step ch y a s = recv_return r a (s\<lparr>s_mem := h\<rparr>)"
  using assms by (simp add: receiver_step_def Let_def)

lemma sending_held: "a < length (s_objs s) \<Longrightarrow> p_spc (obj a s) \<in> {SSend m, SRemSend m} \<or> p_tpc (obj a s) = TSend m \<Longrightarrow> m \<in># held s"
proof -
  assume a: "a < length (s_objs s)" "p_spc (obj a s) \<in> {SSend m, SRemSend m} \<or> p_tpc (obj a s) = TSend m"
  then have "m \<in># pipe_msgs (obj a s)" by (auto simp: pipe_msgs_def)
  moreover have "sum_list (map pipe_msgs (s_objs s)) = pipe_msgs (obj a s) +
      sum_list (map pipe_msgs (take a (s_objs s) @ drop (Suc a) (s_objs s)))"
    using arg_cong [OF id_take_nth_drop [OF a(1)], of "\<lambda>xs. sum_list (map pipe_msgs xs)"] by (simp add: ac_simps)
  ultimately show ?thesis by (simp add: held_def)
qed

section \<open>Who owns a buffer\<close>

lemma safe_split: "safe K (M + N) h \<longleftrightarrow> safe (K + image_mset marr N) M h \<and> (\<forall>m \<in># N. wf_msg m)"
  by (auto simp: safe_def ac_simps)

lemma safe_hand_over: "safe K (add_mset m M) h \<Longrightarrow> safe (add_mset (marr m) K) M h"
  by (simp add: safe_def)

lemma safe_FreeByLevel_kept: "safe K M h \<Longrightarrow> lvl \<noteq> LevelFreeAll \<Longrightarrow> safe K M (FreeByLevel m lvl h)"
  by (cases lvl) (auto intro: safe_keeps simp: keeps_mem_def msg_Free_inv)

text \<open>
  The state of a network: both sockets in order, their objects those of the pipes, and all buffers, in the sockets
  and on the way (\<open>own\<close>), different and in use.
\<close>

definition side_ok :: "('a chpipe_scheme pipe \<Rightarrow> bool) \<Rightarrow> FreeLevel \<Rightarrow> 'a net \<Rightarrow> side \<Rightarrow> bool" where
  "side_ok cfg lvl n x \<longleftrightarrow>
     sock_inv (n_sock n x) \<and> n_obj n x < length (s_objs (n_sock n x)) \<and> p_id (net_obj x n) = pp_id (n_pipe n x) \<and>
     p_freeLevel (net_obj x n) = lvl \<and> cfg (n_pipe n x)"

definition net_held :: "'a net \<Rightarrow> message multiset" where
  "net_held n = held (n_sock n Dialled) + held (n_sock n Accepted)"

definition net_inv ::
    "('a chpipe_scheme \<Rightarrow> nat multiset) \<Rightarrow> ('a chpipe_scheme \<Rightarrow> bool) \<Rightarrow> ('a chpipe_scheme pipe \<Rightarrow> bool) \<Rightarrow> FreeLevel \<Rightarrow> 'a net \<Rightarrow> bool" where
  "net_inv own ok cfg lvl n \<longleftrightarrow>
     (\<forall>x. side_ok cfg lvl n x) \<and> ok (n_conn n) \<and> safe (own (n_conn n)) (net_held n) (cp_mem (n_conn n))"

lemma net_held_side: "net_held n = held (n_sock n x) + held (n_sock n (peer_of x))"
  by (cases x) (simp_all add: net_held_def ac_simps)

lemma peer_of_neq [simp]: "peer_of x \<noteq> x" "x \<noteq> peer_of x"
  by (cases x; simp)+

lemma net_simps [simp]:
  "n_sock (put_end x e n) = n_sock n" "n_obj (put_end x e n) = n_obj n" "n_obj (put_sock x s n) = n_obj n"
  "n_pipe (put_sock x s n) = n_pipe n" "n_sock (put_sock x s n) = (n_sock n)(x := s)"
  "n_conn (put_sock x s n) = (n_conn n)\<lparr>cp_mem := s_mem s\<rparr>" "n_conn (put_end x e n) = pp_conn (ps_pipe e)"
  "n_pipe (put_end x e n) = (n_pipe n)(x := ps_pipe e)"
  "ps_pipe (net_end x n) = (n_pipe n x)\<lparr>pp_conn := n_conn n\<rparr>" "s_mem (net_sock x n) = cp_mem (n_conn n)"
  "held (net_sock x n) = held (n_sock n x)" "sock_inv (net_sock x n) = sock_inv (n_sock n x)" "s_objs (net_sock x n) = s_objs (n_sock n x)"
  "idents (net_sock x n) = idents (n_sock n x)"
  by (simp_all add: put_end_def put_sock_def net_end_def net_sock_def)

text \<open>
  What the sockets rely on: \<open>SendMsg\<close> takes the buffer over only when it succeeds, and the sender then does not release
  it; \<open>release\<close> gives back what nobody reads any more; \<open>RecvMsg\<close> builds a message of its own, in one of the ways the socket reckons with.
\<close>

locale handover =
  fixes cf :: "wchoice \<Rightarrow> side \<Rightarrow> 'a chpipe_scheme Connection"
    and rel :: "side \<Rightarrow> 'a chpipe_scheme \<Rightarrow> 'a chpipe_scheme"
    and own :: "'a chpipe_scheme \<Rightarrow> nat multiset"
    and ok :: "'a chpipe_scheme \<Rightarrow> bool"
    and cfg :: "'a chpipe_scheme pipe \<Rightarrow> bool"
    and lvl :: FreeLevel
  assumes not_freed: "lvl \<noteq> LevelFreeAll"
    and own_mem: "own (c\<lparr>cp_mem := h\<rparr>) = own c" "ok (c\<lparr>cp_mem := h\<rparr>) = ok c"
    and cfg_conn: "cfg (p\<lparr>pp_conn := c\<rparr>) = cfg p"
    and close_keeps: "own (cf_Close (cf w x) c) = own c" "ok (cf_Close (cf w x) c) = ok c" "cp_mem (cf_Close (cf w x) c) = cp_mem c"
      "cfg (p\<lparr>pp_closed := b\<rparr>) = cfg p"
    and send_takes: "cfg (ps_pipe s) \<Longrightarrow> ok (pp_conn (ps_pipe s)) \<Longrightarrow> wf_msg m \<Longrightarrow> pipe_SendMsg (cf w x) tell m s = Some (Ok o1, s') \<Longrightarrow>
      cfg (ps_pipe s') \<and> ok (pp_conn (ps_pipe s')) \<and> cp_mem (pp_conn (ps_pipe s')) = cp_mem (pp_conn (ps_pipe s)) \<and>
      (own (pp_conn (ps_pipe s')) = own (pp_conn (ps_pipe s)) \<or>
       o1 = None \<and> own (pp_conn (ps_pipe s')) = add_mset (marr m) (own (pp_conn (ps_pipe s))))"
    and release_ok: "ok c \<Longrightarrow> owns (own c + A) (cp_mem c) \<Longrightarrow> ok (rel x c) \<and> owns (own (rel x c) + A) (cp_mem (rel x c))"
    and recv_builds: "cfg (ps_pipe s) \<Longrightarrow> ok (pp_conn (ps_pipe s)) \<Longrightarrow> pp_conn (ps_pipe s) = rel x c \<Longrightarrow>
      pipe_RecvMsg (cf w x) tell pk s h = Some (o2, s', h') \<Longrightarrow>
      cfg (ps_pipe s') \<and> ok (pp_conn (ps_pipe s')) \<and> own (pp_conn (ps_pipe s')) = own (pp_conn (ps_pipe s)) \<and>
      (\<exists>y. arrival_RecvMsg y (pp_id (ps_pipe s)) h = (o2, h'))"
begin

abbreviation inv :: "'a net \<Rightarrow> bool" where
  "inv \<equiv> net_inv own ok cfg lvl"

text \<open>A socket sees the buffers of everybody else as one multiset of arrays.\<close>

definition others :: "side \<Rightarrow> 'a net \<Rightarrow> nat multiset" where
  "others x n = own (n_conn n) + image_mset marr (held (n_sock n (peer_of x)))"

lemma inv_apart: "inv n \<Longrightarrow> apart (others x n) (net_sock x n)"
  by (simp add: net_inv_def others_def net_held_side [of n x] safe_split)

lemma side_sock:
  assumes "side_ok cfg lvl n y" "x = y \<Longrightarrow> sock_inv s \<and> prefix (idents (n_sock n x)) (idents s)"
  shows "side_ok cfg lvl (put_sock x s n) y"
  using assms idents_obj [of "n_sock n x" s "n_obj n x"] by (auto simp: side_ok_def)

lemma inv_put_sock:
  assumes "inv n" "sock_inv s" "prefix (idents (n_sock n x)) (idents s)" "apart (others x n) s"
  shows "inv (put_sock x s n)"
proof -
  have "net_held (put_sock x s n) = held s + held (n_sock n (peer_of x))" by (simp add: net_held_side [of _ x])
  moreover have "\<forall>m \<in># held (n_sock n (peer_of x)). wf_msg m"
    using assms(1) by (simp add: net_inv_def net_held_side [of n x] safe_split)
  ultimately have "safe (own (n_conn n)) (net_held (put_sock x s n)) (s_mem s)"
    using assms(4) by (simp add: safe_split others_def)
  moreover have "side_ok cfg lvl (put_sock x s n) y" for y using assms by (intro side_sock) (auto simp: net_inv_def)
  ultimately show ?thesis using assms(1) by (simp add: net_inv_def own_mem)
qed

lemma inv_local: "inv n \<Longrightarrow> step (net_sock x n) s \<Longrightarrow> inv (put_sock x s n)"
  using inv_apart [of n x] idents_step [of "net_sock x n" s] apart_step [of "net_sock x n" s "others x n"] sock_inv_step [of "net_sock x n" s]
  by (intro inv_put_sock) (auto simp: net_inv_def side_ok_def)

lemma side_end:
  assumes "side_ok cfg lvl n y" "x = y \<Longrightarrow> cfg (ps_pipe e) \<and> pp_id (ps_pipe e) = pp_id (n_pipe n x)"
  shows "side_ok cfg lvl (put_end x e n) y"
  using assms by (auto simp: side_ok_def)

text \<open>A pipe operation that leaves the buffers where they are.\<close>

lemma inv_put_end:
  assumes "inv n" "cfg (ps_pipe e)" "pp_id (ps_pipe e) = pp_id (n_pipe n x)" "ok (pp_conn (ps_pipe e))"
    "own (pp_conn (ps_pipe e)) = own (n_conn n)" "cp_mem (pp_conn (ps_pipe e)) = cp_mem (n_conn n)"
  shows "inv (put_end x e n)"
  using assms side_end [of n _ x e] by (auto simp: net_inv_def net_held_def)

text \<open>A pipe operation that takes the buffer of the message the socket has just given up.\<close>

lemma inv_sent:
  assumes n: "inv n" and e: "cfg (ps_pipe e)" "pp_id (ps_pipe e) = pp_id (n_pipe n x)" "ok (pp_conn (ps_pipe e))"
    and o: "own (pp_conn (ps_pipe e)) \<subseteq># add_mset (marr m) (own (n_conn n))" "cp_mem (pp_conn (ps_pipe e)) = cp_mem (n_conn n)"
    and s: "sock_inv s" "idents s = idents (n_sock n x)" "held (n_sock n x) = add_mset m (held s)"
      "s_mem s = FreeByLevel m lvl (cp_mem (n_conn n))"
  shows "inv (put_sock x s (put_end x e n))"
proof -
  let ?H = "held s + held (n_sock n (peer_of x))"
  have "safe (add_mset (marr m) (own (n_conn n))) ?H (cp_mem (n_conn n))"
    using n safe_hand_over [of "own (n_conn n)" m ?H] by (simp add: net_inv_def net_held_side [of n x] s(3))
  moreover have "own (pp_conn (ps_pipe e)) + image_mset marr ?H \<subseteq># add_mset (marr m) (own (n_conn n)) + image_mset marr ?H"
    using o(1) by (rule subset_mset.add_right_mono)
  ultimately have "safe (own (pp_conn (ps_pipe e))) ?H (cp_mem (n_conn n))"
    unfolding safe_def using owns_subset by blast
  then have "safe (own (pp_conn (ps_pipe e))) ?H (s_mem s)" unfolding s(4) using not_freed by (rule safe_FreeByLevel_kept)
  moreover have "net_held (put_sock x s (put_end x e n)) = ?H" by (simp add: net_held_side [of _ x])
  moreover have "side_ok cfg lvl (put_sock x s (put_end x e n)) y" for y
    using n e s(1,2) by (intro side_sock side_end) (auto simp: net_inv_def)
  ultimately show ?thesis using e(3) by (simp add: net_inv_def own_mem)
qed

lemma inv_release:
  assumes "inv n"
  shows "inv (n\<lparr>n_conn := rel x (n_conn n)\<rparr>)"
  using assms release_ok [of "n_conn n" "image_mset marr (net_held n)" x]
  by (auto simp: net_inv_def safe_def side_ok_def net_held_def)

lemma inv_recv:
  assumes n: "inv n" and pc: "p_rpc (net_obj x n) = RLoop" and r: "net_RecvMsg (cf WSend) rel pk x n = Some (r, n1)"
    and s: "recv_return r (n_obj n x) (net_sock x n1) = Some s"
  shows "inv (put_sock x s n1)"
proof -
  let ?n = "n\<lparr>n_conn := rel x (n_conn n)\<rparr>"
  let ?s = "net_sock x ?n" and ?a = "n_obj n x"
  have i: "inv ?n" by (rule inv_release [OF n])
  then have side: "side_ok cfg lvl ?n y" "cfg ((n_pipe n y)\<lparr>pp_conn := rel x (n_conn n)\<rparr>)" "ok (rel x (n_conn n))" for y
    by (auto simp: net_inv_def cfg_conn side_ok_def)
  from r obtain e h where e: "pipe_RecvMsg (cf WSend x) tell pk (net_end x ?n) (cp_mem (rel x (n_conn n))) = Some (r, e, h)"
      "n1 = (put_end x e ?n)\<lparr>n_conn := (pp_conn (ps_pipe e))\<lparr>cp_mem := h\<rparr>\<rparr>"
    by (auto simp: net_RecvMsg_def Let_def)
  from recv_builds [of "net_end x ?n", OF _ _ _ e(1)] side(2,3)
  obtain y where y: "cfg (ps_pipe e)" "ok (pp_conn (ps_pipe e))" "own (pp_conn (ps_pipe e)) = own (rel x (n_conn n))"
      "arrival_RecvMsg y (pp_id (n_pipe n x)) (cp_mem (rel x (n_conn n))) = (r, h)" by auto
  have pid: "pp_id (ps_pipe e) = pp_id (n_pipe n x)" using closing_RecvMsg [OF e(1)] by (simp add: closing_def)
  have "net_sock x n1 = ?s\<lparr>s_mem := h\<rparr>" by (simp add: e(2) net_sock_def)
  with s have "receiver_step ChDefault y ?a ?s = Some s"
    using recv_return_step [of ?s ?a y r h ChDefault] pc side(1) [of x] y(4) by (simp add: side_ok_def)
  then have st: "step ?s s" using side(1) [of x] by (intro step_receiver) (auto simp: side_ok_def)
  show ?thesis
    using inv_local [OF i st] y pid by (auto simp: net_inv_def side_ok_def net_held_def own_mem e(2))
qed

lemma call_keeps:
  assumes "inv n" "pipe_SendMsg (cf w x) tell m (net_end x n) = Some (Ok o1, e)" "m \<in># held (n_sock n x)"
  shows "cfg (ps_pipe e)" "pp_id (ps_pipe e) = pp_id (n_pipe n x)" "ok (pp_conn (ps_pipe e))" "cp_mem (pp_conn (ps_pipe e)) = cp_mem (n_conn n)"
    "own (pp_conn (ps_pipe e)) = own (n_conn n) \<or> o1 = None \<and> own (pp_conn (ps_pipe e)) = add_mset (marr m) (own (n_conn n))"
proof -
  have "wf_msg m" "side_ok cfg lvl n x" "ok (n_conn n)"
    using assms(1,3) by (auto simp: net_inv_def net_held_side [of n x] safe_def)
  then have "cfg (ps_pipe e) \<and> ok (pp_conn (ps_pipe e)) \<and> cp_mem (pp_conn (ps_pipe e)) = cp_mem (n_conn n) \<and>
      (own (pp_conn (ps_pipe e)) = own (n_conn n) \<or> o1 = None \<and> own (pp_conn (ps_pipe e)) = add_mset (marr m) (own (n_conn n)))"
    using send_takes [of "net_end x n", OF _ _ _ assms(2)] by (simp add: side_ok_def cfg_conn)
  then show "cfg (ps_pipe e)" "ok (pp_conn (ps_pipe e))" "cp_mem (pp_conn (ps_pipe e)) = cp_mem (n_conn n)"
    "own (pp_conn (ps_pipe e)) = own (n_conn n) \<or> o1 = None \<and> own (pp_conn (ps_pipe e)) = add_mset (marr m) (own (n_conn n))"
    by blast+
  show "pp_id (ps_pipe e) = pp_id (n_pipe n x)" using closing_SendMsg [OF assms(2)] by (simp add: closing_def)
qed

text \<open>The message in the hands of a goroutine of the joined pipe.\<close>

lemma side_sending:
  assumes "inv n" "p_spc (net_obj x n) \<in> {SSend m, SRemSend m} \<or> p_tpc (net_obj x n) = TSend m"
  shows "m \<in># held (n_sock n x)" "n_obj n x < length (s_objs (n_sock n x))" "p_freeLevel (net_obj x n) = lvl" "sock_inv (n_sock n x)"
proof -
  show a: "n_obj n x < length (s_objs (n_sock n x))" "p_freeLevel (net_obj x n) = lvl" "sock_inv (n_sock n x)"
    using assms(1) by (auto simp: net_inv_def side_ok_def)
  show "m \<in># held (n_sock n x)" by (rule sending_held [OF a(1) assms(2)])
qed

lemma inv_call_sent:
  assumes n: "inv n" and pc: "p_spc (net_obj x n) \<in> {SSend m, SRemSend m} \<or> p_tpc (net_obj x n) = TSend m"
    and e: "pipe_SendMsg (cf w x) tell m (net_end x n) = Some (Ok None, e)"
    and s: "sock_inv s" "idents s = idents (n_sock n x)" "held (n_sock n x) = add_mset m (held s)"
      "s_mem s = FreeByLevel m lvl (cp_mem (n_conn n))"
  shows "inv (put_sock x s (put_end x e n))"
proof -
  note k = call_keeps [OF n e side_sending(1) [OF n pc]]
  show ?thesis by (rule inv_sent [OF n k(1-3) _ k(4) s]) (use k(5) in auto)
qed

lemma inv_errs [simp]: "inv (n\<lparr>n_serr := f\<rparr>) = inv n" "inv (n\<lparr>n_terr := f\<rparr>) = inv n" "inv (n\<lparr>n_gone := g\<rparr>) = inv n"
  by (simp_all add: net_inv_def side_ok_def net_held_def)

lemma inv_fails:
  assumes "inv n" "p_spc (net_obj x n) \<in> {SSend m, SRemSend m} \<or> p_tpc (net_obj x n) = TSend m"
    "pipe_SendMsg (cf w x) tell m (net_end x n) = Some (Ok (Some err), e)"
  shows "inv (put_end x e n)"
proof -
  note k = call_keeps [OF assms(1,3) side_sending(1) [OF assms(1,2)]]
  show ?thesis by (rule inv_put_end [OF assms(1) k(1-3) _ k(4)]) (use k(5) in auto)
qed

lemma inv_sender_sent:
  assumes i: "inv n" and pc: "p_spc (net_obj x n) \<in> {SSend m, SRemSend m}" and c: "pipe_SendMsg (cf w x) tell m (net_end x n) = Some (Ok None, e)"
    and st: "sender_step (ChResult None ChDefault) (n_obj n x) (net_sock x (put_end x e n)) = Some s"
  shows "inv (put_sock x s (put_end x e n))"
proof -
  note k = side_sending [OF i disjI1 [OF pc]]
  have s: "sender_step (ChResult None ChDefault) (n_obj n x) ((n_sock n x)\<lparr>s_mem := cp_mem (pp_conn (ps_pipe e))\<rparr>) = Some s"
    using st by (simp add: net_sock_def)
  have "cp_mem (pp_conn (ps_pipe e)) = cp_mem (n_conn n)" using call_keeps [OF i c k(1)] by blast
  with sender_sent [OF _ _ s, of m] sock_inv_sender [OF _ _ s] idents_sender [OF s] k pc show ?thesis
    by (intro inv_call_sent [OF i disjI1 [OF pc] c]) auto
qed

lemma inv_stop_sent:
  assumes i: "inv n" and pc: "p_tpc (net_obj x n) = TSend m" and c: "pipe_SendMsg (cf w x) tell m (net_end x n) = Some (Ok None, e)"
    and st: "stopPipe_step (ChResult None ChDefault) (n_obj n x) (net_sock x (put_end x e n)) = Some s"
  shows "inv (put_sock x s (put_end x e n))"
proof -
  note k = side_sending [OF i disjI2 [OF pc]]
  have s: "stopPipe_step (ChResult None ChDefault) (n_obj n x) ((n_sock n x)\<lparr>s_mem := cp_mem (pp_conn (ps_pipe e))\<rparr>) = Some s"
    using st by (simp add: net_sock_def)
  have "cp_mem (pp_conn (ps_pipe e)) = cp_mem (n_conn n)" using call_keeps [OF i c k(1)] by blast
  with stopper_sent [OF _ _ s, of m] sock_inv_stopper [OF _ _ s] idents_stopper [OF s] k pc show ?thesis
    by (intro inv_call_sent [OF i disjI2 [OF pc] c]) auto
qed

lemma net_inv_step: "net_step cf rel n n' \<Longrightarrow> inv n \<Longrightarrow> inv n'"
proof (induction rule: net_step.induct)
  case (ns_local x n s)
  then show ?case by (intro inv_local)
next
  case (ns_sent x n m w e s)
  then show ?case by (intro inv_sender_sent)
next
  case (ns_send_fails x n m w err e)
  then have "inv (put_end x e n)" by (intro inv_fails) auto
  then show ?case by simp
next
  case (ns_send_back n x err m ch s)
  have "step (net_sock x n) s"
    using ns_send_back side_sending [OF ns_send_back.prems disjI1 [OF ns_send_back.hyps(2)]] by (intro step_sender) auto
  then show ?case using inv_local [OF ns_send_back.prems] by simp
next
  case (ns_stop_sent x n m w e s)
  then show ?case by (intro inv_stop_sent)
next
  case (ns_stop_fails x n m w err e)
  then have "inv (put_end x e n)" by (intro inv_fails) auto
  then show ?case by simp
next
  case (ns_stop_back n x err m ch s)
  have "step (net_sock x n) s"
    using ns_stop_back side_sending [OF ns_stop_back.prems disjI2 [OF ns_stop_back.hyps(2)]] by (intro step_stopper) auto
  then show ?case using inv_local [OF ns_stop_back.prems] by simp
next
  case (ns_recv x n pk r n1 s)
  then show ?case by (intro inv_recv)
next
  case (ns_release x n)
  then show ?case by (intro inv_release)
next
  case (ns_Close n x)
  then show ?case
    by (intro inv_put_end)
      (auto simp: pipe_Close_def Let_def net_inv_def side_ok_def cfg_conn close_keeps)
next
  case (ns_event n x i "is" s)
  then have "inv (n\<lparr>n_gone := (n_gone n)(x := is)\<rparr>)" by simp
  then show ?case by (rule inv_local) (use ns_event in \<open>auto simp: net_sock_def intro: step_event\<close>)
next
  case (ns_unheard n x i "is")
  then show ?case by simp
qed

lemma net_inv_run: "net_run cf rel n n' \<Longrightarrow> inv n \<Longrightarrow> inv n'"
  by (induction rule: net_run.induct) (auto intro: net_inv_step)

end

section \<open>The two kinds of channel\<close>

lemma owns_Free: "owns (add_mset (arr b) A) h \<Longrightarrow> owns A (h\<lparr>bpool := Free (Some b) (bpool h)\<rparr>)"
proof -
  assume "owns (add_mset (arr b) A) h"
  then obtain live where l: "mem_inv live h" "arr b \<in> live" "set_mset A \<subseteq> live" "\<forall>x. count (add_mset (arr b) A) x \<le> 1"
    unfolding owns_def by auto
  have "count A (arr b) = 0" using l(4) [rule_format, of "arr b"] by simp
  then have "set_mset A \<subseteq> live - {arr b}" using l(3) by (auto simp: count_eq_zero_iff)
  moreover have "count A x \<le> 1" for x using l(4) [rule_format, of x] by (auto split: if_splits)
  moreover have "mem_inv (live - {arr b}) (h\<lparr>bpool := Free (Some b) (bpool h)\<rparr>)" using l(1,2) by (simp add: mem_inv_def Free_ok)
  ultimately show ?thesis by (auto simp: owns_def)
qed

text \<open>Packets: the slices in the two channels and the last one each end has received.\<close>

definition sr_way :: "side \<Rightarrow> srPipe \<Rightarrow> nat multiset" where
  "sr_way x c = image_mset arr (mset (chan_buf (cp_rc c x))) + (case lastBytes c x of Some b \<Rightarrow> {#arr b#} | None \<Rightarrow> {#})"

definition sr_own :: "srPipe \<Rightarrow> nat multiset" where
  "sr_own c = sr_way Dialled c + sr_way Accepted c"

definition sr_cfg :: "srPipe pipe \<Rightarrow> bool" where
  "sr_cfg p \<longleftrightarrow> pp_sendFunc p = FSendBlock \<and> pp_recvFunc p = FRecvBlock"

lemma sr_own_side: "sr_own c = sr_way x c + sr_way (peer_of x) c"
  by (cases x) (simp_all add: sr_own_def ac_simps)

lemma sr_own_Close [simp]: "sr_own (snd (ch_Close c)) = sr_own c" "cp_mem (snd (ch_Close c)) = cp_mem c"
  by (simp_all add: ch_Close_def sr_own_def sr_way_def)

lemma sr_Send_own:
  assumes "sr_Send w x b c = Some (e, c')"
  shows "cp_mem c' = cp_mem c" "sr_own c' = (if e = None then add_mset (arr b) (sr_own c) else sr_own c)"
  using assms
  by (auto simp: sr_Send_def sr_own_side [of _ x] sr_way_def Let_def chan_send_def split: wchoice.splits if_splits cong: option.case_cong)

lemma sr_Recv_own:
  assumes "sr_Recv x (sr_release x c0) = Some (r, c')"
  shows "sr_own c' = sr_own (sr_release x c0)" "cp_mem c' = cp_mem (sr_release x c0)"
proof -
  let ?c = "sr_release x c0"
  have l: "lastBytes ?c x = None" by (simp add: sr_release_def)
  then have rel: "sr_release x ?c = ?c" by (simp add: sr_release_def [of x ?c])
  have "sr_own c' = sr_own ?c \<and> cp_mem c' = cp_mem ?c"
    using assms l unfolding sr_Recv_def rel Let_def
    by (auto simp: sr_own_side [of _ x] sr_way_def fun_upd_idem split: option.splits list.splits if_splits)
  then show "sr_own c' = sr_own ?c" "cp_mem c' = cp_mem ?c" by simp_all
qed

lemma close_for_conn:
  assumes "close_for cf r e s = (e', s')"
  shows "pp_conn (ps_pipe s') = pp_conn (ps_pipe s) \<or> pp_conn (ps_pipe s') = cf_Close cf (pp_conn (ps_pipe s))" "same_cfg s s'"
  using assms same_cfg_Close [of s cf r] by (auto simp: close_for_def pipe_Close_def Let_def split: prod.splits option.splits if_splits)

lemma send_error_conn:
  assumes "send_error cf r e s = (e', s')"
  shows "pp_conn (ps_pipe s') = pp_conn (ps_pipe s) \<or> pp_conn (ps_pipe s') = cf_Close cf (pp_conn (ps_pipe s))" "same_cfg s s'"
    "e' = None \<longleftrightarrow> e = None"
proof -
  have "(pp_conn (ps_pipe s') = pp_conn (ps_pipe s) \<or> pp_conn (ps_pipe s') = cf_Close cf (pp_conn (ps_pipe s))) \<and> same_cfg s s' \<and>
      (e' = None \<longleftrightarrow> e = None)"
  proof (cases e)
    case None
    with assms show ?thesis by (auto simp: send_error_def same_cfg_def)
  next
    case (Some x)
    with assms obtain y where "close_for cf r x s = (y, s')" "e' = Some y" by (auto simp: send_error_def split: prod.splits)
    with close_for_conn [OF this(1)] Some show ?thesis by simp
  qed
  then show "pp_conn (ps_pipe s') = pp_conn (ps_pipe s) \<or> pp_conn (ps_pipe s') = cf_Close cf (pp_conn (ps_pipe s))" "same_cfg s s'"
    "e' = None \<longleftrightarrow> e = None" by blast+
qed

lemma sr_send_takes:
  assumes "sr_cfg (ps_pipe s)" "wf_msg m" "pipe_SendMsg (sr_conn w x) r m s = Some (Ok o1, s')"
  shows "sr_cfg (ps_pipe s') \<and> cp_mem (pp_conn (ps_pipe s')) = cp_mem (pp_conn (ps_pipe s)) \<and>
    (sr_own (pp_conn (ps_pipe s')) = sr_own (pp_conn (ps_pipe s)) \<or>
     o1 = None \<and> sr_own (pp_conn (ps_pipe s')) = add_mset (marr m) (sr_own (pp_conn (ps_pipe s))))"
proof (cases "HasFlags (meta m) MsgFlagRaw")
  case True
  with assms(1,3) show ?thesis by (auto simp: pipe_SendMsg_def sr_cfg_def pipe_sendBlockMsg_def with_encoded_def)
next
  case False
  obtain m' b where b: "Encode m = Ok (wire m, m')" "buf m' = Some b" "msg_arr m' = msg_arr m" using Encode_slice [OF assms(2)] by metis
  then have ab: "arr b = marr m" using wf_msg_arr [OF assms(2)] by (auto simp: msg_arr_def)
  from False assms(1,3) b(1,2) obtain e c where c: "sr_Send w x b (pp_conn (ps_pipe s)) = Some (e, c)"
      "send_error (sr_conn w x) r e (set_conn c s) = (o1, s')"
    by (auto simp: pipe_SendMsg_def sr_cfg_def pipe_sendBlockMsg_def with_encoded_def pipe_send_def sr_conn_def split: option.splits)
  have "sr_own (pp_conn (ps_pipe s')) = sr_own c \<and> cp_mem (pp_conn (ps_pipe s')) = cp_mem c"
    using send_error_conn(1) [OF c(2)] by (auto simp: sr_conn_def)
  with sr_Send_own [OF c(1)] send_error_conn(2,3) [OF c(2)] assms(1) ab show ?thesis by (auto simp: same_cfg_def sr_cfg_def)
qed

lemma receive_error_conn:
  assumes "receive_error cf r b e s = ((b', e'), s')"
  shows "pp_conn (ps_pipe s') = pp_conn (ps_pipe s) \<or> pp_conn (ps_pipe s') = cf_Close cf (pp_conn (ps_pipe s))" "b' = b"
    "e = None \<Longrightarrow> e' = None \<and> s' = s"
proof -
  show "pp_conn (ps_pipe s') = pp_conn (ps_pipe s) \<or> pp_conn (ps_pipe s') = cf_Close cf (pp_conn (ps_pipe s))"
    using assms close_for_conn(1) [of cf r _ s]
    by (auto simp: receive_error_def pipe_Close_def Let_def split: option.splits if_splits prod.splits)
qed (use assms in \<open>auto simp: receive_error_def split: option.splits if_splits prod.splits\<close>)

lemma sr_recv_builds:
  assumes "sr_cfg (ps_pipe s)" "pp_conn (ps_pipe s) = sr_release x c0" "pipe_RecvMsg (sr_conn w x) r pk s h = Some (o2, s', h')"
  shows "sr_cfg (ps_pipe s') \<and> sr_own (pp_conn (ps_pipe s')) = sr_own (pp_conn (ps_pipe s)) \<and>
    (\<exists>y. arrival_RecvMsg y (pp_id (ps_pipe s)) h = (o2, h'))"
proof -
  from assms(1,3) obtain b e where p: "pipe_recv (sr_conn w x) r s = Some ((b, e), s')"
      "(case e of Some e \<Rightarrow> (o2, h') = (Ok (None, Some e), h)
        | None \<Rightarrow> (o2, h') = (let (r, h') = NewMessageFromBytes pk (pp_id (ps_pipe s')) b (pp_max (ps_pipe s')) h in (msg_result r, h')))"
    by (auto simp: pipe_RecvMsg_def sr_cfg_def pipe_recvBlockMsg_def Let_def split: option.splits prod.splits)
  from p(1) obtain b0 e0 c where c: "cf_Recv (sr_conn w x) (pp_conn (ps_pipe s)) = Some ((b0, e0), c)"
      "receive_error (sr_conn w x) r b0 e0 (set_conn c s) = ((b, e), s')"
    by (auto simp: pipe_recv_def split: option.splits)
  obtain q where q: "sr_Recv x (sr_release x c0) = Some (q, c)"
    using c(1) assms(2) by (auto simp: sr_conn_def split: option.splits outcome.splits)
  have "sr_own (pp_conn (ps_pipe s')) = sr_own c" using receive_error_conn(1) [OF c(2)] by (auto simp: sr_conn_def)
  then have o: "sr_own (pp_conn (ps_pipe s')) = sr_own (pp_conn (ps_pipe s))" using sr_Recv_own(1) [OF q] assms(2) by simp
  have cfg: "same_cfg s s'" using same_cfg_receive_error [OF c(2)] by (simp add: same_cfg_def)
  have "\<exists>y. arrival_RecvMsg y (pp_id (ps_pipe s)) h = (o2, h')"
  proof (cases e)
    case None
    with p(2) cfg show ?thesis
      by (intro exI [of _ "Packet pk b (pp_max (ps_pipe s))"]) (simp add: arrival_RecvMsg_def same_cfg_def)
  next
    case (Some e')
    with p(2) show ?thesis by (intro exI [of _ "RecvFails e'"]) (simp add: arrival_RecvMsg_def)
  qed
  with o cfg assms(1) show ?thesis by (auto simp: sr_cfg_def same_cfg_def)
qed

interpretation srh: handover sr_conn sr_release sr_own "\<lambda>_. True" sr_cfg LevelFreeMsg
proof
  fix w x s m o1 s'
  show "sr_cfg (ps_pipe s) \<Longrightarrow> True \<Longrightarrow> wf_msg m \<Longrightarrow> pipe_SendMsg (sr_conn w x) tell m s = Some (Ok o1, s') \<Longrightarrow>
      sr_cfg (ps_pipe s') \<and> True \<and> cp_mem (pp_conn (ps_pipe s')) = cp_mem (pp_conn (ps_pipe s)) \<and>
      (sr_own (pp_conn (ps_pipe s')) = sr_own (pp_conn (ps_pipe s)) \<or>
       o1 = None \<and> sr_own (pp_conn (ps_pipe s')) = add_mset (marr m) (sr_own (pp_conn (ps_pipe s))))"
    using sr_send_takes [of s m w x tell o1 s'] by simp
next
  fix s c x w pk h o2 s' h'
  show "sr_cfg (ps_pipe s) \<Longrightarrow> True \<Longrightarrow> pp_conn (ps_pipe s) = sr_release x c \<Longrightarrow>
      pipe_RecvMsg (sr_conn w x) tell pk s h = Some (o2, s', h') \<Longrightarrow>
      sr_cfg (ps_pipe s') \<and> True \<and> sr_own (pp_conn (ps_pipe s')) = sr_own (pp_conn (ps_pipe s)) \<and>
      (\<exists>y. arrival_RecvMsg y (pp_id (ps_pipe s)) h = (o2, h'))"
    using sr_recv_builds [of s x c w tell pk h o2 s' h'] by simp
next
  fix c :: srPipe and A x
  assume "owns (sr_own c + A) (cp_mem c)"
  then show "True \<and> owns (sr_own (sr_release x c) + A) (cp_mem (sr_release x c))"
    by (cases "lastBytes c x") (auto simp: sr_release_def sr_own_side [of _ x] sr_way_def ac_simps intro: owns_Free)
qed (simp_all add: sr_own_def sr_way_def sr_cfg_def sr_conn_def ch_Close_def)

text \<open>Messages: those in the two channels and the last one each end has received, all well formed.\<close>

definition msr_way :: "side \<Rightarrow> msrPipe \<Rightarrow> message multiset" where
  "msr_way x c = mset (chan_buf (mp_recvq c x)) + (case mp_lastMsg c x of Some m \<Rightarrow> {#m#} | None \<Rightarrow> {#})"

definition msr_own :: "msrPipe \<Rightarrow> nat multiset" where
  "msr_own c = image_mset marr (msr_way Dialled c + msr_way Accepted c)"

definition msr_ok :: "msrPipe \<Rightarrow> bool" where
  "msr_ok c \<longleftrightarrow> (\<forall>m \<in># msr_way Dialled c + msr_way Accepted c. wf_msg m)"

definition msr_cfg :: "msrPipe pipe \<Rightarrow> bool" where
  "msr_cfg p \<longleftrightarrow> pp_sendFunc p = FSendDirect \<and> pp_recvFunc p = FRecvDirect"

lemma msr_way_side: "msr_way Dialled c + msr_way Accepted c = msr_way x c + msr_way (peer_of x) c"
  by (cases x) (simp_all add: ac_simps)

lemma msr_Send_way:
  assumes "msr_SendMsg w x m c = Some (e, c')"
  shows "cp_mem c' = cp_mem c" "msr_way x c' = msr_way x c"
    "msr_way (peer_of x) c' = (if e = None then add_mset m (msr_way (peer_of x) c) else msr_way (peer_of x) c)"
  using assms
  by (auto simp: msr_SendMsg_def msr_way_def Let_def chan_send_def split: wchoice.splits if_splits cong: option.case_cong)

lemma msr_send_takes:
  assumes "msr_cfg (ps_pipe s)" "msr_ok (pp_conn (ps_pipe s))" "wf_msg m" "pipe_SendMsg (msr_conn w x) r m s = Some (Ok o1, s')"
  shows "msr_cfg (ps_pipe s') \<and> msr_ok (pp_conn (ps_pipe s')) \<and> cp_mem (pp_conn (ps_pipe s')) = cp_mem (pp_conn (ps_pipe s)) \<and>
    (msr_own (pp_conn (ps_pipe s')) = msr_own (pp_conn (ps_pipe s)) \<or>
     o1 = None \<and> msr_own (pp_conn (ps_pipe s')) = add_mset (marr m) (msr_own (pp_conn (ps_pipe s))))"
proof -
  from assms(1,4) obtain c where c: "msr_SendMsg w x m (pp_conn (ps_pipe s)) = Some (o1, c)" "s' = set_conn c s"
    by (auto simp: pipe_SendMsg_def msr_cfg_def send_direct_def msr_conn_def)
  with msr_Send_way [OF c(1)] assms(1-3) show ?thesis
    by (auto simp: msr_cfg_def msr_ok_def msr_own_def msr_way_side [of _ x])
qed

lemma msr_Recv_way:
  assumes "msr_RecvMsg x (msr_release x c0) = Some (r, c')"
  shows "msr_way x c' = msr_way x (msr_release x c0)" "msr_way (peer_of x) c' = msr_way (peer_of x) (msr_release x c0)"
proof -
  let ?c = "msr_release x c0"
  have l: "mp_lastMsg ?c x = None" by (simp add: msr_release_def split: option.splits)
  then have rel: "msr_release x ?c = ?c" by (simp add: msr_release_def [of x ?c])
  have "msr_way x c' = msr_way x ?c \<and> msr_way (peer_of x) c' = msr_way (peer_of x) ?c"
    using assms l unfolding msr_RecvMsg_def rel Let_def
    by (auto simp: msr_way_def fun_upd_idem split: option.splits list.splits if_splits)
  then show "msr_way x c' = msr_way x ?c" "msr_way (peer_of x) c' = msr_way (peer_of x) ?c" by simp_all
qed

lemma msr_recv_builds:
  assumes "msr_cfg (ps_pipe s)" "msr_ok (pp_conn (ps_pipe s))" "pp_conn (ps_pipe s) = msr_release x c0"
    "pipe_RecvMsg (msr_conn w x) r pk s h = Some (o2, s', h')"
  shows "msr_cfg (ps_pipe s') \<and> msr_ok (pp_conn (ps_pipe s')) \<and> msr_own (pp_conn (ps_pipe s')) = msr_own (pp_conn (ps_pipe s)) \<and>
    (\<exists>y. arrival_RecvMsg y (pp_id (ps_pipe s)) h = (o2, h'))"
proof -
  from assms(1,4) obtain m e c where c: "cf_RecvMsg (msr_conn w x) (pp_conn (ps_pipe s)) = Some ((m, e), c)" "s' = set_conn c s"
      "(case e of Some e \<Rightarrow> (o2, h') = (Ok (None, Some e), h)
        | None \<Rightarrow> (o2, h') = (let (r, h') = NewMessageFromMsg pk (pp_id (ps_pipe s)) m (pp_max (ps_pipe s)) h in (msg_result r, h')))"
    by (auto simp: pipe_RecvMsg_def msr_cfg_def pipe_recvDirectMsg_def Let_def split: option.splits prod.splits)
  obtain q where q: "msr_RecvMsg x (msr_release x c0) = Some (q, c)"
    using c(1) assms(3) by (auto simp: msr_conn_def split: option.splits outcome.splits)
  have "\<exists>y. arrival_RecvMsg y (pp_id (ps_pipe s)) h = (o2, h')"
  proof (cases e)
    case None
    with c(3) show ?thesis by (intro exI [of _ "Handed pk m (pp_max (ps_pipe s))"]) (simp add: arrival_RecvMsg_def)
  next
    case (Some e')
    with c(3) show ?thesis by (intro exI [of _ "RecvFails e'"]) (simp add: arrival_RecvMsg_def)
  qed
  with c(2) msr_Recv_way [OF q] assms(1-3) show ?thesis
    by (auto simp: msr_cfg_def msr_ok_def msr_own_def msr_way_side [of _ x])
qed

lemma msr_Close_way [simp]: "msr_way x (snd (ch_Close c)) = msr_way x c"
  by (simp add: ch_Close_def msr_way_def)

lemma msr_release_ok:
  assumes "msr_ok c" "owns (msr_own c + A) (cp_mem c)"
  shows "msr_ok (msr_release x c) \<and> owns (msr_own (msr_release x c) + A) (cp_mem (msr_release x c))"
proof (cases "mp_lastMsg c x")
  case None
  with assms show ?thesis by (simp add: msr_release_def)
next
  case (Some m)
  let ?c = "c\<lparr>cp_mem := FreeAll m (cp_mem c), mp_lastMsg := (mp_lastMsg c)(x := None)\<rparr>"
  have r: "msr_release x c = ?c" using Some by (simp add: msr_release_def)
  have w: "msr_way x c = add_mset m (msr_way x ?c)" "msr_way (peer_of x) c = msr_way (peer_of x) ?c"
    using Some by (simp_all add: msr_way_def)
  have "owns (add_mset (marr m) (msr_own ?c + A)) (cp_mem c)" "wf_msg m" "msr_ok ?c"
    using assms w by (simp_all add: msr_own_def msr_ok_def msr_way_side [of _ x])
  with owns_FreeAll [of m "msr_own ?c + A" "cp_mem c"] show ?thesis by (simp add: r)
qed

interpretation msrh: handover msr_conn msr_release msr_own msr_ok msr_cfg LevelFreeNone
proof
  fix w x s m o1 s'
  show "msr_cfg (ps_pipe s) \<Longrightarrow> msr_ok (pp_conn (ps_pipe s)) \<Longrightarrow> wf_msg m \<Longrightarrow> pipe_SendMsg (msr_conn w x) tell m s = Some (Ok o1, s') \<Longrightarrow>
      msr_cfg (ps_pipe s') \<and> msr_ok (pp_conn (ps_pipe s')) \<and> cp_mem (pp_conn (ps_pipe s')) = cp_mem (pp_conn (ps_pipe s)) \<and>
      (msr_own (pp_conn (ps_pipe s')) = msr_own (pp_conn (ps_pipe s)) \<or>
       o1 = None \<and> msr_own (pp_conn (ps_pipe s')) = add_mset (marr m) (msr_own (pp_conn (ps_pipe s))))"
    by (rule msr_send_takes)
next
  fix s c x w pk h o2 s' h'
  show "msr_cfg (ps_pipe s) \<Longrightarrow> msr_ok (pp_conn (ps_pipe s)) \<Longrightarrow> pp_conn (ps_pipe s) = msr_release x c \<Longrightarrow>
      pipe_RecvMsg (msr_conn w x) tell pk s h = Some (o2, s', h') \<Longrightarrow>
      msr_cfg (ps_pipe s') \<and> msr_ok (pp_conn (ps_pipe s')) \<and> msr_own (pp_conn (ps_pipe s')) = msr_own (pp_conn (ps_pipe s)) \<and>
      (\<exists>y. arrival_RecvMsg y (pp_id (ps_pipe s)) h = (o2, h'))"
    by (rule msr_recv_builds)
next
  fix c A x
  show "msr_ok c \<Longrightarrow> owns (msr_own c + A) (cp_mem c) \<Longrightarrow>
      msr_ok (msr_release x c) \<and> owns (msr_own (msr_release x c) + A) (cp_mem (msr_release x c))"
    by (rule msr_release_ok)
qed (simp_all add: msr_own_def msr_way_def msr_cfg_def msr_conn_def msr_ok_def ch_Close_def)

section \<open>Joining two sockets\<close>

text \<open>Both connectors report their end of the connection to their sockets.\<close>

definition pipe_event :: "'c pipe \<Rightarrow> PipeEvent" where
  "pipe_event p = PipeEventAdd (IsRaw p) (MsgFreeLevel p)"

definition net_join :: "(side \<Rightarrow> socket) \<Rightarrow> (side \<Rightarrow> 'a chpipe_scheme pipe) \<Rightarrow> 'a chpipe_scheme \<Rightarrow> id_gen \<Rightarrow> 'a net option" where
  "net_join s p c g =
     (case (HandlePipeEvent (pipe_event (p Dialled)) (pipe_ID (p Dialled)) (s Dialled),
            HandlePipeEvent (pipe_event (p Accepted)) (pipe_ID (p Accepted)) (s Accepted)) of
        (Some a, Some b) \<Rightarrow>
          Some \<lparr>n_sock = (\<lambda>x. case x of Dialled \<Rightarrow> a | Accepted \<Rightarrow> b), n_obj = (\<lambda>x. length (s_objs (s x))), n_pipe = p, n_conn = c,
                n_ids = g, n_gone = (\<lambda>_. []), n_serr = (\<lambda>_. None), n_terr = (\<lambda>_. None)\<rparr>
      | _ \<Rightarrow> None)"

lemma net_joinD:
  assumes "net_join s p c g = Some n"
  shows "\<exists>q. s_all (s x) = [] \<and> n_sock n x = (s x)\<lparr>s_objs := s_objs (s x) @ [newPipe (pp_id (p x)) (pp_raw (p x)) (pp_level (p x)) q],
      s_pipes := (s_pipes (s x))(pp_id (p x) \<mapsto> length (s_objs (s x)))\<rparr>"
    "HandlePipeEvent (pipe_event (p x)) (pp_id (p x)) (s x) = Some (n_sock n x)"
    "n_obj n x = length (s_objs (s x))" "n_pipe n = p" "n_conn n = c" "n_gone n x = []" "n_serr n x = None" "n_terr n x = None"
  using assms
  by (cases x; auto simp: net_join_def HandlePipeEvent_def pipe_event_def pipe_ID_def IsRaw_def MsgFreeLevel_def addPipe_def
      split: option.splits if_splits outcome.splits)+

context handover
begin

lemma inv_join:
  assumes j: "net_join s p c g = Some n" and m: "mem_inv live (cp_mem c)" "ok c" "own c = {#}"
    and s: "\<And>x. sock_inv (s x)" "\<And>x. held (s x) = {#}" and p: "\<And>x. cfg (p x)" "\<And>x. pp_level (p x) = lvl"
  shows "inv n"
proof -
  note d = net_joinD [OF j]
  have "side_ok cfg lvl n x" for x
  proof -
    obtain q where q: "n_sock n x = (s x)\<lparr>s_objs := s_objs (s x) @ [newPipe (pp_id (p x)) (pp_raw (p x)) (pp_level (p x)) q],
        s_pipes := (s_pipes (s x))(pp_id (p x) \<mapsto> length (s_objs (s x)))\<rparr>" using d(1) by blast
    with sock_inv_event [OF s(1) d(2) [of x]] p d(3,4) show ?thesis by (simp add: side_ok_def newPipe_def)
  qed
  moreover have "held (n_sock n x) = {#}" for x
  proof -
    obtain q where q: "n_sock n x = (s x)\<lparr>s_objs := s_objs (s x) @ [newPipe (pp_id (p x)) (pp_raw (p x)) (pp_level (p x)) q],
        s_pipes := (s_pipes (s x))(pp_id (p x) \<mapsto> length (s_objs (s x)))\<rparr>" using d(1) by blast
    show ?thesis using s(2) [of x] by (simp add: q held_def pipe_msgs_def newPipe_def chan_msgs_def make_chan_def)
  qed
  ultimately show ?thesis using m d(5) by (auto simp: net_inv_def net_held_def safe_def owns_def)
qed

end

lemma owns_count: "owns A h \<Longrightarrow> \<exists>live. mem_inv live h \<and> (\<forall>x. count A x \<le> (if x \<in> live then 1 else 0))"
proof -
  assume "owns A h"
  then obtain live where l: "mem_inv live h" "set_mset A \<subseteq> live" "\<forall>x. count A x \<le> 1" unfolding owns_def by blast
  from l(2) have "count A x = 0" if "x \<notin> live" for x using that by (auto simp: count_eq_zero_iff)
  with l(1,3) show ?thesis by (intro exI [of _ live]) auto
qed

text \<open>Pipes that are not raw over the two kinds of channel are configured for handing over.\<close>

lemma channel_prefix: "prefix ''inproc.channel'' ''inproc.channel.sr''" "prefix ''inproc.channel'' ''inproc.channel.msr''"
  by (simp_all add: prefix_def)

lemma sr_pipe_cfg:
  assumes "new_pipe (sr_conn w x) c d l H a g = Some (Ok p, g')" "\<not> pp_raw p"
  shows "sr_cfg p" "pp_level p = LevelFreeMsg"
  using newPipe_configures [OF assms(1)] assms(2) channel_prefix by (auto simp: sr_cfg_def sr_conn_def inproc_channel_def)

lemma msr_pipe_cfg:
  assumes "new_pipe (msr_conn w x) c d l H a g = Some (Ok p, g')" "\<not> pp_raw p"
  shows "msr_cfg p" "pp_level p = LevelFreeNone"
  using newPipe_configures [OF assms(1)] assms(2) channel_prefix by (auto simp: msr_cfg_def msr_conn_def inproc_channel_def)

lemma newSrPipe_fresh:
  assumes "newSrPipe la ra K k h = Ok c"
  shows "cp_mem c = h" "sr_own c = {#}" "\<not> cp_closedq c" "lastBytes c x = None" "chan_buf (cp_rc c x) = []"
  using assms
  by (auto simp: newSrPipe_def createPipe_def sr_own_def sr_way_def chpipe.extend_def make_chan_def
      split: outcome.splits option.splits optval.splits if_splits)

lemma newMsrPipe_fresh:
  assumes "newMsrPipe la ra K k h = Ok c"
  shows "cp_mem c = h" "msr_own c = {#}" "msr_ok c" "\<not> cp_closedq c" "mp_lastMsg c x = None" "chan_buf (mp_recvq c x) = []"
  using assms
  by (auto simp: newMsrPipe_def createPipe_def msr_own_def msr_ok_def msr_way_def chpipe.extend_def make_chan_def
      split: outcome.splits option.splits optval.splits if_splits)

text \<open>
  Two new sockets, whatever their options, joined by a new channel of one of the two kinds, as a connector joins them
  when neither pipe is raw.
\<close>

inductive msr_linked :: "unit msrPipe_ext net \<Rightarrow> bool" where
  "mem_inv live h \<Longrightarrow> (\<And>x. socket_New (ovs x) (H x) h = (Ok (), s x)) \<Longrightarrow> newMsrPipe la ra K k h = Ok c \<Longrightarrow>
   (\<And>x. new_pipe (msr_conn WSend x) c (d x) (l x) (Q x) (q x) (g x) = Some (Ok (p x), g' x)) \<Longrightarrow> (\<And>x. \<not> pp_raw (p x)) \<Longrightarrow>
   net_join s p c gen = Some n \<Longrightarrow> msr_linked n"

inductive sr_linked :: "unit srPipe_ext net \<Rightarrow> bool" where
  "mem_inv live h \<Longrightarrow> (\<And>x. socket_New (ovs x) (H x) h = (Ok (), s x)) \<Longrightarrow> newSrPipe la ra K k h = Ok c \<Longrightarrow>
   (\<And>x. new_pipe (sr_conn WSend x) c (d x) (l x) (Q x) (q x) (g x) = Some (Ok (p x), g' x)) \<Longrightarrow> (\<And>x. \<not> pp_raw (p x)) \<Longrightarrow>
   net_join s p c gen = Some n \<Longrightarrow> sr_linked n"

lemma msr_linked_inv:
  assumes "msr_linked n"
  shows "msrh.inv n"
  using assms
proof cases
  case (1 live h ovs H s la ra K k c d l Q q g p g' gen)
  show ?thesis
    by (rule msrh.inv_join [OF 1(6)])
      (use 1(1) newMsrPipe_fresh [OF 1(3)] sock_inv_New [OF 1(2)] New_held [OF 1(2)] msr_pipe_cfg [OF 1(4,5)] in auto)
qed

lemma sr_linked_inv:
  assumes "sr_linked n"
  shows "srh.inv n"
  using assms
proof cases
  case (1 live h ovs H s la ra K k c d l Q q g p g' gen)
  show ?thesis
    by (rule srh.inv_join [OF 1(6)])
      (use 1(1) newSrPipe_fresh [OF 1(3)] sock_inv_New [OF 1(2)] New_held [OF 1(2)] sr_pipe_cfg [OF 1(4,5)] in auto)
qed

section \<open>Two default sockets\<close>

lemma default_new_pipe:
  obtains p g' where "new_pipe cf c None None [empty_options] 0 NewRecyclableIDGenerator = Some (Ok p, g')" "\<not> pp_raw p" "pp_max p = 131072"
proof -
  obtain r where "NextID NewRecyclableIDGenerator = Some r"
    using NextID_returns_at [of 1 NewRecyclableIDGenerator] by (auto simp: valid_id_def NewRecyclableIDGenerator_def word_less_nat_alt)
  then obtain i g' where i: "NextID NewRecyclableIDGenerator = Some (i, g')" by (cases r) auto
  have "\<exists>p. new_pipe cf c None None [empty_options] 0 NewRecyclableIDGenerator = Some (Ok p, g') \<and> \<not> pp_raw p \<and> pp_max p = 131072"
    by (simp add: new_pipe_def i value_bool_def default_int_def select_msg_def value_uint32_def GetOptionDefault_def empty_options_def
        acceptOption_def program_options_defs option_constructors Let_def pipe_literal_def)
  then show thesis using that by blast
qed

lemma default_join: "\<exists>n. net_join (\<lambda>_. default_socket init_mem) p c gen = Some n"
  by (simp add: net_join_def pipe_event_def HandlePipeEvent_def addPipe_def default_socket_def blank_socket_def default_heap_def read_option_defs)

section \<open>Properties\<close>

text \<open>
  C5: Buffers of two sockets over the default in-process transport, which hands messages over: in every interleaving of
  both applications, all goroutines, failing calls and closes at either end, every message in a queue or in
  somebody's hands is well formed, and its buffer, those of the messages on the way in the
  channel and those not released yet are pairwise different and none of them is in the pool. No buffer is released twice, or
  reused while one side still reads what the other has sent.
\<close>

theorem msr_network_memory_safe:
  assumes "msr_linked n" and "net_run msr_conn msr_release n n'"
  shows "(\<forall>m \<in># net_held n'. wf_msg m) \<and> (\<exists>live. mem_inv live (cp_mem (n_conn n')) \<and>
    (\<forall>x. count (msr_own (n_conn n') + image_mset marr (net_held n')) x \<le> (if x \<in> live then 1 else 0)))"
  using msrh.net_inv_run [OF assms(2) msr_linked_inv [OF assms(1)]] owns_count unfolding net_inv_def safe_def by blast

text \<open>
  C6: The same for the transport that hands packets over: there the slice of an encoded message travels.\<close>

theorem sr_network_memory_safe:
  assumes "sr_linked n" and "net_run sr_conn sr_release n n'"
  shows "(\<forall>m \<in># net_held n'. wf_msg m) \<and> (\<exists>live. mem_inv live (cp_mem (n_conn n')) \<and>
    (\<forall>x. count (sr_own (n_conn n') + image_mset marr (net_held n')) x \<le> (if x \<in> live then 1 else 0)))"
  using srh.net_inv_run [OF assms(2) sr_linked_inv [OF assms(1)]] owns_count unfolding net_inv_def safe_def by blast

end
