(* ===== verification/Traffic.thy ===== *)
theory Traffic
  imports Links
begin

text \<open>
  Messages from one application to the other: \<open>Send\<close> on one socket, its sender, the pipe, the channel, the other pipe, the
  other receiver, \<open>RecvMsg\<close> on the other socket, in both directions at once and in any order of steps, as long as
  nobody closes anything. What arrives is what was sent, in order and once, and everything arrives.
\<close>

section \<open>Moves\<close>

text \<open>
  A state with what each side has been asked to send, as contents, and what each side has received.
\<close>

type_synonym 'a traffic = "'a net \<times> (side \<Rightarrow> bytes list) \<times> (side \<Rightarrow> message list)"

text \<open>The steps of a network that move messages on; all are steps of \<open>net_step\<close>.\<close>

inductive moves ::
    "(wchoice \<Rightarrow> side \<Rightarrow> 'a chpipe_scheme Connection) \<Rightarrow> (side \<Rightarrow> 'a chpipe_scheme \<Rightarrow> 'a chpipe_scheme) \<Rightarrow> 'a traffic \<Rightarrow> 'a traffic \<Rightarrow> bool"
  for cf rel where
  mv_sender: "p_spc (net_obj x n) \<in> {SStart, SLoop} \<Longrightarrow> sender_step ch (n_obj n x) (net_sock x n) = Some s \<Longrightarrow>
    moves cf rel (n, S, G) (put_sock x s n, S, G)"
| mv_sent: "p_spc (net_obj x n) = SSend m \<Longrightarrow> pipe_SendMsg (cf w x) tell m (net_end x n) = Some (Ok None, e) \<Longrightarrow>
    sender_step (ChResult None ChDefault) (n_obj n x) (net_sock x (put_end x e n)) = Some s \<Longrightarrow>
    moves cf rel (n, S, G) (put_sock x s (put_end x e n), S, G)"
| mv_recv: "p_rpc (net_obj x n) = RLoop \<Longrightarrow> net_RecvMsg (cf WSend) rel pk x n = Some (r, n1) \<Longrightarrow>
    recv_return r (n_obj n x) (net_sock x n1) = Some s \<Longrightarrow> moves cf rel (n, S, G) (put_sock x s n1, S, G)"
| mv_receiver: "p_rpc (net_obj x n) \<noteq> RLoop \<Longrightarrow> receiver_step ch y (n_obj n x) (net_sock x n) = Some s \<Longrightarrow>
    moves cf rel (n, S, G) (put_sock x s n, S, G)"
| mv_release: "p_rpc (net_obj x n) = RLoop \<Longrightarrow> rel x (n_conn n) \<noteq> n_conn n \<Longrightarrow>
    moves cf rel (n, S, G) (n\<lparr>n_conn := rel x (n_conn n)\<rparr>, S, G)"
| mv_RecvMsg: "socket_RecvMsg ch (net_sock x n) = Some (Ok m, s) \<Longrightarrow> moves cf rel (n, S, G) (put_sock x s n, S, G(x := G x @ [m]))"
| mv_free: "k < length (s_user (n_sock n x)) \<Longrightarrow> moves cf rel (n, S, G) (put_sock x (app_release k (net_sock x n)) n, S, G)"

text \<open>The receiving pipe has no limit on the content, or one that is not exceeded.\<close>

definition fits :: "'c pipe \<Rightarrow> bytes \<Rightarrow> bool" where
  "fits p content \<longleftrightarrow> pp_max p = 0 \<or> length content \<le> unat (pp_max p)"

text \<open>And \<open>Send\<close> by an application; a content is noted as sent when the call returns no error.\<close>

inductive flow ::
    "(wchoice \<Rightarrow> side \<Rightarrow> 'a chpipe_scheme Connection) \<Rightarrow> (side \<Rightarrow> 'a chpipe_scheme \<Rightarrow> 'a chpipe_scheme) \<Rightarrow> 'a traffic \<Rightarrow> 'a traffic \<Rightarrow> bool"
  for cf rel where
  fl_move: "moves cf rel t t' \<Longrightarrow> flow cf rel t t'"
| fl_Send: "length content < 2 ^ 32 \<Longrightarrow> fits (n_pipe n (peer_of x)) content \<Longrightarrow> socket_Send pk ch content (net_sock x n) = Some (r, s) \<Longrightarrow>
    flow cf rel (n, S, G) (put_sock x s n, if r = None then S(x := S x @ [content]) else S, G)"

section \<open>Where messages are\<close>

definition hand_s :: "spipe \<Rightarrow> message list" where
  "hand_s p = (case p_spc p of SSend m \<Rightarrow> [m] | _ \<Rightarrow> [])"

definition hand_r :: "spipe \<Rightarrow> message list" where
  "hand_r p = (case p_rpc p of RGot m e \<Rightarrow> [m] | _ \<Rightarrow> [])"

text \<open>Still in the socket that sends, and already in the socket that receives, oldest first.\<close>

definition outgoing :: "side \<Rightarrow> 'a net \<Rightarrow> message list" where
  "outgoing x n = hand_s (net_obj x n) @ chan_buf (s_sendqs (n_sock n x) ! s_sendq (n_sock n x))"

definition incoming :: "side \<Rightarrow> 'a net \<Rightarrow> message list" where
  "incoming x n = chan_buf (cur_recvq (n_sock n x)) @ hand_r (net_obj x n)"

text \<open>A message as \<open>Send\<close> makes it, and as it is received.\<close>

definition plain :: "message \<Rightarrow> bool" where
  "plain m \<longleftrightarrow> wf_msg m \<and> Flags (meta m) = 0 \<and> Hops (meta m) = 0 \<and> Distance (meta m) = 0"

definition arrived :: "u32 \<Rightarrow> message \<Rightarrow> bool" where
  "arrived pid d \<longleftrightarrow> Flags (meta d) = 0 \<and> Source d = be32 pid"

text \<open>A socket with one pipe, running.\<close>

definition running :: "socket \<Rightarrow> bool" where
  "running s \<longleftrightarrow>
     \<not> s_closedq s \<and> \<not> s_noRecv s \<and> \<not> s_noSend s \<and> s_sendq s < length (s_sendqs s) \<and> s_recvq s < length (s_recvqs s) \<and>
     0 < chan_cap (cur_recvq s) \<and> length (s_objs s) = 1 \<and>
     \<not> p_raw (obj 0 s) \<and> \<not> p_stopq (obj 0 s) \<and> chan_buf (p_sendq (obj 0 s)) = [] \<and>
     (p_spc (obj 0 s) = SStart \<or> (p_spc (obj 0 s) = SLoop \<or> (\<exists>m. p_spc (obj 0 s) = SSend m)) \<and> p_sq (obj 0 s) = Some (s_sendq s)) \<and>
     (p_rpc (obj 0 s) = RStart \<or> p_rpc (obj 0 s) = RLoop \<or> (\<exists>m. p_rpc (obj 0 s) = RGot m None))"

text \<open>
  The messages of one direction, from \<open>x\<close>, when those in \<open>ms\<close> are in the channel.
\<close>

definition lane :: "'a traffic \<Rightarrow> side \<Rightarrow> message list \<Rightarrow> bool" where
  "lane t x ms \<longleftrightarrow>
     (case t of (n, S, G) \<Rightarrow>
        S x = map Content (G (peer_of x) @ incoming (peer_of x) n @ ms @ outgoing x n) \<and>
        (\<forall>m \<in> set (ms @ outgoing x n). plain m \<and> fits (n_pipe n (peer_of x)) (Content m)) \<and>
        (\<forall>d \<in> set (G (peer_of x) @ incoming (peer_of x) n). arrived (pp_id (n_pipe n (peer_of x))) d))"

definition traffic_inv :: "('a net \<Rightarrow> bool) \<Rightarrow> (side \<Rightarrow> 'a chpipe_scheme \<Rightarrow> message list \<Rightarrow> bool) \<Rightarrow> 'a traffic \<Rightarrow> bool" where
  "traffic_inv I carries t \<longleftrightarrow>
     (case t of (n, S, G) \<Rightarrow>
        I n \<and> \<not> cp_closedq (n_conn n) \<and> (\<forall>x. running (n_sock n x) \<and> n_obj n x = 0 \<and> n_serr n x = None) \<and>
        (\<forall>x. \<exists>ms. carries (peer_of x) (n_conn n) ms \<and> lane t x ms))"

text \<open>What is left to do: each move takes something off.\<close>

definition work_side :: "side \<Rightarrow> 'a net \<Rightarrow> nat" where
  "work_side x n =
     (if p_spc (net_obj x n) = SStart then 1 else 0) + (if p_rpc (net_obj x n) = RStart then 1 else 0) +
     10 * length (chan_buf (s_sendqs (n_sock n x) ! s_sendq (n_sock n x))) + 9 * length (hand_s (net_obj x n)) +
     5 * length (hand_r (net_obj x n)) + 4 * length (chan_buf (cur_recvq (n_sock n x))) + 3 * length (s_user (n_sock n x))"

definition work :: "(side \<Rightarrow> 'a chpipe_scheme \<Rightarrow> nat) \<Rightarrow> 'a net \<Rightarrow> nat" where
  "work load n = work_side Dialled n + work_side Accepted n + load Dialled (n_conn n) + load Accepted (n_conn n)"

section \<open>The steps of one running socket\<close>

abbreviation sq :: "socket \<Rightarrow> message list" where "sq s \<equiv> chan_buf (s_sendqs s ! s_sendq s)"
abbreviation rq :: "socket \<Rightarrow> message list" where "rq s \<equiv> chan_buf (cur_recvq s)"
abbreviation hs :: "socket \<Rightarrow> message list" where "hs s \<equiv> hand_s (obj 0 s)"
abbreviation hr :: "socket \<Rightarrow> message list" where "hr s \<equiv> hand_r (obj 0 s)"

lemma running_mem [simp]: "running (s\<lparr>s_mem := h\<rparr>) = running s" "running (s\<lparr>s_user := us\<rparr>) = running s"
  by (simp_all add: running_def)

lemma run_sender:
  assumes "running s" "p_spc (obj 0 s) \<in> {SStart, SLoop}" "sender_step ch 0 s = Some s'"
  shows "running s' \<and> rq s' = rq s \<and> hr s' = hr s \<and> s_user s' = s_user s \<and> s_mem s' = s_mem s \<and> hs s' @ sq s' = hs s @ sq s \<and>
    p_rpc (obj 0 s') = p_rpc (obj 0 s) \<and> p_tpc (obj 0 s') = p_tpc (obj 0 s) \<and> hs s = [] \<and> p_spc (obj 0 s') \<noteq> SStart \<and>
    (p_spc (obj 0 s) = SStart \<and> hs s' = [] \<or> p_spc (obj 0 s) = SLoop \<and> (\<exists>m. hs s' = [m]))"
proof (cases "p_spc (obj 0 s)")
  case SStart
  with assms show ?thesis by (auto simp: sender_step_def running_def set_obj_def hand_s_def hand_r_def Let_def cong: rpc.case_cong)
next
  case SLoop
  with assms(1,3) obtain m q where q: "chan_recv (s_sendqs s ! s_sendq s) = Some (m, q)"
      "s' = set_spc 0 (SSend m) (s\<lparr>s_sendqs := (s_sendqs s)[s_sendq s := q]\<rparr>)"
    by (auto simp: sender_step_def running_def take_sendq_def take_pipeq_def Let_def split: choice.splits if_splits)
  with assms(1) SLoop show ?thesis
    by (auto simp: running_def set_spc_def set_obj_def hand_s_def hand_r_def Let_def split: list.splits cong: rpc.case_cong)
qed (use assms in simp_all)

lemma run_sent:
  assumes "running s" "p_spc (obj 0 s) = SSend m" "sender_step (ChResult None ch) 0 s = Some s'"
  shows "running s' \<and> rq s' = rq s \<and> hr s' = hr s \<and> s_user s' = s_user s \<and> sq s' = sq s \<and> hs s = [m] \<and> hs s' = [] \<and>
    p_rpc (obj 0 s') = p_rpc (obj 0 s) \<and> p_spc (obj 0 s') = SLoop"
  using assms
  by (auto simp: sender_step_def doSendMsg_def running_def set_spc_def set_obj_def hand_s_def hand_r_def Let_def cong: rpc.case_cong)

lemma run_recv:
  assumes "running s" "p_rpc (obj 0 s) = RLoop" "recv_return (Ok (Some d, None)) 0 s = Some s'"
  shows "running s' \<and> rq s' = rq s \<and> hr s = [] \<and> hr s' = [d] \<and> s_user s' = s_user s \<and> sq s' = sq s \<and> hs s' = hs s \<and>
    p_spc (obj 0 s') = p_spc (obj 0 s) \<and> p_rpc (obj 0 s') \<noteq> RStart"
  using assms
  by (auto simp: recv_return_def running_def set_rpc_def set_obj_def hand_s_def hand_r_def Let_def cong: spc.case_cong)

lemma run_receiver:
  assumes "running s" "p_rpc (obj 0 s) \<noteq> RLoop" "receiver_step ch y 0 s = Some s'" "\<forall>d \<in> set (hr s). Flags (meta d) = 0"
  shows "running s' \<and> s_user s' = s_user s \<and> sq s' = sq s \<and> hs s' = hs s \<and> p_spc (obj 0 s') = p_spc (obj 0 s) \<and> s_mem s' = s_mem s \<and>
    rq s' @ hr s' = rq s @ hr s \<and> hr s' = [] \<and> p_rpc (obj 0 s') = RLoop \<and> p_tpc (obj 0 s') = p_tpc (obj 0 s) \<and> (p_rpc (obj 0 s) = RStart \<and> hr s = [] \<or> (\<exists>m. hr s = [m]))"
proof (cases "p_rpc (obj 0 s)")
  case RStart
  with assms show ?thesis
    by (auto simp: receiver_step_def running_def set_rpc_def set_obj_def hand_s_def hand_r_def Let_def cong: spc.case_cong)
next
  case (RGot m e)
  with assms(1,4) have "e = None" "\<not> HasFlags (meta m) MsgFlagInternal"
    by (auto simp: running_def Let_def hand_r_def HasFlags_def MsgFlagInternal_def)
  with assms(1,3) RGot have "s' = set_rpc 0 RLoop (s\<lparr>s_recvqs := (s_recvqs s)[s_recvq s := chan_send m (cur_recvq s)]\<rparr>)"
    by (auto simp: receiver_step_def running_def push_recvq_def after_recv_def Let_def split: choice.splits if_splits)
  with assms(1) RGot show ?thesis
    by (auto simp: running_def set_rpc_def set_obj_def hand_s_def hand_r_def chan_send_def Let_def cong: spc.case_cong)
qed (use assms in \<open>auto simp: running_def Let_def\<close>)

lemma run_RecvMsg:
  assumes "running s" "socket_RecvMsg ch s = Some (Ok m, s')"
  shows "running s' \<and> s_objs s' = s_objs s \<and> sq s' = sq s \<and> rq s = m # rq s' \<and> s_user s' = s_user s @ [m] \<and> s_mem s' = s_mem s"
proof -
  from assms have "\<exists>q. chan_recv (cur_recvq s) = Some (m, q) \<and> s' = s\<lparr>s_recvqs := (s_recvqs s)[s_recvq s := q], s_user := s_user s @ [m]\<rparr>"
    by (auto simp: socket_RecvMsg_def running_def Let_def split: choice.splits if_splits option.splits)
  with assms(1) show ?thesis by (auto simp: running_def split: list.splits)
qed

lemma run_free:
  assumes "running s" "k < length (s_user s)"
  shows "running (app_release k s) \<and> s_objs (app_release k s) = s_objs s \<and> sq (app_release k s) = sq s \<and> rq (app_release k s) = rq s \<and>
    length (s_user s) = Suc (length (s_user (app_release k s)))"
  using assms by (auto simp: app_release_def running_def)

lemma run_Send:
  assumes "running s" "mem_inv live (s_mem s)" "length content < 2 ^ 32" "socket_Send pk ch content s = Some (r, s')"
  shows "running s' \<and> s_objs s' = s_objs s \<and> rq s' = rq s \<and> s_user s' = s_user s \<and>
    (r = None \<longrightarrow> (\<exists>m. plain m \<and> Content m = content \<and> sq s' = sq s @ [m])) \<and> (r \<noteq> None \<longrightarrow> sq s' = sq s)"
proof -
  obtain m h where m: "NewSendMessage pk 0 SendTypeToOne (s_ttl s) [] [] content (s_mem s) = (Ok m, h)" "owned_msg live m h"
      "meta m = send_meta 0 SendTypeToOne (s_ttl s) [] [] content" "Content m = content"
    using NewSendMessage_ok [OF assms(2) _ _ assms(3), of "[]" "[]" pk 0 SendTypeToOne "s_ttl s"]
    by (metis div_0 length_0_conv mod_0 path_ok_def zero_less_numeral)
  have p: "plain m" using m(2,3) by (simp add: plain_def owned_msg_def send_meta_def path_Length_def SendTypeToOne_def)
  from m(1) assms(1,4) have "push_sendq ch m (s\<lparr>s_mem := h\<rparr>) = Some (r, s')" by (simp add: socket_Send_def running_def)
  then obtain q where q: "doPushMsg ch (s_bestEffort s) (s_closedq s) m (s_sendqs s ! s_sendq s) = Some (r, q)"
      "s' = s\<lparr>s_mem := h, s_sendqs := (s_sendqs s)[s_sendq s := q]\<rparr>"
    by (auto simp: push_sendq_def split: if_splits)
  with doPushMsg_result [OF q(1)] assms(1) p m(4) show ?thesis by (auto simp: running_def chan_send_def)
qed

lemma unanswered_same: "s_objs s' = s_objs s \<Longrightarrow> unanswered a s s'"
  by (simp add: unanswered_def)

lemma unanswered_sender:
  assumes "running s" "p_spc (obj 0 s) \<in> {SStart, SLoop}" "sender_step ch 0 s = Some s'"
  shows "unanswered 0 s s'"
  using run_sender [OF assms] assms(2) by (auto simp: unanswered_def)

lemma unanswered_receiver:
  assumes "running s" "p_rpc (obj 0 s) \<noteq> RLoop" "receiver_step ch y 0 s = Some s'" "\<forall>d \<in> set (hr s). Flags (meta d) = 0"
  shows "unanswered 0 s s'"
  using run_receiver [OF assms] assms(2) by (simp add: unanswered_def)

section \<open>The channel in between\<close>

lemma side_cases: "y = x \<or> y = peer_of x"
  by (cases x; cases y) simp_all

lemma traffic_invI:
  assumes "I n" "\<not> cp_closedq (n_conn n)" "\<And>y. running (n_sock n y) \<and> n_obj n y = 0 \<and> n_serr n y = None"
    "carries (peer_of x) (n_conn n) ms" "lane (n, S, G) x ms" "carries x (n_conn n) ks" "lane (n, S, G) (peer_of x) ks"
  shows "traffic_inv I carries (n, S, G)"
proof -
  have "\<exists>ms. carries (peer_of y) (n_conn n) ms \<and> lane (n, S, G) y ms" for y
    using side_cases [of y x] assms(4-7) by auto
  with assms(1-3) show ?thesis by (simp add: traffic_inv_def)
qed

lemma traffic_invD:
  assumes "traffic_inv I carries (n, S, G)"
  obtains ms ks where "I n" "\<not> cp_closedq (n_conn n)" "\<And>y. running (n_sock n y)" "\<And>y. n_obj n y = 0" "\<And>y. n_serr n y = None"
    "carries (peer_of x) (n_conn n) ms" "lane (n, S, G) x ms" "carries x (n_conn n) ks" "lane (n, S, G) (peer_of x) ks"
proof -
  have l: "\<exists>ms. carries (peer_of y) (n_conn n) ms \<and> lane (n, S, G) y ms" for y
    using assms by (simp add: traffic_inv_def)
  from l [of x] l [of "peer_of x"] assms that show thesis by (fastforce simp: traffic_inv_def)
qed

text \<open>The work in one socket, as \<open>work_side\<close> counts it.\<close>

definition sock_work :: "socket \<Rightarrow> nat" where
  "sock_work s =
     (if p_spc (obj 0 s) = SStart then 1 else 0) + (if p_rpc (obj 0 s) = RStart then 1 else 0) + 10 * length (sq s) + 9 * length (hs s) +
     5 * length (hr s) + 4 * length (rq s) + 3 * length (s_user s)"

lemma work_sides:
  assumes "n_obj n x = 0" "n_obj n (peer_of x) = 0"
  shows "work load n = sock_work (n_sock n x) + sock_work (n_sock n (peer_of x)) + load x (n_conn n) + load (peer_of x) (n_conn n)"
  using assms by (cases x) (simp_all add: work_def work_side_def sock_work_def)

lemma sides_put [simp]:
  "n_obj n x = 0 \<Longrightarrow> outgoing x (put_sock x s n) = hs s @ sq s"
  "n_obj n x = 0 \<Longrightarrow> incoming x (put_sock x s n) = rq s @ hr s"
  "y \<noteq> x \<Longrightarrow> outgoing y (put_sock x s n) = outgoing y n"
  "y \<noteq> x \<Longrightarrow> incoming y (put_sock x s n) = incoming y n"
  "outgoing y (put_end x e n) = outgoing y n" "incoming y (put_end x e n) = incoming y n"
  "outgoing y (n\<lparr>n_conn := c\<rparr>) = outgoing y n" "incoming y (n\<lparr>n_conn := c\<rparr>) = incoming y n"
  by (auto simp: outgoing_def incoming_def)

lemma sides_sock:
  "n_obj n x = 0 \<Longrightarrow> outgoing x n = hs (n_sock n x) @ sq (n_sock n x)" "n_obj n x = 0 \<Longrightarrow> incoming x n = rq (n_sock n x) @ hr (n_sock n x)"
  by (simp_all add: outgoing_def incoming_def)

text \<open>
  What the sockets rely on for their messages to get through: while it is open the channel accepts a message when it is
  empty, keeps what it has accepted in order, and hands the oldest to \<open>RecvMsg\<close>.
\<close>

locale conveyor = handover cf rel own ok cfg lvl
  for cf :: "wchoice \<Rightarrow> side \<Rightarrow> 'a chpipe_scheme Connection" and rel own ok cfg lvl +
  fixes carries :: "side \<Rightarrow> 'a chpipe_scheme \<Rightarrow> message list \<Rightarrow> bool"
    and load :: "side \<Rightarrow> 'a chpipe_scheme \<Rightarrow> nat"
  assumes carries_mem: "carries x (c\<lparr>cp_mem := h\<rparr>) ms = carries x c ms" "load x (c\<lparr>cp_mem := h\<rparr>) = load x c"
    and release_carries: "carries y (rel x c) ms = carries y c ms" "cp_closedq (rel x c) = cp_closedq c"
    and release_load: "load x (rel x c) \<le> load x c" "load (peer_of x) (rel x c) = load (peer_of x) c"
      "rel x c \<noteq> c \<Longrightarrow> load x (rel x c) < load x c"
    and send_open: "cfg (ps_pipe s) \<Longrightarrow> plain m \<Longrightarrow> \<not> cp_closedq (pp_conn (ps_pipe s)) \<Longrightarrow>
      pipe_SendMsg (cf w x) tell m s = Some (Ok None, s') \<Longrightarrow>
      \<exists>c. s' = set_conn c s \<and> \<not> cp_closedq c \<and> (\<forall>ms. carries (peer_of x) (pp_conn (ps_pipe s)) ms \<longrightarrow> carries (peer_of x) c (ms @ [m])) \<and>
        (\<forall>ms. carries x (pp_conn (ps_pipe s)) ms \<longrightarrow> carries x c ms) \<and>
        load (peer_of x) c = load (peer_of x) (pp_conn (ps_pipe s)) + 8 \<and> load x c = load x (pp_conn (ps_pipe s))"
    and send_room: "cfg (ps_pipe s) \<Longrightarrow> plain m \<Longrightarrow> \<not> cp_closedq (pp_conn (ps_pipe s)) \<Longrightarrow> carries (peer_of x) (pp_conn (ps_pipe s)) [] \<Longrightarrow>
      \<exists>s'. pipe_SendMsg (cf WSend x) tell m s = Some (Ok None, s')"
    and recv_waits: "cfg (ps_pipe s) \<Longrightarrow> \<not> cp_closedq (pp_conn (ps_pipe s)) \<Longrightarrow> carries x (pp_conn (ps_pipe s)) [] \<Longrightarrow>
      pipe_RecvMsg (cf w x) tell pk s h = None"
    and recv_next: "cfg (ps_pipe s) \<Longrightarrow> \<not> cp_closedq (pp_conn (ps_pipe s)) \<Longrightarrow> pp_conn (ps_pipe s) = rel x c0 \<Longrightarrow>
      carries x (pp_conn (ps_pipe s)) (m # ms) \<Longrightarrow> plain m \<Longrightarrow> fits (ps_pipe s) (Content m) \<Longrightarrow> mem_good h \<Longrightarrow>
      \<exists>d c h'. pipe_RecvMsg (cf w x) tell pk s h = Some (Ok (Some d, None), set_conn c s, h') \<and> delivers (pp_id (ps_pipe s)) m d \<and>
        \<not> cp_closedq c \<and> carries x c ms \<and> (\<forall>ks. carries (peer_of x) (pp_conn (ps_pipe s)) ks \<longrightarrow> carries (peer_of x) c ks) \<and>
        load x c + 7 = load x (pp_conn (ps_pipe s)) \<and> load (peer_of x) c = load (peer_of x) (pp_conn (ps_pipe s))"
begin

abbreviation tinv :: "'a traffic \<Rightarrow> bool" where
  "tinv \<equiv> traffic_inv inv carries"

lemma inv_mem: "inv n \<Longrightarrow> \<exists>live. mem_inv live (cp_mem (n_conn n))"
  by (auto simp: net_inv_def safe_def owns_def)

lemma delivers_plain: "delivers pid m d \<Longrightarrow> plain m \<Longrightarrow> arrived pid d \<and> Content d = Content m"
  using wf_msg_layout(2) [of m] by (auto simp: delivers_def plain_def arrived_def recv_meta_def)

lemma net_running: "running (net_sock x n) = running (n_sock n x)" "s_user (net_sock x n) = s_user (n_sock n x)"
  "sq (net_sock x n) = sq (n_sock n x)" "rq (net_sock x n) = rq (n_sock n x)"
  by (simp_all add: net_sock_def)

text \<open>A step of one socket that passes messages on.\<close>

lemma socket_move:
  assumes t: "tinv (n, S, G)" and st: "step (net_sock x n) s" and r: "running s"
    and o: "hs s @ sq s = (hs (n_sock n x) @ sq (n_sock n x)) @ new" "\<forall>m \<in> set new. plain m \<and> fits (n_pipe n (peer_of x)) (Content m)"
    and i: "got @ rq s @ hr s = rq (n_sock n x) @ hr (n_sock n x)"
  shows "tinv (put_sock x s n, S(x := S x @ map Content new), G(x := G x @ got))"
proof -
  obtain ms ks where d: "inv n" "\<not> cp_closedq (n_conn n)" "\<And>y. running (n_sock n y)" "\<And>y. n_obj n y = 0" "\<And>y. n_serr n y = None"
    "carries (peer_of x) (n_conn n) ms" "lane (n, S, G) x ms" "carries x (n_conn n) ks" "lane (n, S, G) (peer_of x) ks"
    using traffic_invD [OF t] by metis
  have "lane (put_sock x s n, S(x := S x @ map Content new), G(x := G x @ got)) x ms"
    using d(4,7) o by (auto simp: lane_def sides_sock)
  moreover have "lane (put_sock x s n, S(x := S x @ map Content new), G(x := G x @ got)) (peer_of x) ks"
    using d(4,9) i by (auto simp: lane_def sides_sock) (metis append_assoc map_append set_append UnCI)+
  ultimately show ?thesis
    using d r inv_local [OF d(1) st] by (intro traffic_invI [where x = x and ms = ms and ks = ks]) (auto simp: carries_mem put_sock_def)
qed

lemma less_work:
  assumes "\<And>y. n_obj n y = 0" "sock_work s < sock_work (n_sock n x)"
  shows "work load (put_sock x s n) < work load n"
  using assms by (simp add: work_sides [of _ x] carries_mem)

lemma move_sender:
  assumes t: "tinv (n, S, G)" and pc: "p_spc (net_obj x n) \<in> {SStart, SLoop}" and st: "sender_step ch (n_obj n x) (net_sock x n) = Some s"
  shows "tinv (put_sock x s n, S, G) \<and> work load (put_sock x s n) < work load n"
proof -
  obtain ms ks where d: "inv n" "\<And>y. running (n_sock n y)" "\<And>y. n_obj n y = 0" using traffic_invD [OF t] by metis
  have st': "sender_step ch 0 (net_sock x n) = Some s" using st d(3) by simp
  have "step (net_sock x n) s" using d(2) [of x] by (intro step_sender [OF _ st']) (simp add: running_def)
  moreover have r: "running s \<and> rq s = rq (n_sock n x) \<and> hr s = hr (n_sock n x) \<and> s_user s = s_user (n_sock n x) \<and>
      hs s @ sq s = hs (n_sock n x) @ sq (n_sock n x) \<and> p_rpc (obj 0 s) = p_rpc (obj 0 (n_sock n x)) \<and> hs (n_sock n x) = [] \<and>
      p_spc (obj 0 s) \<noteq> SStart \<and>
      (p_spc (obj 0 (n_sock n x)) = SStart \<and> hs s = [] \<or> p_spc (obj 0 (n_sock n x)) = SLoop \<and> (\<exists>m. hs s = [m]))"
    using run_sender [OF _ _ st'] pc d(2,3) by (simp add: net_running)
  ultimately have "tinv (put_sock x s n, S, G)" using socket_move [OF t, of x s "[]" "[]"] by simp
  moreover have "sock_work s < sock_work (n_sock n x)"
    using r by (auto simp: sock_work_def dest: arg_cong [of _ _ length])
  ultimately show ?thesis using less_work [OF d(3)] by blast
qed

lemma move_receiver:
  assumes t: "tinv (n, S, G)" and pc: "p_rpc (net_obj x n) \<noteq> RLoop" and st: "receiver_step ch y (n_obj n x) (net_sock x n) = Some s"
  shows "tinv (put_sock x s n, S, G) \<and> work load (put_sock x s n) < work load n"
proof -
  obtain ms ks where d: "inv n" "\<And>y. running (n_sock n y)" "\<And>y. n_obj n y = 0" "lane (n, S, G) (peer_of x) ks" using traffic_invD [OF t] by metis
  have st': "receiver_step ch y 0 (net_sock x n) = Some s" using st d(3) by simp
  have f: "\<forall>d \<in> set (hr (n_sock n x)). Flags (meta d) = 0" using d(3,4) by (auto simp: lane_def sides_sock arrived_def)
  have "step (net_sock x n) s" using d(2) [of x] by (intro step_receiver [OF _ st']) (simp add: running_def)
  moreover have r: "running s \<and> s_user s = s_user (n_sock n x) \<and> sq s = sq (n_sock n x) \<and> hs s = hs (n_sock n x) \<and>
      p_spc (obj 0 s) = p_spc (obj 0 (n_sock n x)) \<and> rq s @ hr s = rq (n_sock n x) @ hr (n_sock n x) \<and> hr s = [] \<and> p_rpc (obj 0 s) = RLoop \<and>
      (p_rpc (obj 0 (n_sock n x)) = RStart \<and> hr (n_sock n x) = [] \<or> (\<exists>m. hr (n_sock n x) = [m]))"
    using run_receiver [OF _ _ st'] pc d(2,3) f by (auto simp: net_running)
  ultimately have "tinv (put_sock x s n, S, G)" using socket_move [OF t, of x s "[]" "[]"] by auto
  moreover have "sock_work s < sock_work (n_sock n x)"
    using r by (auto simp: sock_work_def dest: arg_cong [of _ _ length])
  ultimately show ?thesis using less_work [OF d(3)] by blast
qed

lemma move_RecvMsg:
  assumes t: "tinv (n, S, G)" and st: "socket_RecvMsg ch (net_sock x n) = Some (Ok m, s)"
  shows "tinv (put_sock x s n, S, G(x := G x @ [m])) \<and> work load (put_sock x s n) < work load n"
proof -
  obtain ms ks where d: "inv n" "\<And>y. running (n_sock n y)" "\<And>y. n_obj n y = 0" using traffic_invD [OF t] by metis
  have "step (net_sock x n) s" by (rule step_recv [OF st])
  moreover have r: "running s \<and> s_objs s = s_objs (n_sock n x) \<and> sq s = sq (n_sock n x) \<and> rq (n_sock n x) = m # rq s \<and> s_user s = s_user (n_sock n x) @ [m]"
    using run_RecvMsg [OF _ st] d(2) by (simp add: net_running)
  ultimately have "tinv (put_sock x s n, S, G(x := G x @ [m]))" using socket_move [OF t, of x s "[]" "[m]"] by simp
  moreover have "sock_work s < sock_work (n_sock n x)" using r by (simp add: sock_work_def)
  ultimately show ?thesis using less_work [OF d(3)] by blast
qed

lemma move_free:
  assumes t: "tinv (n, S, G)" and k: "k < length (s_user (n_sock n x))"
  shows "tinv (put_sock x (app_release k (net_sock x n)) n, S, G) \<and> work load (put_sock x (app_release k (net_sock x n)) n) < work load n"
proof -
  obtain ms ks where d: "inv n" "\<And>y. running (n_sock n y)" "\<And>y. n_obj n y = 0" using traffic_invD [OF t] by metis
  let ?s = "app_release k (net_sock x n)"
  have "step (net_sock x n) ?s" using k by (intro step_release) (simp add: net_running)
  moreover have r: "running ?s \<and> s_objs ?s = s_objs (n_sock n x) \<and> sq ?s = sq (n_sock n x) \<and> rq ?s = rq (n_sock n x) \<and>
      length (s_user (n_sock n x)) = Suc (length (s_user ?s))"
    using run_free [of "net_sock x n" k] d(2) k by (simp add: net_running)
  ultimately have "tinv (put_sock x ?s n, S, G)" using socket_move [OF t, of x ?s "[]" "[]"] by simp
  moreover have "sock_work ?s < sock_work (n_sock n x)" using r by (simp add: sock_work_def)
  ultimately show ?thesis using less_work [OF d(3)] by blast
qed

lemma move_release:
  assumes t: "tinv (n, S, G)" and c: "rel x (n_conn n) \<noteq> n_conn n"
  shows "tinv (n\<lparr>n_conn := rel x (n_conn n)\<rparr>, S, G) \<and> work load (n\<lparr>n_conn := rel x (n_conn n)\<rparr>) < work load n"
proof -
  obtain ms ks where d: "inv n" "\<not> cp_closedq (n_conn n)" "\<And>y. running (n_sock n y)" "\<And>y. n_obj n y = 0" "\<And>y. n_serr n y = None"
    "carries (peer_of x) (n_conn n) ms" "lane (n, S, G) x ms" "carries x (n_conn n) ks" "lane (n, S, G) (peer_of x) ks"
    using traffic_invD [OF t] by metis
  have "lane (n\<lparr>n_conn := c\<rparr>, S, G) y ms = lane (n, S, G) y ms" for c y ms by (simp add: lane_def)
  with d inv_release [OF d(1), of x] have "tinv (n\<lparr>n_conn := rel x (n_conn n)\<rparr>, S, G)"
    by (intro traffic_invI [where x = x and ms = ms and ks = ks]) (simp_all add: release_carries)
  moreover have "work load (n\<lparr>n_conn := rel x (n_conn n)\<rparr>) < work load n"
    using d(4) release_load [of x "n_conn n"] c by (simp add: work_sides [of _ x])
  ultimately show ?thesis by blast
qed

lemma move_sent:
  assumes t: "tinv (n, S, G)" and pc: "p_spc (net_obj x n) = SSend m"
    and e: "pipe_SendMsg (cf w x) tell m (net_end x n) = Some (Ok None, e)"
    and st: "sender_step (ChResult None ChDefault) (n_obj n x) (net_sock x (put_end x e n)) = Some s"
  shows "tinv (put_sock x s (put_end x e n), S, G) \<and> work load (put_sock x s (put_end x e n)) < work load n"
proof -
  obtain ms ks where d: "inv n" "\<not> cp_closedq (n_conn n)" "\<And>y. running (n_sock n y)" "\<And>y. n_obj n y = 0" "\<And>y. n_serr n y = None"
    "carries (peer_of x) (n_conn n) ms" "lane (n, S, G) x ms" "carries x (n_conn n) ks" "lane (n, S, G) (peer_of x) ks"
    using traffic_invD [OF t] by metis
  let ?n = "put_sock x s (put_end x e n)"
  have m: "plain m" "fits (n_pipe n (peer_of x)) (Content m)" using d(4,7) pc by (auto simp: lane_def outgoing_def hand_s_def)
  have "cfg (ps_pipe (net_end x n))" using d(1) by (simp add: net_inv_def side_ok_def cfg_conn)
  from send_open [OF this m(1) _ e] d(2) obtain c where c: "e = set_conn c (net_end x n)" "\<not> cp_closedq c"
      "\<forall>ms. carries (peer_of x) (n_conn n) ms \<longrightarrow> carries (peer_of x) c (ms @ [m])" "\<forall>ms. carries x (n_conn n) ms \<longrightarrow> carries x c ms"
      "load (peer_of x) c = load (peer_of x) (n_conn n) + 8" "load x c = load x (n_conn n)" by auto
  have r: "running s \<and> rq s = rq (n_sock n x) \<and> hr s = hr (n_sock n x) \<and> s_user s = s_user (n_sock n x) \<and> sq s = sq (n_sock n x) \<and>
      hs (n_sock n x) = [m] \<and> hs s = [] \<and> p_rpc (obj 0 s) = p_rpc (obj 0 (n_sock n x)) \<and> p_spc (obj 0 s) = SLoop"
    using run_sent [of "net_sock x (put_end x e n)" m ChDefault s] st pc d(3,4) by (simp add: net_sock_def)
  have "net_step cf rel n ?n" by (rule ns_sent [where m = m and w = w]) (use pc d(5) e st in simp_all)
  then have i: "inv ?n" using d(1) by (rule net_inv_step)
  have "lane (?n, S, G) x (ms @ [m])" "lane (?n, S, G) (peer_of x) ks"
    using d(4,7,9) r m c(1) by (auto simp: lane_def sides_sock fits_def net_end_def)
  then have "tinv (?n, S, G)"
    using d c r i by (intro traffic_invI [where x = x and ms = "ms @ [m]" and ks = ks])
      (auto simp: carries_mem put_sock_def put_end_def net_end_def)
  moreover have "work load ?n < work load n"
    using d(4) r c pc by (simp add: work_sides [of _ x] sock_work_def carries_mem)
  ultimately show ?thesis by blast
qed

text \<open>\<open>RecvMsg\<close> of the pipe returns the oldest message of the channel, or waits.\<close>

lemma recv_cases:
  assumes t: "tinv (n, S, G)"
  obtains (waits) "carries x (n_conn n) []" "lane (n, S, G) (peer_of x) []" "net_RecvMsg (cf WSend) rel pk x n = None"
    | (gets) m ks d c h where "carries x (n_conn n) (m # ks)" "lane (n, S, G) (peer_of x) (m # ks)"
      "net_RecvMsg (cf WSend) rel pk x n = Some (Ok (Some d, None),
         n\<lparr>n_pipe := (n_pipe n)(x := (n_pipe n x)\<lparr>pp_conn := c\<rparr>), n_conn := c\<lparr>cp_mem := h\<rparr>\<rparr>)"
      "arrived (pp_id (n_pipe n x)) d" "Content d = Content m" "\<not> cp_closedq c" "carries x c ks"
      "\<forall>ms. carries (peer_of x) (n_conn n) ms \<longrightarrow> carries (peer_of x) c ms"
      "load x c + 7 \<le> load x (n_conn n)" "load (peer_of x) c = load (peer_of x) (n_conn n)"
proof -
  obtain ms ks where d: "inv n" "\<not> cp_closedq (n_conn n)" "carries x (n_conn n) ks" "lane (n, S, G) (peer_of x) ks"
    using traffic_invD [OF t] by metis
  let ?c = "rel x (n_conn n)" and ?n = "n\<lparr>n_conn := rel x (n_conn n)\<rparr>"
  have i: "inv ?n" by (rule inv_release [OF d(1)])
  have cfg: "cfg (ps_pipe (net_end x ?n))" using i by (simp add: net_inv_def side_ok_def cfg_conn)
  show thesis
  proof (cases ks)
    case Nil
    with recv_waits [OF cfg, of x WSend pk "cp_mem ?c"] d(2,3,4) show thesis
      by (intro waits) (simp_all add: net_RecvMsg_def release_carries)
  next
    case (Cons m ks')
    with d(4) have m: "plain m" "fits (n_pipe n x) (Content m)" by (auto simp: lane_def)
    have "mem_good (cp_mem ?c)" using inv_mem [OF i] by (simp add: mem_good_def)
    from recv_next [OF cfg, of x "n_conn n" m ks' "cp_mem ?c" WSend pk] this m d(2,3) Cons release_load [of x "n_conn n"]
    obtain q c h where q: "pipe_RecvMsg (cf WSend x) tell pk (net_end x ?n) (cp_mem ?c) = Some (Ok (Some q, None), set_conn c (net_end x ?n), h)"
        "delivers (pp_id (n_pipe n x)) m q" "\<not> cp_closedq c" "carries x c ks'"
        "\<forall>ms. carries (peer_of x) (n_conn n) ms \<longrightarrow> carries (peer_of x) c ms" "load x c + 7 = load x ?c"
        "load (peer_of x) c = load (peer_of x) (n_conn n)" by (auto simp: release_carries fits_def)
    have "net_RecvMsg (cf WSend) rel pk x n = Some (Ok (Some q, None),
         n\<lparr>n_pipe := (n_pipe n)(x := (n_pipe n x)\<lparr>pp_conn := c\<rparr>), n_conn := c\<lparr>cp_mem := h\<rparr>\<rparr>)"
      using q(1) by (simp add: net_RecvMsg_def put_end_def net_end_def)
    with q d Cons delivers_plain [OF q(2) m(1)] release_load(1) [of x "n_conn n"] show thesis by (intro gets [of m ks' q h c]) auto
  qed
qed

lemma move_recv:
  assumes t: "tinv (n, S, G)" and pc: "p_rpc (net_obj x n) = RLoop" and r: "net_RecvMsg (cf WSend) rel pk x n = Some (r, n1)"
    and st: "recv_return r (n_obj n x) (net_sock x n1) = Some s"
  shows "tinv (put_sock x s n1, S, G) \<and> work load (put_sock x s n1) < work load n"
  using t
proof (cases rule: recv_cases [where x = x and pk = pk])
  case waits
  with r show ?thesis by simp
next
  case (gets m ks d c h)
  obtain ms ks' where t': "inv n" "\<And>y. running (n_sock n y)" "\<And>y. n_obj n y = 0" "\<And>y. n_serr n y = None"
    "carries (peer_of x) (n_conn n) ms" "lane (n, S, G) x ms" using traffic_invD [OF t] by metis
  let ?n = "put_sock x s n1"
  have n1: "n1 = n\<lparr>n_pipe := (n_pipe n)(x := (n_pipe n x)\<lparr>pp_conn := c\<rparr>), n_conn := c\<lparr>cp_mem := h\<rparr>\<rparr>" "r = Ok (Some d, None)"
    using r gets(3) by simp_all
  have s: "running s \<and> rq s = rq (n_sock n x) \<and> hr (n_sock n x) = [] \<and> hr s = [d] \<and> s_user s = s_user (n_sock n x) \<and>
      sq s = sq (n_sock n x) \<and> hs s = hs (n_sock n x) \<and> p_spc (obj 0 s) = p_spc (obj 0 (n_sock n x)) \<and> p_rpc (obj 0 s) \<noteq> RStart"
    using run_recv [of "net_sock x n1" d s] st pc t'(2,3) by (simp add: n1 net_sock_def)
  have i: "inv ?n" by (rule inv_recv [OF t'(1) pc r st])
  have o: "n_obj n1 y = 0" "outgoing y n1 = outgoing y n" "incoming y n1 = incoming y n" for y
    using t'(3) by (simp_all add: n1 outgoing_def incoming_def)
  have "lane (?n, S, G) x ms" "lane (?n, S, G) (peer_of x) ks"
    using t'(3,6) gets(2,4,5) s by (auto simp: lane_def sides_sock o fits_def n1)
  then have "tinv (?n, S, G)"
    using gets(6-8) t'(2-5) s i by (intro traffic_invI [where x = x and ms = ms and ks = ks]) (auto simp: carries_mem n1 put_sock_def)
  moreover have "work load ?n < work load n"
    using t'(3) s gets(9,10) pc o(1) by (simp add: work_sides [of _ x] sock_work_def carries_mem n1)
  ultimately show ?thesis by blast
qed

lemma moves_inv:
  assumes "moves cf rel t t'" "tinv t"
  shows "tinv t' \<and> work load (fst t') < work load (fst t)"
  using assms
proof (cases rule: moves.cases)
  case (mv_sender x n ch s S G)
  with assms(2) move_sender show ?thesis by simp
next
  case (mv_sent x n m w e s S G)
  with assms(2) move_sent [of n S G x m w e s] show ?thesis by simp
next
  case (mv_recv x n pk r n1 s S G)
  with assms(2) move_recv [of n S G x pk r n1 s] show ?thesis by simp
next
  case (mv_receiver x n ch y s S G)
  with assms(2) move_receiver [of n S G x ch y s] show ?thesis by simp
next
  case (mv_release x n S G)
  with assms(2) move_release [of n S G x] show ?thesis by simp
next
  case (mv_RecvMsg ch x n m s S G)
  with assms(2) move_RecvMsg [of n S G ch x m s] show ?thesis by simp
next
  case (mv_free k n x S G)
  with assms(2) move_free [of n S G k x] show ?thesis by simp
qed

lemma flow_inv:
  assumes "flow cf rel t t'" "tinv t"
  shows "tinv t'"
  using assms
proof (cases rule: flow.cases)
  case fl_move
  with moves_inv assms(2) show ?thesis by blast
next
  case (fl_Send content n x pk ch r s S G)
  obtain ms where d: "inv n" "running (n_sock n x)" "\<And>y. n_obj n y = 0" using traffic_invD [of inv carries n S G] assms(2) fl_Send(1) by metis
  obtain live where l: "mem_inv live (cp_mem (n_conn n))" using inv_mem [OF d(1)] by blast
  have st: "step (net_sock x n) s" by (rule step_Send [OF fl_Send(3,5)])
  have s: "running s \<and> s_objs s = s_objs (n_sock n x) \<and> rq s = rq (n_sock n x) \<and>
      (r = None \<longrightarrow> (\<exists>m. plain m \<and> Content m = content \<and> sq s = sq (n_sock n x) @ [m])) \<and> (r \<noteq> None \<longrightarrow> sq s = sq (n_sock n x))"
    using run_Send [OF _ _ fl_Send(3,5), of live] d(2) l by (simp add: net_running)
  have t: "tinv (n, S, G)" using assms(2) fl_Send(1) by simp
  show ?thesis
  proof (cases r)
    case None
    with s obtain m where "plain m" "Content m = content" "sq s = sq (n_sock n x) @ [m]" by blast
    with socket_move [OF t st, of "[m]" "[]"] s fl_Send(2,4) None show ?thesis by simp
  next
    case (Some e)
    with socket_move [OF t st, of "[]" "[]"] s fl_Send(2) show ?thesis by simp
  qed
qed

text \<open>The sending side, when the channel is empty.\<close>

lemma sender_moves:
  assumes t: "tinv (n, S, G)" and c: "carries (peer_of x) (n_conn n) []" and l: "lane (n, S, G) x []" and o: "outgoing x n \<noteq> []"
  shows "\<exists>t'. moves cf rel (n, S, G) t'"
proof -
  obtain ms ks where d: "inv n" "\<not> cp_closedq (n_conn n)" "running (net_sock x n)" "n_obj n x = 0"
    using traffic_invD [OF t] by (metis net_running(1))
  have obj: "net_obj x n = obj 0 (net_sock x n)" using d(4) by simp
  consider "p_spc (obj 0 (net_sock x n)) = SStart" | "p_spc (obj 0 (net_sock x n)) = SLoop" | m where "p_spc (obj 0 (net_sock x n)) = SSend m"
    using d(3) unfolding running_def by blast
  then show ?thesis
  proof cases
    case 1
    then have "\<exists>s. sender_step ChDefault 0 (net_sock x n) = Some s" by (simp add: sender_step_def)
    then obtain s where "sender_step ChDefault (n_obj n x) (net_sock x n) = Some s" using d(4) by auto
    from mv_sender [OF _ this] 1 d(4) show ?thesis by (intro exI) simp
  next
    case 2
    with o d(4) have "sq (net_sock x n) \<noteq> []" by (simp add: outgoing_def hand_s_def net_running)
    with 2 d(3) have "\<exists>s. sender_step ChSendq 0 (net_sock x n) = Some s"
      by (auto simp: sender_step_def running_def take_sendq_def split: list.splits)
    then obtain s where "sender_step ChSendq (n_obj n x) (net_sock x n) = Some s" using d(4) by auto
    from mv_sender [OF _ this] 2 d(4) show ?thesis by (intro exI) simp
  next
    case (3 m)
    then have m: "plain m" using l d(4) by (auto simp: lane_def outgoing_def hand_s_def)
    have "cfg (ps_pipe (net_end x n))" using d(1) by (simp add: net_inv_def side_ok_def cfg_conn)
    from send_room [OF this m, of x] c d(2) obtain e where e: "pipe_SendMsg (cf WSend x) tell m (net_end x n) = Some (Ok None, e)" by auto
    have "p_spc (obj 0 (net_sock x (put_end x e n))) = SSend m" using 3 by simp
    then obtain s where "sender_step (ChResult None ChDefault) (n_obj n x) (net_sock x (put_end x e n)) = Some s"
      using d(4) by (auto simp: sender_step_def doSendMsg_def)
    from mv_sent [where cf = cf, OF _ e this] 3 d(4) show ?thesis by (intro exI) simp
  qed
qed

text \<open>Whoever is nearest to the receiving application can go on.\<close>

lemma some_move:
  assumes t: "tinv (n, S, G)" and p: "map Content (G (peer_of x)) \<noteq> S x"
  shows "\<exists>t'. moves cf rel (n, S, G) t'"
proof -
  let ?y = "peer_of x"
  obtain ms ks where d: "inv n" "\<not> cp_closedq (n_conn n)" "\<And>y. running (n_sock n y)" "\<And>y. n_obj n y = 0"
    using traffic_invD [OF t] by metis
  have y: "running (net_sock ?y n)" using d(3) by (simp add: net_running)
  show ?thesis
  proof (cases "rq (n_sock n ?y)")
    case (Cons m q)
    then have "\<exists>m s. socket_RecvMsg ChRecvq (net_sock ?y n) = Some (Ok m, s)"
      using y by (auto simp: socket_RecvMsg_def running_def Let_def net_running)
    then show ?thesis using mv_RecvMsg by blast
  next
    case Nil
    show ?thesis
    proof (cases "p_rpc (net_obj ?y n) = RLoop")
      case False
      have "\<exists>s. receiver_step ChSendq (RecvFails EOF) 0 (net_sock ?y n) = Some s"
        using y Nil False d(4) by (auto simp: receiver_step_def running_def push_recvq_def can_send_def net_running)
      then show ?thesis using mv_receiver [OF False] d(4) by metis
    next
      case True
      then have i: "incoming ?y n = []" using Nil d(4) by (simp add: incoming_def hand_r_def)
      show ?thesis using t
      proof (cases rule: recv_cases [where x = ?y and pk = fresh_picks])
        case (gets m ks q c h)
        then have "\<exists>s. recv_return (Ok (Some q, None)) (n_obj n ?y) (net_sock ?y (n\<lparr>n_pipe := (n_pipe n)(?y := (n_pipe n ?y)\<lparr>pp_conn := c\<rparr>), n_conn := c\<lparr>cp_mem := h\<rparr>\<rparr>)) = Some s"
          by (simp add: recv_return_def)
        then show ?thesis using mv_recv [where cf = cf, OF True gets(3)] by blast
      next
        case waits
        with p i have "outgoing x n \<noteq> []" by (auto simp: lane_def)
        with waits show ?thesis by (intro sender_moves [OF t]) simp_all
      qed
    qed
  qed
qed

lemma flows_inv: "(flow cf rel)\<^sup>*\<^sup>* t t' \<Longrightarrow> tinv t \<Longrightarrow> tinv t'"
  by (induction rule: rtranclp_induct) (auto intro: flow_inv)

lemma moves_bounded: "(moves cf rel ^^ k) t t' \<Longrightarrow> tinv t \<Longrightarrow> tinv t' \<and> work load (fst t') + k \<le> work load (fst t)"
proof (induction k arbitrary: t')
  case (Suc k)
  then obtain u where u: "(moves cf rel ^^ k) t u" "moves cf rel u t'" by auto
  from Suc.IH [OF u(1) Suc.prems(2)] moves_inv [OF u(2)] show ?case by auto
qed simp

lemma moves_sent: "moves cf rel t t' \<Longrightarrow> fst (snd t') = fst (snd t)"
  by (cases rule: moves.cases) auto

lemma moves_sents: "(moves cf rel ^^ k) t t' \<Longrightarrow> fst (snd t') = fst (snd t)"
  by (induction k arbitrary: t') (auto dest: moves_sent)

lemma arrives_in_order:
  assumes "tinv (n, S, G)"
  shows "prefix (map Content (G (peer_of x))) (S x) \<and> (\<forall>d \<in> set (G x). Source d = be32 (pp_id (n_pipe n x)))"
proof -
  obtain ms ks where "lane (n, S, G) x ms" "lane (n, S, G) (peer_of x) ks" using traffic_invD [OF assms] by metis
  then show ?thesis by (auto simp: lane_def arrived_def)
qed

lemma all_arrive:
  assumes t: "tinv (n, S, G)" and r: "(moves cf rel ^^ k) (n, S, G) (n', S', G')"
  shows "k \<le> work load n \<and> (\<not> (\<exists>t. moves cf rel (n', S', G') t) \<longrightarrow> (\<forall>x. map Content (G' (peer_of x)) = S x))"
  using moves_bounded [OF r t] moves_sents [OF r] some_move [of n' S' G'] by auto

end

section \<open>The two kinds of channel\<close>

text \<open>Packets: a channel of encoded messages.\<close>

definition sr_carries :: "side \<Rightarrow> srPipe \<Rightarrow> message list \<Rightarrow> bool" where
  "sr_carries x c ms \<longleftrightarrow> map sdata (chan_buf (cp_rc c x)) = map wire ms \<and> 0 < chan_cap (cp_rc c x)"

definition sr_load :: "side \<Rightarrow> srPipe \<Rightarrow> nat" where
  "sr_load x c = 8 * length (chan_buf (cp_rc c x)) + (if lastBytes c x = None then 0 else 1)"

text \<open>Messages as they are.\<close>

definition msr_carries :: "side \<Rightarrow> msrPipe \<Rightarrow> message list \<Rightarrow> bool" where
  "msr_carries x c ms \<longleftrightarrow> chan_buf (mp_recvq c x) = ms \<and> 0 < chan_cap (mp_recvq c x)"

definition msr_load :: "side \<Rightarrow> msrPipe \<Rightarrow> nat" where
  "msr_load x c = 8 * length (chan_buf (mp_recvq c x)) + (if mp_lastMsg c x = None then 0 else 1)"

lemma plain_sendable:
  assumes "plain m" "fits p (Content m)"
  shows "sendable (pp_max p) m" "\<not> HasFlags (meta m) MsgFlagRaw" "recv_destSize (meta m) = 0"
proof -
  have m: "wf_msg m" "Flags (meta m) = 0" "Hops (meta m) = 0" "Distance (meta m) = 0" using assms(1) by (simp_all add: plain_def)
  have "length (Content m) = unat (Length (meta m))" by (rule wf_msg_layout(4) [OF m(1)])
  with assms(2) m show "sendable (pp_max p) m"
    by (auto simp: sendable_def receivable_def too_long_def fits_def SendType_def sendTypeMask_def SendTypeToDest_def word_less_nat_alt)
  show "\<not> HasFlags (meta m) MsgFlagRaw" using m(2) by (simp add: HasFlags_def MsgFlagRaw_def)
  show "recv_destSize (meta m) = 0" using m by (simp add: recv_destSize_def SendType_def sendTypeMask_def SendTypeToDest_def)
qed

lemma sr_send:
  assumes "sr_cfg (ps_pipe s)" "plain m" "\<not> cp_closedq (pp_conn (ps_pipe s))"
  obtains b where "sdata b = wire m" "pipe_SendMsg (sr_conn w x) r m s =
    (if w = WSend \<and> can_send (cp_rc (pp_conn (ps_pipe s)) (peer_of x))
     then Some (Ok None, set_conn ((pp_conn (ps_pipe s))\<lparr>cp_rc := (cp_rc (pp_conn (ps_pipe s)))(peer_of x := chan_send b (cp_rc (pp_conn (ps_pipe s)) (peer_of x)))\<rparr>) s)
     else None)"
proof -
  have "wf_msg m" using assms(2) by (simp add: plain_def)
  then obtain m' b where b: "Encode m = Ok (wire m, m')" "buf m' = Some b" "sdata b = wire m" using Encode_slice by metis
  have "\<not> HasFlags (meta m) MsgFlagRaw" using assms(2) by (simp add: plain_def HasFlags_def MsgFlagRaw_def)
  with assms(1,3) b that [OF b(3)] show thesis
    by (cases w) (simp_all add: pipe_SendMsg_def sr_cfg_def pipe_sendBlockMsg_def with_encoded_def pipe_send_def sr_conn_def sr_Send_def
        send_error_def Let_def)
qed

lemma sr_recv:
  assumes "sr_cfg (ps_pipe s)" "chan_buf (cp_rc (pp_conn (ps_pipe s)) x) = b # bs" "lastBytes (pp_conn (ps_pipe s)) x = None" "sdata b = wire m"
    "sendable (pp_max (ps_pipe s)) m" "mem_good h"
  obtains d h' where "delivers (pp_id (ps_pipe s)) m d" "pipe_RecvMsg (sr_conn w x) r pk s h = Some (Ok (Some d, None),
    set_conn ((pp_conn (ps_pipe s))\<lparr>cp_rc := (cp_rc (pp_conn (ps_pipe s)))(x := (cp_rc (pp_conn (ps_pipe s)) x)\<lparr>chan_buf := bs\<rparr>),
      lastBytes := (lastBytes (pp_conn (ps_pipe s)))(x := Some b)\<rparr>) s, h')"
proof -
  from assms(5,6) obtain live where l: "mem_inv live h" "wf_msg m" "receivable (meta m)" "\<not> too_long (pp_max (ps_pipe s)) (meta m)"
    by (auto simp: sendable_def mem_good_def)
  obtain d h' where d: "NewMessageFromBytes pk (pp_id (ps_pipe s)) (wire m) (pp_max (ps_pipe s)) h = (Ok d, h')" "delivers (pp_id (ps_pipe s)) m d"
    using FromBytes_wire [OF l(1) assms(5), of pk "pp_id (ps_pipe s)"] received_delivers by metis
  from that [OF d(2)] d(1) assms(1-4) show thesis
    by (simp add: pipe_RecvMsg_def sr_cfg_def pipe_recvBlockMsg_def pipe_recv_def sr_conn_def sr_Recv_def sr_release_def receive_error_def Let_def)
qed

interpretation srt: conveyor sr_conn sr_release sr_own "\<lambda>_. True" sr_cfg LevelFreeMsg sr_carries sr_load
proof
  fix s :: "(srPipe, u32 list) pstate" and m w x s'
  assume a: "sr_cfg (ps_pipe s)" "plain m" "\<not> cp_closedq (pp_conn (ps_pipe s))"
  let ?c = "pp_conn (ps_pipe s)"
  obtain b where b: "sdata b = wire m" "pipe_SendMsg (sr_conn w x) tell m s =
    (if w = WSend \<and> can_send (cp_rc ?c (peer_of x))
     then Some (Ok None, set_conn (?c\<lparr>cp_rc := (cp_rc ?c)(peer_of x := chan_send b (cp_rc ?c (peer_of x)))\<rparr>) s) else None)"
    by (rule sr_send [OF a])
  assume "pipe_SendMsg (sr_conn w x) tell m s = Some (Ok None, s')"
  with a(3) b show "\<exists>c. s' = set_conn c s \<and> \<not> cp_closedq c \<and> (\<forall>ms. sr_carries (peer_of x) ?c ms \<longrightarrow> sr_carries (peer_of x) c (ms @ [m])) \<and>
        (\<forall>ms. sr_carries x ?c ms \<longrightarrow> sr_carries x c ms) \<and> sr_load (peer_of x) c = sr_load (peer_of x) ?c + 8 \<and> sr_load x c = sr_load x ?c"
    by (intro exI [of _ "?c\<lparr>cp_rc := (cp_rc ?c)(peer_of x := chan_send b (cp_rc ?c (peer_of x)))\<rparr>"])
      (auto simp: sr_carries_def sr_load_def chan_send_def split: if_splits)
next
  fix s :: "(srPipe, u32 list) pstate" and m x
  assume a: "sr_cfg (ps_pipe s)" "plain m" "\<not> cp_closedq (pp_conn (ps_pipe s))"
  assume "sr_carries (peer_of x) (pp_conn (ps_pipe s)) []"
  then have "can_send (cp_rc (pp_conn (ps_pipe s)) (peer_of x))" by (simp add: sr_carries_def can_send_def)
  with sr_send [OF a, of WSend x tell] show "\<exists>s'. pipe_SendMsg (sr_conn WSend x) tell m s = Some (Ok None, s')" by metis
next
  fix s :: "(srPipe, u32 list) pstate" and x w pk h
  assume "sr_cfg (ps_pipe s)" "\<not> cp_closedq (pp_conn (ps_pipe s))" "sr_carries x (pp_conn (ps_pipe s)) []"
  then show "pipe_RecvMsg (sr_conn w x) tell pk s h = None"
    by (simp add: pipe_RecvMsg_def sr_cfg_def pipe_recvBlockMsg_def pipe_recv_def sr_conn_def sr_Recv_def sr_release_def sr_carries_def Let_def)
next
  fix s :: "(srPipe, u32 list) pstate" and x c0 m ms h w pk
  let ?c = "pp_conn (ps_pipe s)"
  assume a: "sr_cfg (ps_pipe s)" "\<not> cp_closedq ?c" "?c = sr_release x c0" "sr_carries x ?c (m # ms)" "plain m" "fits (ps_pipe s) (Content m)" "mem_good h"
  obtain b bs where b: "chan_buf (cp_rc ?c x) = b # bs" "sdata b = wire m" "map sdata bs = map wire ms" "0 < chan_cap (cp_rc ?c x)"
    using a(4) by (auto simp: sr_carries_def)
  have l: "lastBytes ?c x = None" using a(3) by (simp add: sr_release_def)
  obtain d h' where d: "delivers (pp_id (ps_pipe s)) m d" "pipe_RecvMsg (sr_conn w x) tell pk s h = Some (Ok (Some d, None),
      set_conn (?c\<lparr>cp_rc := (cp_rc ?c)(x := (cp_rc ?c x)\<lparr>chan_buf := bs\<rparr>), lastBytes := (lastBytes ?c)(x := Some b)\<rparr>) s, h')"
    by (rule sr_recv [OF a(1) b(1) l b(2) plain_sendable(1) [OF a(5,6)] a(7)])
  then show "\<exists>d c h'. pipe_RecvMsg (sr_conn w x) tell pk s h = Some (Ok (Some d, None), set_conn c s, h') \<and> delivers (pp_id (ps_pipe s)) m d \<and>
      \<not> cp_closedq c \<and> sr_carries x c ms \<and> (\<forall>ks. sr_carries (peer_of x) ?c ks \<longrightarrow> sr_carries (peer_of x) c ks) \<and>
      sr_load x c + 7 = sr_load x ?c \<and> sr_load (peer_of x) c = sr_load (peer_of x) ?c"
    using a(2) b l
    by (intro exI [of _ d] exI [of _ "?c\<lparr>cp_rc := (cp_rc ?c)(x := (cp_rc ?c x)\<lparr>chan_buf := bs\<rparr>), lastBytes := (lastBytes ?c)(x := Some b)\<rparr>"]
        exI [of _ h']) (auto simp: sr_carries_def sr_load_def)
qed (auto simp: sr_carries_def sr_load_def sr_release_def split: if_splits)

lemma msr_send:
  assumes "msr_cfg (ps_pipe s)" "\<not> cp_closedq (pp_conn (ps_pipe s))"
  shows "pipe_SendMsg (msr_conn w x) r m s =
    (if w = WSend \<and> can_send (mp_recvq (pp_conn (ps_pipe s)) (peer_of x))
     then Some (Ok None, set_conn ((pp_conn (ps_pipe s))\<lparr>mp_recvq := (mp_recvq (pp_conn (ps_pipe s)))(peer_of x := chan_send m (mp_recvq (pp_conn (ps_pipe s)) (peer_of x)))\<rparr>) s)
     else None)"
  using assms by (cases w) (simp_all add: pipe_SendMsg_def msr_cfg_def send_direct_def msr_conn_def msr_SendMsg_def Let_def)

lemma msr_recv:
  assumes "msr_cfg (ps_pipe s)" "chan_buf (mp_recvq (pp_conn (ps_pipe s)) x) = m # ms" "mp_lastMsg (pp_conn (ps_pipe s)) x = None"
    "plain m" "fits (ps_pipe s) (Content m)" "mem_good h"
  obtains d h' where "delivers (pp_id (ps_pipe s)) m d" "pipe_RecvMsg (msr_conn w x) r pk s h = Some (Ok (Some d, None),
    set_conn ((pp_conn (ps_pipe s))\<lparr>mp_recvq := (mp_recvq (pp_conn (ps_pipe s)))(x := (mp_recvq (pp_conn (ps_pipe s)) x)\<lparr>chan_buf := ms\<rparr>),
      mp_lastMsg := (mp_lastMsg (pp_conn (ps_pipe s)))(x := Some m)\<rparr>) s, h')"
proof -
  note p = plain_sendable [OF assms(4,5)]
  from p(1) assms(6) obtain live where l: "mem_inv live h" "wf_msg m" "receivable (meta m)" "\<not> too_long (pp_max (ps_pipe s)) (meta m)"
    by (auto simp: sendable_def mem_good_def)
  obtain d h' where d: "NewMessageFromMsg pk (pp_id (ps_pipe s)) m (pp_max (ps_pipe s)) h = (Ok d, h')" "delivers (pp_id (ps_pipe s)) m d"
    using FromMsg_ok [OF l(1,3,4,2) p(3), of pk "pp_id (ps_pipe s)"] received_delivers by metis
  from that [OF d(2)] d(1) assms(1-3) show thesis
    by (simp add: pipe_RecvMsg_def msr_cfg_def pipe_recvDirectMsg_def msr_conn_def msr_RecvMsg_def msr_release_def Let_def)
qed

interpretation msrt: conveyor msr_conn msr_release msr_own msr_ok msr_cfg LevelFreeNone msr_carries msr_load
proof
  fix s :: "(msrPipe, u32 list) pstate" and m w x s'
  assume a: "msr_cfg (ps_pipe s)" "\<not> cp_closedq (pp_conn (ps_pipe s))" "pipe_SendMsg (msr_conn w x) tell m s = Some (Ok None, s')"
  let ?c = "pp_conn (ps_pipe s)"
  from a(2,3) msr_send [OF a(1,2), of w x tell m] show "\<exists>c. s' = set_conn c s \<and> \<not> cp_closedq c \<and>
        (\<forall>ms. msr_carries (peer_of x) ?c ms \<longrightarrow> msr_carries (peer_of x) c (ms @ [m])) \<and>
        (\<forall>ms. msr_carries x ?c ms \<longrightarrow> msr_carries x c ms) \<and> msr_load (peer_of x) c = msr_load (peer_of x) ?c + 8 \<and> msr_load x c = msr_load x ?c"
    by (intro exI [of _ "?c\<lparr>mp_recvq := (mp_recvq ?c)(peer_of x := chan_send m (mp_recvq ?c (peer_of x)))\<rparr>"])
      (auto simp: msr_carries_def msr_load_def chan_send_def split: if_splits)
next
  fix s :: "(msrPipe, u32 list) pstate" and m x
  assume a: "msr_cfg (ps_pipe s)" "\<not> cp_closedq (pp_conn (ps_pipe s))" and "msr_carries (peer_of x) (pp_conn (ps_pipe s)) []"
  then have "can_send (mp_recvq (pp_conn (ps_pipe s)) (peer_of x))" by (simp add: msr_carries_def can_send_def)
  with msr_send [OF a, of WSend x tell m] show "\<exists>s'. pipe_SendMsg (msr_conn WSend x) tell m s = Some (Ok None, s')" by simp
next
  fix s :: "(msrPipe, u32 list) pstate" and x w pk h
  assume "msr_cfg (ps_pipe s)" "\<not> cp_closedq (pp_conn (ps_pipe s))" "msr_carries x (pp_conn (ps_pipe s)) []"
  then show "pipe_RecvMsg (msr_conn w x) tell pk s h = None"
    by (simp add: pipe_RecvMsg_def msr_cfg_def pipe_recvDirectMsg_def msr_conn_def msr_RecvMsg_def msr_release_def msr_carries_def Let_def
        split: option.splits)
next
  fix s :: "(msrPipe, u32 list) pstate" and x c0 m ms h w pk
  let ?c = "pp_conn (ps_pipe s)"
  assume a: "msr_cfg (ps_pipe s)" "\<not> cp_closedq ?c" "?c = msr_release x c0" "msr_carries x ?c (m # ms)" "plain m" "fits (ps_pipe s) (Content m)" "mem_good h"
  have b: "chan_buf (mp_recvq ?c x) = m # ms" "0 < chan_cap (mp_recvq ?c x)" using a(4) by (simp_all add: msr_carries_def)
  have l: "mp_lastMsg ?c x = None" unfolding a(3) by (simp add: msr_release_def split: option.splits)
  obtain d h' where d: "delivers (pp_id (ps_pipe s)) m d" "pipe_RecvMsg (msr_conn w x) tell pk s h = Some (Ok (Some d, None),
      set_conn (?c\<lparr>mp_recvq := (mp_recvq ?c)(x := (mp_recvq ?c x)\<lparr>chan_buf := ms\<rparr>), mp_lastMsg := (mp_lastMsg ?c)(x := Some m)\<rparr>) s, h')"
    by (rule msr_recv [OF a(1) b(1) l a(5-7)])
  then show "\<exists>d c h'. pipe_RecvMsg (msr_conn w x) tell pk s h = Some (Ok (Some d, None), set_conn c s, h') \<and> delivers (pp_id (ps_pipe s)) m d \<and>
      \<not> cp_closedq c \<and> msr_carries x c ms \<and> (\<forall>ks. msr_carries (peer_of x) ?c ks \<longrightarrow> msr_carries (peer_of x) c ks) \<and>
      msr_load x c + 7 = msr_load x ?c \<and> msr_load (peer_of x) c = msr_load (peer_of x) ?c"
    using a(2) b l
    by (intro exI [of _ d] exI [of _ "?c\<lparr>mp_recvq := (mp_recvq ?c)(x := (mp_recvq ?c x)\<lparr>chan_buf := ms\<rparr>), mp_lastMsg := (mp_lastMsg ?c)(x := Some m)\<rparr>"]
        exI [of _ h']) (auto simp: msr_carries_def msr_load_def)
qed (auto simp: msr_carries_def msr_load_def msr_release_def split: if_splits option.splits)

section \<open>Two new sockets\<close>

definition unused :: "socket \<Rightarrow> bool" where
  "unused s \<longleftrightarrow>
     s_objs s = [] \<and> \<not> s_closedq s \<and> \<not> s_noSend s \<and> s_user s = [] \<and>
     (s_sendqs s \<noteq> [] \<longrightarrow> s_sendq s < length (s_sendqs s) \<and> sq s = []) \<and> (s_recvqs s \<noteq> [] \<longrightarrow> s_recvq s < length (s_recvqs s) \<and> rq s = [])"

lemma queue_options_distinct: "Opt_RecvQueueSize \<noteq> Opt_NoRecv" "Opt_SendQueueSize \<noteq> Opt_NoRecv" "Opt_SendQueueSize \<noteq> Opt_RecvQueueSize"
  by (simp_all add: program_options_defs option_constructors)

lemma onOptionChange_effects:
  assumes "P s" "\<And>b. P (s\<lparr>s_noRecv := b\<rparr>)" "\<And>n. P (s\<lparr>s_ttl := n\<rparr>)" "\<And>b. P (s\<lparr>s_bestEffort := b\<rparr>)"
    "\<And>n. P (s\<lparr>s_recvqs := s_recvqs s @ [make_chan n], s_recvq := length (s_recvqs s)\<rparr>)"
    "\<And>n. P (s\<lparr>s_sendqs := s_sendqs s @ [make_chan n], s_sendq := length (s_sendqs s)\<rparr>)"
  shows "P (snd (onOptionChange o1 H s))"
  by (simp add: onOptionChange_def upd_def assms split: outcome.split)

lemma onOptionChange_unused:
  "unused s \<Longrightarrow> unused (snd (onOptionChange o1 H s))"
  "s_sendqs s \<noteq> [] \<Longrightarrow> s_sendqs (snd (onOptionChange o1 H s)) \<noteq> []" "s_recvqs s \<noteq> [] \<Longrightarrow> s_recvqs (snd (onOptionChange o1 H s)) \<noteq> []"
  by (rule onOptionChange_effects; simp add: unused_def make_chan_def)+

lemma queues_made:
  "fst (onOptionChange Opt_RecvQueueSize H s) \<noteq> Panic \<Longrightarrow> s_recvqs (snd (onOptionChange Opt_RecvQueueSize H s)) \<noteq> []"
  "fst (onOptionChange Opt_SendQueueSize H s) \<noteq> Panic \<Longrightarrow> s_sendqs (snd (onOptionChange Opt_SendQueueSize H s)) \<noteq> []"
  by (simp_all add: onOptionChange_def queue_options_distinct upd_def recvQueueSize_def sendQueueSize_def opt_uint16_def
      split: option.splits optval.splits)

lemma init_values_unused:
  assumes "init_values os H s = (Ok (), s')" "unused s"
  shows "unused s' \<and> (s_sendqs s \<noteq> [] \<or> Opt_SendQueueSize \<in> set os \<longrightarrow> s_sendqs s' \<noteq> []) \<and>
    (s_recvqs s \<noteq> [] \<or> Opt_RecvQueueSize \<in> set os \<longrightarrow> s_recvqs s' \<noteq> [])"
  using assms
proof (induction os arbitrary: s)
  case (Cons o1 os)
  obtain r s1 where o: "onOptionChange o1 H s = (r, s1)" by (cases "onOptionChange o1 H s")
  note u = onOptionChange_unused [where s = s and H = H and ?o1.0 = o1, unfolded o snd_conv]
  from Cons.prems(1) o have i: "r \<noteq> Panic" "init_values os H s1 = (Ok (), s')" by (auto split: outcome.splits)
  have "o1 = Opt_SendQueueSize \<longrightarrow> s_sendqs s1 \<noteq> []" "o1 = Opt_RecvQueueSize \<longrightarrow> s_recvqs s1 \<noteq> []"
    using queues_made [of H s] i(1) o by auto
  with Cons.IH [OF i(2) u(1) [OF Cons.prems(2)]] u(2,3) show ?case by auto
qed auto

lemma New_fields:
  assumes "socket_New ovs H h = (Ok (), s)"
  shows "s_objs s = []" "\<not> s_closedq s" "\<not> s_noSend s" "s_user s = []"
    "s_sendq s < length (s_sendqs s)" "sq s = []" "s_recvq s < length (s_recvqs s)" "rq s = []"
proof -
  obtain a H1 where a: "NewOptionsWithValues ovs H = (a, H1)" by (cases "NewOptionsWithValues ovs H")
  define H2 where "H2 = AddOptionChangeHook a hook_connector H1"
  let ?os = "[Opt_NoRecv, Opt_RecvQueueSize, Opt_NoSend, Opt_SendQueueSize, Opt_SendTTL, Opt_SendBestEffort]"
  obtain s1 where s1: "init_values ?os H2 (blank_socket a H2 h) = (Ok (), s1)"
      "s = s1\<lparr>s_heap := AddOptionChangeHook a hook_socket H2, s_handler := True\<rparr>"
    using assms unfolding socket_New_def a Let_def prod.case H2_def [symmetric] by (auto simp del: init_values.simps split: prod.splits)
  have "unused (blank_socket a H2 h)" by (simp add: unused_def blank_socket_def)
  from init_values_unused [OF s1(1) this] have "unused s1" "s_sendqs s1 \<noteq> []" "s_recvqs s1 \<noteq> []" by simp_all
  with s1(2) show "s_objs s = []" "\<not> s_closedq s" "\<not> s_noSend s" "s_user s = []"
    "s_sendq s < length (s_sendqs s)" "sq s = []" "s_recvq s < length (s_recvqs s)" "rq s = []" by (simp_all add: unused_def)
qed

lemma joined_running:
  assumes j: "net_join s p c g = Some n" and s: "\<And>x. socket_New (ovs x) (H x) h = (Ok (), s x)"
    and r: "\<And>x. \<not> s_noRecv (s x)" "\<And>x. 0 < chan_cap (cur_recvq (s x))" "\<And>x. \<not> pp_raw (p x)"
  shows "running (n_sock n x)" "n_obj n x = 0" "outgoing x n = []" "incoming x n = []"
proof -
  note f = New_fields [OF s [of x]]
  obtain q where q: "n_sock n x = (s x)\<lparr>s_objs := s_objs (s x) @ [newPipe (pp_id (p x)) (pp_raw (p x)) (pp_level (p x)) q],
      s_pipes := (s_pipes (s x))(pp_id (p x) \<mapsto> length (s_objs (s x)))\<rparr>" using net_joinD(1) [OF j] by blast
  show o: "n_obj n x = 0" using net_joinD(3) [OF j] f(1) by simp
  show "running (n_sock n x)" using f r by (simp add: q running_def newPipe_def make_chan_def)
  show "outgoing x n = []" "incoming x n = []" using f o
    by (simp_all add: outgoing_def incoming_def q newPipe_def hand_s_def hand_r_def)
qed

context conveyor
begin

lemma flow_net:
  assumes "flow cf rel (n, S, G) (n', S', G')" "tinv (n, S, G)"
  shows "net_step cf rel n n'"
proof -
  have d: "running (n_sock n y)" "n_obj n y = 0" "n_serr n y = None" for y using assms(2) by (auto simp: traffic_inv_def)
  have l: "0 < length (s_objs (net_sock y n))" for y using d(1) [of y] by (simp add: running_def net_sock_def)
  have f: "\<forall>d \<in> set (hr (net_sock y n)). Flags (meta d) = 0" for y
  proof -
    obtain ms where "lane (n, S, G) (peer_of y) ms" using assms(2) by (auto simp: traffic_inv_def)
    then show ?thesis using sides_sock(2) [OF d(2), of y] by (auto simp: lane_def arrived_def net_sock_def)
  qed
  note loc = ns_local [of _ n, unfolded d(2)] and snd = step_sender [OF l] and rcv = step_receiver [OF l]
  from assms(1) show ?thesis
  proof (cases rule: flow.cases)
    case fl_move
    then show ?thesis
    proof (cases rule: moves.cases)
      case (mv_sender x ch s)
      with d net_running [of x n] have "unanswered 0 (net_sock x n) s" by (intro unanswered_sender) (auto simp: net_sock_def)
      with mv_sender d(2) show ?thesis by (auto intro!: loc intro: snd)
    next
      case (mv_receiver x ch y s)
      with d f net_running [of x n] have "unanswered 0 (net_sock x n) s" by (intro unanswered_receiver) (auto simp: net_sock_def)
      with mv_receiver d(2) show ?thesis by (auto intro!: loc intro: rcv)
    next
      case (mv_RecvMsg ch x m s)
      with d run_RecvMsg [of "net_sock x n"] net_running [of x n] show ?thesis
        by (auto intro!: loc unanswered_same intro: step_recv)
    next
      case (mv_free k x)
      with d run_free [of "net_sock x n" k] net_running [of x n] show ?thesis
        by (auto intro!: loc unanswered_same intro: step_release)
    qed (use d in \<open>auto intro: net_step.intros\<close>)
  next
    case (fl_Send content x pk ch r s)
    obtain live where "mem_inv live (s_mem (net_sock x n))" using inv_mem [of n] assms(2) by (auto simp: traffic_inv_def net_sock_def)
    with fl_Send run_Send [of "net_sock x n"] d net_running [of x n] show ?thesis
      by (auto intro!: loc unanswered_same intro: step_Send)
  qed
qed

lemma flows_net:
  assumes "(flow cf rel)\<^sup>*\<^sup>* (n, S, G) t" "tinv (n, S, G)"
  shows "net_run cf rel n (fst t)"
  using assms
proof (induction rule: rtranclp_induct)
  case (step t u)
  obtain n1 S1 G1 n2 S2 G2 where "t = (n1, S1, G1)" "u = (n2, S2, G2)" by (cases t; cases u)
  with step flow_net [of n1 S1 G1 n2 S2 G2] flows_inv [OF step.hyps(1) step.prems] show ?case by (auto intro: nr_step)
qed (auto intro: nr_start)

lemma run_ends:
  assumes "tinv t"
  obtains k t' where "(moves cf rel ^^ k) t t'" "\<not> (\<exists>u. moves cf rel t' u)"
proof -
  have "\<exists>k t'. (moves cf rel ^^ k) t t' \<and> \<not> (\<exists>u. moves cf rel t' u)"
  proof (rule ccontr)
    assume n: "\<nexists>k t'. (moves cf rel ^^ k) t t' \<and> \<not> (\<exists>u. moves cf rel t' u)"
    have "\<exists>t'. (moves cf rel ^^ k) t t'" for k
    proof (induction k)
      case (Suc k)
      then obtain u where u: "(moves cf rel ^^ k) t u" by blast
      with n obtain v where "moves cf rel u v" by blast
      with u show ?case by (intro exI [of _ v]) auto
    next
      case 0
      show ?case by (intro exI [of _ t]) simp
    qed
    then obtain t' where "(moves cf rel ^^ Suc (work load (fst t))) t t'" by blast
    from moves_bounded [OF this assms] show False by simp
  qed
  with that show thesis by blast
qed

lemma moves_flow: "(moves cf rel ^^ k) t t' \<Longrightarrow> (flow cf rel)\<^sup>*\<^sup>* t t'"
  by (induction k arbitrary: t') (auto intro: fl_move rtranclp.rtrancl_into_rtrancl)

lemma tinv_join:
  assumes j: "net_join s p c g = Some n" and m: "mem_inv live (cp_mem c)" "ok c" "own c = {#}" "\<not> cp_closedq c" "\<And>x. carries x c []"
    and s: "\<And>x. socket_New (ovs x) (H x) h = (Ok (), s x)"
    and r: "\<And>x. \<not> s_noRecv (s x)" "\<And>x. 0 < chan_cap (cur_recvq (s x))"
    and p: "\<And>x. \<not> pp_raw (p x)" "\<And>x. cfg (p x)" "\<And>x. pp_level (p x) = lvl"
  shows "tinv (n, \<lambda>_. [], \<lambda>_. [])"
proof -
  have "inv n" by (rule inv_join [OF j m(1-3) _ _ p(2,3)]) (use sock_inv_New [OF s] New_held [OF s] in auto)
  with joined_running [OF j s r p(1)] net_joinD(5,7) [OF j] m(4,5) show ?thesis
    by (intro traffic_invI [where x = Dialled and ms = "[]" and ks = "[]"]) (auto simp: lane_def)
qed

lemma Send_flow:
  assumes t: "tinv (n, S, G)" and c: "length content < 2 ^ 32" "fits (n_pipe n (peer_of x)) content"
    and q: "can_send (s_sendqs (n_sock n x) ! s_sendq (n_sock n x))"
  obtains s where "flow cf rel (n, S, G) (put_sock x s n, S(x := S x @ [content]), G)" "running s" "sq s \<noteq> []"
proof -
  let ?s = "net_sock x n"
  obtain live where l: "mem_inv live (s_mem ?s)" using inv_mem [of n] t by (auto simp: traffic_inv_def net_sock_def)
  have r: "running ?s" using t by (simp add: traffic_inv_def net_running)
  obtain m h where m: "NewSendMessage fresh_picks 0 SendTypeToOne (s_ttl ?s) [] [] content (s_mem ?s) = (Ok m, h)"
    using NewSendMessage_ok [OF l _ _ c(1), of "[]" "[]"] by (metis div_0 length_0_conv mod_0 path_ok_def zero_less_numeral)
  have "\<exists>s. socket_Send fresh_picks ChSendq content ?s = Some (None, s)"
    using r q m by (simp add: socket_Send_def running_def push_sendq_def net_sock_def)
  then obtain s where s: "socket_Send fresh_picks ChSendq content ?s = Some (None, s)" ..
  from fl_Send [OF c s, of cf rel S G] have "flow cf rel (n, S, G) (put_sock x s n, S(x := S x @ [content]), G)" by simp
  with run_Send [OF r l c(1) s] that show thesis by auto
qed

text \<open>Something sent and received, from a state in which a side has room for it.\<close>

lemma one_delivery:
  assumes t: "tinv (n, \<lambda>_. [], \<lambda>_. [])" and c: "length content < 2 ^ 32" "fits (n_pipe n (peer_of x)) content"
    and q: "can_send (s_sendqs (n_sock n x) ! s_sendq (n_sock n x))"
  obtains s j n' G where "(flow cf rel)\<^sup>*\<^sup>* (n, \<lambda>_. [], \<lambda>_. []) (put_sock x s n, (\<lambda>_. [])(x := [content]), \<lambda>_. [])" "sq s \<noteq> []"
    "(moves cf rel ^^ j) (put_sock x s n, (\<lambda>_. [])(x := [content]), \<lambda>_. []) (n', (\<lambda>_. [])(x := [content]), G)"
    "(flow cf rel)\<^sup>*\<^sup>* (n, \<lambda>_. [], \<lambda>_. []) (n', (\<lambda>_. [])(x := [content]), G)"
    "\<not> (\<exists>t. moves cf rel (n', (\<lambda>_. [])(x := [content]), G) t)" "map Content (G (peer_of x)) = [content]"
proof -
  let ?S = "(\<lambda>_. [])(x := [content])"
  obtain s where s: "flow cf rel (n, \<lambda>_. [], \<lambda>_. []) (put_sock x s n, ?S, \<lambda>_. [])" "sq s \<noteq> []"
    using Send_flow [OF t c q] by (metis append_Nil)
  note t1 = flow_inv [OF s(1) t]
  obtain j t' where j: "(moves cf rel ^^ j) (put_sock x s n, ?S, \<lambda>_. []) t'" "\<not> (\<exists>u. moves cf rel t' u)" by (rule run_ends [OF t1])
  obtain n' S' G where p: "t' = (n', S', G)" by (cases t')
  have e: "S' = ?S" using moves_sents [OF j(1)] p by simp
  from all_arrive [OF t1 j(1) [unfolded p]] j(2) p have "map Content (G (peer_of x)) = [content]" by (auto dest: spec [of _ x])
  with s j p e moves_flow [OF j(1)] show thesis by (intro that) auto
qed

end

lemma msr_linked_tinv:
  assumes "msr_linked n" "\<And>x. \<not> s_noRecv (n_sock n x)" "\<And>x. 0 < chan_cap (cur_recvq (n_sock n x))" "\<And>x. 0 < chan_cap (mp_recvq (n_conn n) x)"
  shows "msrt.tinv (n, \<lambda>_. [], \<lambda>_. [])"
  using assms(1)
proof cases
  case (1 live h ovs H s la ra K k c d l Q q g p g' gen)
  note j = net_joinD [OF 1(6)]
  have "\<not> s_noRecv (s x)" "0 < chan_cap (cur_recvq (s x))" for x using j(1) [of x] assms(2,3) [of x] by auto
  then show ?thesis
    by (intro msrt.tinv_join [OF 1(6) _ _ _ _ _ 1(2) _ _ 1(5)])
      (use 1(1) assms(4) j(5) newMsrPipe_fresh [OF 1(3)] msr_pipe_cfg [OF 1(4,5)] in \<open>auto simp: msr_carries_def\<close>)
qed

lemma sr_linked_tinv:
  assumes "sr_linked n" "\<And>x. \<not> s_noRecv (n_sock n x)" "\<And>x. 0 < chan_cap (cur_recvq (n_sock n x))" "\<And>x. 0 < chan_cap (cp_rc (n_conn n) x)"
  shows "srt.tinv (n, \<lambda>_. [], \<lambda>_. [])"
  using assms(1)
proof cases
  case (1 live h ovs H s la ra K k c d l Q q g p g' gen)
  note j = net_joinD [OF 1(6)]
  have "\<not> s_noRecv (s x)" "0 < chan_cap (cur_recvq (s x))" for x using j(1) [of x] assms(2,3) [of x] by auto
  then show ?thesis
    by (intro srt.tinv_join [OF 1(6) _ _ _ _ _ 1(2) _ _ 1(5)])
      (use 1(1) assms(4) j(5) newSrPipe_fresh [OF 1(3)] sr_pipe_cfg [OF 1(4,5)] in \<open>auto simp: sr_carries_def\<close>)
qed

section \<open>A message between two default sockets\<close>

lemma default_joined:
  assumes "net_join (\<lambda>_. default_socket init_mem) p c gen = Some n"
  shows "\<not> s_noRecv (n_sock n x)" "0 < chan_cap (cur_recvq (n_sock n x))" "can_send (s_sendqs (n_sock n x) ! s_sendq (n_sock n x))"
    "n_conn n = c" "n_pipe n = p"
  using net_joinD(1) [OF assms, of x] net_joinD(4,5) [OF assms]
  by (auto simp: default_socket_def blank_socket_def make_chan_def can_send_def)

lemma default_msr_channel: "\<exists>c. newMsrPipe an_addr an_addr [empty_options] 0 init_mem = Ok c \<and> (\<forall>x. 0 < chan_cap (mp_recvq c x))"
proof -
  have "\<exists>n. GetOptionDefault (Suc 0) [empty_options] 0 Opt_BufferSize = Some (VInt n) \<and> 0 < sint n"
    by (simp add: GetOptionDefault_def empty_options_def acceptOption_def program_options_defs option_constructors)
  then show ?thesis by (auto simp: newMsrPipe_def createPipe_default chpipe.extend_def make_chan_def)
qed

lemma default_sr_channel: "\<exists>c. newSrPipe an_addr an_addr [empty_options] 0 init_mem = Ok c \<and> (\<forall>x. 0 < chan_cap (cp_rc c x))"
  by (auto simp: newSrPipe_def createPipe_default chpipe.extend_def default_pipe_def make_chan_def)

lemma default_msr_linked:
  obtains n where "msr_linked n" "\<And>x. \<not> s_noRecv (n_sock n x)" "\<And>x. 0 < chan_cap (cur_recvq (n_sock n x))"
    "\<And>x. 0 < chan_cap (mp_recvq (n_conn n) x)" "\<And>x. can_send (s_sendqs (n_sock n x) ! s_sendq (n_sock n x))" "\<And>x. fits (n_pipe n x) [1, 2, 3]"
proof -
  obtain c where c: "newMsrPipe an_addr an_addr [empty_options] 0 init_mem = Ok c" "\<And>x. 0 < chan_cap (mp_recvq c x)"
    using default_msr_channel by blast
  have "\<exists>p g'. new_pipe (msr_conn WSend x) c None None [empty_options] 0 NewRecyclableIDGenerator = Some (Ok p, g') \<and> \<not> pp_raw p \<and> pp_max p = 131072" for x
    by (meson default_new_pipe)
  then obtain p g' where p: "\<And>x. new_pipe (msr_conn WSend x) c None None [empty_options] 0 NewRecyclableIDGenerator = Some (Ok (p x), g' x)"
    "\<And>x. \<not> pp_raw (p x)" "\<And>x. pp_max (p x) = 131072" by metis
  obtain n where n: "net_join (\<lambda>_. default_socket init_mem) p c NewRecyclableIDGenerator = Some n" using default_join by blast
  have "msr_linked n" by (rule msr_linked.intros [OF mem_inv_init New_default c(1) p(1,2) n])
  with default_joined [OF n] c(2) p(3) show thesis by (intro that) (auto simp: fits_def)
qed

lemma default_sr_linked:
  obtains n where "sr_linked n" "\<And>x. \<not> s_noRecv (n_sock n x)" "\<And>x. 0 < chan_cap (cur_recvq (n_sock n x))"
    "\<And>x. 0 < chan_cap (cp_rc (n_conn n) x)" "\<And>x. can_send (s_sendqs (n_sock n x) ! s_sendq (n_sock n x))" "\<And>x. fits (n_pipe n x) [1, 2, 3]"
proof -
  obtain c where c: "newSrPipe an_addr an_addr [empty_options] 0 init_mem = Ok c" "\<And>x. 0 < chan_cap (cp_rc c x)"
    using default_sr_channel by blast
  have "\<exists>p g'. new_pipe (sr_conn WSend x) c None None [empty_options] 0 NewRecyclableIDGenerator = Some (Ok p, g') \<and> \<not> pp_raw p \<and> pp_max p = 131072" for x
    by (meson default_new_pipe)
  then obtain p g' where p: "\<And>x. new_pipe (sr_conn WSend x) c None None [empty_options] 0 NewRecyclableIDGenerator = Some (Ok (p x), g' x)"
    "\<And>x. \<not> pp_raw (p x)" "\<And>x. pp_max (p x) = 131072" by metis
  obtain n where n: "net_join (\<lambda>_. default_socket init_mem) p c NewRecyclableIDGenerator = Some n" using default_join by blast
  have "sr_linked n" by (rule sr_linked.intros [OF mem_inv_init New_default c(1) p(1,2) n])
  with default_joined [OF n] c(2) p(3) show thesis by (intro that) (auto simp: fits_def)
qed

lemma set_sum_list_mset: "set_mset (sum_list (map f xs)) = (\<Union>x \<in> set xs. set_mset (f x))"
  by (induction xs) auto

lemma queued_held:
  assumes "running s" "sq s \<noteq> []"
  shows "net_held (put_sock x s n) \<noteq> {#}"
proof -
  have "s_sendq s < length (s_sendqs s)" using assms(1) by (simp add: running_def)
  then have "hd (sq s) \<in># sum_list (map chan_msgs (s_sendqs s))" using assms(2)
    by (auto simp: set_sum_list_mset chan_msgs_def intro!: bexI [of _ "s_sendqs s ! s_sendq s"])
  then have "hd (sq s) \<in># held s" by (simp add: held_def)
  then have "held s \<noteq> {#}" by (metis empty_not_add_mset multi_member_split)
  then show ?thesis by (cases x) (simp_all add: net_held_def)
qed

section \<open>Properties\<close>

text \<open>
  C3: Two sockets of the default in-process transport, neither of which closes: what one application has received is, at every moment
  and in whatever order the goroutines of both sides run, a beginning of what the other has sent, message by
  message, nothing twice and nothing overtaken; and the source path of each message names the pipe it came in by.
\<close>

theorem messages_arrive_in_order:
  assumes "msr_linked n" and "\<And>x. \<not> s_noRecv (n_sock n x)" and "\<And>x. 0 < chan_cap (cur_recvq (n_sock n x))"
    and "\<And>x. 0 < chan_cap (mp_recvq (n_conn n) x)" and "(flow msr_conn msr_release)\<^sup>*\<^sup>* (n, \<lambda>_. [], \<lambda>_. []) (n', S, G)"
  shows "net_run msr_conn msr_release n n' \<and>
    (\<forall>x. prefix (map Content (G (peer_of x))) (S x) \<and> (\<forall>d \<in> set (G x). Source d = be32 (pp_id (n_pipe n' x))))"
  using msrt.flows_net [OF assms(5) msr_linked_tinv [OF assms(1-4)]]
    msrt.arrives_in_order [OF msrt.flows_inv [OF assms(5) msr_linked_tinv [OF assms(1-4)]]] by simp

theorem messages_arrive_in_order_witness:
  "\<exists>n n' S G. msr_linked n \<and> (flow msr_conn msr_release)\<^sup>*\<^sup>* (n, \<lambda>_. [], \<lambda>_. []) (n', S, G) \<and> S Dialled = [[1, 2, 3]] \<and>
    map Content (G Accepted) = [[1, 2, 3]] \<and> map Source (G Accepted) = [be32 (pp_id (n_pipe n' Accepted))]"
proof -
  obtain n where n: "msr_linked n" "\<And>x. \<not> s_noRecv (n_sock n x)" "\<And>x. 0 < chan_cap (cur_recvq (n_sock n x))"
    "\<And>x. 0 < chan_cap (mp_recvq (n_conn n) x)" "\<And>x. can_send (s_sendqs (n_sock n x) ! s_sendq (n_sock n x))" "\<And>x. fits (n_pipe n x) [1, 2, 3]"
    by (rule default_msr_linked) blast
  obtain n' G where r: "(flow msr_conn msr_release)\<^sup>*\<^sup>* (n, \<lambda>_. [], \<lambda>_. []) (n', (\<lambda>_. [])(Dialled := [[1, 2, 3]]), G)"
      "map Content (G Accepted) = [[1, 2, 3]]"
    by (rule msrt.one_delivery [where x = Dialled, OF msr_linked_tinv [OF n(1-4)] _ n(6) n(5)]) auto
  from messages_arrive_in_order [OF n(1-4) r(1)] have "\<forall>d \<in> set (G Accepted). Source d = be32 (pp_id (n_pipe n' Accepted))" by blast
  with r(2) have "map Source (G Accepted) = [be32 (pp_id (n_pipe n' Accepted))]" by auto
  with n(1) r show ?thesis by (metis fun_upd_same)
qed

text \<open>
  C4: And everything arrives: from any state such sockets get into, without further calls of \<open>Send\<close>, at most \<open>work\<close> moves
  are possible, whatever the schedule; and when none is possible any more, each application has received
  exactly what the other has sent.
\<close>

theorem every_message_arrives:
  assumes "msr_linked n" and "\<And>x. \<not> s_noRecv (n_sock n x)" and "\<And>x. 0 < chan_cap (cur_recvq (n_sock n x))"
    and "\<And>x. 0 < chan_cap (mp_recvq (n_conn n) x)" and "(flow msr_conn msr_release)\<^sup>*\<^sup>* (n, \<lambda>_. [], \<lambda>_. []) (n1, S, G)"
    and "(moves msr_conn msr_release ^^ j) (n1, S, G) (n2, S', G')"
  shows "j \<le> work msr_load n1 \<and>
    (\<not> (\<exists>t. moves msr_conn msr_release (n2, S', G') t) \<longrightarrow> (\<forall>x. map Content (G' (peer_of x)) = S x))"
  by (rule msrt.all_arrive [OF msrt.flows_inv [OF assms(5) msr_linked_tinv [OF assms(1-4)]] assms(6)])

theorem every_message_arrives_witness:
  "\<exists>n n1 S n2 G j. msr_linked n \<and> (flow msr_conn msr_release)\<^sup>*\<^sup>* (n, \<lambda>_. [], \<lambda>_. []) (n1, S, \<lambda>_. []) \<and> S Dialled = [[1, 2, 3]] \<and>
    (moves msr_conn msr_release ^^ j) (n1, S, \<lambda>_. []) (n2, S, G) \<and> j \<le> work msr_load n1 \<and> map Content (G Accepted) = [[1, 2, 3]]"
proof -
  obtain n where n: "msr_linked n" "\<And>x. \<not> s_noRecv (n_sock n x)" "\<And>x. 0 < chan_cap (cur_recvq (n_sock n x))"
    "\<And>x. 0 < chan_cap (mp_recvq (n_conn n) x)" "\<And>x. can_send (s_sendqs (n_sock n x) ! s_sendq (n_sock n x))" "\<And>x. fits (n_pipe n x) [1, 2, 3]"
    by (rule default_msr_linked) blast
  let ?S = "(\<lambda>_. [])(Dialled := [[1, 2, 3]])"
  obtain s j n2 G where r: "(flow msr_conn msr_release)\<^sup>*\<^sup>* (n, \<lambda>_. [], \<lambda>_. []) (put_sock Dialled s n, ?S, \<lambda>_. [])"
      "(moves msr_conn msr_release ^^ j) (put_sock Dialled s n, ?S, \<lambda>_. []) (n2, ?S, G)" "\<not> (\<exists>t. moves msr_conn msr_release (n2, ?S, G) t)"
    by (rule msrt.one_delivery [where x = Dialled, OF msr_linked_tinv [OF n(1-4)] _ n(6) n(5)]) auto
  from every_message_arrives [OF n(1-4) r(1,2)] r(3) have "j \<le> work msr_load (put_sock Dialled s n)" "map Content (G Accepted) = [[1, 2, 3]]"
    by (auto dest: spec [of _ Dialled])
  with n(1) r show ?thesis by (metis fun_upd_same)
qed

text \<open>
  C7: Order and arrival when packets are handed over, where each message is encoded and decoded on its way.\<close>

theorem packets_arrive_in_order:
  assumes "sr_linked n" and "\<And>x. \<not> s_noRecv (n_sock n x)" and "\<And>x. 0 < chan_cap (cur_recvq (n_sock n x))"
    and "\<And>x. 0 < chan_cap (cp_rc (n_conn n) x)" and "(flow sr_conn sr_release)\<^sup>*\<^sup>* (n, \<lambda>_. [], \<lambda>_. []) (n1, S, G)"
    and "(moves sr_conn sr_release ^^ j) (n1, S, G) (n2, S', G')"
  shows "(\<forall>x. prefix (map Content (G (peer_of x))) (S x) \<and> (\<forall>d \<in> set (G x). Source d = be32 (pp_id (n_pipe n1 x)))) \<and>
    j \<le> work sr_load n1 \<and> (\<not> (\<exists>t. moves sr_conn sr_release (n2, S', G') t) \<longrightarrow> (\<forall>x. map Content (G' (peer_of x)) = S x))"
  using srt.arrives_in_order [OF srt.flows_inv [OF assms(5) sr_linked_tinv [OF assms(1-4)]]]
    srt.all_arrive [OF srt.flows_inv [OF assms(5) sr_linked_tinv [OF assms(1-4)]] assms(6)] by blast

theorem packets_arrive_in_order_witness:
  "\<exists>n n1 S n2 G j. sr_linked n \<and> (flow sr_conn sr_release)\<^sup>*\<^sup>* (n, \<lambda>_. [], \<lambda>_. []) (n1, S, \<lambda>_. []) \<and> S Dialled = [[1, 2, 3]] \<and>
    (moves sr_conn sr_release ^^ j) (n1, S, \<lambda>_. []) (n2, S, G) \<and> j \<le> work sr_load n1 \<and> map Content (G Accepted) = [[1, 2, 3]]"
proof -
  obtain n where n: "sr_linked n" "\<And>x. \<not> s_noRecv (n_sock n x)" "\<And>x. 0 < chan_cap (cur_recvq (n_sock n x))"
    "\<And>x. 0 < chan_cap (cp_rc (n_conn n) x)" "\<And>x. can_send (s_sendqs (n_sock n x) ! s_sendq (n_sock n x))" "\<And>x. fits (n_pipe n x) [1, 2, 3]"
    by (rule default_sr_linked) blast
  let ?S = "(\<lambda>_. [])(Dialled := [[1, 2, 3]])"
  obtain s j n2 G where r: "(flow sr_conn sr_release)\<^sup>*\<^sup>* (n, \<lambda>_. [], \<lambda>_. []) (put_sock Dialled s n, ?S, \<lambda>_. [])"
      "(moves sr_conn sr_release ^^ j) (put_sock Dialled s n, ?S, \<lambda>_. []) (n2, ?S, G)" "\<not> (\<exists>t. moves sr_conn sr_release (n2, ?S, G) t)"
    by (rule srt.one_delivery [where x = Dialled, OF sr_linked_tinv [OF n(1-4)] _ n(6) n(5)]) auto
  from packets_arrive_in_order [OF n(1-4) r(1,2)] r(3) have "j \<le> work sr_load (put_sock Dialled s n)" "map Content (G Accepted) = [[1, 2, 3]]"
    by (auto dest: spec [of _ Dialled])
  with n(1) r show ?thesis by (metis fun_upd_same)
qed

text \<open>The theorems on the memory of such a network, with a message on its way.\<close>

theorem msr_network_memory_safe_witness:
  "\<exists>n n'. msr_linked n \<and> net_run msr_conn msr_release n n' \<and> net_held n' \<noteq> {#} \<and> (\<forall>m \<in># net_held n'. wf_msg m) \<and>
    (\<exists>live. mem_inv live (cp_mem (n_conn n')) \<and>
      (\<forall>x. count (msr_own (n_conn n') + image_mset marr (net_held n')) x \<le> (if x \<in> live then 1 else 0)))"
proof -
  obtain n where n: "msr_linked n" "\<And>x. \<not> s_noRecv (n_sock n x)" "\<And>x. 0 < chan_cap (cur_recvq (n_sock n x))"
    "\<And>x. 0 < chan_cap (mp_recvq (n_conn n) x)" "\<And>x. can_send (s_sendqs (n_sock n x) ! s_sendq (n_sock n x))" "\<And>x. fits (n_pipe n x) [1, 2, 3]"
    by (rule default_msr_linked) blast
  note t = msr_linked_tinv [OF n(1-4)]
  obtain s where f: "flow msr_conn msr_release (n, \<lambda>_. [], \<lambda>_. []) (put_sock Dialled s n, (\<lambda>_. [])(Dialled := [] @ [[1, 2, 3]]), \<lambda>_. [])" "running s" "sq s \<noteq> []"
    by (rule msrt.Send_flow [where x = Dialled, OF t _ n(6) n(5)]) auto
  have "net_held (put_sock Dialled s n) \<noteq> {#}" by (rule queued_held [OF f(2,3)])
  moreover have "net_run msr_conn msr_release n (put_sock Dialled s n)" by (rule nr_step [OF nr_start msrt.flow_net [OF f(1) t]])
  ultimately show ?thesis using n(1) msr_network_memory_safe [of n "put_sock Dialled s n"] by blast
qed

theorem sr_network_memory_safe_witness:
  "\<exists>n n'. sr_linked n \<and> net_run sr_conn sr_release n n' \<and> net_held n' \<noteq> {#} \<and> (\<forall>m \<in># net_held n'. wf_msg m) \<and>
    (\<exists>live. mem_inv live (cp_mem (n_conn n')) \<and>
      (\<forall>x. count (sr_own (n_conn n') + image_mset marr (net_held n')) x \<le> (if x \<in> live then 1 else 0)))"
proof -
  obtain n where n: "sr_linked n" "\<And>x. \<not> s_noRecv (n_sock n x)" "\<And>x. 0 < chan_cap (cur_recvq (n_sock n x))"
    "\<And>x. 0 < chan_cap (cp_rc (n_conn n) x)" "\<And>x. can_send (s_sendqs (n_sock n x) ! s_sendq (n_sock n x))" "\<And>x. fits (n_pipe n x) [1, 2, 3]"
    by (rule default_sr_linked) blast
  note t = sr_linked_tinv [OF n(1-4)]
  obtain s where f: "flow sr_conn sr_release (n, \<lambda>_. [], \<lambda>_. []) (put_sock Dialled s n, (\<lambda>_. [])(Dialled := [] @ [[1, 2, 3]]), \<lambda>_. [])" "running s" "sq s \<noteq> []"
    by (rule srt.Send_flow [where x = Dialled, OF t _ n(6) n(5)]) auto
  have "net_held (put_sock Dialled s n) \<noteq> {#}" by (rule queued_held [OF f(2,3)])
  moreover have "net_run sr_conn sr_release n (put_sock Dialled s n)" by (rule nr_step [OF nr_start srt.flow_net [OF f(1) t]])
  ultimately show ?thesis using n(1) sr_network_memory_safe [of n "put_sock Dialled s n"] by blast
qed

end

