(* ===== verification/Buffered_Writer.thy ===== *)
theory Buffered_Writer
  imports Prelude
begin

text \<open>
  The writer of \<open>utils/bufio.go\<close>, a \<open>bufio.Writer\<close> that a timer flushes some time after the last write. The
  \<open>bufio.Writer\<close> is modelled as the standard library has it; the writer below it is an argument, with
  \<open>writer_ok\<close> as what \<open>io.Writer\<close> documents. The timer runs \<open>Flush\<close> in a goroutine of its own, with no lock, so
  \<open>Flush\<close> is three steps: the write, the comparison of the count, the reset.
\<close>

section \<open>bufio.Writer\<close>

type_synonym 'w sink = "bytes \<Rightarrow> 'w \<Rightarrow> (nat \<times> err option) \<times> 'w"

record 'w bufw =
  bw_buf :: bytes
  bw_size :: nat
  bw_err :: "err option"
  bw_w :: 'w

definition ErrShortWrite :: err where "ErrShortWrite = OtherErr 1"

text \<open>After the write of \<open>Flush\<close> returned, and the end of \<open>Flush\<close> when there was no error.\<close>

definition flush_failed :: "nat \<Rightarrow> err option \<Rightarrow> 'w bufw \<Rightarrow> err option" where
  "flush_failed n e b = (if n < length (bw_buf b) \<and> e = None then Some ErrShortWrite else e)"

definition flush_check :: "nat \<Rightarrow> err option \<Rightarrow> 'w bufw \<Rightarrow> err option \<times> 'w bufw" where
  "flush_check n e b =
     (case flush_failed n e b of
        Some e' \<Rightarrow> (Some e', b\<lparr>bw_buf := drop n (bw_buf b), bw_err := Some e'\<rparr>)
      | None \<Rightarrow> (None, b))"

definition flush_reset :: "'w bufw \<Rightarrow> 'w bufw" where
  "flush_reset b = b\<lparr>bw_buf := []\<rparr>"

definition bufw_Flush :: "'w sink \<Rightarrow> 'w bufw \<Rightarrow> err option \<times> 'w bufw" where
  "bufw_Flush wr b =
     (if bw_err b \<noteq> None then (bw_err b, b)
      else if bw_buf b = [] then (None, b)
      else (let ((n, e), w) = wr (bw_buf b) (bw_w b)
            in case flush_check n e (b\<lparr>bw_w := w\<rparr>) of
                 (Some e', b') \<Rightarrow> (Some e', b')
               | (None, b') \<Rightarrow> (None, flush_reset b')))"

text \<open>The loop of \<open>Write\<close>; three rounds are enough, as \<open>loop_returns\<close> shows.\<close>

fun bufw_loop :: "'w sink \<Rightarrow> nat \<Rightarrow> bytes \<Rightarrow> nat \<Rightarrow> 'w bufw \<Rightarrow> (bytes \<times> nat \<times> 'w bufw) option" where
  "bufw_loop wr 0 p nn b = None"
| "bufw_loop wr (Suc k) p nn b =
     (if bw_size b - length (bw_buf b) < length p \<and> bw_err b = None
      then if bw_buf b = []
           then (let ((n, e), w) = wr p (bw_w b) in bufw_loop wr k (drop n p) (nn + n) (b\<lparr>bw_err := e, bw_w := w\<rparr>))
           else (let n = bw_size b - length (bw_buf b);
                     b' = snd (bufw_Flush wr (b\<lparr>bw_buf := bw_buf b @ take n p\<rparr>))
                 in bufw_loop wr k (drop n p) (nn + n) b')
      else Some (p, nn, b))"

definition bufw_Write :: "'w sink \<Rightarrow> bytes \<Rightarrow> 'w bufw \<Rightarrow> ((nat \<times> err option) \<times> 'w bufw) option" where
  "bufw_Write wr p b =
     (case bufw_loop wr 3 p 0 b of
        None \<Rightarrow> None
      | Some (q, nn, b') \<Rightarrow>
          if bw_err b' \<noteq> None then Some ((nn, bw_err b'), b')
          else Some ((nn + length q, None), b'\<lparr>bw_buf := bw_buf b' @ q\<rparr>))"

section \<open>AutoFlushBufferWriter\<close>

text \<open>
  \<open>af_armed\<close> is the time the timer was set to, when it is set. A goroutine that the timer started is before its write, before the
  comparison with what the write returned, or before the reset.
\<close>

datatype fpc = FBegin | FCheck nat "err option" | FReset

record 'w AutoFlushBufferWriter =
  af_Writer :: "'w bufw"
  af_armed :: "nat option"
  af_period :: nat
  af_flushes :: "fpc list"

text \<open>Durations in milliseconds.\<close>

definition defaultFlushPeriod :: nat where "defaultFlushPeriod = 10"

definition NewAutoFlushBufferWriterWithPeriod :: "'w bufw \<Rightarrow> nat \<Rightarrow> 'w AutoFlushBufferWriter" where
  "NewAutoFlushBufferWriterWithPeriod w period =
     \<lparr>af_Writer = w, af_armed = Some (1024 * 3600000), af_period = period, af_flushes = []\<rparr>"

definition NewAutoFlushBufferWriter :: "'w bufw \<Rightarrow> nat \<Rightarrow> 'w AutoFlushBufferWriter" where
  "NewAutoFlushBufferWriter w period = NewAutoFlushBufferWriterWithPeriod w defaultFlushPeriod"

text \<open>A timer made by \<open>AfterFunc\<close> has no channel, so nothing is drained; \<open>Stop\<close> does not wait for a function that runs.\<close>

definition AutoFlush_Write :: "'w sink \<Rightarrow> bytes \<Rightarrow> 'w AutoFlushBufferWriter \<Rightarrow> ((nat \<times> err option) \<times> 'w AutoFlushBufferWriter) option" where
  "AutoFlush_Write wr p a =
     (let stopped = a\<lparr>af_armed := None\<rparr>
      in map_option (\<lambda>(r, b). (r, stopped\<lparr>af_Writer := b, af_armed := Some (af_period a)\<rparr>)) (bufw_Write wr p (af_Writer stopped)))"

definition timer_fires :: "'w AutoFlushBufferWriter \<Rightarrow> 'w AutoFlushBufferWriter option" where
  "timer_fires a = (case af_armed a of None \<Rightarrow> None | Some _ \<Rightarrow> Some (a\<lparr>af_armed := None, af_flushes := af_flushes a @ [FBegin]\<rparr>))"

definition flush_ends :: "nat \<Rightarrow> 'w AutoFlushBufferWriter \<Rightarrow> 'w AutoFlushBufferWriter" where
  "flush_ends i a = a\<lparr>af_flushes := take i (af_flushes a) @ drop (Suc i) (af_flushes a)\<rparr>"

definition flush_step :: "'w sink \<Rightarrow> nat \<Rightarrow> 'w AutoFlushBufferWriter \<Rightarrow> 'w AutoFlushBufferWriter option" where
  "flush_step wr i a =
     (let b = af_Writer a
      in if i < length (af_flushes a) then
           (case af_flushes a ! i of
              FBegin \<Rightarrow>
                if bw_err b \<noteq> None \<or> bw_buf b = [] then Some (flush_ends i a)
                else (let ((n, e), w) = wr (bw_buf b) (bw_w b)
                      in Some (a\<lparr>af_Writer := b\<lparr>bw_w := w\<rparr>, af_flushes := (af_flushes a)[i := FCheck n e]\<rparr>))
            | FCheck n e \<Rightarrow>
                (case flush_check n e b of
                   (Some _, b') \<Rightarrow> Some (flush_ends i (a\<lparr>af_Writer := b'\<rparr>))
                 | (None, b') \<Rightarrow> Some (a\<lparr>af_Writer := b', af_flushes := (af_flushes a)[i := FReset]\<rparr>))
            | FReset \<Rightarrow> Some (flush_ends i (a\<lparr>af_Writer := flush_reset b\<rparr>)))
         else None)"

text \<open>Runs, with what the writes have accepted.\<close>

datatype aevent = EWrite bytes | EFire | EFlush nat

definition aevent_step :: "'w sink \<Rightarrow> aevent \<Rightarrow> 'w AutoFlushBufferWriter \<Rightarrow> (bytes \<times> 'w AutoFlushBufferWriter) option" where
  "aevent_step wr ev a =
     (case ev of
        EWrite p \<Rightarrow> map_option (\<lambda>((n, _), a'). (take n p, a')) (AutoFlush_Write wr p a)
      | EFire \<Rightarrow> map_option (Pair []) (timer_fires a)
      | EFlush i \<Rightarrow> map_option (Pair []) (flush_step wr i a))"

fun arun :: "'w sink \<Rightarrow> aevent list \<Rightarrow> 'w AutoFlushBufferWriter \<Rightarrow> (bytes \<times> 'w AutoFlushBufferWriter) option" where
  "arun wr [] a = Some ([], a)"
| "arun wr (ev # evs) a =
     (case aevent_step wr ev a of
        None \<Rightarrow> None
      | Some (xs, a1) \<Rightarrow> map_option (\<lambda>(ys, a2). (xs @ ys, a2)) (arun wr evs a1))"

text \<open>A run in which no write is called while a goroutine of the timer is in \<open>Flush\<close>.\<close>

fun calm :: "'w sink \<Rightarrow> aevent list \<Rightarrow> 'w AutoFlushBufferWriter \<Rightarrow> bool" where
  "calm wr [] a = True"
| "calm wr (ev # evs) a =
     ((case ev of EWrite _ \<Rightarrow> af_flushes a = [] | _ \<Rightarrow> True) \<and>
      (case aevent_step wr ev a of None \<Rightarrow> True | Some (_, a1) \<Rightarrow> calm wr evs a1))"

section \<open>Writes\<close>

text \<open>
  The documented behaviour of \<open>io.Writer\<close>: it returns how much of \<open>p\<close> it has written, and an error when that is
  not all. \<open>contents\<close> is what has been written.
\<close>

definition writer_ok :: "'w sink \<Rightarrow> ('w \<Rightarrow> bytes) \<Rightarrow> bool" where
  "writer_ok wr contents \<longleftrightarrow>
     (\<forall>p w n e w'. wr p w = ((n, e), w') \<longrightarrow> n \<le> length p \<and> (n < length p \<longrightarrow> e \<noteq> None) \<and> contents w' = contents w @ take n p)"

lemma writer_okD:
  "writer_ok wr contents \<Longrightarrow> wr p w = ((n, e), w') \<Longrightarrow> n \<le> length p \<and> (n < length p \<longrightarrow> e \<noteq> None) \<and> contents w' = contents w @ take n p"
  by (simp add: writer_ok_def)

definition all_bytes :: "('w \<Rightarrow> bytes) \<Rightarrow> 'w bufw \<Rightarrow> bytes" where
  "all_bytes contents b = contents (bw_w b) @ bw_buf b"

definition room_ok :: "'w bufw \<Rightarrow> bool" where
  "room_ok b \<longleftrightarrow> 0 < bw_size b \<and> length (bw_buf b) \<le> bw_size b"

lemma Flush_keeps:
  assumes "writer_ok wr contents" "bufw_Flush wr b = (r, b')"
  shows "all_bytes contents b' = all_bytes contents b" "bw_size b' = bw_size b" "length (bw_buf b') \<le> length (bw_buf b)"
    "bw_err b' = None \<Longrightarrow> bw_buf b' = []"
proof -
  obtain n e w where w: "wr (bw_buf b) (bw_w b) = ((n, e), w)" by (metis prod.collapse)
  show "all_bytes contents b' = all_bytes contents b" "bw_size b' = bw_size b" "length (bw_buf b') \<le> length (bw_buf b)"
    "bw_err b' = None \<Longrightarrow> bw_buf b' = []"
    using assms(2) writer_okD [OF assms(1) w] w
    by (auto simp: bufw_Flush_def flush_check_def flush_failed_def flush_reset_def all_bytes_def split: if_splits option.splits)
qed

lemma loop_keeps:
  assumes "writer_ok wr contents"
  shows "bufw_loop wr k p nn b = Some (q, mm, b') \<Longrightarrow> room_ok b \<Longrightarrow>
    \<exists>j. q = drop j p \<and> mm = nn + j \<and> j \<le> length p \<and> all_bytes contents b' = all_bytes contents b @ take j p \<and> room_ok b' \<and> bw_size b' = bw_size b \<and>
      (bw_err b' = None \<longrightarrow> length q \<le> bw_size b' - length (bw_buf b'))"
proof (induction k arbitrary: p nn b)
  case (Suc k)
  show ?case
  proof (cases "bw_size b - length (bw_buf b) < length p \<and> bw_err b = None")
    case False
    with Suc.prems show ?thesis by (intro exI [of _ 0]) auto
  next
    case True
    have glue: "\<exists>j. q = drop j p \<and> mm = nn + j \<and> j \<le> length p \<and> all_bytes contents b' = all_bytes contents b @ take j p \<and> room_ok b' \<and>
        bw_size b' = bw_size b \<and> (bw_err b' = None \<longrightarrow> length q \<le> bw_size b' - length (bw_buf b'))"
      if r: "bufw_loop wr k (drop n p) (nn + n) c = Some (q, mm, b')" "room_ok c" "bw_size c = bw_size b" "n \<le> length p"
        "all_bytes contents c = all_bytes contents b @ take n p" for n c
    proof -
      from Suc.IH [OF r(1,2)] obtain j where "q = drop j (drop n p) \<and> mm = nn + n + j \<and> j \<le> length (drop n p) \<and>
        all_bytes contents b' = all_bytes contents c @ take j (drop n p) \<and> room_ok b' \<and> bw_size b' = bw_size c \<and>
        (bw_err b' = None \<longrightarrow> length q \<le> bw_size b' - length (bw_buf b'))" ..
      moreover have "take n p @ take j (drop n p) = take (n + j) p" "drop j (drop n p) = drop (n + j) p"
        by (simp_all only: take_add drop_drop add.commute [of j n])
      ultimately show ?thesis using r(3-5) by (intro exI [of _ "n + j"]) auto
    qed
    show ?thesis
    proof (cases "bw_buf b = []")
      case True': True
      obtain n e w where w: "wr p (bw_w b) = ((n, e), w)" by (metis prod.collapse)
      with True True' Suc.prems writer_okD [OF assms w] show ?thesis
        by (intro glue [of n "b\<lparr>bw_err := e, bw_w := w\<rparr>"]) (auto simp: room_ok_def all_bytes_def)
    next
      case False
      let ?n = "bw_size b - length (bw_buf b)" and ?b = "b\<lparr>bw_buf := bw_buf b @ take (bw_size b - length (bw_buf b)) p\<rparr>"
      obtain r c where f: "bufw_Flush wr ?b = (r, c)" by (cases "bufw_Flush wr ?b")
      note k = Flush_keeps [OF assms f]
      have "length (bw_buf c) \<le> bw_size b" using k(3) Suc.prems(2) by (auto simp: room_ok_def min_def split: if_splits)
      with True False Suc.prems f k show ?thesis
        by (intro glue [of ?n c]) (auto simp: room_ok_def all_bytes_def Let_def)
    qed
  qed
qed simp

lemma loop_full: "bw_err b \<noteq> None \<or> length p \<le> bw_size b - length (bw_buf b) \<Longrightarrow> bufw_loop wr (Suc k) p nn b = Some (p, nn, b)"
  by auto

lemma loop_empty:
  assumes "writer_ok wr contents" "bw_buf b = []"
  shows "\<exists>r. bufw_loop wr (Suc (Suc k)) p nn b = Some r"
proof -
  obtain n e w where w: "wr p (bw_w b) = ((n, e), w)" by (metis prod.collapse)
  have "bufw_loop wr (Suc k) (drop n p) (nn + n) (b\<lparr>bw_err := e, bw_w := w\<rparr>) = Some (drop n p, nn + n, b\<lparr>bw_err := e, bw_w := w\<rparr>)"
    using writer_okD [OF assms(1) w] by (intro loop_full) auto
  with assms(2) w show ?thesis by (simp del: bufw_loop.simps add: bufw_loop.simps(2) [of _ "Suc k"])
qed

lemma loop_returns:
  assumes "writer_ok wr contents"
  shows "\<exists>r. bufw_loop wr 3 p nn b = Some r"
proof (cases "bw_size b - length (bw_buf b) < length p \<and> bw_err b = None \<and> bw_buf b \<noteq> []")
  case True
  let ?n = "bw_size b - length (bw_buf b)" and ?b = "b\<lparr>bw_buf := bw_buf b @ take (bw_size b - length (bw_buf b)) p\<rparr>"
  obtain r c where f: "bufw_Flush wr ?b = (r, c)" by (cases "bufw_Flush wr ?b")
  have "\<exists>r. bufw_loop wr (Suc (Suc 0)) (drop ?n p) (nn + ?n) c = Some r"
  proof (cases "bw_err c")
    case None
    then show ?thesis by (intro loop_empty [OF assms] Flush_keeps(4) [OF assms f])
  next
    case (Some e)
    then show ?thesis using loop_full [of c "drop ?n p" wr "Suc 0" "nn + ?n"] by simp
  qed
  with True f show ?thesis by (simp del: bufw_loop.simps add: bufw_loop.simps(2) [of _ "Suc (Suc 0)"] numeral_3_eq_3 Let_def)
next
  case False
  then show ?thesis using loop_empty [OF assms, of b "Suc 0" p nn] loop_full [of b p wr "Suc (Suc 0)" nn]
    by (auto simp: numeral_3_eq_3 simp del: bufw_loop.simps)
qed

lemma Write_keeps:
  assumes "writer_ok wr contents" "room_ok b"
  obtains n e b' where "bufw_Write wr p b = Some ((n, e), b')" "n \<le> length p" "e = None \<Longrightarrow> n = length p"
    "all_bytes contents b' = all_bytes contents b @ take n p" "room_ok b'" "bw_size b' = bw_size b"
proof -
  obtain q nn b' where l: "bufw_loop wr 3 p 0 b = Some (q, nn, b')" using loop_returns [OF assms(1)] by (metis prod.collapse)
  from loop_keeps [OF assms(1) l assms(2)] obtain j where j: "q = drop j p" "nn = j" "j \<le> length p"
    "all_bytes contents b' = all_bytes contents b @ take j p" "room_ok b'" "bw_size b' = bw_size b"
    "bw_err b' = None \<longrightarrow> length q \<le> bw_size b' - length (bw_buf b')" by auto
  show thesis
  proof (cases "bw_err b'")
    case None
    let ?c = "b'\<lparr>bw_buf := bw_buf b' @ q\<rparr>"
    have "all_bytes contents ?c = all_bytes contents b' @ q" by (simp add: all_bytes_def)
    with j(1,4) have "all_bytes contents ?c = all_bytes contents b @ take (length p) p" by simp
    moreover have "room_ok ?c" using j(5,7) None by (auto simp: room_ok_def)
    moreover have "bufw_Write wr p b = Some ((length p, None), ?c)"
      using None l j(1-3) by (simp add: bufw_Write_def del: bufw_loop.simps)
    ultimately show thesis using j(6) by (intro that [of "length p" None ?c]) simp_all
  next
    case (Some e)
    with l j show thesis by (intro that [of j "Some e" b']) (auto simp: bufw_Write_def simp del: bufw_loop.simps)
  qed
qed

section \<open>Runs\<close>

text \<open>
  Of the bytes accepted so far, what is not in the writer below is in the buffer; between its write and its reset a \<open>Flush\<close> has
  written what the buffer still shows. There is at most one \<open>Flush\<close>, and then the timer is not set.
\<close>

definition flushing_bytes :: "('w \<Rightarrow> bytes) \<Rightarrow> 'w AutoFlushBufferWriter \<Rightarrow> bytes \<Rightarrow> bool" where
  "flushing_bytes contents a xs \<longleftrightarrow>
     (let b = af_Writer a
      in case af_flushes a of
           [] \<Rightarrow> all_bytes contents b = xs
         | [FBegin] \<Rightarrow> af_armed a = None \<and> all_bytes contents b = xs
         | [FCheck n e] \<Rightarrow> af_armed a = None \<and> contents (bw_w b) @ drop n (bw_buf b) = xs \<and> (n < length (bw_buf b) \<longrightarrow> e \<noteq> None)
         | [FReset] \<Rightarrow> af_armed a = None \<and> contents (bw_w b) = xs
         | _ \<Rightarrow> False)"

lemma one_flush:
  assumes "flushing_bytes contents a xs" "af_flushes a \<noteq> []"
  obtains f where "af_flushes a = [f]" "af_armed a = None"
  using assms by (cases "af_flushes a"; cases "tl (af_flushes a)"; cases "hd (af_flushes a)") (auto simp: flushing_bytes_def Let_def)

lemma flush_step_keeps:
  assumes "writer_ok wr contents" "flushing_bytes contents a xs" "room_ok (af_Writer a)" "flush_step wr i a = Some a'"
  shows "flushing_bytes contents a' xs \<and> room_ok (af_Writer a')"
proof -
  have l: "i < length (af_flushes a)" using assms(4) by (auto simp: flush_step_def Let_def split: if_splits)
  then have "af_flushes a \<noteq> []" by auto
  then obtain f where f: "af_flushes a = [f]" "af_armed a = None" by (rule one_flush [OF assms(2)])
  with l have i: "i = 0" by simp
  show ?thesis
  proof (cases f)
    case FBegin
    obtain n e w where w: "wr (bw_buf (af_Writer a)) (bw_w (af_Writer a)) = ((n, e), w)" by (metis prod.collapse)
    have "contents w @ drop n (bw_buf (af_Writer a)) = all_bytes contents (af_Writer a)"
      using writer_okD [OF assms(1) w] by (simp add: all_bytes_def)
    with assms f i FBegin w writer_okD [OF assms(1) w] show ?thesis
      by (auto simp: flush_step_def flush_ends_def flushing_bytes_def room_ok_def Let_def split: if_splits)
  next
    case (FCheck n e)
    with assms f i show ?thesis
      by (auto simp: flush_step_def flush_ends_def flush_check_def flush_failed_def flushing_bytes_def all_bytes_def room_ok_def Let_def
          split: option.splits if_splits)
  next
    case FReset
    with assms f i show ?thesis
      by (auto simp: flush_step_def flush_ends_def flush_reset_def flushing_bytes_def all_bytes_def room_ok_def Let_def)
  qed
qed

lemma fires_keeps:
  assumes "flushing_bytes contents a xs" "timer_fires a = Some a'"
  shows "flushing_bytes contents a' xs \<and> af_Writer a' = af_Writer a"
proof -
  from assms(2) have "af_armed a \<noteq> None" by (auto simp: timer_fires_def split: option.splits)
  with assms(1) have "af_flushes a = []" using one_flush by metis
  with assms show ?thesis by (auto simp: timer_fires_def flushing_bytes_def split: option.splits)
qed

lemma AutoFlush_Write_keeps:
  assumes "writer_ok wr contents" "room_ok (af_Writer a)"
  obtains n e a' where "AutoFlush_Write wr p a = Some ((n, e), a')" "n \<le> length p" "e = None \<Longrightarrow> n = length p"
    "all_bytes contents (af_Writer a') = all_bytes contents (af_Writer a) @ take n p" "room_ok (af_Writer a')"
    "af_armed a' = Some (af_period a)" "af_flushes a' = af_flushes a" "af_period a' = af_period a"
proof -
  obtain n e b where "bufw_Write wr p (af_Writer a) = Some ((n, e), b)" "n \<le> length p" "e = None \<Longrightarrow> n = length p"
    "all_bytes contents b = all_bytes contents (af_Writer a) @ take n p" "room_ok b"
    using Write_keeps [OF assms] by metis
  then show thesis by (intro that [of n e "a\<lparr>af_Writer := b, af_armed := Some (af_period a)\<rparr>"]) (simp_all add: AutoFlush_Write_def)
qed

lemma calm_run:
  assumes "writer_ok wr contents"
  shows "arun wr evs a = Some (ys, a') \<Longrightarrow> calm wr evs a \<Longrightarrow> flushing_bytes contents a xs \<Longrightarrow> room_ok (af_Writer a) \<Longrightarrow>
    flushing_bytes contents a' (xs @ ys) \<and> room_ok (af_Writer a')"
proof (induction evs arbitrary: a xs ys)
  case (Cons ev evs)
  from Cons.prems(1) obtain zs a1 us where s: "aevent_step wr ev a = Some (zs, a1)" "arun wr evs a1 = Some (us, a')" "ys = zs @ us"
    by (auto split: option.splits)
  have c: "calm wr evs a1" using Cons.prems(2) s(1) by simp
  have "flushing_bytes contents a1 (xs @ zs) \<and> room_ok (af_Writer a1)"
  proof (cases ev)
    case (EWrite p)
    with Cons.prems(2) have f: "af_flushes a = []" by simp
    obtain n e b where w: "AutoFlush_Write wr p a = Some ((n, e), b)" "all_bytes contents (af_Writer b) = all_bytes contents (af_Writer a) @ take n p"
        "room_ok (af_Writer b)" "af_flushes b = af_flushes a"
      using AutoFlush_Write_keeps [OF assms Cons.prems(4)] by metis
    with s(1) EWrite have "zs = take n p" "a1 = b" by (simp_all add: aevent_step_def)
    with w f Cons.prems(3) show ?thesis by (simp add: flushing_bytes_def Let_def)
  next
    case EFire
    with s(1) have "timer_fires a = Some a1" "zs = []" by (simp_all add: aevent_step_def)
    with fires_keeps [OF Cons.prems(3)] Cons.prems(4) show ?thesis by simp
  next
    case (EFlush i)
    with s(1) have "flush_step wr i a = Some a1" "zs = []" by (simp_all add: aevent_step_def)
    with flush_step_keeps [OF assms Cons.prems(3,4)] show ?thesis by simp
  qed
  with Cons.IH [OF s(2) c, of "xs @ zs"] s(3) show ?case by simp
qed simp

section \<open>Properties\<close>

text \<open>
  C38: When no write is called while the timer's \<open>Flush\<close> runs: nothing that a write has accepted is lost, repeated or
  moved, even if the writer below fails; once no \<open>Flush\<close> is in progress all of it is in the writer below, followed by what the buffer
  holds. A write returns, accepts all of its bytes or returns an error, and leaves the timer set to the period.
\<close>

theorem calm_writes_kept:
  assumes "writer_ok wr contents" and "room_ok b" and "arun wr evs (NewAutoFlushBufferWriterWithPeriod b period) = Some (ys, a)"
    and "calm wr evs (NewAutoFlushBufferWriterWithPeriod b period)" and "af_flushes a = []"
  shows "all_bytes contents (af_Writer a) = all_bytes contents b @ ys \<and>
    (\<exists>n e a'. AutoFlush_Write wr p a = Some ((n, e), a') \<and> n \<le> length p \<and> (e = None \<longrightarrow> n = length p) \<and>
       all_bytes contents (af_Writer a') = all_bytes contents b @ ys @ take n p \<and> af_armed a' = Some (af_period a))"
proof -
  have "flushing_bytes contents (NewAutoFlushBufferWriterWithPeriod b period) (all_bytes contents b)"
    "room_ok (af_Writer (NewAutoFlushBufferWriterWithPeriod b period))"
    using assms(2) by (simp_all add: NewAutoFlushBufferWriterWithPeriod_def flushing_bytes_def)
  from calm_run [OF assms(1,3,4) this] assms(5)
  have k: "all_bytes contents (af_Writer a) = all_bytes contents b @ ys" "room_ok (af_Writer a)" by (simp_all add: flushing_bytes_def)
  obtain n e a' where "AutoFlush_Write wr p a = Some ((n, e), a')" "n \<le> length p" "e = None \<Longrightarrow> n = length p"
    "all_bytes contents (af_Writer a') = all_bytes contents (af_Writer a) @ take n p" "af_armed a' = Some (af_period a)"
    by (rule AutoFlush_Write_keeps [OF assms(1) k(2)]) blast
  with k(1) show ?thesis by auto
qed

definition list_sink :: "bytes sink" where
  "list_sink p w = ((length p, None), w @ p)"

definition small_writer :: "bytes bufw" where
  "small_writer = \<lparr>bw_buf = [], bw_size = 4, bw_err = None, bw_w = []\<rparr>"

lemma list_sink_ok: "writer_ok list_sink (\<lambda>w. w)"
  by (simp add: writer_ok_def list_sink_def)

lemmas writer_eval = NewAutoFlushBufferWriter_def NewAutoFlushBufferWriterWithPeriod_def defaultFlushPeriod_def aevent_step_def AutoFlush_Write_def
  bufw_Write_def numeral_3_eq_3 timer_fires_def flush_step_def flush_ends_def flush_check_def flush_failed_def flush_reset_def bufw_Flush_def
  list_sink_def small_writer_def

theorem calm_writes_kept_witness:
  "\<exists>a. arun list_sink [EWrite [1, 2], EFire, EFlush 0, EFlush 0, EFlush 0, EWrite [3]] (NewAutoFlushBufferWriterWithPeriod small_writer 5) =
      Some ([1, 2, 3], a) \<and> all_bytes (\<lambda>w. w) (af_Writer a) = [1, 2, 3]"
proof -
  let ?evs = "[EWrite [1, 2], EFire, EFlush 0, EFlush 0, EFlush 0, EWrite [3]]" and ?a = "NewAutoFlushBufferWriterWithPeriod small_writer 5"
  have "\<exists>a. arun list_sink ?evs ?a = Some ([1, 2, 3], a) \<and> af_flushes a = []" "calm list_sink ?evs ?a"
    by (simp_all add: writer_eval)
  then obtain a where "arun list_sink ?evs ?a = Some ([1, 2, 3], a)" "af_flushes a = []" "calm list_sink ?evs ?a" by blast
  moreover have "room_ok small_writer" "all_bytes (\<lambda>w. w) small_writer = []" by (simp_all add: room_ok_def all_bytes_def small_writer_def)
  ultimately show ?thesis using calm_writes_kept [OF list_sink_ok, of small_writer ?evs 5 "[1, 2, 3]" a] by auto
qed

text \<open>
  A write while the timer's \<open>Flush\<close> runs can lose what it was given: it returns its count and no error, and afterwards the bytes are
  neither in the buffer nor in the writer below.
\<close>

theorem concurrent_flush_loses_bytes:
  "\<exists>a. arun list_sink [EWrite [1, 2], EFire, EFlush 0, EFlush 0, EWrite [3], EFlush 0] (NewAutoFlushBufferWriter small_writer 5) =
      Some ([1, 2, 3], a) \<and> af_flushes a = [] \<and> bw_err (af_Writer a) = None \<and> all_bytes (\<lambda>w. w) (af_Writer a) = [1, 2]"
  by (simp add: writer_eval all_bytes_def)

end
