(* ===== verification/Spec2Isabelle.thy ===== *)
theory Spec2Isabelle
  imports Ids Wire Addresses Transports Socket_Properties Channels Pipe_Properties Dialers Connector_Table Inproc_Properties Pairs Switches
    Net_Listeners Ws_Listeners Sync_Pipes Timers Option_Access Traffic Buffered_Writer
begin

text \<open>
  Verification of multisocket, a Go library for message sockets over many connections.

  \<^bold>\<open>The program.\<close> An application owns a socket (\<open>socket.go\<close>). The socket owns a connector (\<open>connector/\<close>), which dials
  and listens through transports and turns every connection into a pipe with an identifier that is unique in the
  process (\<open>utils/id.go\<close>). The connector reports pipes to the socket, which runs a sender and a receiver goroutine for
  each. Messages (\<open>message/\<close>) carry the path they came by and, for replies, the path they still have to go; their
  buffers come from size classes of pools (\<open>bytespool/\<close>). Every part is configured by typed options (\<open>options/\<close>), which
  can be given in addresses (\<open>address/\<close>). The transports under \<open>transport/inproc\<close> connect sockets of one process.

  \<^bold>\<open>Theories and sources.\<close>
  \<^item> \<open>Prelude\<close>: machine integers, errors, outcomes of calls (a value, an error or a panic), Go slices and \<open>copy\<close>,
    big-endian numbers, Go channels, and the list lemmas the rest shares.
  \<^item> \<open>Ids\<close>: \<open>utils/id.go\<close>. The search loop is a partial function, since the source does not bound it.
  \<^item> \<open>Bytespool\<close>: \<open>bytespool/bytespool.go\<close>, arrays by identity, so that aliasing can be stated.
  \<^item> \<open>Messages\<close>, \<open>Wire\<close>: \<open>message/message.go\<close>, header codec, the four ways to build a message, encoding, copies.
  \<^item> \<open>Option_Values\<close>, \<open>Option_Sets\<close>, \<open>Option_Registry\<close>: \<open>options/options.go\<close> and the tables in \<open>options.go\<close>,
    \<open>connector/options.go\<close> and \<open>transport/inproc/channel/options.go\<close>.
  \<^item> \<open>Transports\<close>: \<open>transport/transport.go\<close>, \<open>types.go\<close>, \<open>conn.go\<close>. \<open>Addresses\<close>: \<open>address/address.go\<close>.
  \<^item> \<open>Sockets\<close>: \<open>socket.go\<close> as a state with one record per goroutine and a step for each stretch between blocking
    operations. \<open>Socket_Routing\<close>, \<open>Socket_Memory\<close>, \<open>Socket_Properties\<close> have its invariants.
  \<^item> \<open>Streams\<close>: \<open>io.ReadFull\<close> and \<open>io.CopyN\<close> over any reader, and the interface \<open>byte_pipe\<close>: a reader that delivers
    the bytes of a list in pieces of any size behaves for \<open>NewMessageFromReader\<close> like the list.
  \<^item> \<open>Channels\<close>: \<open>transport/inproc/channel/\<close>, the three kinds of channel pipes, which provide that interface.
  \<^item> \<open>Pipes\<close>, \<open>Pipe_Properties\<close>: \<open>connector/pipe.go\<close>, with the connection as an argument, and its behaviour over channels.
  \<^item> \<open>Dialers\<close>: \<open>connector/dialer.go\<close>, goroutines and timers of one dialer in any interleaving.
  \<^item> \<open>Connectors\<close>, \<open>Connector_Properties\<close>, \<open>Connector_Table\<close>: \<open>connector/connector.go\<close> and \<open>connector/listener.go\<close>, a
    step for each section under a lock; what calls have still to do is a list of tasks.
  \<^item> \<open>Inproc\<close>, \<open>Inproc_Properties\<close>: \<open>transport/inproc/inproc.go\<close>, calls in progress as records with program counters.
  \<^item> \<open>Pairs\<close>: \<open>pair.go\<close>, calls of two joined sockets that wait for each other. \<open>Switches\<close>: \<open>switch.go\<close>, two goroutines that
    forward between two sockets.
  \<^item> \<open>Net_Listeners\<close>: \<open>transport/tcp\<close> and \<open>transport/ipc\<close> for Unix, with the interface \<open>net_listener\<close> both provide.
  \<^item> \<open>Websockets\<close>, \<open>Ws_Listeners\<close>: \<open>transport/ws\<close>. A websocket provides the stream interface of \<open>Streams\<close>; the listener and its
    handlers run in any interleaving.
  \<^item> \<open>Sync_Pipes\<close>: \<open>transport/inproc/iopipe\<close> and \<open>netpipe\<close>, the pipes without buffer of the standard library, which provide the stream
    interface too. \<open>Timers\<close>: \<open>utils/time.go\<close>. \<open>Buffered_Writer\<close>: \<open>utils/bufio.go\<close>, with the goroutine its timer starts.
  \<^item> \<open>Option_Access\<close>: the typed readers of \<open>options/options.go\<close>.
  \<^item> \<open>Links\<close>: two sockets, their pipes and the channel between them as one state with one memory; the sockets' steps are those of
    \<open>Sockets\<close>, and every call into the joined pipe is answered by \<open>Pipes\<close> over \<open>Channels\<close>. The interface \<open>handover\<close> says what
    such a channel does with buffers; the channels that hand over messages and packets provide it. \<open>Traffic\<close>: the interface
    \<open>conveyor\<close>, what a channel does with messages, and the way of messages from one application to the other.

  \<^bold>\<open>What is shown.\<close> Messages survive encoding, every way of reading them back and the trip through a pair of pipes;
  replies travel the reverse path; malformed packets are rejected except for one class that makes the code panic. Buffers and
  identifiers in use are never shared, in the pools, through every interleaving of a socket, and between two sockets that hand their
  buffers over. Between two such sockets that stay open messages arrive in order and once, and all of them arrive. Routing delivers to the
  addressed pipe or to a copy for each; nothing is stuck after a close. Stream pipes refine reading from the bytes
  still to come. The connector keeps its limit, stops and starts dialers and listeners with it, never
  confuses or loses pipes; dials of one dialer exclude each other and go on until it is closed. In-process connections join one
  dial with one accept; what one side of a pair sends the other receives once; a switch forwards in order until a send fails. Pipes without a buffer hand over what is written, in order.
  Websockets carry streams and packets of messages, and each is accepted or closed once; listening on a path
  deletes no file but an old socket there. Options have
  the types their readers assert, the last setting wins, names parse back to options. Where the code does not do what it
  means to, a theorem states what it does instead.

  \<^bold>\<open>Bounds and fuel.\<close> Lookups through option sets follow references to older sets only, so the address of a set is enough
  fuel (\<open>heap_ok\<close>). \<open>read_min\<close> is given as many rounds as bytes are wanted, and each round of the readers considered
  delivers one at least. Three rounds are enough for the loop of \<open>bufio.Writer\<close> (\<open>loop_returns\<close>). How much two joined sockets have still to
  do is the measure \<open>work\<close>. Reading from a channel pipe terminates by a measure on the slices that are queued. Loops over
  queues and goroutines are runs of step relations, of any length.

  \<^bold>\<open>Parameters.\<close> The choices of \<open>sync.Pool\<close>, of \<open>select\<close>, of the iteration order of maps and of the scheduler are arguments
  or nondeterminism of the steps; so are the random factor of the backoff, results of transports that are not modelled,
  the negotiator, \<open>url.Parse\<close> and \<open>net.ResolveTCPAddr\<close>, the operating system below the TCP and Unix listeners (\<open>netlib\<close>) and
  gorilla/websocket (\<open>wslib\<close>). What is assumed of the last is \<open>reads_messages\<close> and \<open>writes_messages\<close>, its documented behaviour.

  \<^bold>\<open>Two sockets.\<close> A message handed to a channel is the receiver's at that moment; that the sender then frees no more than the struct
  of it, or nothing, is part of the same step of \<open>net_step\<close>. An error of \<open>SendMsg\<close> comes back in a later step. The connector is
  represented by what it does to a pipe and its socket: it reports the pipe, may close it at any time, and reports that.

  \<^bold>\<open>Not modelled.\<close> The named pipes of Windows, whose file does not compile; deadlines; logging; benchmark and test programs;
  files that only register a transport.
\<close>

end
